(* ===== verification/Prelude.thy ===== *)
theory Prelude
  imports Main "HOL-Library.Word" "HOL-Library.Multiset" "HOL-Library.Product_Lexorder"
begin

text \<open>
  Shared ground of the development: the machine types of the C++ sources, the exchange of
  two array slots, the ``overwrite with the last element, then pop'' removal that the
  library uses on its unordered vectors, and the rewrite collections the component
  theories extend.
\<close>

named_theorems list_facts \<open>lists, slots and multisets\<close>
named_theorems word_facts \<open>wrap-around arithmetic\<close>

type_synonym u8 = "8 word"
type_synonym u32 = "32 word"
type_synonym u64 = "64 word"

subsection \<open>Exchanging two slots\<close>

text \<open>\<^verbatim>\<open>std::swap(a[i], a[j])\<close> on the elements of an array.\<close>

definition swap_slots :: "'a list \<Rightarrow> nat \<Rightarrow> nat \<Rightarrow> 'a list" where
  "swap_slots xs i j = xs[i := xs ! j, j := xs ! i]"

lemma length_swap_slots [simp, list_facts]: "length (swap_slots xs i j) = length xs"
  by (simp add: swap_slots_def)

lemma nth_swap_slots [list_facts]:
  "i < length xs \<Longrightarrow> j < length xs \<Longrightarrow> k < length xs \<Longrightarrow>
    swap_slots xs i j ! k = (if k = i then xs ! j else if k = j then xs ! i else xs ! k)"
  by (auto simp: swap_slots_def nth_list_update)

lemma mset_swap_slots [simp, list_facts]:
  "i < length xs \<Longrightarrow> j < length xs \<Longrightarrow> mset (swap_slots xs i j) = mset xs"
  by (simp add: swap_slots_def mset_swap)

lemma set_swap_slots [simp, list_facts]:
  "i < length xs \<Longrightarrow> j < length xs \<Longrightarrow> set (swap_slots xs i j) = set xs"
  by (metis mset_swap_slots set_mset_mset)

subsection \<open>Removal by moving the last element\<close>

text \<open>
  \<^verbatim>\<open>for (auto& x : v) { if (x == a) { x = v.back(); v.pop_back(); break; } }\<close>
  removes the first occurrence of an element without keeping the order of the rest.
\<close>

fun index_of :: "'a \<Rightarrow> 'a list \<Rightarrow> nat option" where
  "index_of a [] = None"
| "index_of a (x # xs) = (if x = a then Some 0 else map_option Suc (index_of a xs))"

definition remove_swap :: "'a \<Rightarrow> 'a list \<Rightarrow> 'a list" where
  "remove_swap a xs =
     (case index_of a xs of
        None \<Rightarrow> xs
      | Some i \<Rightarrow> butlast (xs[i := last xs]))"

lemma index_of_None: "index_of a xs = None \<longleftrightarrow> a \<notin> set xs"
  by (induction xs) auto

lemma index_of_Some: "index_of a xs = Some i \<Longrightarrow> i < length xs \<and> xs ! i = a"
  by (induction xs arbitrary: i) (auto split: if_splits)

lemma mset_butlast: "xs \<noteq> [] \<Longrightarrow> mset (butlast xs) = mset xs - {#last xs#}"
  by (induction xs rule: rev_induct) auto

lemma mset_butlast_update_last:
  assumes "i < length xs"
  shows "mset (butlast (xs[i := last xs])) = mset xs - {#xs ! i#}"
proof -
  have ne: "xs[i := last xs] \<noteq> []" using assms by auto
  have last: "last (xs[i := last xs]) = last xs"
    using assms by (cases "xs = []") (auto simp: last_list_update)
  have "mset (butlast (xs[i := last xs])) = mset (xs[i := last xs]) - {#last xs#}"
    using mset_butlast [OF ne] last by simp
  also have "\<dots> = mset xs - {#xs ! i#}"
    using assms by (simp add: mset_update)
  finally show ?thesis .
qed

lemma mset_remove_swap [list_facts]: "mset (remove_swap a xs) = mset xs - {#a#}"
proof (cases "index_of a xs")
  case None
  then have "a \<notin> set xs" by (simp add: index_of_None)
  with None show ?thesis
    by (simp add: remove_swap_def diff_single_trivial)
next
  case (Some i)
  with index_of_Some [OF Some] show ?thesis
    by (simp add: remove_swap_def mset_butlast_update_last)
qed

lemma count_list_remove_swap [list_facts]:
  "count_list (remove_swap a xs) b = count_list xs b - (if a = b then 1 else 0)"
proof -
  have "count (mset (remove_swap a xs)) b = count (mset xs - {#a#}) b"
    by (simp add: mset_remove_swap)
  then show ?thesis by (simp add: count_mset)
qed

lemma set_remove_swap: "set (remove_swap a xs) \<subseteq> set xs"
  by (metis in_diffD mset_remove_swap set_mset_mset subsetI)

lemma remove_swap_notin [simp]: "a \<notin> set xs \<Longrightarrow> remove_swap a xs = xs"
  using index_of_None [of a xs] by (simp add: remove_swap_def)

lemma length_remove_swap:
  "length (remove_swap a xs) = length xs - (if a \<in> set xs then 1 else 0)"
proof -
  have "size (mset (remove_swap a xs)) = size (mset xs - {#a#})"
    by (simp add: mset_remove_swap)
  then show ?thesis by (simp add: size_Diff_singleton_if)
qed

lemma distinct_subseteq_mset:
  assumes "mset ys \<subseteq># mset xs" "distinct xs"
  shows "distinct ys"
proof -
  have "count (mset ys) a = (if a \<in> set ys then 1 else 0)" for a
  proof -
    have "count (mset xs) a \<le> 1"
      using assms(2) unfolding distinct_count_atmost_1 by (metis order_refl zero_le_one)
    with mset_subset_eq_count [OF assms(1), of a] have "count (mset ys) a \<le> 1"
      by (rule le_trans)
    then show ?thesis by (auto simp: le_Suc_eq)
  qed
  then show ?thesis by (simp add: distinct_count_atmost_1)
qed

subsection \<open>Popping a queue repeatedly\<close>

primrec pop_n :: "('q \<Rightarrow> 'q \<times> 'e) \<Rightarrow> nat \<Rightarrow> 'q \<Rightarrow> 'e list" where
  "pop_n pop 0 q = []"
| "pop_n pop (Suc n) q = (let (q', e) = pop q in e # pop_n pop n q')"

text \<open>
  What a user of a priority queue relies on: popping removes a least element with respect to
  a key that pops do not change. The consequence every user draws from it is that popping
  everything yields the contents in key order.
\<close>

locale timed_queue =
  fixes inv :: "'q \<Rightarrow> bool"
    and contents :: "'q \<Rightarrow> 'e multiset"
    and pop :: "'q \<Rightarrow> 'q \<times> 'e"
    and key :: "'q \<Rightarrow> 'e \<Rightarrow> 'k::linorder"
  assumes inv_pop: "inv q \<Longrightarrow> contents q \<noteq> {#} \<Longrightarrow> inv (fst (pop q))"
    and contents_pop: "inv q \<Longrightarrow> contents q \<noteq> {#} \<Longrightarrow>
      add_mset (snd (pop q)) (contents (fst (pop q))) = contents q"
    and pop_least: "inv q \<Longrightarrow> e \<in># contents q \<Longrightarrow> key q (snd (pop q)) \<le> key q e"
    and key_pop: "key (fst (pop q)) = key q"
begin

lemma pop_n_sorted:
  "inv q \<Longrightarrow> size (contents q) = n \<Longrightarrow>
    sorted (map (key q) (pop_n pop n q)) \<and> mset (pop_n pop n q) = contents q"
proof (induction n arbitrary: q)
  case (Suc n)
  then have ne: "contents q \<noteq> {#}" by auto
  obtain q' e where pop: "pop q = (q', e)" by force
  have c: "add_mset e (contents q') = contents q" and i: "inv q'" and k: "key q' = key q"
    using contents_pop [OF Suc.prems(1) ne] inv_pop [OF Suc.prems(1) ne] key_pop [of q]
    by (simp_all add: pop)
  have "size (contents q') = n" using arg_cong [OF c, of size] Suc.prems(2) by simp
  from Suc.IH [OF i this] have IH: "sorted (map (key q) (pop_n pop n q'))"
    and ms: "mset (pop_n pop n q') = contents q'" by (simp_all add: k)
  have "\<forall>x\<in>set (pop_n pop n q'). key q e \<le> key q x"
    using pop_least [OF Suc.prems(1)] c ms by (metis pop snd_conv set_mset_mset union_single_eq_member
        insert_iff set_mset_add_mset_insert)
  with IH ms c show ?case by (simp add: pop)
qed simp

end

subsection \<open>The sign bit of a word\<close>

lemma word_half: "(2::nat) ^ LENGTH('a::len) = 2 * 2 ^ (LENGTH('a) - Suc 0)"
  by (simp flip: power_Suc)

lemma unat_half_bit:
  fixes w :: "'a::len word"
  shows "bit w (LENGTH('a) - Suc 0) \<longleftrightarrow> 2 ^ (LENGTH('a) - Suc 0) \<le> unat w"
proof -
  define n where "n = LENGTH('a) - Suc 0"
  have bound: "unat w < 2 * 2 ^ n"
    using unsigned_less [of w] by (simp add: n_def flip: word_half)
  have "bit w n \<longleftrightarrow> bit (unat w) n"
    by (simp add: bit_unsigned_iff)
  also have "\<dots> \<longleftrightarrow> odd (unat w div 2 ^ n)"
    by (simp add: bit_iff_odd)
  also have "\<dots> \<longleftrightarrow> 2 ^ n \<le> unat w"
  proof -
    have "unat w div 2 ^ n < 2" using bound by (simp add: less_mult_imp_div_less)
    then have "odd (unat w div 2 ^ n) \<longleftrightarrow> unat w div 2 ^ n \<noteq> 0"
      by (auto simp: less_2_cases_iff)
    also have "\<dots> \<longleftrightarrow> 2 ^ n \<le> unat w" by (simp add: div_eq_0_iff not_less)
    finally show ?thesis .
  qed
  finally show ?thesis by (simp add: n_def)
qed

lemma sint_neg_iff: "sint (w::'a::len word) < 0 \<longleftrightarrow> 2 ^ (LENGTH('a) - Suc 0) \<le> unat w"
  by (simp add: unat_half_bit flip: bit_last_iff)

lemma unat_diff_cases:
  fixes x y :: "'a::len word"
  shows "unat (x - y) = (if unat y \<le> unat x then unat x - unat y
                         else 2 ^ LENGTH('a) + unat x - unat y)"
  using unat_sub_if_size [of x y] by (simp add: word_size add.commute)

lemma unat_minus_cases:
  "unat (- d :: 'a::len word) = (if d = 0 then 0 else 2 ^ LENGTH('a) - unat d)"
  using unat_diff_cases [of 0 d] by (simp add: unat_eq_zero)

end
