(* ===== verification/CircularInt.thy ===== *)
theory CircularInt
  imports Prelude
begin

text \<open>
  \<^verbatim>\<open>cotamer/circular_int.hh\<close>: integers that wrap around and are compared by the sign of
  their distance. The width is a type parameter, as in the template; the timer heap uses
  the 32-bit instance for its insertion numbers.
\<close>

datatype strong_ordering = Less | Equal | Greater

text \<open>\<^verbatim>\<open>operator++\<close> and \<^verbatim>\<open>operator--\<close>: the new object and the value of the expression.\<close>

definition ci_pre_incr :: "'a::len word \<Rightarrow> 'a word \<times> 'a word" where
  "ci_pre_incr v = (let v = v + 1 in (v, v))"

definition ci_post_incr :: "'a::len word \<Rightarrow> 'a word \<times> 'a word" where
  "ci_post_incr v = (let v = v + 1 in (v, v - 1))"

definition ci_pre_decr :: "'a::len word \<Rightarrow> 'a word \<times> 'a word" where
  "ci_pre_decr v = (let v = v - 1 in (v, v))"

definition ci_post_decr :: "'a::len word \<Rightarrow> 'a word \<times> 'a word" where
  "ci_post_decr v = (let v = v - 1 in (v, v + 1))"

text \<open>
  The overloads of \<^verbatim>\<open>+\<close>, \<^verbatim>\<open>-\<close>, \<^verbatim>\<open>+=\<close> and \<^verbatim>\<open>-=\<close> take any integer type; the operand is
  reduced to the width.
\<close>

definition ci_add :: "'a::len word \<Rightarrow> int \<Rightarrow> 'a word" where
  "ci_add v x = v + word_of_int x"

definition ci_sub :: "'a::len word \<Rightarrow> int \<Rightarrow> 'a word" where
  "ci_sub v x = v - word_of_int x"

text \<open>The assignment forms give the new object; conversions read the value.\<close>

definition ci_plus_assign :: "'a::len word \<Rightarrow> int \<Rightarrow> 'a word" where
  "ci_plus_assign v x = (let v = v + word_of_int x in v)"

definition ci_minus_assign :: "'a::len word \<Rightarrow> int \<Rightarrow> 'a word" where
  "ci_minus_assign v x = (let v = v - word_of_int x in v)"

definition ci_bool :: "'a::len word \<Rightarrow> bool" where
  "ci_bool v \<longleftrightarrow> v \<noteq> 0"

definition ci_not :: "'a::len word \<Rightarrow> bool" where
  "ci_not v \<longleftrightarrow> v = 0"

definition ci_diff :: "'a::len word \<Rightarrow> 'a word \<Rightarrow> int" where
  "ci_diff v x = sint (v - x)"

definition next_nonzero :: "'a::len word \<Rightarrow> 'a word" where
  "next_nonzero x = (let x = x + 1 in x + (if x = 0 then 1 else 0))"

definition ci_compare :: "'a::len word \<Rightarrow> 'a word \<Rightarrow> strong_ordering" where
  "ci_compare v x =
     (if v = x then Equal
      else if sint (v - x) < 0 then Less
      else Greater)"

definition ci_less :: "'a::len word \<Rightarrow> 'a word \<Rightarrow> bool" where
  "ci_less a b \<longleftrightarrow> sint (a - b) < 0"

definition ci_less_equal :: "'a::len word \<Rightarrow> 'a word \<Rightarrow> bool" where
  "ci_less_equal a b \<longleftrightarrow> sint (a - b) \<le> 0"

subsection \<open>The order inside a window of half the range\<close>

lemma ci_less_unat:
  fixes a b :: "'a::len word"
  shows "ci_less a b \<longleftrightarrow> 2 ^ (LENGTH('a) - Suc 0) \<le> unat (a - b)"
  by (simp add: ci_less_def sint_neg_iff)

lemma ci_less_window:
  fixes a b c :: "'a::len word"
  assumes "unat (a - c) < 2 ^ (LENGTH('a) - Suc 0)" and "unat (b - c) < 2 ^ (LENGTH('a) - Suc 0)"
  shows "ci_less a b \<longleftrightarrow> unat (a - c) < unat (b - c)"
proof -
  have "a - b = (a - c) - (b - c)" by simp
  with assms show ?thesis
    using unat_diff_cases [of "a - c" "b - c"] word_half [where 'a = 'a]
    by (auto simp: ci_less_unat split: if_splits)
qed

lemma ci_compare_less: "ci_compare a b = Less \<longleftrightarrow> ci_less a b"
  by (auto simp: ci_compare_def ci_less_def)

lemma ci_less_irrefl [simp]: "\<not> ci_less a a"
  by (simp add: ci_less_def)

lemma ci_less_ahead:
  fixes a :: "'a::len word"
  assumes "0 < k" and "k \<le> 2 ^ (LENGTH('a) - Suc 0)"
  shows "ci_less a (a + of_nat k)"
proof -
  have "k < 2 ^ LENGTH('a)"
    using assms word_half [where 'a = 'a] by (simp add: le_less_trans)
  then have k: "unat (of_nat k :: 'a word) = k"
    by (simp add: unat_of_nat)
  then have "(of_nat k :: 'a word) \<noteq> 0" using assms by auto
  then have "unat (- (of_nat k :: 'a word)) = 2 ^ LENGTH('a) - k"
    by (simp add: unat_minus_cases k)
  then show ?thesis
    using assms word_half [where 'a = 'a] by (simp add: ci_less_unat)
qed

text \<open>
  \<^verbatim>\<open>circular_int::operator<=>\<close>, restricted to values that lie less than half the range
  above a common base, is the order of their distances from that base: on such a window
  the wrapped counter is compared as an unbounded one would be.
\<close>

theorem ci_compare_window:
  fixes a b c :: "'a::len word"
  assumes "unat (a - c) < 2 ^ (LENGTH('a) - Suc 0)" and "unat (b - c) < 2 ^ (LENGTH('a) - Suc 0)"
  shows "ci_compare a b =
    (if unat (a - c) < unat (b - c) then Less
     else if unat (a - c) = unat (b - c) then Equal else Greater)"
proof -
  have "unat (a - c) = unat (b - c) \<longleftrightarrow> a = b"
    by (metis diff_eq_eq diff_add_cancel unsigned_word_eqI)
  with ci_less_window [OF assms] show ?thesis
    by (auto simp: ci_compare_def ci_less_def)
qed

theorem ci_compare_window_witness:
  "ci_compare (4294967295 :: 32 word) 3 = Less"
  using ci_compare_window [of "4294967295 :: 32 word" 4294967290 3] by simp

text \<open>
  \<^verbatim>\<open>circular_int::less\<close> is not antisymmetric, and it fails to be so at exactly one
  distance: two values are each less than the other if and only if they are half the range
  apart.
\<close>

lemma ci_less_antipodal:
fixes a b :: "'a::len word"
  shows "ci_less a b \<and> ci_less b a \<longleftrightarrow> unat (a - b) = 2 ^ (LENGTH('a) - Suc 0)"
proof -
  define h where "h = (2::nat) ^ (LENGTH('a) - Suc 0)"
  have less: "ci_less a b \<longleftrightarrow> h \<le> unat (a - b)" "ci_less b a \<longleftrightarrow> h \<le> unat (b - a)"
    by (simp_all add: ci_less_unat h_def)
  have "unat (b - a) = (if a = b then 0 else 2 * h - unat (a - b))"
    using unat_minus_cases [of "a - b"] by (simp add: word_half h_def)
  moreover have "0 < h" by (simp add: h_def)
  ultimately show ?thesis
    unfolding less h_def [symmetric] by auto
qed

text \<open>
  \<^verbatim>\<open>next_nonzero\<close> never returns zero, and it is the successor except at the largest
  value, where it skips zero and returns one.
\<close>

lemma next_nonzero_spec:
  fixes x :: "'a::len word"
  shows "next_nonzero x \<noteq> 0 \<and> (next_nonzero x = (if x = - 1 then 1 else x + 1))"
  by (auto simp: next_nonzero_def Let_def eq_neg_iff_add_eq_0)

text \<open>The value of a post-increment is the old value.\<close>

lemma ci_post_old: "snd (ci_post_incr v) = v" "snd (ci_post_decr v) = v"
  by (simp_all add: ci_post_incr_def ci_post_decr_def Let_def)

lemma ci_add_sub: "ci_sub (ci_add v x) x = v"
  by (simp add: ci_add_def ci_sub_def)

lemma ci_diff_less: "ci_diff a b < 0 \<longleftrightarrow> ci_less a b"
  by (simp add: ci_diff_def ci_less_def)

end
