(* ===== verification/TimerHeap.thy ===== *)
theory TimerHeap
  imports CircularInt
begin

text \<open>
  \<^verbatim>\<open>cotamer/timer_heap.hh\<close>: the driver's queue of timers, an array-backed heap of arity 4
  ordered by expiration time and, for equal times, by insertion number.

  The array \<^verbatim>\<open>es_[0 .. size_)\<close> is the list \<open>es\<close>, so \<^verbatim>\<open>size_\<close> is its length. Positions are
  natural numbers; \<open>index_arithmetic_u32\<close> below shows that the 32-bit arithmetic of the
  source agrees with them for heaps of fewer than \<open>2 ^ 30\<close> elements. The insertion counter,
  the cull seed and the capacity keep their 32 bits.

  Removing an element runs its destructor, which for an event handle drops a reference and
  may make other events empty. \<open>emp\<close> and \<open>dtor\<close> are the template's \<^verbatim>\<open>empty_type\<close> and the
  destructor of \<^verbatim>\<open>T\<close>, over a state of type \<open>'s\<close> that the operations pass along.
\<close>

subsection \<open>The data\<close>

record 'a element =
  e_when :: int
  e_order :: u32
  e_value :: 'a

definition element_less :: "'a element \<Rightarrow> 'a element \<Rightarrow> bool" where
  "element_less e x \<longleftrightarrow>
     e_when e < e_when x \<or> (e_when e = e_when x \<and> ci_compare (e_order e) (e_order x) = Less)"

record 'a timer_heap =
  es :: "'a element list"
  capacity :: u32
  order_next :: u32
  cull_rand :: u32

definition timer_heap_new :: "'a timer_heap" where
  "timer_heap_new = \<lparr>es = [], capacity = 0, order_next = 0, cull_rand = 8173\<rparr>"

definition arity :: nat where "arity = 4"

definition heap_parent :: "nat \<Rightarrow> nat" where
  "heap_parent i = (i - (if arity = 2 then 1 else 0)) div arity"

definition heap_first_child :: "nat \<Rightarrow> nat" where
  "heap_first_child i = i * arity + (if arity = 2 \<or> i = 0 then 1 else 0)"

definition heap_last_child :: "nat \<Rightarrow> nat \<Rightarrow> nat" where
  "heap_last_child n i =
     (let p = i * arity + arity + (if arity = 2 then 1 else 0)
      in if p < n then p else n)"

subsection \<open>Observers\<close>

definition th_empty :: "'a timer_heap \<Rightarrow> bool" where
  "th_empty h \<longleftrightarrow> length (es h) = 0"

definition th_size :: "'a timer_heap \<Rightarrow> nat" where
  "th_size h = length (es h)"

text \<open>\<^verbatim>\<open>top_time\<close> and \<^verbatim>\<open>top\<close> assert that the heap is not empty: \<open>None\<close> is the failed assertion.\<close>

definition top_time :: "'a timer_heap \<Rightarrow> int option" where
  "top_time h = (if length (es h) \<noteq> 0 then Some (e_when (es h ! 0)) else None)"

definition th_top :: "'a timer_heap \<Rightarrow> 'a option" where
  "th_top h = (if length (es h) \<noteq> 0 then Some (e_value (es h ! 0)) else None)"

subsection \<open>Moving elements\<close>

text \<open>The child scan of \<^verbatim>\<open>hard_cull\<close>: the least of the element at \<open>pos\<close> and its children.\<close>

definition smallest_child :: "'a element list \<Rightarrow> nat \<Rightarrow> nat" where
  "smallest_child xs pos =
     fold (\<lambda>t smallest. if element_less (xs ! t) (xs ! smallest) then t else smallest)
       [heap_first_child pos ..< heap_last_child (length xs) pos] pos"

lemma fold_select_cases:
  "fold (\<lambda>t s. if P t s then t else s) ts s = s \<or>
   fold (\<lambda>t s. if P t s then t else s) ts s \<in> set ts"
proof (induction ts arbitrary: s)
  case (Cons a ts)
  show ?case using Cons.IH [of a] Cons.IH [of s] by auto
qed simp

lemma smallest_child_cases:
  "smallest_child xs pos = pos \<or>
   heap_first_child pos \<le> smallest_child xs pos \<and>
   smallest_child xs pos < heap_last_child (length xs) pos"
  using fold_select_cases [of "\<lambda>t s. element_less (xs ! t) (xs ! s)"
      "[heap_first_child pos ..< heap_last_child (length xs) pos]" pos]
  by (auto simp: smallest_child_def)

lemma heap_last_child_le: "heap_last_child n pos \<le> n"
  by (simp add: heap_last_child_def Let_def)

lemma first_child_greater: "pos < heap_first_child pos"
  by (simp add: heap_first_child_def arity_def)

lemma smallest_child_greater:
  "smallest_child xs pos \<noteq> pos \<Longrightarrow> pos < smallest_child xs pos \<and> smallest_child xs pos < length xs"
  using smallest_child_cases [of xs pos] heap_last_child_le [of "length xs" pos]
    first_child_greater [of pos] by auto

lemma heap_parent_less: "pos \<noteq> 0 \<Longrightarrow> heap_parent pos < pos"
  by (simp add: heap_parent_def arity_def)

text \<open>The downward loop of \<^verbatim>\<open>hard_cull\<close>.\<close>

function sift_down :: "'a element list \<Rightarrow> nat \<Rightarrow> 'a element list" where
  "sift_down xs pos =
     (let smallest = smallest_child xs pos in
      if smallest = pos then xs
      else sift_down (swap_slots xs pos smallest) smallest)"
  by pat_completeness auto
termination
  by (relation "measure (\<lambda>(xs, pos). length xs - pos)")
     (auto dest!: smallest_child_greater intro: diff_less_mono2)

text \<open>The upward loop of \<^verbatim>\<open>emplace\<close>, which is also what is left of \<^verbatim>\<open>hard_cull\<close>'s \<^verbatim>\<open>do\<close> loop
  after its first exchange.\<close>

function sift_up :: "'a element list \<Rightarrow> nat \<Rightarrow> 'a element list" where
  "sift_up xs pos =
     (if pos \<noteq> 0 then
        let p = heap_parent pos in
        if \<not> element_less (xs ! pos) (xs ! p) then xs
        else sift_up (swap_slots xs pos p) p
      else xs)"
  by pat_completeness auto
termination
  by (relation "measure snd") (auto simp: heap_parent_less)

declare sift_down.simps [simp del] sift_up.simps [simp del]

subsection \<open>Removal\<close>

text \<open>
  \<^verbatim>\<open>hard_cull(pos)\<close> returns the new array and the element it destroyed. The source asserts
  \<^verbatim>\<open>size_ != 0\<close>.
\<close>

definition hard_cull_es :: "'a element list \<Rightarrow> nat \<Rightarrow> 'a element list \<times> 'a element" where
  "hard_cull_es xs pos =
     (let n = length xs - 1 in
      if pos = n then (take n xs, xs ! pos)
      else
        let xs = swap_slots xs n pos; dead = xs ! n; xs = take n xs in
        (if pos = 0 \<or> \<not> element_less (xs ! pos) (xs ! heap_parent pos)
         then sift_down xs pos
         else let p = heap_parent pos in sift_up (swap_slots xs pos p) p, dead))"

definition hard_cull :: "'a timer_heap \<Rightarrow> nat \<Rightarrow> 'a timer_heap \<times> 'a element" where
  "hard_cull h pos = (let (xs, dead) = hard_cull_es (es h) pos in (h\<lparr>es := xs\<rparr>, dead))"

definition th_pop :: "'a timer_heap \<Rightarrow> 'a timer_heap \<times> 'a element" where
  "th_pop h = hard_cull h 0"

definition th_clear :: "'a timer_heap \<Rightarrow> 'a timer_heap" where
  "th_clear h = h\<lparr>es := []\<rparr>"

lemma length_sift_down [simp]: "length (sift_down xs pos) = length xs"
  by (induction xs pos rule: sift_down.induct) (subst sift_down.simps, auto simp: Let_def)

lemma length_sift_up [simp]: "length (sift_up xs pos) = length xs"
  by (induction xs pos rule: sift_up.induct) (subst sift_up.simps, auto simp: Let_def)

lemma length_hard_cull_es [simp]: "length (fst (hard_cull_es xs pos)) = length xs - 1"
  by (auto simp: hard_cull_es_def Let_def)

lemma es_hard_cull: "es (fst (hard_cull h pos)) = fst (hard_cull_es (es h) pos)"
  by (simp add: hard_cull_def split: prod.splits)

function cull :: "('s \<Rightarrow> 'a \<Rightarrow> bool) \<Rightarrow> ('a \<Rightarrow> 's \<Rightarrow> 's) \<Rightarrow> 'a timer_heap \<Rightarrow> 's
    \<Rightarrow> 'a timer_heap \<times> 's" where
  "cull emp dtor h s =
     (if length (es h) \<noteq> 0 \<and> emp s (e_value (es h ! 0)) then
        let (h', dead) = hard_cull h 0 in cull emp dtor h' (dtor (e_value dead) s)
      else (h, s))"
  by pat_completeness auto
termination
proof (relation "measure (\<lambda>(emp, dtor, h, s). length (es h))", goal_cases)
  case (2 emp dtor h s r h' dead)
  then have "es h' = fst (hard_cull_es (es h) 0)"
    using es_hard_cull [of h 0] by (metis fst_conv)
  with 2 show ?case by simp
qed simp

subsection \<open>Insertion\<close>

definition expand :: "'a timer_heap \<Rightarrow> 'a timer_heap" where
  "expand h = h\<lparr>capacity := (if capacity h \<noteq> 0 then capacity h * 4 + 3 else 31)\<rparr>"

text \<open>The first loop of \<^verbatim>\<open>emplace\<close>: in a largish heap, remove randomly chosen empty elements.\<close>

function emplace_cull :: "('s \<Rightarrow> 'a \<Rightarrow> bool) \<Rightarrow> ('a \<Rightarrow> 's \<Rightarrow> 's) \<Rightarrow> 'a timer_heap \<Rightarrow> 's
    \<Rightarrow> 'a timer_heap \<times> 's" where
  "emplace_cull emp dtor h s =
     (if length (es h) \<ge> 32 then
        let pos = unat (cull_rand h mod of_nat (length (es h)));
            h = h\<lparr>cull_rand := cull_rand h * 1664525 + 1013904223\<rparr>
        in if \<not> emp s (e_value (es h ! pos)) then (h, s)
           else let (h', dead) = hard_cull h pos
                in emplace_cull emp dtor h' (dtor (e_value dead) s)
      else (h, s))"
  by pat_completeness auto
termination
proof (relation "measure (\<lambda>(emp, dtor, h, s). length (es h))", goal_cases)
  case (2 emp dtor h s pos h1 r h' dead)
  then have "es h' = fst (hard_cull_es (es h) pos)"
    using es_hard_cull [of h1 pos] by (metis (no_types, lifting) fst_conv timer_heap.select_convs(1)
        timer_heap.surjective timer_heap.update_convs(4))
  with 2 show ?case by simp
qed simp

declare cull.simps [simp del] emplace_cull.simps [simp del]

definition emplace :: "('s \<Rightarrow> 'a \<Rightarrow> bool) \<Rightarrow> ('a \<Rightarrow> 's \<Rightarrow> 's) \<Rightarrow> int \<Rightarrow> 'a \<Rightarrow> 'a timer_heap \<Rightarrow> 's
    \<Rightarrow> 'a timer_heap \<times> 's" where
  "emplace emp dtor t v h s =
     (let (h, s) = emplace_cull emp dtor h s;
          pos = length (es h);
          h = (if of_nat pos = capacity h then expand h else h);
          h = h\<lparr>order_next := order_next h + 1\<rparr>;
          xs = es h @ [\<lparr>e_when = t, e_order = order_next h, e_value = v\<rparr>]
      in (h\<lparr>es := sift_up xs pos\<rparr>, s))"

subsection \<open>Heaps with one misplaced element\<close>

text \<open>
  The proofs compare elements through a key into a linear order that agrees with
  \<open>element_less\<close> on the elements at hand. \<open>heap_above k xs S\<close> is the heap property for the
  positions of \<open>S\<close>; \<open>heap_bridge k xs p\<close> says that the heap property still holds between
  the children of \<open>p\<close> and the parent of \<open>p\<close>.
\<close>

definition keyed :: "('a element \<Rightarrow> 'k::linorder) \<Rightarrow> 'a element list \<Rightarrow> bool" where
  "keyed k xs \<longleftrightarrow> (\<forall>x\<in>set xs. \<forall>y\<in>set xs. element_less x y \<longleftrightarrow> k x < k y)"

definition heap_above :: "('a element \<Rightarrow> 'k::linorder) \<Rightarrow> 'a element list \<Rightarrow> nat set \<Rightarrow> bool" where
  "heap_above k xs S \<longleftrightarrow> (\<forall>i<length xs. 0 < i \<longrightarrow> i \<in> S \<longrightarrow> k (xs ! (i div 4)) \<le> k (xs ! i))"

definition heap_bridge :: "('a element \<Rightarrow> 'k::linorder) \<Rightarrow> 'a element list \<Rightarrow> nat \<Rightarrow> bool" where
  "heap_bridge k xs p \<longleftrightarrow>
     (0 < p \<longrightarrow> (\<forall>i<length xs. i div 4 = p \<longrightarrow> k (xs ! (p div 4)) \<le> k (xs ! i)))"

lemma heap_parent_div [simp]: "heap_parent i = i div 4"
  by (simp add: heap_parent_def arity_def)

lemma child_range:
  "t \<in> set [heap_first_child pos ..< heap_last_child n pos] \<longleftrightarrow> 0 < t \<and> t < n \<and> t div 4 = pos"
  by (auto simp: heap_first_child_def heap_last_child_def arity_def Let_def)

lemma keyed_nth: "keyed k xs \<Longrightarrow> i < length xs \<Longrightarrow> j < length xs \<Longrightarrow>
    element_less (xs ! i) (xs ! j) \<longleftrightarrow> k (xs ! i) < k (xs ! j)"
  by (simp add: keyed_def)

lemma keyed_swap [simp]:
  "i < length xs \<Longrightarrow> j < length xs \<Longrightarrow> keyed k (swap_slots xs i j) = keyed k xs"
  by (simp add: keyed_def)

lemma keyed_subset: "keyed k xs \<Longrightarrow> set ys \<subseteq> set xs \<Longrightarrow> keyed k ys"
  by (auto simp: keyed_def)

text \<open>One exchange with the parent moves the misplaced element up.\<close>

lemma swap_up_step:
  assumes pos: "pos < length xs" "0 < pos" and lt: "k (xs ! pos) < k (xs ! (pos div 4))"
    and above: "heap_above k xs (- {pos})" and bridge: "heap_bridge k xs pos"
  defines "p \<equiv> pos div 4" and "ys \<equiv> swap_slots xs pos (pos div 4)"
  shows "heap_above k ys (- {p}) \<and> heap_bridge k ys p"
proof -
  have pl: "p < pos" "p < length xs" using pos by (auto simp: p_def)
  have ys: "i < length xs \<Longrightarrow> ys ! i = (if i = pos then xs ! p else if i = p then xs ! pos else xs ! i)" for i
    using pos pl by (simp add: ys_def p_def nth_swap_slots)
  have up: "0 < i \<Longrightarrow> i \<noteq> pos \<Longrightarrow> i < length xs \<Longrightarrow> k (xs ! (i div 4)) \<le> k (xs ! i)" for i
    using above by (simp add: heap_above_def)
  have br: "i < length xs \<Longrightarrow> i div 4 = pos \<Longrightarrow> k (xs ! p) \<le> k (xs ! i)" for i
    using bridge pos by (simp add: heap_bridge_def p_def)
  have "k (ys ! (i div 4)) \<le> k (ys ! i)" if "i < length xs" "0 < i" "i \<noteq> p" for i
    using up [of i] br [of i] lt that pl p_def by (auto simp: ys)
  moreover have "k (ys ! (p div 4)) \<le> k (ys ! i)" if "0 < p" "i < length xs" "i div 4 = p" for i
  proof -
    have "0 < i" using that by (cases i) auto
    then show ?thesis using up [of i] up [of p] that pl by (auto simp: ys)
  qed
  ultimately show ?thesis by (simp add: heap_above_def heap_bridge_def ys_def)
qed

lemma sift_up_heap:
  assumes "keyed k xs" "pos < length xs" "heap_above k xs (- {pos})" "heap_bridge k xs pos"
  shows "heap_above k (sift_up xs pos) UNIV \<and> mset (sift_up xs pos) = mset xs"
  using assms
proof (induction xs pos rule: sift_up.induct)
  case (1 xs pos)
  have par: "pos div 4 < length xs" using "1.prems"(2) by auto
  note cmp = keyed_nth [OF "1.prems"(1) "1.prems"(2) par]
  show ?case
  proof (cases "pos \<noteq> 0 \<and> element_less (xs ! pos) (xs ! (pos div 4))")
    case True
    let ?ys = "swap_slots xs pos (pos div 4)"
    have "heap_above k ?ys (- {pos div 4}) \<and> heap_bridge k ?ys (pos div 4)"
      using True 1 cmp by (intro swap_up_step) auto
    moreover have "sift_up xs pos = sift_up ?ys (pos div 4)"
      using True by (subst sift_up.simps) (simp add: Let_def)
    ultimately show ?thesis using 1 True par by simp
  next
    case False
    then have eq: "sift_up xs pos = xs" by (subst sift_up.simps) (auto simp: Let_def)
    have "0 < pos \<Longrightarrow> k (xs ! (pos div 4)) \<le> k (xs ! pos)" using False cmp by force
    then show ?thesis using 1 by (auto simp: eq heap_above_def)
  qed
qed

text \<open>The child scan finds a least element among a node and its children.\<close>

lemma fold_select_min:
  assumes "\<forall>t\<in>set (s # ts). t < length xs" and "keyed k xs"
  shows "\<forall>t\<in>set (s # ts).
    k (xs ! fold (\<lambda>t s. if element_less (xs ! t) (xs ! s) then t else s) ts s) \<le> k (xs ! t)"
  using assms(1)
proof (induction ts arbitrary: s)
  case (Cons a ts)
  have "element_less (xs ! a) (xs ! s) \<longleftrightarrow> k (xs ! a) < k (xs ! s)"
    using Cons.prems keyed_nth [OF assms(2)] by simp
  then show ?case
    using Cons.IH [of a] Cons.IH [of s] Cons.prems by fastforce
qed simp

lemma smallest_child_min:
  assumes "keyed k xs" "pos < length xs"
  shows "k (xs ! smallest_child xs pos) \<le> k (xs ! pos)"
    and "\<lbrakk>0 < t; t < length xs; t div 4 = pos\<rbrakk> \<Longrightarrow> k (xs ! smallest_child xs pos) \<le> k (xs ! t)"
proof -
  let ?ts = "[heap_first_child pos ..< heap_last_child (length xs) pos]"
  have "\<forall>t\<in>set (pos # ?ts). t < length xs" using assms(2) child_range by auto
  from fold_select_min [OF this assms(1)]
  have "\<forall>t\<in>set (pos # ?ts). k (xs ! smallest_child xs pos) \<le> k (xs ! t)"
    by (simp add: smallest_child_def)
  then show "k (xs ! smallest_child xs pos) \<le> k (xs ! pos)"
    and "\<lbrakk>0 < t; t < length xs; t div 4 = pos\<rbrakk> \<Longrightarrow> k (xs ! smallest_child xs pos) \<le> k (xs ! t)"
    using child_range [of t pos "length xs"] by auto
qed

lemma smallest_child_div:
  "smallest_child xs pos \<noteq> pos \<Longrightarrow> smallest_child xs pos div 4 = pos"
  using smallest_child_cases [of xs pos] child_range [of "smallest_child xs pos" pos "length xs"]
  by simp

text \<open>One exchange with the least child moves the misplaced element down.\<close>

lemma swap_down_step:
  assumes pos: "pos < length xs" and s: "s < length xs" "0 < s" "s div 4 = pos" "s \<noteq> pos"
    and least: "\<And>t. \<lbrakk>0 < t; t < length xs; t div 4 = pos\<rbrakk> \<Longrightarrow> k (xs ! s) \<le> k (xs ! t)"
    and le: "k (xs ! s) \<le> k (xs ! pos)"
    and above: "heap_above k xs {i. i div 4 \<noteq> pos}" and bridge: "heap_bridge k xs pos"
  defines "ys \<equiv> swap_slots xs pos s"
  shows "heap_above k ys {i. i div 4 \<noteq> s} \<and> heap_bridge k ys s"
proof -
  have ps: "pos < s" using s by linarith
  have ys: "i < length xs \<Longrightarrow> ys ! i = (if i = pos then xs ! s else if i = s then xs ! pos else xs ! i)" for i
    using pos s by (simp add: ys_def nth_swap_slots)
  have up: "0 < i \<Longrightarrow> i div 4 \<noteq> pos \<Longrightarrow> i < length xs \<Longrightarrow> k (xs ! (i div 4)) \<le> k (xs ! i)" for i
    using above by (simp add: heap_above_def)
  have br: "0 < pos \<Longrightarrow> k (xs ! (pos div 4)) \<le> k (xs ! s)"
    using bridge s by (simp add: heap_bridge_def)
  have "k (ys ! (i div 4)) \<le> k (ys ! i)" if "i < length xs" "0 < i" "i div 4 \<noteq> s" for i
    using up [of i] least [of i] br le that s ps by (auto simp: ys)
  moreover have "k (ys ! (s div 4)) \<le> k (ys ! i)" if "i < length xs" "i div 4 = s" for i
    using up [of i] that s ps pos by (auto simp: ys)
  ultimately show ?thesis by (simp add: heap_above_def heap_bridge_def ys_def)
qed

lemma sift_down_heap:
  assumes "keyed k xs" "pos < length xs" "heap_above k xs {i. i div 4 \<noteq> pos}" "heap_bridge k xs pos"
  shows "heap_above k (sift_down xs pos) UNIV \<and> mset (sift_down xs pos) = mset xs"
  using assms
proof (induction xs pos rule: sift_down.induct)
  case (1 xs pos)
  note least = smallest_child_min [OF "1.prems"(1,2)]
  let ?s = "smallest_child xs pos"
  show ?case
  proof (cases "?s = pos")
    case False
    note s = smallest_child_greater [OF False] smallest_child_div [OF False]
    let ?ys = "swap_slots xs pos ?s"
    have "heap_above k ?ys {i. i div 4 \<noteq> ?s} \<and> heap_bridge k ?ys ?s"
      using False s 1 least by (intro swap_down_step) auto
    moreover have "sift_down xs pos = sift_down ?ys ?s"
      using False by (subst sift_down.simps) (simp add: Let_def)
    ultimately show ?thesis using 1 False s by simp
  next
    case True
    then have "sift_down xs pos = xs" by (subst sift_down.simps) simp
    then show ?thesis using 1 True least(2) by (auto simp: heap_above_def)
  qed
qed


lemma take_swap_last:
  assumes "pos < length xs - 1"
  shows "take (length xs - 1) (swap_slots xs (length xs - 1) pos) = (butlast xs)[pos := last xs]"
proof -
  have "last xs = xs ! (length xs - 1)" using assms by (intro last_conv_nth) auto
  then show ?thesis
    using assms by (intro nth_equalityI) (auto simp: nth_swap_slots nth_butlast nth_list_update)
qed

lemma hard_cull_es_swap:
  assumes "pos < length xs - 1"
  defines "ys \<equiv> (butlast xs)[pos := last xs]"
  shows "hard_cull_es xs pos =
    (if pos = 0 \<or> \<not> element_less (ys ! pos) (ys ! (pos div 4)) then sift_down ys pos
     else sift_up ys pos, xs ! pos)"
proof -
  have "swap_slots xs (length xs - 1) pos ! (length xs - 1) = xs ! pos"
    using assms(1) by (auto simp: nth_swap_slots)
  moreover have "pos \<noteq> 0 \<Longrightarrow> element_less (ys ! pos) (ys ! (pos div 4)) \<Longrightarrow>
      sift_up (swap_slots ys pos (pos div 4)) (pos div 4) = sift_up ys pos"
    by (subst sift_up.simps [of ys pos]) (simp add: Let_def)
  moreover have "pos \<noteq> length xs - 1" using assms(1) by simp
  ultimately show ?thesis
    unfolding hard_cull_es_def Let_def heap_parent_div take_swap_last [OF assms(1)] ys_def [symmetric]
    by presburger
qed

lemma hole_after_swap:
  assumes "heap_above k xs UNIV" "pos < length xs - 1"
  defines "ys \<equiv> (butlast xs)[pos := last xs]"
  shows "heap_above k ys {i. i div 4 \<noteq> pos \<and> i \<noteq> pos}" "heap_bridge k ys pos"
    and "0 < pos \<Longrightarrow> k (ys ! pos) < k (ys ! (pos div 4)) \<Longrightarrow> heap_above k ys (- {pos})"
proof -
  have up: "0 < i \<Longrightarrow> i < length xs \<Longrightarrow> k (xs ! (i div 4)) \<le> k (xs ! i)" for i
    using assms(1) by (simp add: heap_above_def)
  have ys: "i < length xs - 1 \<Longrightarrow> ys ! i = (if i = pos then last xs else xs ! i)" for i
    using assms(2) by (simp add: ys_def nth_list_update nth_butlast)
  have bound: "i < length xs - 1 \<Longrightarrow> i div 4 < length xs - 1" for i :: nat by auto
  have len: "length ys = length xs - 1" by (simp add: ys_def)
  show "heap_above k ys {i. i div 4 \<noteq> pos \<and> i \<noteq> pos}"
    using up bound by (simp add: heap_above_def ys len)
  have bridge: "k (xs ! (pos div 4)) \<le> k (xs ! i)" if "0 < pos" "i < length xs - 1" "i div 4 = pos" for i
  proof -
    have "0 < i" using that by (cases i) auto
    then have "k (xs ! (pos div 4)) \<le> k (xs ! pos)" "k (xs ! pos) \<le> k (xs ! i)"
      using that assms(2) up [of i] up [of pos] by auto
    then show ?thesis by (rule order_trans)
  qed
  then show "heap_bridge k ys pos"
    using assms(2) bound [of pos] by (auto simp: heap_bridge_def ys len)
  show "heap_above k ys (- {pos})" if "0 < pos" "k (ys ! pos) < k (ys ! (pos div 4))"
    unfolding heap_above_def
  proof (intro allI impI)
    fix i assume i: "i < length ys" "0 < i" "i \<in> - {pos}"
    then have il: "i < length xs - 1" by (simp add: ys_def)
    show "k (ys ! (i div 4)) \<le> k (ys ! i)"
      using that up [of i] bridge [of i] il i assms(2) bound [of i] bound [of pos]
      by (auto simp: ys split: if_splits)
  qed
qed

lemma hard_cull_es_heap:
  assumes "keyed k xs" "heap_above k xs UNIV" "pos < length xs"
  shows "heap_above k (fst (hard_cull_es xs pos)) UNIV"
    and "mset (fst (hard_cull_es xs pos)) = mset xs - {#xs ! pos#}"
    and "snd (hard_cull_es xs pos) = xs ! pos"
proof -
  define ys where "ys = (butlast xs)[pos := last xs]"
  have ne: "xs \<noteq> []" using assms(3) by auto
  have "heap_above k (fst (hard_cull_es xs pos)) UNIV \<and>
    mset (fst (hard_cull_es xs pos)) = mset xs - {#xs ! pos#} \<and> snd (hard_cull_es xs pos) = xs ! pos"
  proof (cases "pos = length xs - 1")
    case True
    moreover have "last xs = xs ! (length xs - 1)" using ne by (rule last_conv_nth)
    ultimately have "hard_cull_es xs pos = (butlast xs, last xs)"
      by (simp add: hard_cull_es_def Let_def butlast_conv_take)
    moreover have "heap_above k (butlast xs) UNIV"
      using assms(2) by (auto simp: heap_above_def nth_butlast)
    ultimately show ?thesis
      using True mset_butlast [OF ne] last_conv_nth [OF ne] by simp
  next
    case False
    with assms(3) have pos: "pos < length xs - 1" "pos < length ys" by (auto simp: ys_def)
    have ms: "mset ys = mset xs - {#xs ! pos#}"
      using mset_butlast_update_last [OF assms(3)] pos by (simp add: butlast_list_update ys_def)
    have "set ys \<subseteq> set xs" using ms by (metis in_diffD set_mset_mset subsetI)
    then have ky: "keyed k ys" using assms(1) keyed_subset by blast
    note hole = hole_after_swap [OF assms(2) pos(1), folded ys_def]
    have par: "pos div 4 < length ys" using pos by auto
    note cmp = keyed_nth [OF ky pos(2) par]
    show ?thesis
    proof (cases "pos = 0 \<or> \<not> element_less (ys ! pos) (ys ! (pos div 4))")
      case True
      then have "heap_above k ys {i. i div 4 \<noteq> pos}"
        using hole(1) cmp by (auto simp: heap_above_def not_less)
      then show ?thesis
        using sift_down_heap [OF ky pos(2) _ hole(2)] True ms hard_cull_es_swap [OF pos(1), folded ys_def] by simp
    next
      case False
      then show ?thesis
        using sift_up_heap [OF ky pos(2) hole(3) hole(2)] cmp ms hard_cull_es_swap [OF pos(1), folded ys_def] by simp
    qed
  qed
  then show "heap_above k (fst (hard_cull_es xs pos)) UNIV"
    and "mset (fst (hard_cull_es xs pos)) = mset xs - {#xs ! pos#}"
    and "snd (hard_cull_es xs pos) = xs ! pos" by auto
qed


subsection \<open>The heap invariant\<close>

definition heap_ok :: "'a element list \<Rightarrow> bool" where
  "heap_ok xs \<longleftrightarrow> (\<forall>i<length xs. 0 < i \<longrightarrow> \<not> element_less (xs ! i) (xs ! heap_parent i))"

text \<open>How many insertions ago an element was inserted, modulo the width of the counter.\<close>

definition age :: "'a timer_heap \<Rightarrow> 'a element \<Rightarrow> nat" where
  "age h e = unat (order_next h - e_order e)"

definition th_inv :: "'a timer_heap \<Rightarrow> bool" where
  "th_inv h \<longleftrightarrow>
     heap_ok (es h) \<and> (\<forall>e\<in>set (es h). age h e < 2 ^ 31) \<and>
     distinct (map e_order (es h)) \<and> length (es h) \<le> unat (capacity h)"

text \<open>Another insertion keeps every element inside the window and the capacity in 32 bits.\<close>

definition th_room :: "'a timer_heap \<Rightarrow> bool" where
  "th_room h \<longleftrightarrow> (\<forall>e\<in>set (es h). age h e < 2 ^ 31 - 1) \<and> length (es h) < 2 ^ 30"

text \<open>Expiration time, then insertion order.\<close>

definition th_key :: "'a timer_heap \<Rightarrow> 'a element \<Rightarrow> int \<times> nat" where
  "th_key h e = (e_when e, 2 ^ 31 - 1 - age h e)"

lemma element_less_key:
  assumes "age h e < 2 ^ 31" "age h f < 2 ^ 31"
  shows "element_less e f \<longleftrightarrow> th_key h e < th_key h f"
proof -
  define c where "c = order_next h - (2 ^ 31 - 1)"
  have dist: "unat (e_order x - c) = 2 ^ 31 - 1 - age h x" if "age h x < 2 ^ 31" for x :: "'a element"
  proof -
    have "e_order x - c = (2 ^ 31 - 1) - (order_next h - e_order x)" by (simp add: c_def)
    moreover have "unat ((2 ^ 31 - 1) - (order_next h - e_order x)) = 2 ^ 31 - 1 - age h x"
      using that unat_diff_cases [of "2 ^ 31 - 1" "order_next h - e_order x"] by (simp add: age_def)
    ultimately show ?thesis by (simp only:)
  qed
  have "ci_less (e_order e) (e_order f) \<longleftrightarrow> unat (e_order e - c) < unat (e_order f - c)"
    using dist [OF assms(1)] dist [OF assms(2)] by (intro ci_less_window) simp_all
  also have "\<dots> \<longleftrightarrow> 2 ^ 31 - 1 - age h e < 2 ^ 31 - 1 - age h f"
    by (simp only: dist [OF assms(1)] dist [OF assms(2)])
  finally show ?thesis
    by (auto simp: element_less_def th_key_def less_prod_def ci_compare_less)
qed

lemma keyed_window: "\<forall>e\<in>set xs. age h e < 2 ^ 31 \<Longrightarrow> keyed (th_key h) xs"
  unfolding keyed_def by (intro ballI element_less_key) blast+

lemma heap_ok_above: "keyed k xs \<Longrightarrow> heap_ok xs \<longleftrightarrow> heap_above k xs UNIV"
  by (fastforce simp: heap_ok_def heap_above_def keyed_def not_less)

lemma heap_root_least:
  "heap_above k xs UNIV \<Longrightarrow> i < length xs \<Longrightarrow> k (xs ! 0) \<le> k (xs ! i)"
proof (induction i rule: less_induct)
  case (less i)
  show ?case
  proof (cases "i = 0")
    case False
    then have "k (xs ! 0) \<le> k (xs ! (i div 4))" using less by simp
    also have "\<dots> \<le> k (xs ! i)" using less.prems False by (simp add: heap_above_def)
    finally show ?thesis .
  qed simp
qed


lemma th_inv_keyed: "th_inv h \<Longrightarrow> keyed (th_key h) (es h) \<and> heap_above (th_key h) (es h) UNIV"
  using keyed_window heap_ok_above unfolding th_inv_def by blast

subsection \<open>Removing elements keeps the invariant\<close>

text \<open>\<open>h'\<close> is \<open>h\<close> less some elements, each of which was empty when it was removed.\<close>

definition culled :: "('s \<Rightarrow> 'a \<Rightarrow> bool) \<Rightarrow> 'a timer_heap \<Rightarrow> 'a timer_heap \<Rightarrow> bool" where
  "culled emp h h' \<longleftrightarrow>
     th_inv h' \<and> order_next h' = order_next h \<and> capacity h' = capacity h \<and>
     (\<exists>dead. mset (es h) = mset (es h') + dead \<and> (\<forall>d\<in>#dead. \<exists>s. emp s (e_value d)))"

lemma culled_refl: "th_inv h \<Longrightarrow> culled emp h h"
  by (auto simp: culled_def intro: exI [of _ "{#}"])

lemma culled_trans: "culled emp h h' \<Longrightarrow> culled emp h' h'' \<Longrightarrow> culled emp h h''"
  unfolding culled_def
proof (elim conjE exE, intro conjI exI)
  fix d d'
  assume "mset (es h) = mset (es h') + d" "mset (es h') = mset (es h'') + d'"
  then show "mset (es h) = mset (es h'') + (d' + d)" by (simp add: add.assoc)
qed auto

lemma culled_subset: "culled emp h h' \<Longrightarrow> set (es h') \<subseteq> set (es h)"
  unfolding culled_def by (metis UnI1 set_mset_mset set_mset_union subsetI)

lemma hard_cull_fields [simp]:
  "order_next (fst (hard_cull h pos)) = order_next h"
  "capacity (fst (hard_cull h pos)) = capacity h"
  "cull_rand (fst (hard_cull h pos)) = cull_rand h"
  by (simp_all add: hard_cull_def split: prod.splits)

lemma snd_hard_cull: "snd (hard_cull h pos) = snd (hard_cull_es (es h) pos)"
  by (simp add: hard_cull_def split: prod.splits)

lemma hard_cull_inv:
  assumes "th_inv h" "pos < length (es h)"
  shows "th_inv (fst (hard_cull h pos))"
    and "mset (es (fst (hard_cull h pos))) = mset (es h) - {#es h ! pos#}"
    and "snd (hard_cull h pos) = es h ! pos"
proof -
  let ?ys = "es (fst (hard_cull h pos))"
  note k = th_inv_keyed [OF assms(1)]
  note cull = hard_cull_es_heap [OF conjunct1 [OF k] conjunct2 [OF k] assms(2), folded es_hard_cull]
  show ms: "mset ?ys = mset (es h) - {#es h ! pos#}" by (rule cull(2))
  show "snd (hard_cull h pos) = es h ! pos" using cull(3) by (simp add: snd_hard_cull)
  have sub: "set ?ys \<subseteq> set (es h)" using ms by (metis in_diffD set_mset_mset subsetI)
  then have "heap_ok ?ys" using cull(1) k keyed_subset heap_ok_above by blast
  moreover have "mset (map e_order ?ys) \<subseteq># mset (map e_order (es h))"
    using ms by (simp add: image_mset_subseteq_mono)
  then have "distinct (map e_order ?ys)"
    using assms(1) by (metis distinct_subseteq_mset th_inv_def)
  moreover have "length ?ys \<le> length (es h)" by (simp add: es_hard_cull)
  ultimately show "th_inv (fst (hard_cull h pos))"
    using assms(1) sub by (auto simp: th_inv_def age_def)
qed


lemma cull_culled: "th_inv h \<Longrightarrow> culled emp h (fst (cull emp dtor h s))"
proof (induction emp dtor h s rule: cull.induct)
  case (1 emp dtor h s)
  show ?case
  proof (cases "length (es h) \<noteq> 0 \<and> emp s (e_value (es h ! 0))")
    case True
    obtain h' dead where c: "hard_cull h 0 = (h', dead)" by force
    note step = hard_cull_inv [OF "1.prems", of 0, unfolded c fst_conv snd_conv]
    have "culled emp h h'"
      using step True hard_cull_fields [of h 0, unfolded c] insert_DiffM2 [of "es h ! 0" "mset (es h)"]
      by (auto simp: culled_def intro!: exI [of _ "{#es h ! 0#}"])
    moreover have "culled emp h' (fst (cull emp dtor h' (dtor (e_value dead) s)))"
      using "1.IH" [OF True c [symmetric] refl] step True by simp
    ultimately show ?thesis
      using True c by (subst cull.simps) (auto intro: culled_trans)
  next
    case False
    then show ?thesis using "1.prems" by (subst cull.simps) (auto simp: culled_refl)
  qed
qed

lemma cull_post:
  "let (h', s') = cull emp dtor h s in es h' = [] \<or> \<not> emp s' (e_value (es h' ! 0))"
proof (induction emp dtor h s rule: cull.induct)
  case (1 emp dtor h s)
  obtain h' dead where c: "hard_cull h 0 = (h', dead)" by force
  show ?case
    using "1.IH" [OF _ c [symmetric] refl] by (subst cull.simps) (auto simp: Let_def c)
qed

lemma emplace_cull_pos:
  assumes "32 \<le> length (es h)" "length (es h) < 2 ^ 30"
  shows "unat (cull_rand h mod of_nat (length (es h))) < length (es h)"
proof -
  have "unat (of_nat (length (es h)) :: u32) = length (es h)"
    using assms by (simp add: unat_of_nat)
  moreover have "0 < length (es h)" using assms by linarith
  ultimately show ?thesis by (simp add: unat_mod_distrib del: length_greater_0_conv)
qed

lemma th_inv_rand [simp]: "th_inv (h\<lparr>cull_rand := r\<rparr>) = th_inv h"
  by (simp add: th_inv_def age_def)

lemma emplace_cull_culled:
  "th_inv h \<Longrightarrow> length (es h) < 2 ^ 30 \<Longrightarrow> culled emp h (fst (emplace_cull emp dtor h s))"
proof (induction emp dtor h s rule: emplace_cull.induct)
  case (1 emp dtor h s)
  define pos where "pos = unat (cull_rand h mod of_nat (length (es h)))"
  define h1 where "h1 = h\<lparr>cull_rand := cull_rand h * 1664525 + 1013904223\<rparr>"
  have h1: "th_inv h1" "es h1 = es h" "order_next h1 = order_next h" "capacity h1 = capacity h"
    using 1 by (simp_all add: h1_def)
  then have c1: "culled emp h h1" by (auto simp: culled_def intro: exI [of _ "{#}"])
  show ?case
  proof (cases "32 \<le> length (es h) \<and> emp s (e_value (es h ! pos))")
    case True
    obtain h' dead where c: "hard_cull h1 pos = (h', dead)" by force
    have pos: "pos < length (es h1)"
      using emplace_cull_pos [of h] True 1 h1 by (simp add: pos_def)
    note step = hard_cull_inv [OF h1(1) pos, unfolded c fst_conv snd_conv]
    have "culled emp h1 h'"
      using step True h1 pos hard_cull_fields [of h1 pos, unfolded c]
        insert_DiffM2 [of "es h ! pos" "mset (es h)"]
      by (auto simp: culled_def intro!: exI [of _ "{#es h ! pos#}"])
    moreover have "length (es h') < 2 ^ 30"
      using "1.prems" es_hard_cull [of h1 pos, unfolded c] h1 by simp
    then have "culled emp h' (fst (emplace_cull emp dtor h' (dtor (e_value dead) s)))"
      using "1.IH" [of pos h1 "(h', dead)" h' dead] step(1) True c h1 by (simp add: pos_def h1_def)
    ultimately show ?thesis
      using True c c1 by (subst emplace_cull.simps) (auto simp: Let_def pos_def h1_def intro: culled_trans)
  next
    case False
    then show ?thesis
      using 1 c1 culled_refl by (subst emplace_cull.simps) (auto simp: Let_def pos_def h1_def)
  qed
qed


subsection \<open>Insertion\<close>

lemma order_fresh:
  assumes "age h e < 2 ^ 31 - 1"
  shows "unat (order_next h + 1 - e_order e) = age h e + 1"
proof -
  have "order_next h + 1 - e_order e = (order_next h - e_order e) + 1" by simp
  moreover have "unat ((order_next h - e_order e) + 1) = age h e + 1"
    using assms by (simp add: age_def unat_word_ariths)
  ultimately show ?thesis by (simp only:)
qed

lemma snoc_hole:
  assumes "heap_above k xs UNIV"
  shows "heap_above k (xs @ [e]) (- {length xs}) \<and> heap_bridge k (xs @ [e]) (length xs)"
proof -
  have "i div 4 = length xs \<Longrightarrow> i < Suc (length xs) \<Longrightarrow> length xs = 0" for i :: nat
    by linarith
  with assms show ?thesis
    by (auto simp: heap_above_def heap_bridge_def nth_append)
qed

lemma append_inv:
  fixes h :: "'a timer_heap" and t :: int and v :: 'a
  assumes inv: "th_inv h" and room: "\<forall>e\<in>set (es h). age h e < 2 ^ 31 - 1"
    and cap: "length (es h) < unat (capacity h)"
  defines "e \<equiv> \<lparr>e_when = t, e_order = order_next h + 1, e_value = v\<rparr>"
  defines "h' \<equiv> h\<lparr>order_next := order_next h + 1, es := sift_up (es h @ [e]) (length (es h))\<rparr>"
  shows "th_inv h' \<and> mset (es h') = add_mset e (mset (es h))"
proof -
  have age': "age h' x = unat (order_next h + 1 - e_order x)" for x by (simp add: age_def h'_def)
  have win: "\<forall>x\<in>set (es h @ [e]). age h' x < 2 ^ 31"
    using room by (auto simp: age' e_def order_fresh [unfolded One_nat_def])
  note k = keyed_window [OF win]
  have "heap_above (th_key h') (es h) UNIV"
    using inv heap_ok_above keyed_subset [OF k] by (metis Un_upper1 set_append th_inv_def)
  from sift_up_heap [OF k _ conjunct1 [OF snoc_hole [OF this]] conjunct2 [OF snoc_hole [OF this]]]
  have up: "heap_above (th_key h') (es h') UNIV" and ms: "mset (es h') = mset (es h @ [e])"
    by (simp_all add: h'_def)
  have st: "set (es h') = set (es h @ [e])" using ms by (metis set_mset_mset)
  have "e_order e \<notin> e_order ` set (es h)"
    using room order_fresh by (force simp: e_def)
  then have "distinct (map e_order (es h @ [e]))" using inv by (simp add: th_inv_def)
  then have "distinct (map e_order (es h'))"
    using ms by (metis distinct_subseteq_mset mset_map subset_mset.order_refl)
  moreover have "length (es h') \<le> unat (capacity h')"
    using cap mset_eq_length [OF ms] by (simp add: h'_def)
  moreover have "heap_ok (es h')"
    using up st k heap_ok_above keyed_subset by (metis subset_refl)
  ultimately show ?thesis using win st ms by (simp add: th_inv_def)
qed


definition th_new_element :: "int \<Rightarrow> 'a \<Rightarrow> 'a timer_heap \<Rightarrow> 'a element" where
  "th_new_element t v h = \<lparr>e_when = t, e_order = order_next h + 1, e_value = v\<rparr>"

lemma expand_cap:
  assumes "length (es h) \<le> unat (capacity h)" "length (es h) < 2 ^ 30"
  defines "h' \<equiv> (if of_nat (length (es h)) = capacity h then expand h else h)"
  shows "length (es h) < unat (capacity h')"
proof (cases "of_nat (length (es h)) = capacity h")
  case True
  then have "unat (capacity h) = length (es h)"
    using assms(2) unat_of_nat [of "length (es h)", where 'a = 32] by simp
  with True assms(2) show ?thesis
    by (auto simp: h'_def expand_def unat_word_ariths unat_eq_zero)
next
  case False
  then have "length (es h) \<noteq> unat (capacity h)" by auto
  with assms(1) False show ?thesis by (simp add: h'_def)
qed

lemma emplace_unfold:
  assumes "emplace_cull emp dtor h s = (h1, s1)"
  defines "h2 \<equiv> (if of_nat (length (es h1)) = capacity h1 then expand h1 else h1)"
  shows "emplace emp dtor t v h s =
    (h2\<lparr>order_next := order_next h2 + 1,
        es := sift_up (es h2 @ [th_new_element t v h2]) (length (es h2))\<rparr>, s1)"
  using assms by (simp add: emplace_def Let_def th_new_element_def expand_def)

lemma emplace_full:
  assumes "th_inv h" "th_room h"
  shows "th_inv (fst (emplace emp dtor t v h s)) \<and>
    (\<exists>dead. mset (es (fst (emplace emp dtor t v h s))) + dead = add_mset (th_new_element t v h) (mset (es h)) \<and>
       (\<forall>d\<in>#dead. \<exists>s. emp s (e_value d)))"
proof -
  obtain h1 s1 where c: "emplace_cull emp dtor h s = (h1, s1)" by force
  have cull: "culled emp h h1"
    using emplace_cull_culled [of h emp dtor s] assms c by (simp add: th_room_def)
  define h2 where "h2 = (if of_nat (length (es h1)) = capacity h1 then expand h1 else h1)"
  have h2: "es h2 = es h1" "order_next h2 = order_next h1"
    by (simp_all add: h2_def expand_def)
  have inv1: "th_inv h1" and ord: "order_next h1 = order_next h" using cull by (auto simp: culled_def)
  obtain dead where dead: "mset (es h) = mset (es h1) + dead" "\<forall>d\<in>#dead. \<exists>s. emp s (e_value d)"
    using cull by (auto simp: culled_def)
  have len: "length (es h1) < 2 ^ 30"
    using arg_cong [OF dead(1), of size] assms(2) by (simp add: th_room_def)
  have cap: "length (es h2) < unat (capacity h2)"
    using expand_cap [of h1] inv1 len h2 by (simp add: th_inv_def h2_def)
  then have inv2: "th_inv h2"
    using inv1 h2 by (simp add: th_inv_def age_def)
  have room: "\<forall>e\<in>set (es h2). age h2 e < 2 ^ 31 - 1"
    using culled_subset [OF cull] assms(2) h2 ord by (auto simp: th_room_def age_def)
  from append_inv [OF inv2 room cap, of t v] show ?thesis
    unfolding emplace_unfold [OF c, folded h2_def] using dead h2 ord
    by (auto simp: th_new_element_def intro!: exI [of _ dead])
qed


subsection \<open>The heap is a priority queue\<close>

lemma th_key_inj:
  assumes "th_inv h" "e \<in> set (es h)" "f \<in> set (es h)" "th_key h e = th_key h f"
  shows "e = f"
proof -
  have "age h e < 2 ^ 31" "age h f < 2 ^ 31" using assms by (auto simp: th_inv_def)
  then have "age h e = age h f" using assms(4) by (auto simp: th_key_def)
  then have "order_next h - e_order e = order_next h - e_order f"
    unfolding age_def by (rule unsigned_word_eqI)
  then have "e_order e = e_order f" by simp
  then show ?thesis using assms by (metis inj_onD distinct_map th_inv_def)
qed

interpretation th: timed_queue th_inv "\<lambda>h. mset (es h)" th_pop th_key
proof (unfold_locales, goal_cases)
  case (1 q)
  then show ?case by (simp add: th_pop_def hard_cull_inv)
next
  case (2 q)
  then show ?case using hard_cull_inv [of q 0] by (simp add: th_pop_def)
next
  case (3 q e)
  then obtain i where i: "i < length (es q)" "e = es q ! i" by (auto simp: in_set_conv_nth)
  then have "0 < length (es q)" by linarith
  with 3 i show ?case
    using heap_root_least [of "th_key q" "es q" i] th_inv_keyed [of q] hard_cull_inv(3) [of q 0]
    by (auto simp: th_pop_def)
next
  case (4 q)
  then show ?case by (auto simp: th_key_def age_def th_pop_def fun_eq_iff)
qed

text \<open>All elements in the order in which repeated \<^verbatim>\<open>pop()\<close> removes them.\<close>

definition th_drain :: "'a timer_heap \<Rightarrow> 'a element list" where
  "th_drain h = pop_n th_pop (length (es h)) h"

text \<open>
  C7: Popping a timer heap until it is empty removes every element exactly once, by
  increasing expiration time, and removes timers with the same expiration time in the order
  in which they were inserted (a larger age is an earlier insertion).
\<close>

theorem th_drain_order:
  assumes "th_inv h"
  shows "mset (th_drain h) = mset (es h) \<and>
    sorted_wrt (\<lambda>e f. e_when e < e_when f \<or> (e_when e = e_when f \<and> age h f < age h e)) (th_drain h)"
proof -
  have "sorted (map (th_key h) (th_drain h))" and ms: "mset (th_drain h) = mset (es h)"
    using th.pop_n_sorted [OF assms, of "length (es h)"] by (simp_all add: th_drain_def)
  moreover have "distinct (es h)" using assms by (simp add: th_inv_def distinct_map)
  then have "distinct (th_drain h)" using ms distinct_subseteq_mset by (metis subset_mset.order_refl)
  moreover have "inj_on (th_key h) (set (th_drain h))"
    using th_key_inj [OF assms] ms by (metis inj_onI set_mset_mset)
  ultimately have "sorted_wrt (<) (map (th_key h) (th_drain h))"
    by (simp add: strict_sorted_iff distinct_map)
  then have "sorted_wrt (\<lambda>e f. th_key h e < th_key h f) (th_drain h)" by (simp add: sorted_wrt_map)
  then have "sorted_wrt (\<lambda>e f. e_when e < e_when f \<or> (e_when e = e_when f \<and> age h f < age h e)) (th_drain h)"
    by (rule sorted_wrt_mono_rel [rotated]) (auto simp: th_key_def less_prod_def)
  with ms show ?thesis by simp
qed


text \<open>A heap whose insertion counter has wrapped: the timer numbered 4294967295 is the older one.\<close>

definition th_sample :: "nat timer_heap" where
  "th_sample = \<lparr>es = [\<lparr>e_when = 5, e_order = 4294967295, e_value = 10\<rparr>,
                      \<lparr>e_when = 5, e_order = 1, e_value = 20\<rparr>],
                capacity = 31, order_next = 1, cull_rand = 8173\<rparr>"

lemma th_sample_ok: "th_inv th_sample" "th_room th_sample"
  by (simp_all add: th_sample_def th_inv_def th_room_def heap_ok_def age_def less_Suc_eq
      element_less_def ci_compare_def)

lemma th_sample_drain: "map e_value (th_drain th_sample) = [10, 20]"
  by (simp add: th_drain_def th_sample_def numeral_2_eq_2 th_pop_def hard_cull_def hard_cull_es_def
      Let_def swap_slots_def sift_down.simps smallest_child_def heap_first_child_def
      heap_last_child_def arity_def)

theorem th_drain_order_witness:
  "mset (th_drain th_sample) = mset (es th_sample) \<and> map e_value (th_drain th_sample) = [10, 20]"
  using th_drain_order [OF th_sample_ok(1)] th_sample_drain by simp

text \<open>
  C20: \<^verbatim>\<open>timer_heap::emplace\<close> keeps the heap invariant, adds the new timer, and loses no other
  timer but ones whose value was empty, whatever the random culling removes. The hypothesis
  \<open>th_room\<close> is that no resident timer has seen \<open>2 ^ 31 - 1\<close> later insertions and that the
  heap has fewer than \<open>2 ^ 30\<close> timers.
\<close>

theorem emplace_correct:
  assumes "th_inv h" "th_room h"
  shows "th_inv (fst (emplace emp dtor t v h s)) \<and>
    (\<exists>dead. mset (es (fst (emplace emp dtor t v h s))) + dead =
        add_mset \<lparr>e_when = t, e_order = order_next h + 1, e_value = v\<rparr> (mset (es h)) \<and>
      (\<forall>d\<in>#dead. \<exists>s. emp s (e_value d)))"
  using emplace_full [OF assms] by (simp add: th_new_element_def)

theorem emplace_correct_witness:
  "th_inv (fst (emplace (\<lambda>_ _. False) (\<lambda>_ s. s) 4 30 th_sample ()))"
  by (rule conjunct1 [OF emplace_correct [OF th_sample_ok]])

text \<open>
  \<^verbatim>\<open>timer_heap::hard_cull(pos)\<close> removes exactly the element at \<^verbatim>\<open>pos\<close>, whatever the
  position, and keeps the heap invariant; \<^verbatim>\<open>pop()\<close> is the case of the root.
\<close>

theorem hard_cull_correct:
  assumes "th_inv h" "pos < length (es h)"
  shows "th_inv (fst (hard_cull h pos)) \<and> snd (hard_cull h pos) = es h ! pos \<and>
    add_mset (es h ! pos) (mset (es (fst (hard_cull h pos)))) = mset (es h)"
  using hard_cull_inv [OF assms] assms(2) by simp

theorem hard_cull_correct_witness: "th_inv (fst (hard_cull th_sample 1))"
proof -
  have "(1::nat) < length (es th_sample)" by (simp add: th_sample_def)
  from hard_cull_correct [OF th_sample_ok(1) this] show ?thesis by simp
qed

text \<open>
  \<^verbatim>\<open>timer_heap::cull\<close> stops (the definition is total), removes nothing but timers whose
  value was empty, and leaves a heap that is empty or whose root is not empty: a driver that
  culls before it looks at \<^verbatim>\<open>top_time()\<close> never waits for a dead timer.
\<close>

theorem cull_correct:
  assumes "th_inv h" and "cull emp dtor h s = (h', s')"
  shows "th_inv h' \<and> (es h' = [] \<or> \<not> emp s' (e_value (es h' ! 0))) \<and>
    (\<exists>dead. mset (es h) = mset (es h') + dead \<and> (\<forall>d\<in>#dead. \<exists>s. emp s (e_value d)))"
  using cull_culled [OF assms(1), of emp dtor s] cull_post [of emp dtor h s] assms(2)
  by (simp add: culled_def)

theorem cull_correct_witness:
  "\<exists>h'. cull (\<lambda>_ v. v = (10::nat)) (\<lambda>_ s. s) th_sample () = (h', ()) \<and> th_inv h' \<and>
    map e_value (es h') = [20]"
proof -
  have c: "cull (\<lambda>_ v. v = 10) (\<lambda>_ s. s) th_sample () =
    (th_sample\<lparr>es := [\<lparr>e_when = 5, e_order = 1, e_value = 20\<rparr>]\<rparr>, ())"
    by (simp add: cull.simps th_sample_def hard_cull_def hard_cull_es_def
      Let_def swap_slots_def sift_down.simps smallest_child_def heap_first_child_def
      heap_last_child_def arity_def)
  from cull_correct [OF th_sample_ok(1) this] show ?thesis unfolding c by simp
qed

subsection \<open>Index arithmetic at 32 bits\<close>

text \<open>The index functions as the source computes them, on \<^verbatim>\<open>unsigned\<close>.\<close>

definition heap_parent_u32 :: "u32 \<Rightarrow> u32" where
  "heap_parent_u32 i = (i - (if arity = 2 then 1 else 0)) div of_nat arity"

definition heap_first_child_u32 :: "u32 \<Rightarrow> u32" where
  "heap_first_child_u32 i = i * of_nat arity + (if arity = 2 \<or> i = 0 then 1 else 0)"

definition heap_last_child_u32 :: "u32 \<Rightarrow> u32 \<Rightarrow> u32" where
  "heap_last_child_u32 n i =
     (let p = i * of_nat arity + of_nat arity + (if arity = 2 then 1 else 0)
      in if p < n then p else n)"

text \<open>
  C39: In a heap of fewer than \<open>2 ^ 30\<close> elements the 32-bit index arithmetic does not wrap:
  parent, first child and last child of a position computed on \<^verbatim>\<open>unsigned\<close> are the ones the
  loops of the model use.
\<close>

theorem index_arithmetic_u32:
  assumes "i < n" "n < 2 ^ 30"
  shows "unat (heap_parent_u32 (of_nat i)) = heap_parent i \<and>
    unat (heap_first_child_u32 (of_nat i)) = heap_first_child i \<and>
    unat (heap_last_child_u32 (of_nat n) (of_nat i)) = heap_last_child n i"
proof -
  have u: "unat (of_nat i :: u32) = i" "unat (of_nat n :: u32) = n"
    using assms by (simp_all add: unat_of_nat)
  have "(of_nat i :: u32) = 0 \<longleftrightarrow> i = 0" using u(1) unat_eq_zero [of "of_nat i :: u32"] by simp
  moreover have "unat (of_nat i * 4 + 4 :: u32) = i * 4 + 4" "unat (of_nat i * 4 :: u32) = i * 4"
    using assms u by (simp_all add: unat_word_ariths)
  moreover have "unat (of_nat i * 4 + 1 :: u32) = i * 4 + 1"
    using assms u by (simp add: unat_word_ariths)
  ultimately show ?thesis
    using u by (simp add: heap_parent_u32_def heap_first_child_u32_def heap_last_child_u32_def
        heap_first_child_def heap_last_child_def arity_def Let_def unat_div_distrib word_less_nat_alt)
qed

theorem index_arithmetic_u32_witness: "unat (heap_last_child_u32 100 (of_nat 24)) = 100"
  using index_arithmetic_u32 [of 24 100] by (simp add: heap_last_child_def arity_def)

end
