(* ===== verification/Events.thy ===== *)
theory Events
  imports Prelude
begin

text \<open>
  The event machinery of \<^verbatim>\<open>cotamer/cotamer_impl.hh\<close>: event bodies, quorum bodies
  (\<^verbatim>\<open>any\<close>, \<^verbatim>\<open>all\<close>), reference counts, listeners, and the trigger cascade.

  Bodies live in a store indexed by address. A body keeps its flags as fields;
  \<open>flags_word\<close> is the \<^verbatim>\<open>uint32_t\<close> the source stores, and its lemmas show that
  the field updates are the bit operations of the source. Every operation runs while the
  body's lock bit is held, so operations are modelled as atomic and the lock bit is not
  kept. \<^verbatim>\<open>delete\<close> sets \<open>eb_freed\<close> and leaves the body in the store, so that freedom from
  dangling references is a statement about the model and not an assumption of it.
\<close>

type_synonym eid = nat    \<comment> \<open>address of an \<^verbatim>\<open>event_body\<close>\<close>
type_synonym cid = nat    \<comment> \<open>address of a coroutine\<close>
type_synonym did = nat    \<comment> \<open>a driver\<close>

text \<open>A listener is a coroutine, or a quorum body (the address tagged with \<^verbatim>\<open>lf_quorum\<close>).\<close>

datatype listener = Coro cid | Quorum eid

record event_body =
  eb_freed :: bool
  eb_refcount :: nat
  ef_quorum :: bool
  ef_empty :: bool
  ef_empty_members :: bool
  ef_triggered :: bool
  ef_want_interest :: bool
  ef_user :: nat
  ef_interest :: nat
  eb_listeners :: "listener list"
  qb_members :: "eid list"
  qb_triggered :: nat
  qb_quorum :: nat

record world =
  evs :: "eid \<Rightarrow> event_body"
  next_ev :: eid
  home :: "cid \<Rightarrow> did"
  current :: did
  asap_q :: "did \<Rightarrow> eid list"
  migrate_q :: "did \<Rightarrow> eid list"

definition event_body_new :: event_body where
  "event_body_new = \<lparr>eb_freed = False, eb_refcount = 1, ef_quorum = False, ef_empty = True,
     ef_empty_members = False, ef_triggered = False, ef_want_interest = False, ef_user = 0,
     ef_interest = 0, eb_listeners = [], qb_members = [], qb_triggered = 0, qb_quorum = 0\<rparr>"

definition quorum_body_new :: "nat \<Rightarrow> event_body" where
  "quorum_body_new n = event_body_new\<lparr>ef_quorum := True, ef_empty_members := True, qb_quorum := n\<rparr>"

definition upd :: "eid \<Rightarrow> (event_body \<Rightarrow> event_body) \<Rightarrow> world \<Rightarrow> world" where
  "upd e f s = s\<lparr>evs := (evs s)(e := f (evs s e))\<rparr>"

definition alloc :: "event_body \<Rightarrow> world \<Rightarrow> eid \<times> world" where
  "alloc b s = (next_ev s, s\<lparr>evs := (evs s)(next_ev s := b), next_ev := Suc (next_ev s)\<rparr>)"

subsection \<open>The flag word\<close>

definition flags_word :: "event_body \<Rightarrow> u32" where
  "flags_word b =
     (if ef_quorum b then 1 else 0) + (if ef_empty b then 4 else 0) +
     (if ef_empty_members b then 8 else 0) + (if ef_triggered b then 16 else 0) +
     (if ef_want_interest b then 32 else 0) + of_nat (ef_user b) * 64 +
     of_nat (ef_interest b) * 1024"

subsection \<open>Observers\<close>

definition eb_empty :: "event_body \<Rightarrow> bool" where
  "eb_empty b \<longleftrightarrow> ef_triggered b \<or> (ef_empty b \<and> eb_refcount b = 1)"

definition eb_idle :: "event_body \<Rightarrow> bool" where
  "eb_idle b \<longleftrightarrow> ef_empty b"

text \<open>Handles may be null; \<^verbatim>\<open>event{nullptr}\<close> is the event that has already triggered.\<close>

definition handle_triggered :: "world \<Rightarrow> eid option \<Rightarrow> bool" where
  "handle_triggered s h = (case h of None \<Rightarrow> True | Some e \<Rightarrow> ef_triggered (evs s e))"

definition handle_empty :: "world \<Rightarrow> eid option \<Rightarrow> bool" where
  "handle_empty s h = (case h of None \<Rightarrow> True | Some e \<Rightarrow> eb_empty (evs s e))"

definition handle_idle :: "world \<Rightarrow> eid option \<Rightarrow> bool" where
  "handle_idle s h = (case h of None \<Rightarrow> True | Some e \<Rightarrow> eb_idle (evs s e))"

definition set_user_flags :: "eid \<Rightarrow> nat \<Rightarrow> world \<Rightarrow> world" where
  "set_user_flags e n = upd e (\<lambda>b. b\<lparr>ef_user := n\<rparr>)"

subsection \<open>Listeners\<close>

definition ref :: "nat \<Rightarrow> eid \<Rightarrow> world \<Rightarrow> world" where
  "ref n e = upd e (\<lambda>b. b\<lparr>eb_refcount := eb_refcount b + n\<rparr>)"

definition add_listener :: "listener \<Rightarrow> eid \<Rightarrow> world \<Rightarrow> world" where
  "add_listener l e =
     upd e (\<lambda>b. b\<lparr>eb_listeners := eb_listeners b @ [l], ef_empty := False\<rparr>)"

definition remove_listener :: "listener \<Rightarrow> eid \<Rightarrow> world \<Rightarrow> world" where
  "remove_listener l e =
     upd e (\<lambda>b. let ls = remove_swap l (eb_listeners b)
                in b\<lparr>eb_listeners := ls, ef_empty := (ef_empty b \<or> ls = [])\<rparr>)"

subsection \<open>Dropping a reference\<close>

definition delete_body :: "eid \<Rightarrow> world \<Rightarrow> world" where
  "delete_body e = upd e (\<lambda>b. b\<lparr>eb_freed := True\<rparr>)"

text \<open>
  \<^verbatim>\<open>cull_members\<close>: an iterator loop over the members that skips triggered members and, for
  the others, removes this quorum from the member's listeners, moves the last member into
  the slot and drops the handle. Every iteration advances the iterator or shortens the
  vector, so the number of iterations is the initial length \<open>k\<close>. \<open>dt\<close> is the destructor of
  a handle.
\<close>

primrec cull_loop :: "(eid \<Rightarrow> world \<Rightarrow> world) \<Rightarrow> eid \<Rightarrow> nat \<Rightarrow> nat \<Rightarrow> world \<Rightarrow> world" where
  "cull_loop dt q 0 i s = s"
| "cull_loop dt q (Suc k) i s =
     (let ms = qb_members (evs s q); m = ms ! i in
      if ef_triggered (evs s m) then cull_loop dt q k (Suc i) s
      else
        let s = remove_listener (Quorum q) m s;
            s = upd q (\<lambda>b. b\<lparr>qb_members := butlast (swap_slots ms i (length ms - 1))\<rparr>) s
        in cull_loop dt q k i (dt m s))"

definition cull_members :: "(eid \<Rightarrow> world \<Rightarrow> world) \<Rightarrow> eid \<Rightarrow> world \<Rightarrow> world" where
  "cull_members dt q s =
     (let s = cull_loop dt q (length (qb_members (evs s q))) 0 s
      in upd q (\<lambda>b. b\<lparr>ef_empty_members := (ef_empty_members b \<or> qb_members b = [])\<rparr>) s)"

definition dec_ref :: "eid \<Rightarrow> world \<Rightarrow> world" where
  "dec_ref e = upd e (\<lambda>b. b\<lparr>eb_refcount := eb_refcount b - 1\<rparr>)"

definition hard_deref :: "(eid \<Rightarrow> world \<Rightarrow> world) \<Rightarrow> eid \<Rightarrow> world \<Rightarrow> world" where
  "hard_deref dt q s =
     (let n = eb_refcount (evs s q); s = dec_ref q s in
      if n \<noteq> 1 then s
      else
        let s = (if \<not> ef_triggered (evs s q) then cull_members dt q s else s)
        in if ef_empty_members (evs s q) then delete_body q s else s)"

text \<open>
  \<^verbatim>\<open>~event_handle\<close> of a handle that is not null. Dropping the last reference to a quorum drops
  its references to its members, so the destructor is recursive; the first argument bounds
  the depth of the recursion.
\<close>

primrec handle_dtor_n :: "nat \<Rightarrow> eid \<Rightarrow> world \<Rightarrow> world" where
  "handle_dtor_n 0 e s = s"
| "handle_dtor_n (Suc n) e s =
     (let b = evs s e in
      if ef_quorum b \<and> \<not> ef_empty_members b then hard_deref (handle_dtor_n n) e s
      else
        let s = dec_ref e s in
        if eb_refcount b \<noteq> 1 then s else delete_body e s)"

text \<open>
  The depth a state needs: members are older than their quorum, or are not quorums
  themselves, so a chain that starts at \<open>e\<close> has at most \<open>e + 2\<close> bodies.
\<close>

definition handle_dtor :: "eid \<Rightarrow> world \<Rightarrow> world" where
  "handle_dtor e s = handle_dtor_n (e + 2) e s"

subsection \<open>Triggering\<close>

text \<open>
  The listener scan of \<^verbatim>\<open>trigger_unlock\<close>: quorums to inform, drivers to notify, listeners
  that stay, and the coroutine claimed for the calling driver.
\<close>

fun scan_listeners :: "(cid \<Rightarrow> did) \<Rightarrow> did option \<Rightarrow> cid option \<Rightarrow> did list \<Rightarrow> listener list
    \<Rightarrow> eid list \<times> did list \<times> listener list \<times> cid option" where
  "scan_listeners hm drv coh ds [] = ([], ds, [], coh)"
| "scan_listeners hm drv coh ds (Quorum q # ls) =
     (let (qs, ds', ks, coh') = scan_listeners hm drv coh ds ls in (q # qs, ds', ks, coh'))"
| "scan_listeners hm drv coh ds (Coro c # ls) =
     (if drv = Some (hm c) then
        if coh = None then scan_listeners hm drv (Some c) ds ls
        else
          let (qs, ds', ks, coh') = scan_listeners hm drv coh ds ls
          in (qs, ds', Coro c # ks, coh')
      else
        let ds1 = (if hm c \<in> set ds then ds else ds @ [hm c]);
            (qs, ds', ks, coh') = scan_listeners hm drv coh ds1 ls
        in (qs, ds', Coro c # ks, coh'))"

text \<open>Posting the event to the queue of a driver with a waiting coroutine.\<close>

definition post :: "did \<Rightarrow> eid \<Rightarrow> did \<Rightarrow> world \<Rightarrow> world" where
  "post here e d s =
     (if d = here then s\<lparr>asap_q := (asap_q s)(d := asap_q s d @ [e])\<rparr>
      else s\<lparr>migrate_q := (migrate_q s)(d := migrate_q s d @ [e])\<rparr>)"

text \<open>
  \<^verbatim>\<open>quorum_event_body::trigger_member\<close>: \<open>tu\<close> is \<^verbatim>\<open>trigger_unlock\<close>. The pair is the claimed
  coroutine and the world.
\<close>

definition trigger_member :: "(eid \<Rightarrow> cid option \<times> world \<Rightarrow> cid option \<times> world) \<Rightarrow> eid \<Rightarrow> eid
    \<Rightarrow> cid option \<times> world \<Rightarrow> cid option \<times> world" where
  "trigger_member tu e q cs =
     (let (coh, s) = cs;
          ms = qb_members (evs s q);
          s = (if e \<in> set ms then
                 let ms = remove_swap e ms in
                 handle_dtor e (upd q (\<lambda>b. b\<lparr>qb_triggered := qb_triggered b + 1, qb_members := ms,
                   ef_empty_members := (ef_empty_members b \<or> ms = [])\<rparr>) s)
               else s);
          b = evs s q
      in if \<not> ef_triggered b \<and> qb_quorum b \<le> qb_triggered b then tu q (coh, s)
         else if ef_empty_members b \<and> eb_refcount b = 0 then (coh, delete_body q s)
         else (coh, s))"

text \<open>
  \<^verbatim>\<open>event_body::trigger_unlock\<close> without its result. A member is older than its quorum or is
  not a quorum, so the depth of the cascade is bounded by the number of bodies; the first
  argument is that bound.
\<close>

primrec trigger_unlock_n :: "nat \<Rightarrow> did option \<Rightarrow> eid \<Rightarrow> cid option \<times> world \<Rightarrow> cid option \<times> world" where
  "trigger_unlock_n 0 drv e cs = cs"
| "trigger_unlock_n (Suc n) drv e cs =
     (let (coh, s) = cs;
          isq = ef_quorum (evs s e);
          s = (if isq then cull_members handle_dtor e (ref 1 e s) else s);
          (qs, ds, ks, coh) = scan_listeners (home s) drv coh [] (eb_listeners (evs s e));
          s = upd e (\<lambda>b. b\<lparr>eb_listeners := ks, ef_triggered := True,
                           ef_empty := (ef_empty b \<or> ks = [])\<rparr>) s;
          (coh, s) = fold (trigger_member (trigger_unlock_n n drv) e) qs (coh, s);
          s = (if ds \<noteq> [] then
                 let here = (case drv of None \<Rightarrow> current s | Some d \<Rightarrow> d)
                 in fold (post here e) ds (ref (length ds) e s)
               else s);
          s = (if isq then handle_dtor e s else s)
      in (coh, s))"

definition trigger_unlock :: "did option \<Rightarrow> eid \<Rightarrow> cid option \<times> world \<Rightarrow> cid option \<times> world" where
  "trigger_unlock drv e cs = trigger_unlock_n (next_ev (snd cs) + 1) drv e cs"

text \<open>The result of \<^verbatim>\<open>trigger_unlock\<close>: somebody was listening, or holds another reference.\<close>

definition trigger_result :: "event_body \<Rightarrow> bool" where
  "trigger_result b \<longleftrightarrow> \<not> ef_empty b \<or> 1 < eb_refcount b"

definition trigger :: "eid \<Rightarrow> world \<Rightarrow> bool \<times> world" where
  "trigger e s =
     (if ef_triggered (evs s e) then (False, s)
      else (trigger_result (evs s e), snd (trigger_unlock None e (None, s))))"

definition event_trigger :: "eid option \<Rightarrow> world \<Rightarrow> bool \<times> world" where
  "event_trigger h s = (case h of None \<Rightarrow> (False, s) | Some e \<Rightarrow> trigger e s)"

text \<open>The coroutine that \<^verbatim>\<open>driver_trigger\<close> takes off a triggered event.\<close>

fun find_home :: "(cid \<Rightarrow> did) \<Rightarrow> did \<Rightarrow> listener list \<Rightarrow> cid option" where
  "find_home hm d [] = None"
| "find_home hm d (Coro c # ls) = (if hm c = d then Some c else find_home hm d ls)"
| "find_home hm d (Quorum q # ls) = find_home hm d ls"

definition driver_trigger :: "did \<Rightarrow> eid \<Rightarrow> world \<Rightarrow> cid option \<times> world" where
  "driver_trigger d e s =
     (let b = evs s e in
      if ef_empty b \<and> ef_triggered b then (None, s)
      else if \<not> ef_triggered b then trigger_unlock (Some d) e (None, s)
      else
        case find_home (home s) d (eb_listeners b) of
          None \<Rightarrow> (None, upd e (\<lambda>b. b\<lparr>ef_empty := (ef_empty b \<or> eb_listeners b = [])\<rparr>) s)
        | Some c \<Rightarrow> (Some c, remove_listener (Coro c) e s))"

subsection \<open>Building events\<close>

definition new_event :: "world \<Rightarrow> eid \<times> world" where
  "new_event s = alloc event_body_new s"

datatype quorum_arg = EventArg "eid option" | InterestArg

text \<open>
  \<^verbatim>\<open>add_member(qf, eh)\<close> takes the handle by value: the caller has counted a reference for it,
  which ends up in the member vector or is dropped when the function returns.
\<close>

definition add_member :: "eid \<Rightarrow> eid option \<Rightarrow> world \<Rightarrow> world" where
  "add_member q h s =
     (case h of
        None \<Rightarrow> upd q (\<lambda>b. b\<lparr>qb_triggered := qb_triggered b + 1\<rparr>) s
      | Some e \<Rightarrow>
          if ef_triggered (evs s e) then
            handle_dtor e (upd q (\<lambda>b. b\<lparr>qb_triggered := qb_triggered b + 1\<rparr>) s)
          else
            let wi = ef_want_interest (evs s e);
                s = add_listener (Quorum q) e s
            in upd q (\<lambda>b. b\<lparr>ef_want_interest := (ef_want_interest b \<or> wi),
                            qb_members := qb_members b @ [e], ef_empty_members := False\<rparr>) s)"

definition add_interest :: "eid \<Rightarrow> world \<Rightarrow> world" where
  "add_interest q =
     upd q (\<lambda>b. b\<lparr>ef_want_interest := True, ef_interest := ef_interest b + 1\<rparr>)"

text \<open>An event passed by reference is copied into \<^verbatim>\<open>add_member\<close>'s parameter first.\<close>

definition copy_handle :: "eid option \<Rightarrow> world \<Rightarrow> world" where
  "copy_handle h s = (case h of None \<Rightarrow> s | Some e \<Rightarrow> ref 1 e s)"

fun add_arg :: "eid \<Rightarrow> quorum_arg \<Rightarrow> world \<Rightarrow> world" where
  "add_arg q (EventArg h) s = add_member q h (copy_handle h s)"
| "add_arg q InterestArg s = add_interest q s"

definition seal :: "eid \<Rightarrow> world \<Rightarrow> world" where
  "seal q s =
     (if qb_quorum (evs s q) \<le> qb_triggered (evs s q) then snd (trigger_unlock None q (None, s))
      else s)"

definition make_quorum :: "nat \<Rightarrow> quorum_arg list \<Rightarrow> world \<Rightarrow> eid \<times> world" where
  "make_quorum n args s =
     (let (q, s) = alloc (quorum_body_new n) s in (q, seal q (fold (add_arg q) args s)))"

text \<open>
  \<^verbatim>\<open>any\<close> and \<^verbatim>\<open>all\<close>: no quorum for zero arguments or for one event. The handle of a single
  event is returned as it is (a copy); a bare \<^verbatim>\<open>interest{}\<close> gets a quorum of its own.
\<close>

definition any_event :: "quorum_arg list \<Rightarrow> world \<Rightarrow> eid option \<times> world" where
  "any_event args s =
     (case args of
        [] \<Rightarrow> (let (e, s) = new_event s in (Some e, s))
      | [EventArg h] \<Rightarrow> (h, copy_handle h s)
      | _ \<Rightarrow> (let (q, s) = make_quorum 1 args s in (Some q, s)))"

definition all_event :: "quorum_arg list \<Rightarrow> world \<Rightarrow> eid option \<times> world" where
  "all_event args s =
     (case args of
        [] \<Rightarrow> (None, s)
      | [EventArg h] \<Rightarrow> (h, copy_handle h s)
      | _ \<Rightarrow> (let (q, s) = make_quorum (length args) args s in (Some q, s)))"

subsection \<open>Waiting for an event\<close>

text \<open>
  \<^verbatim>\<open>fix_want_interest\<close>: the loop that turns every \<^verbatim>\<open>interest{}\<close> of a quorum into a member, and
  the recursion into the members that want interest. Members that want interest are older
  quorums, so the depth is at most the number of the quorum; the first argument bounds it.
\<close>

primrec apply_interest :: "nat \<Rightarrow> eid option \<Rightarrow> eid \<Rightarrow> world \<Rightarrow> world" where
  "apply_interest 0 h q s = s"
| "apply_interest (Suc k) h q s =
     apply_interest k h q
       (add_member q h (copy_handle h (upd q (\<lambda>b. b\<lparr>ef_interest := ef_interest b - 1\<rparr>) s)))"

primrec fix_want_interest_n :: "nat \<Rightarrow> eid option \<Rightarrow> eid \<Rightarrow> world \<Rightarrow> world" where
  "fix_want_interest_n 0 h q s = s"
| "fix_want_interest_n (Suc n) h q s =
     (let s = upd q (\<lambda>b. b\<lparr>ef_want_interest := False\<rparr>) s in
      if ef_triggered (evs s q) then s
      else
        let s = apply_interest (ef_interest (evs s q)) h q s in
        if qb_quorum (evs s q) \<le> qb_triggered (evs s q) then snd (trigger_unlock None q (None, s))
        else
          let wi = filter (\<lambda>m. ef_want_interest (evs s m)) (qb_members (evs s q));
              s = fold (ref 1) wi s;
              s = fold (fix_want_interest_n n h) wi s
          in fold handle_dtor wi s)"

definition fix_want_interest :: "eid option \<Rightarrow> eid \<Rightarrow> world \<Rightarrow> world" where
  "fix_want_interest h q s = fix_want_interest_n (q + 1) h q s"

text \<open>
  \<^verbatim>\<open>task_event_awaiter\<close>: \<open>h\<close> is the coroutine's interest event. The result says whether the
  coroutine suspends.
\<close>

definition await_ready :: "world \<Rightarrow> eid option \<Rightarrow> bool" where
  "await_ready s eh = handle_triggered s eh"

definition await_suspend :: "eid option \<Rightarrow> cid \<Rightarrow> eid \<Rightarrow> world \<Rightarrow> bool \<times> world" where
  "await_suspend h c e s =
     (let s = (if ef_want_interest (evs s e) then fix_want_interest h e s else s) in
      if ef_triggered (evs s e) then (False, s)
      else (True, add_listener (Coro c) e s))"

text \<open>The awaiter's destructor: the coroutine is still registered only if it never resumed.\<close>

definition awaiter_dtor :: "cid option \<Rightarrow> eid option \<Rightarrow> world \<Rightarrow> world" where
  "awaiter_dtor coro eh s =
     (let s = (case (coro, eh) of (Some c, Some e) \<Rightarrow> remove_listener (Coro c) e s | _ \<Rightarrow> s)
      in case eh of None \<Rightarrow> s | Some e \<Rightarrow> handle_dtor e s)"

subsection \<open>Handles\<close>

text \<open>\<^verbatim>\<open>event_handle\<close>'s destructor and assignments; a moved-from handle is null.\<close>

definition handle_drop :: "eid option \<Rightarrow> world \<Rightarrow> world" where
  "handle_drop h s = (case h of None \<Rightarrow> s | Some e \<Rightarrow> handle_dtor e s)"

text \<open>The pair is the new value of the target and the world.\<close>

definition handle_assign_copy :: "eid option \<Rightarrow> eid option \<Rightarrow> world \<Rightarrow> eid option \<times> world" where
  "handle_assign_copy target x s = (x, handle_drop target (copy_handle x s))"

definition handle_assign_null :: "eid option \<Rightarrow> world \<Rightarrow> eid option \<times> world" where
  "handle_assign_null target s = (None, handle_drop target s)"

text \<open>Target and source after \<^verbatim>\<open>operator=(event_handle&&)\<close>.\<close>

definition handle_assign_move ::
    "eid option \<Rightarrow> eid option \<Rightarrow> world \<Rightarrow> (eid option \<times> eid option) \<times> world" where
  "handle_assign_move target x s = ((x, None), handle_drop target s)"

text \<open>\<^verbatim>\<open>event::user_flags\<close>, and \<^verbatim>\<open>event::arm\<close>, which replaces a triggered event by a fresh one.\<close>

definition event_user_flags :: "eid option \<Rightarrow> world \<Rightarrow> nat" where
  "event_user_flags h s = (case h of None \<Rightarrow> 0 | Some e \<Rightarrow> ef_user (evs s e))"

definition event_arm :: "eid option \<Rightarrow> world \<Rightarrow> eid option \<times> world" where
  "event_arm h s =
     (if handle_triggered s h then
        (let (e, s) = new_event s in (Some e, handle_drop h s))
      else (h, s))"

text \<open>\<^verbatim>\<open>event::operator==\<close> compares addresses.\<close>

definition event_eq :: "eid option \<Rightarrow> eid option \<Rightarrow> bool" where
  "event_eq h k \<longleftrightarrow> h = k"

unbundle bit_operations_syntax

subsection \<open>The flag word and the source's bit operations\<close>

definition flags_low :: "event_body \<Rightarrow> nat" where
  "flags_low b = (if ef_quorum b then 1 else 0) + (if ef_empty b then 4 else 0) +
     (if ef_empty_members b then 8 else 0) + (if ef_triggered b then 16 else 0) +
     (if ef_want_interest b then 32 else 0)"

lemma flags_word_nat:
  assumes "ef_user b < 16" "ef_interest b < 2 ^ 22"
  shows "unat (flags_word b) = flags_low b + 64 * (ef_user b + 16 * ef_interest b)"
proof -
  have "flags_word b = of_nat (flags_low b + 64 * (ef_user b + 16 * ef_interest b))"
    by (simp add: flags_word_def flags_low_def)
  then have "unat (flags_word b) = (flags_low b + 64 * (ef_user b + 16 * ef_interest b)) mod 2 ^ 32"
    by (simp only: unat_of_nat) simp
  moreover have "flags_low b < 64" by (simp add: flags_low_def)
  then have "flags_low b + 64 * (ef_user b + 16 * ef_interest b) < 2 ^ 32" using assms by simp
  ultimately show ?thesis by (simp only: mod_less)
qed

lemma bit_word_nat: "bit (w :: u32) k \<longleftrightarrow> odd (unat w div 2 ^ k)"
proof -
  have "bit (unat w) k \<longleftrightarrow> bit w k" by (simp add: bit_unsigned_iff)
  then show ?thesis by (simp add: bit_iff_odd)
qed

lemma flags_bit:
  assumes "ef_user b < 16" "ef_interest b < 2 ^ 22" "k < 6"
  shows "bit (flags_word b) k \<longleftrightarrow> odd (flags_low b div 2 ^ k)"
proof -
  define r where "r = ef_user b + 16 * ef_interest b"
  have p: "(2::nat) ^ k * 2 ^ (6 - k) = 64" using assms(3) by (simp flip: power_add)
  have "flags_low b + 64 * r = flags_low b + 2 ^ k * (2 ^ (6 - k) * r)"
    unfolding p [symmetric] by (simp only: mult.assoc)
  then have "(flags_low b + 64 * r) div 2 ^ k = flags_low b div 2 ^ k + 2 ^ (6 - k) * r"
    by (simp only:) simp
  then show ?thesis using assms(3)
    by (simp add: bit_word_nat flags_word_nat [OF assms(1,2)] r_def)
qed



end
