(* ===== verification/EventInv.thy ===== *)
theory EventInv
  imports Events
begin

text \<open>
  The invariant of the event store and its preservation by dropping a handle and by the
  trigger cascade.
\<close>

subsection \<open>Frame of a body update\<close>

lemma upd_simps [simp]:
  "evs (upd e f s) = (evs s)(e := f (evs s e))"
  "next_ev (upd e f s) = next_ev s"
  "home (upd e f s) = home s"
  "current (upd e f s) = current s"
  "asap_q (upd e f s) = asap_q s"
  "migrate_q (upd e f s) = migrate_q s"
  by (simp_all add: upd_def)

lemma post_simps [simp]:
  "evs (post h e d s) = evs s"
  "next_ev (post h e d s) = next_ev s"
  "home (post h e d s) = home s"
  "current (post h e d s) = current s"
  by (simp_all add: post_def)

subsection \<open>References\<close>

text \<open>References to \<open>m\<close> from member vectors and from driver queues.\<close>

definition mrefs :: "world \<Rightarrow> eid \<Rightarrow> nat" where
  "mrefs s m = (\<Sum>q<next_ev s. count_list (qb_members (evs s q)) m)"

definition qrefs :: "did set \<Rightarrow> world \<Rightarrow> eid \<Rightarrow> nat" where
  "qrefs D s e = (\<Sum>d\<in>D. count_list (asap_q s d) e + count_list (migrate_q s d) e)"

lemma mrefs_upd:
  assumes "q < next_ev s"
  shows "mrefs (upd q f s) m + count_list (qb_members (evs s q)) m =
         mrefs s m + count_list (qb_members (f (evs s q))) m"
proof -
  let ?g = "\<lambda>x. count_list (qb_members (evs (upd q f s) x)) m"
  let ?h = "\<lambda>x. count_list (qb_members (evs s x)) m"
  have q: "q \<in> {..<next_ev s}" using assms by simp
  have "mrefs (upd q f s) m = ?g q + (\<Sum>x\<in>{..<next_ev s} - {q}. ?g x)"
    unfolding mrefs_def by (simp only: upd_simps) (rule sum.remove [OF _ q], simp)
  moreover have "mrefs s m = ?h q + (\<Sum>x\<in>{..<next_ev s} - {q}. ?h x)"
    unfolding mrefs_def by (rule sum.remove [OF _ q]) simp
  moreover have "(\<Sum>x\<in>{..<next_ev s} - {q}. ?g x) = (\<Sum>x\<in>{..<next_ev s} - {q}. ?h x)"
    by (rule sum.cong) auto
  ultimately show ?thesis by simp
qed

lemma mrefs_upd_same [simp]:
  assumes "qb_members (f (evs s q)) = qb_members (evs s q)"
  shows "mrefs (upd q f s) m = mrefs s m"
  unfolding mrefs_def using assms by (intro sum.cong) auto

lemma qrefs_upd [simp]: "qrefs D (upd q f s) = qrefs D s"
  by (simp add: qrefs_def fun_eq_iff)

lemma mrefs_post [simp]: "mrefs (post h e d s) = mrefs s"
  by (simp add: mrefs_def fun_eq_iff)

lemma qrefs_post:
  assumes "finite D" "d \<in> D"
  shows "qrefs D (post h e d s) x = qrefs D s x + (if x = e then 1 else 0)"
proof -
  have "qrefs D t x = count_list (asap_q t d) x + count_list (migrate_q t d) x +
      (\<Sum>y\<in>D - {d}. count_list (asap_q t y) x + count_list (migrate_q t y) x)" for t
    unfolding qrefs_def using assms by (simp add: sum.remove)
  from this [of s] this [of "post h e d s"] show ?thesis
    by (auto simp: post_def intro!: sum.cong)
qed

lemma count_list_le_mrefs:
  "q < next_ev s \<Longrightarrow> count_list (qb_members (evs s q)) m \<le> mrefs s m"
  unfolding mrefs_def by (rule member_le_sum) auto

subsection \<open>The invariant\<close>

text \<open>
  The ghost state records what the program text knows and the store does not: the handles
  held outside the store, the arguments a quorum was built from (null arguments are only
  counted), the quorums triggered by an explicit call, and the drivers.
\<close>

record ghost =
  g_ext :: "eid \<Rightarrow> nat"
  g_args :: "eid \<Rightarrow> eid multiset"
  g_nulls :: "eid \<Rightarrow> nat"
  g_forced :: "eid set"
  g_drivers :: "did set"

text \<open>
  \<open>P\<close> holds the notifications a triggered event still owes to its quorums, \<open>X\<close> the bodies
  whose lock is held by an operation in progress.
\<close>

definition inv_shape :: "world \<Rightarrow> bool" where
  "inv_shape s \<longleftrightarrow>
     (\<forall>e\<ge>next_ev s. eb_listeners (evs s e) = [] \<and> qb_members (evs s e) = [] \<and>
        \<not> ef_triggered (evs s e)) \<and>
     (\<forall>q. \<forall>m\<in>set (qb_members (evs s q)).
        m < next_ev s \<and> ef_quorum (evs s q) \<and> (ef_quorum (evs s m) \<longrightarrow> m < q)) \<and>
     (\<forall>e. ef_empty (evs s e) \<longleftrightarrow> eb_listeners (evs s e) = [])"

definition inv_links :: "(eid \<times> eid) multiset \<Rightarrow> world \<Rightarrow> bool" where
  "inv_links P s \<longleftrightarrow>
     (\<forall>m q. count_list (qb_members (evs s q)) m =
            count_list (eb_listeners (evs s m)) (Quorum q) + count P (m, q)) \<and>
     (\<forall>m q. (m, q) \<in># P \<longrightarrow> ef_triggered (evs s m)) \<and>
     (\<forall>m q. ef_triggered (evs s m) \<longrightarrow> Quorum q \<notin> set (eb_listeners (evs s m))) \<and>
     (\<forall>q. ef_triggered (evs s q) \<longrightarrow> (\<forall>m\<in>set (qb_members (evs s q)). ef_triggered (evs s m)))"

definition body_ok :: "bool \<Rightarrow> event_body \<Rightarrow> bool" where
  "body_ok x b \<longleftrightarrow>
     (eb_freed b \<longrightarrow> eb_refcount b = 0 \<and> qb_members b = []) \<and>
     (\<not> x \<longrightarrow> eb_refcount b = 0 \<longrightarrow> qb_members b = [] \<longrightarrow> eb_freed b) \<and>
     (ef_empty_members b \<longrightarrow> qb_members b = []) \<and>
     (\<not> x \<longrightarrow> ef_quorum b \<longrightarrow> qb_members b = [] \<longrightarrow> ef_empty_members b)"

definition ref_ok :: "ghost \<Rightarrow> eid set \<Rightarrow> world \<Rightarrow> eid \<Rightarrow> bool" where
  "ref_ok G X s e \<longleftrightarrow>
     eb_refcount (evs s e) = mrefs s e + g_ext G e + qrefs (g_drivers G) s e \<and>
     body_ok (e \<in> X) (evs s e)"

definition inv_refs :: "ghost \<Rightarrow> eid set \<Rightarrow> world \<Rightarrow> bool" where
  "inv_refs G X s \<longleftrightarrow>
     finite (g_drivers G) \<and> range (home s) \<subseteq> g_drivers G \<and>
     (\<forall>e\<ge>next_ev s. g_ext G e = 0 \<and> qrefs (g_drivers G) s e = 0) \<and>
     (\<forall>e<next_ev s. ref_ok G X s e)"

text \<open>The number of arguments of \<open>q\<close> that have triggered.\<close>

definition fired :: "ghost \<Rightarrow> world \<Rightarrow> eid \<Rightarrow> nat" where
  "fired G s q = g_nulls G q + size (filter_mset (\<lambda>m. ef_triggered (evs s m)) (g_args G q))"

text \<open>\<open>R\<close>: the arguments that have triggered and have been counted.\<close>

definition counted :: "ghost \<Rightarrow> world \<Rightarrow> eid \<Rightarrow> eid multiset \<Rightarrow> bool" where
  "counted G s q R \<longleftrightarrow>
     mset (qb_members (evs s q)) + R \<subseteq># g_args G q \<and>
     (\<forall>m\<in>#R. ef_triggered (evs s m)) \<and>
     qb_triggered (evs s q) = g_nulls G q + size R"

definition quorum_ok :: "ghost \<Rightarrow> bool \<Rightarrow> world \<Rightarrow> eid \<Rightarrow> bool" where
  "quorum_ok G x s q \<longleftrightarrow> (ef_quorum (evs s q) \<longrightarrow>
     (\<not> x \<longrightarrow> eb_refcount (evs s q) = 0 \<longrightarrow> (\<forall>m\<in>set (qb_members (evs s q)). ef_triggered (evs s m))) \<and>
     (\<not> ef_triggered (evs s q) \<longrightarrow>
        (\<exists>R. counted G s q R \<and>
           (\<not> x \<longrightarrow> 0 < eb_refcount (evs s q) \<longrightarrow>
              mset (qb_members (evs s q)) + R = g_args G q)) \<and>
        (\<not> x \<longrightarrow> qb_triggered (evs s q) < qb_quorum (evs s q))) \<and>
     (ef_triggered (evs s q) \<longrightarrow> q \<in> g_forced G \<or> qb_quorum (evs s q) \<le> fired G s q))"

definition inv_quorum :: "ghost \<Rightarrow> eid set \<Rightarrow> world \<Rightarrow> bool" where
  "inv_quorum G X s \<longleftrightarrow> (\<forall>q<next_ev s. quorum_ok G (q \<in> X) s q)"

definition einv :: "ghost \<Rightarrow> (eid \<times> eid) multiset \<Rightarrow> eid set \<Rightarrow> world \<Rightarrow> bool" where
  "einv G P X s \<longleftrightarrow> inv_shape s \<and> inv_links P s \<and> inv_refs G X s \<and> inv_quorum G X s"


definition ext_add :: "eid \<Rightarrow> nat \<Rightarrow> ghost \<Rightarrow> ghost" where
  "ext_add e n G = G\<lparr>g_ext := (g_ext G)(e := g_ext G e + n)\<rparr>"

definition ext_del :: "eid \<Rightarrow> ghost \<Rightarrow> ghost" where
  "ext_del e G = G\<lparr>g_ext := (g_ext G)(e := g_ext G e - 1)\<rparr>"

lemma ext_simps [simp]:
  "g_ext (ext_add e n G) = (g_ext G)(e := g_ext G e + n)"
  "g_ext (ext_del e G) = (g_ext G)(e := g_ext G e - 1)"
  "g_args (ext_add e n G) = g_args G" "g_args (ext_del e G) = g_args G"
  "g_nulls (ext_add e n G) = g_nulls G" "g_nulls (ext_del e G) = g_nulls G"
  "g_forced (ext_add e n G) = g_forced G" "g_forced (ext_del e G) = g_forced G"
  "g_drivers (ext_add e n G) = g_drivers G" "g_drivers (ext_del e G) = g_drivers G"
  "ext_del e (ext_add e 1 G) = G"
  "ext_del e (ext_add e (Suc 0) G) = G"
  by (simp_all add: ext_add_def ext_del_def)

lemma inv_quorum_ext [simp]:
  "inv_quorum (ext_add e n G) = inv_quorum G" "inv_quorum (ext_del e G) = inv_quorum G"
  by (simp_all add: inv_quorum_def quorum_ok_def counted_def fired_def fun_eq_iff)

subsection \<open>Single steps\<close>


lemma fired_mono:
  "(\<And>e. ef_triggered (evs s e) \<Longrightarrow> ef_triggered (evs s' e)) \<Longrightarrow> fired G s q \<le> fired G s' q"
  unfolding fired_def by (simp add: multiset_filter_mono size_mset_mono subseteq_mset_def)

lemma quorum_ok_frame:
  assumes I: "quorum_ok G x s q"
    and tr: "\<And>e. ef_triggered (evs s e) \<Longrightarrow> ef_triggered (evs s' e)"
    and q: "ef_quorum (evs s' q) = ef_quorum (evs s q)"
      "ef_triggered (evs s' q) = ef_triggered (evs s q)"
      "qb_triggered (evs s' q) = qb_triggered (evs s q)" "qb_quorum (evs s' q) = qb_quorum (evs s q)"
    and ms: "mset (qb_members (evs s' q)) \<subseteq># mset (qb_members (evs s q))"
    and x: "\<not> x' \<Longrightarrow> ef_quorum (evs s q) \<Longrightarrow>
      \<not> x \<and> mset (qb_members (evs s' q)) = mset (qb_members (evs s q)) \<and>
      (0 < eb_refcount (evs s' q) \<longleftrightarrow> 0 < eb_refcount (evs s q))"
  shows "quorum_ok G x' s' q"
proof -
  have c: "counted G s' q R" if "counted G s q R" for R
    using that ms unfolding counted_def q
    by (meson tr subset_mset.add_right_mono subset_mset.order_trans)
  have f: "fired G s q \<le> fired G s' q" by (rule fired_mono) (rule tr)
  have "\<forall>m\<in>set (qb_members (evs s' q)). ef_triggered (evs s' m)"
    if "\<not> x'" "ef_quorum (evs s q)" "eb_refcount (evs s' q) = 0"
    using I x [OF that(1,2)] that tr unfolding quorum_ok_def by (metis bot_nat_0.not_eq_extremum mset_eq_setD)
  then show ?thesis using I c f x unfolding quorum_ok_def q
    by (metis order_trans)
qed

lemma inv_quorum_frame:
  assumes I: "inv_quorum G X s"
    and nx: "next_ev s' = next_ev s"
    and fr: "\<And>e. ef_quorum (evs s' e) = ef_quorum (evs s e) \<and>
       ef_triggered (evs s' e) = ef_triggered (evs s e) \<and>
       qb_triggered (evs s' e) = qb_triggered (evs s e) \<and> qb_quorum (evs s' e) = qb_quorum (evs s e) \<and>
       mset (qb_members (evs s' e)) \<subseteq># mset (qb_members (evs s e))"
    and X: "\<And>q. q < next_ev s \<Longrightarrow> q \<notin> X' \<Longrightarrow> q \<notin> X \<and> (ef_quorum (evs s q) \<longrightarrow>
       mset (qb_members (evs s' q)) = mset (qb_members (evs s q)) \<and>
       (0 < eb_refcount (evs s' q) \<longleftrightarrow> 0 < eb_refcount (evs s q)))"
  shows "inv_quorum G X' s'"
  unfolding inv_quorum_def nx
proof (intro allI impI, goal_cases)
  case (1 q)
  have "quorum_ok G (q \<in> X) s q" using I 1 by (simp add: inv_quorum_def)
  then show ?case by (rule quorum_ok_frame) (use fr X [OF 1] in auto)
qed

lemma inv_refs_frame:
  assumes I: "inv_refs G X s"
    and nx: "next_ev s' = next_ev s" "home s' = home s" "g_drivers G' = g_drivers G"
    and c: "c < next_ev s" "ref_ok G' X' s' c"
    and fr: "\<And>e. e \<noteq> c \<Longrightarrow> g_ext G' e = g_ext G e \<and>
        qrefs (g_drivers G) s' e = qrefs (g_drivers G) s e"
    and ok: "\<And>e. e < next_ev s \<Longrightarrow> e \<noteq> c \<Longrightarrow> ref_ok G X s e \<Longrightarrow> ref_ok G' X' s' e"
  shows "inv_refs G' X' s'"
  using assms unfolding inv_refs_def by (metis not_le)

lemma ref_ok_frame:
  assumes "ref_ok G X s e" "evs s' e = evs s e" "mrefs s' e = mrefs s e" "g_ext G' e = g_ext G e"
    "qrefs (g_drivers G') s' e = qrefs (g_drivers G) s e" "e \<notin> X' \<Longrightarrow> e \<notin> X"
  shows "ref_ok G' X' s' e"
  using assms by (auto simp: ref_ok_def body_ok_def)

lemma einvD:
  assumes "einv G P X s"
  shows einv_shape: "inv_shape s" and einv_links: "inv_links P s"
    and einv_refs: "inv_refs G X s" and einv_quorum: "inv_quorum G X s"
  using assms by (simp_all add: einv_def)

lemma einv_ext_lt: "einv G P X s \<Longrightarrow> 0 < g_ext G e \<Longrightarrow> e < next_ev s"
  unfolding einv_def inv_refs_def by (metis less_numeral_extra(3) not_le)

lemma einv_refcount:
  "einv G P X s \<Longrightarrow> e < next_ev s \<Longrightarrow>
    eb_refcount (evs s e) = mrefs s e + g_ext G e + qrefs (g_drivers G) s e"
  by (simp add: einv_def inv_refs_def ref_ok_def)

lemma einv_ok: "einv G P X s \<Longrightarrow> e < next_ev s \<Longrightarrow> ref_ok G X s e"
  by (simp add: einv_def inv_refs_def)

lemma einv_quorum_ok: "einv G P X s \<Longrightarrow> e < next_ev s \<Longrightarrow> quorum_ok G (e \<in> X) s e"
  by (simp add: einv_def inv_quorum_def)

lemma einv_body_ok: "einv G P X s \<Longrightarrow> e < next_ev s \<Longrightarrow> body_ok (e \<in> X) (evs s e)"
  by (simp add: einv_def inv_refs_def ref_ok_def)

lemma einv_ref:
  assumes I: "einv G P X s" and e: "e < next_ev s" "\<not> eb_freed (evs s e)"
    and live: "e \<in> X \<or> \<not> ef_quorum (evs s e) \<or> 0 < eb_refcount (evs s e)"
  shows "einv (ext_add e n G) P X (ref n e s)"
proof -
  have "inv_shape (ref n e s)" using einv_shape [OF I] by (auto simp: inv_shape_def ref_def)
  moreover have "inv_links P (ref n e s)" using einv_links [OF I] by (auto simp: inv_links_def ref_def)
  moreover have "ref_ok (ext_add e n G) X (ref n e s) e"
    using einv_ok [OF I e(1)] e(2) by (auto simp: ref_ok_def ref_def body_ok_def)
  then have "inv_refs (ext_add e n G) X (ref n e s)"
    by (intro inv_refs_frame [OF einv_refs [OF I] _ _ _ e(1)])
       (auto simp: ref_def elim!: ref_ok_frame)
  moreover have "inv_quorum G X (ref n e s)"
    by (rule inv_quorum_frame [OF einv_quorum [OF I]]) (use live in \<open>auto simp: ref_def\<close>)
  ultimately show ?thesis by (simp add: einv_def)
qed

lemma einv_dec_ref:
  assumes I: "einv G P X s" and e: "0 < g_ext G e"
  shows "eb_refcount (evs s e) \<noteq> 1 \<Longrightarrow> einv (ext_del e G) P X (dec_ref e s)"
    and "einv (ext_del e G) P (insert e X) (dec_ref e s)"
proof -
  have lt: "e < next_ev s" using einv_ext_lt [OF I e] .
  have pos: "0 < eb_refcount (evs s e)" using einv_refcount [OF I lt] e by simp
  have A: "inv_shape (dec_ref e s)" using einv_shape [OF I] by (auto simp: inv_shape_def dec_ref_def)
  have B: "inv_links P (dec_ref e s)" using einv_links [OF I] by (auto simp: inv_links_def dec_ref_def)
  have C: "inv_refs (ext_del e G) Y (dec_ref e s)"
    if "ref_ok (ext_del e G) Y (dec_ref e s) e" "X \<subseteq> Y" for Y
    by (rule inv_refs_frame [OF einv_refs [OF I] _ _ _ lt that(1)])
       (use that(2) in \<open>auto simp: dec_ref_def elim!: ref_ok_frame\<close>)
  have D: "inv_quorum G (insert e X) (dec_ref e s)"
    by (rule inv_quorum_frame [OF einv_quorum [OF I]]) (auto simp: dec_ref_def)
  have eq: "eb_refcount (evs s e) - 1 = mrefs s e + (g_ext G e - 1) + qrefs (g_drivers G) s e"
    using einv_refcount [OF I lt] e by linarith
  note bok = einv_body_ok [OF I lt]
  have "body_ok True (evs (dec_ref e s) e)"
    using bok pos by (auto simp: body_ok_def dec_ref_def)
  then have "ref_ok (ext_del e G) (insert e X) (dec_ref e s) e"
    using eq by (simp add: ref_ok_def dec_ref_def)
  from C [OF this] show "einv (ext_del e G) P (insert e X) (dec_ref e s)"
    using A B D by (auto simp: einv_def)
  assume ne: "eb_refcount (evs s e) \<noteq> 1"
  have "body_ok (e \<in> X) (evs (dec_ref e s) e)"
    using bok pos ne by (auto simp: body_ok_def dec_ref_def)
  then have "ref_ok (ext_del e G) X (dec_ref e s) e"
    using eq by (simp add: ref_ok_def dec_ref_def)
  note C [OF this]
  moreover have "inv_quorum G X (dec_ref e s)"
    by (rule inv_quorum_frame [OF einv_quorum [OF I]]) (use pos ne in \<open>auto simp: dec_ref_def\<close>)
  ultimately show "einv (ext_del e G) P X (dec_ref e s)" using A B by (simp add: einv_def)
qed


lemma count_list_mset_diff:
  assumes "mset ys = mset xs - {#a#}"
  shows "count_list ys b = count_list xs b - (if b = a then 1 else 0)"
proof -
  have "count (mset ys) b = count (mset xs - {#a#}) b" using assms by simp
  then show ?thesis by (simp add: count_mset)
qed

lemma count_list_pos: "a \<in> set xs \<longleftrightarrow> 0 < count_list xs a"
  using count_list_0_iff [of xs a] by auto

lemma set_mset_diff_subset: "mset ys = mset xs - {#a#} \<Longrightarrow> set ys \<subseteq> set xs"
  by (metis in_diffD set_mset_mset subsetI)

lemma inv_shape_member:
  "inv_shape s \<Longrightarrow> m \<in> set (qb_members (evs s q)) \<Longrightarrow>
    m < next_ev s \<and> q < next_ev s \<and> m \<noteq> q \<and> ef_quorum (evs s q) \<and> (ef_quorum (evs s m) \<longrightarrow> m < q)"
  unfolding inv_shape_def by (metis empty_iff list.set(1) nat_less_le not_le)

text \<open>Taking \<open>m\<close> off the members of \<open>q\<close> leaves its handle with the caller.\<close>

lemma mrefs_remove_member:
  assumes "q < next_ev s" "m \<in> set (qb_members (evs s q))"
    and "mset (qb_members (f (evs s q))) = mset (qb_members (evs s q)) - {#m#}"
  shows "mrefs s x = mrefs (upd q f s) x + (if x = m then 1 else 0)"
proof -
  have "0 < count_list (qb_members (evs s q)) m" using assms(2) by (simp add: count_list_pos)
  with mrefs_upd [OF assms(1), of f x] count_list_mset_diff [OF assms(3), of x] show ?thesis
    by auto
qed

lemma inv_refs_remove_member:
  assumes I: "inv_refs G X s" and S: "inv_shape s" and m: "m \<in> set (qb_members (evs s q))"
    and q: "q \<in> X'" "X \<subseteq> X'"
    and nx: "next_ev s' = next_ev s" "home s' = home s" "asap_q s' = asap_q s" "migrate_q s' = migrate_q s"
    and ms: "mset (qb_members (evs s' q)) = mset (qb_members (evs s q)) - {#m#}"
    and em: "ef_empty_members (evs s' q) \<longrightarrow>
        ef_empty_members (evs s q) \<or> qb_members (evs s' q) = []"
    and rc: "\<And>e. eb_refcount (evs s' e) = eb_refcount (evs s e) \<and>
        eb_freed (evs s' e) = eb_freed (evs s e) \<and> ef_quorum (evs s' e) = ef_quorum (evs s e)"
    and fr: "\<And>e. e \<noteq> q \<Longrightarrow> qb_members (evs s' e) = qb_members (evs s e) \<and>
        ef_empty_members (evs s' e) = ef_empty_members (evs s e)"
  shows "inv_refs (ext_add m 1 G) X' s'"
proof -
  note mq = inv_shape_member [OF S m]
  have "mrefs s' x = mrefs (upd q (\<lambda>_. evs s' q) s) x" for x
    unfolding mrefs_def nx upd_simps by (rule sum.cong) (auto simp: fr)
  with mrefs_remove_member [of q s m "\<lambda>_. evs s' q"] mq m ms
  have mr: "mrefs s x = mrefs s' x + (if x = m then 1 else 0)" for x by simp
  have qr: "qrefs D s' = qrefs D s" for D by (simp add: qrefs_def fun_eq_iff nx)
  have "ref_ok (ext_add m 1 G) X' s' e" if e: "e < next_ev s" for e
  proof -
    have ok: "ref_ok G X s e" using I e by (simp add: inv_refs_def)
    have eq: "eb_refcount (evs s' e) = mrefs s' e + g_ext (ext_add m 1 G) e + qrefs (g_drivers G) s' e"
      using ok mr [of e] rc [of e] by (simp add: ref_ok_def qr)
    have bok: "body_ok (e \<in> X) (evs s e)" using ok by (simp add: ref_ok_def)
    have "body_ok (e \<in> X') (evs s' e)"
    proof (cases "e = q")
      case True
      with bok m q em rc [of q] show ?thesis by (auto simp: body_ok_def)
    next
      case False
      with bok q rc [of e] fr [of e] show ?thesis by (auto simp: body_ok_def)
    qed
    with eq show ?thesis by (simp add: ref_ok_def)
  qed
  then show ?thesis using I mq by (auto simp: inv_refs_def nx qr)
qed


lemma einv_unlink:
  assumes I: "einv G P X s" and q: "q \<in> X" and m: "m \<in> set (qb_members (evs s q))"
    and nt: "\<not> ef_triggered (evs s m)"
    and ms: "mset ms' = mset (qb_members (evs s q)) - {#m#}"
  shows "einv (ext_add m 1 G) P X
           (upd q (\<lambda>b. b\<lparr>qb_members := ms'\<rparr>) (remove_listener (Quorum q) m s))"
    (is "einv ?G P X ?s")
proof -
  note S = einv_shape [OF I] and L = einv_links [OF I]
  note mq = inv_shape_member [OF S m]
  have c: "count_list ms' x = count_list (qb_members (evs s q)) x - (if x = m then 1 else 0)" for x
    using ms by (rule count_list_mset_diff)
  have "\<And>x. (x, q) \<in># P \<Longrightarrow> x \<noteq> m" using L nt by (auto simp: inv_links_def)
  then have P0: "count P (m, q) = 0" by (metis count_eq_zero_iff)
  have "inv_shape ?s" using S mq set_mset_diff_subset [OF ms]
    by (auto simp: inv_shape_def remove_listener_def Let_def)
  moreover have "inv_links P ?s"
    unfolding inv_links_def
  proof (intro conjI allI impI ballI)
    fix m' q'
    have "count_list (qb_members (evs s q')) m' =
        count_list (eb_listeners (evs s m')) (Quorum q') + count P (m', q')"
      using L by (simp add: inv_links_def)
    then show "count_list (qb_members (evs ?s q')) m' =
        count_list (eb_listeners (evs ?s m')) (Quorum q') + count P (m', q')"
      using mq c P0 by (auto simp: remove_listener_def Let_def count_list_remove_swap)
  next
    fix m' q' assume "(m', q') \<in># P"
    with L show "ef_triggered (evs ?s m')" by (auto simp: inv_links_def remove_listener_def Let_def)
  next
    fix m' q' assume "ef_triggered (evs ?s m')"
    with L nt show "Quorum q' \<notin> set (eb_listeners (evs ?s m'))"
      by (auto simp: inv_links_def remove_listener_def Let_def split: if_splits)
  next
    fix q' m' assume "ef_triggered (evs ?s q')" "m' \<in> set (qb_members (evs ?s q'))"
    with L set_mset_diff_subset [OF ms] show "ef_triggered (evs ?s m')"
      by (auto simp: inv_links_def remove_listener_def Let_def split: if_splits)
  qed
  moreover have "inv_refs ?G X ?s"
    by (rule inv_refs_remove_member [OF einv_refs [OF I] S m q])
       (use mq ms in \<open>auto simp: remove_listener_def Let_def\<close>)
  moreover have "inv_quorum G X ?s"
    by (rule inv_quorum_frame [OF einv_quorum [OF I]])
       (use q mq ms in \<open>auto simp: remove_listener_def Let_def\<close>)
  ultimately show ?thesis by (simp add: einv_def)
qed


lemma einv_notified:
  assumes I: "einv G (add_mset (m, q) P) {} s"
  defines "ms \<equiv> remove_swap m (qb_members (evs s q))"
  defines "s' \<equiv> upd q (\<lambda>b. b\<lparr>qb_triggered := qb_triggered b + 1, qb_members := ms,
                   ef_empty_members := (ef_empty_members b \<or> ms = [])\<rparr>) s"
  shows "einv (ext_add m 1 G) P {q} s'"
    and "\<not> ef_triggered (evs s' q) \<Longrightarrow> 0 < eb_refcount (evs s' q) \<Longrightarrow>
      \<exists>R. counted G s' q R \<and> mset (qb_members (evs s' q)) + R = g_args G q"
proof -
  note S = einv_shape [OF I] and L = einv_links [OF I]
  have c: "count_list (qb_members (evs s q')) m' = count_list (eb_listeners (evs s m')) (Quorum q') +
      count (add_mset (m, q) P) (m', q')" for m' q'
    using L unfolding inv_links_def by blast
  have "0 < count_list (qb_members (evs s q)) m" using c [of q m] by simp
  then have m: "m \<in> set (qb_members (evs s q))" by (simp add: count_list_pos)
  note mq = inv_shape_member [OF S m]
  have msd: "mset ms = mset (qb_members (evs s q)) - {#m#}" by (simp add: ms_def mset_remove_swap)
  note sub = set_mset_diff_subset [OF msd]
  have tm: "ef_triggered (evs s m)" using L by (auto simp: inv_links_def)
  have ok: "quorum_ok G False s q" using einv_quorum [OF I] mq by (simp add: inv_quorum_def)
  have cnt: "counted G s' q (add_mset m R)" if "counted G s q R" for R
    using that m tm by (auto simp: counted_def s'_def msd)
  have qT: "quorum_ok G True s' q"
  proof -
    have "(\<lambda>x. ef_triggered (evs s' x)) = (\<lambda>x. ef_triggered (evs s x))" by (auto simp: s'_def)
    then have "fired G s' q = fired G s q" by (simp add: fired_def)
    then show ?thesis using ok cnt by (auto simp: quorum_ok_def s'_def)
  qed
  have oth: "quorum_ok G False s' x" if "x < next_ev s" "x \<noteq> q" for x
  proof (rule quorum_ok_frame)
    show "quorum_ok G False s x" using einv_quorum [OF I] that by (simp add: inv_quorum_def)
  qed (use that in \<open>auto simp: s'_def\<close>)
  have "inv_shape s'" using S mq sub by (auto simp: inv_shape_def s'_def)
  moreover have "inv_links P s'"
    unfolding inv_links_def
  proof (intro conjI allI impI ballI)
    fix m' q'
    show "count_list (qb_members (evs s' q')) m' =
        count_list (eb_listeners (evs s' m')) (Quorum q') + count P (m', q')"
      using c [of q' m'] count_list_mset_diff [OF msd, of m'] by (auto simp: s'_def split: if_splits)
  qed (use L sub in \<open>auto simp: inv_links_def s'_def split: if_splits\<close>)
  moreover have "inv_refs (ext_add m 1 G) {q} s'"
    by (rule inv_refs_remove_member [OF einv_refs [OF I] S m]) (use mq msd in \<open>auto simp: s'_def\<close>)
  moreover have "inv_quorum G {q} s'"
  proof -
    have "quorum_ok G (x \<in> {q}) s' x" if "x < next_ev s" for x
      using qT oth [OF that] by (cases "x = q") simp_all
    then show ?thesis by (simp add: inv_quorum_def s'_def)
  qed
  ultimately show "einv (ext_add m 1 G) P {q} s'" by (simp add: einv_def)
  assume "\<not> ef_triggered (evs s' q)" "0 < eb_refcount (evs s' q)"
  then obtain R where "counted G s q R" "mset (qb_members (evs s q)) + R = g_args G q"
    using ok mq by (auto simp: quorum_ok_def s'_def)
  moreover have "mset (qb_members (evs s' q)) + add_mset m R = mset (qb_members (evs s q)) + R"
    using m by (simp add: s'_def msd)
  ultimately have "counted G s' q (add_mset m R)" "mset (qb_members (evs s' q)) + add_mset m R = g_args G q"
    using cnt by simp_all
  then show "\<exists>R. counted G s' q R \<and> mset (qb_members (evs s' q)) + R = g_args G q" by blast
qed

text \<open>Leaving the critical section of \<open>q\<close>.\<close>

lemma einv_leave:
  assumes I: "einv G P (insert q X) s" and q: "q < next_ev s"
    and ok: "body_ok False (evs s q)" "quorum_ok G False s q"
  shows "einv G P X s"
proof -
  have "body_ok (q \<in> X) (evs s q)" using ok(1) by (simp add: body_ok_def)
  then have "ref_ok G X s e" if "e < next_ev s" for e
    using einv_ok [OF I that] by (cases "e = q") (simp_all add: ref_ok_def)
  then have "inv_refs G X s" using einv_refs [OF I] by (simp add: inv_refs_def)
  moreover have "quorum_ok G (q \<in> X) s q" using ok(2) by (auto simp: quorum_ok_def)
  then have "quorum_ok G (e \<in> X) s e" if "e < next_ev s" for e
    using einv_quorum [OF I] that by (cases "e = q") (auto simp: inv_quorum_def)
  then have "inv_quorum G X s" by (simp add: inv_quorum_def)
  ultimately show ?thesis using I by (simp add: einv_def)
qed

lemma einv_delete:
  assumes I: "einv G P X s" and q: "q < next_ev s" "eb_refcount (evs s q) = 0"
     "qb_members (evs s q) = []"
  shows "einv G P X (delete_body q s)"
proof -
  have "inv_shape (delete_body q s)" using einv_shape [OF I] by (auto simp: inv_shape_def delete_body_def)
  moreover have "inv_links P (delete_body q s)"
    using einv_links [OF I] by (auto simp: inv_links_def delete_body_def)
  moreover have "ref_ok G X (delete_body q s) q"
    using einv_ok [OF I q(1)] q by (auto simp: ref_ok_def body_ok_def delete_body_def)
  then have "inv_refs G X (delete_body q s)"
    by (intro inv_refs_frame [OF einv_refs [OF I] _ _ _ q(1)])
       (auto simp: delete_body_def elim!: ref_ok_frame)
  moreover have "inv_quorum G X (delete_body q s)"
    by (rule inv_quorum_frame [OF einv_quorum [OF I]]) (auto simp: delete_body_def)
  ultimately show ?thesis by (simp add: einv_def)
qed

lemma einv_flag:
  assumes I: "einv G P X s"
  shows "einv G P X (upd q (\<lambda>b. b\<lparr>ef_empty_members := (ef_empty_members b \<or> qb_members b = [])\<rparr>) s)"
    (is "einv G P X ?s")
proof -
  have "inv_shape ?s" using einv_shape [OF I] by (auto simp: inv_shape_def)
  moreover have "inv_links P ?s" using einv_links [OF I] by (auto simp: inv_links_def)
  moreover have "ref_ok G X ?s e" if "e < next_ev s" for e
    using einv_ok [OF I that] by (auto simp: ref_ok_def body_ok_def)
  then have "inv_refs G X ?s" using einv_refs [OF I] by (auto simp: inv_refs_def)
  moreover have "inv_quorum G X ?s"
    by (rule inv_quorum_frame [OF einv_quorum [OF I]]) auto
  ultimately show ?thesis by (simp add: einv_def)
qed

subsection \<open>Dropping a handle\<close>

text \<open>What dropping a handle leaves alone everywhere, and on quorums the drop cannot reach.\<close>

definition static_body :: "event_body \<Rightarrow> event_body \<Rightarrow> bool" where
  "static_body b b' \<longleftrightarrow>
     ef_triggered b' = ef_triggered b \<and> ef_quorum b' = ef_quorum b \<and>
     ef_want_interest b' = ef_want_interest b \<and> ef_interest b' = ef_interest b \<and>
     ef_user b' = ef_user b \<and> qb_triggered b' = qb_triggered b \<and> qb_quorum b' = qb_quorum b \<and>
     set (eb_listeners b') \<subseteq> set (eb_listeners b) \<and>
     (\<forall>c. count_list (eb_listeners b') (Coro c) = count_list (eb_listeners b) (Coro c))"

definition static :: "world \<Rightarrow> world \<Rightarrow> bool" where
  "static s s' \<longleftrightarrow>
     next_ev s' = next_ev s \<and> home s' = home s \<and> current s' = current s \<and>
     asap_q s' = asap_q s \<and> migrate_q s' = migrate_q s \<and>
     (\<forall>e. static_body (evs s e) (evs s' e))"

definition same_refs :: "event_body \<Rightarrow> event_body \<Rightarrow> bool" where
  "same_refs b b' \<longleftrightarrow> eb_refcount b' = eb_refcount b \<and> eb_freed b' = eb_freed b \<and>
     ef_empty_members b' = ef_empty_members b \<and> qb_members b' = qb_members b"

definition spared :: "eid \<Rightarrow> world \<Rightarrow> world \<Rightarrow> bool" where
  "spared e s s' \<longleftrightarrow> (\<forall>q. ef_quorum (evs s q) \<longrightarrow> (ef_quorum (evs s e) \<longrightarrow> e < q) \<longrightarrow>
     same_refs (evs s q) (evs s' q))"

lemma static_body_refl [simp]: "static_body b b" by (simp add: static_body_def)

lemma static_body_trans: "static_body a b \<Longrightarrow> static_body b c \<Longrightarrow> static_body a c"
  by (auto simp: static_body_def)

lemma static_refl [simp]: "static s s" by (simp add: static_def)

lemma static_trans: "static s t \<Longrightarrow> static t u \<Longrightarrow> static s u"
  unfolding static_def using static_body_trans by metis

lemma static_upd: "static_body (evs s e) (f (evs s e)) \<Longrightarrow> static s (upd e f s)"
  by (simp add: static_def)

lemma staticD:
  assumes "static s s'"
  shows "next_ev s' = next_ev s" "home s' = home s" "current s' = current s" "asap_q s' = asap_q s"
    "migrate_q s' = migrate_q s" "ef_triggered (evs s' e) = ef_triggered (evs s e)"
    "ef_quorum (evs s' e) = ef_quorum (evs s e)" "qb_triggered (evs s' e) = qb_triggered (evs s e)"
    "qb_quorum (evs s' e) = qb_quorum (evs s e)"
    "ef_want_interest (evs s' e) = ef_want_interest (evs s e)"
    "ef_interest (evs s' e) = ef_interest (evs s e)"
    "set (eb_listeners (evs s' e)) \<subseteq> set (eb_listeners (evs s e))"
  using assms by (simp_all add: static_def static_body_def)

lemma same_refs_refl [simp]: "same_refs b b" by (simp add: same_refs_def)

lemma same_refs_trans: "same_refs a b \<Longrightarrow> same_refs b c \<Longrightarrow> same_refs a c"
  by (simp add: same_refs_def)

lemma static_steps:
  "static s (dec_ref e s)" "static s (delete_body e s)" "static s (ref n e s)"
  "static s (remove_listener (Quorum q) e s)"
  "static s (upd e (\<lambda>b. b\<lparr>qb_members := ms\<rparr>) s)"
  "static s (upd e (\<lambda>b. b\<lparr>ef_empty_members := (ef_empty_members b \<or> qb_members b = [])\<rparr>) s)"
  unfolding dec_ref_def delete_body_def ref_def remove_listener_def Let_def
  by (rule static_upd, simp add: static_body_def count_list_remove_swap set_remove_swap)+

lemma mset_butlast_swap_last:
  "i < length xs \<Longrightarrow> mset (butlast (swap_slots xs i (length xs - 1))) = mset xs - {#xs ! i#}"
proof -
  assume i: "i < length xs"
  let ?ys = "swap_slots xs i (length xs - 1)"
  have ne: "?ys \<noteq> []" using i by (metis length_swap_slots list.size(3) not_less_zero)
  then have "last ?ys = xs ! i" using i by (simp add: last_conv_nth nth_swap_slots)
  with mset_butlast [OF ne] i show ?thesis by simp
qed

definition dtor_ok :: "(eid \<times> eid) multiset \<Rightarrow> eid set \<Rightarrow> eid \<Rightarrow> (eid \<Rightarrow> world \<Rightarrow> world) \<Rightarrow> bool" where
  "dtor_ok P X q dt \<longleftrightarrow> (\<forall>m s G. einv G P X s \<longrightarrow> 0 < g_ext G m \<longrightarrow> m \<notin> X \<longrightarrow>
     (\<forall>x\<in>X. ef_quorum (evs s x)) \<longrightarrow> (ef_quorum (evs s m) \<longrightarrow> m < q) \<longrightarrow>
     einv (ext_del m G) P X (dt m s) \<and> static s (dt m s) \<and> spared m s (dt m s))"

text \<open>
  The loop of \<^verbatim>\<open>cull_members\<close> for a destructor \<open>dt\<close> that keeps the invariant and spares younger quorums.
\<close>

lemma cull_loop_spec:
  assumes dt: "dtor_ok P X q dt"
    and "einv G P X s" "q \<in> X" "\<forall>x\<in>X. ef_quorum (evs s x) \<and> q \<le> x"
    and "k + i = length (qb_members (evs s q))" "\<forall>j<i. ef_triggered (evs s (qb_members (evs s q) ! j))"
  defines "s' \<equiv> cull_loop dt q k i s"
  shows "einv G P X s' \<and> static s s' \<and> (\<forall>m\<in>set (qb_members (evs s' q)). ef_triggered (evs s' m)) \<and>
     eb_refcount (evs s' q) = eb_refcount (evs s q) \<and> eb_freed (evs s' q) = eb_freed (evs s q) \<and>
     (\<forall>x>q. ef_quorum (evs s x) \<longrightarrow> same_refs (evs s x) (evs s' x))"
  unfolding s'_def using assms(2-6)
proof (induction k arbitrary: i s)
  case 0
  then show ?case by (auto simp: in_set_conv_nth)
next
  case (Suc k)
  define ms where "ms = qb_members (evs s q)"
  define m where "m = ms ! i"
  have i: "i < length ms" using Suc.prems(4) by (simp add: ms_def)
  then have m: "m \<in> set (qb_members (evs s q))" by (simp add: m_def ms_def)
  note mq = inv_shape_member [OF einv_shape [OF Suc.prems(1)] m]
  show ?case
  proof (cases "ef_triggered (evs s m)")
    case True
    then have "\<forall>j<Suc i. ef_triggered (evs s (qb_members (evs s q) ! j))"
      using Suc.prems(5) by (simp add: less_Suc_eq m_def ms_def)
    from Suc.IH [OF Suc.prems(1-3) _ this] Suc.prems(4) True show ?thesis
      by (simp add: Let_def m_def ms_def)
  next
    case False
    define ms' where "ms' = butlast (swap_slots ms i (length ms - 1))"
    define t where "t = upd q (\<lambda>b. b\<lparr>qb_members := ms'\<rparr>) (remove_listener (Quorum q) m s)"
    define u where "u = dt m t"
    have msd: "mset ms' = mset (qb_members (evs s q)) - {#m#}"
      using mset_butlast_swap_last [OF i] by (simp add: ms'_def m_def ms_def)
    have It: "einv (ext_add m 1 G) P X t"
      unfolding t_def by (rule einv_unlink [OF Suc.prems(1,2) m False msd])
    have st: "static s t" unfolding t_def by (rule static_trans [OF static_steps(4,5)])
    have X: "m \<notin> X" "\<forall>x\<in>X. ef_quorum (evs t x)" "ef_quorum (evs t m) \<longrightarrow> m < q"
      using Suc.prems(3) mq by (auto simp: staticD [OF st])
    have U: "einv G P X u" "static t u" "spared m t u"
      using dt [unfolded dtor_ok_def, rule_format, OF It _ X(1)] X(2,3) by (auto simp: u_def)
    have tq: "evs t q = (evs s q)\<lparr>qb_members := ms'\<rparr>"
      using mq by (simp add: t_def remove_listener_def Let_def)
    have "\<And>x. x > q \<Longrightarrow> ef_quorum (evs s x) \<Longrightarrow> x \<noteq> m" using mq by auto
    then have tx: "same_refs (evs s x) (evs t x)" if "x > q" "ef_quorum (evs s x)" for x
      using that by (auto simp: t_def remove_listener_def Let_def same_refs_def)
    have sr: "same_refs (evs t x) (evs u x)" if "q \<le> x" "ef_quorum (evs s x)" for x
      using U(3) that X(3) by (auto simp: spared_def staticD [OF st])
    have uq: "same_refs (evs t q) (evs u q)" using sr [of q] mq by simp
    have len: "length ms' = length ms - 1" by (simp add: ms'_def)
    have u3: "\<forall>x\<in>X. ef_quorum (evs u x) \<and> q \<le> x" using Suc.prems(3) by (auto simp: staticD [OF st] staticD [OF U(2)])
    have u4: "k + i = length (qb_members (evs u q))"
      using Suc.prems(4) uq tq len by (simp add: same_refs_def ms_def)
    have u5: "\<forall>j<i. ef_triggered (evs u (qb_members (evs u q) ! j))"
      using Suc.prems(5) uq tq len i
      by (auto simp: same_refs_def ms'_def staticD [OF st] staticD [OF U(2)] nth_butlast
          nth_swap_slots ms_def)
    note R = Suc.IH [OF U(1) Suc.prems(2) u3 u4 u5]
    have "cull_loop dt q (Suc k) i s = cull_loop dt q k i u"
      using False by (simp add: Let_def u_def t_def ms'_def m_def ms_def)
    moreover have su: "static s u" using st U(2) by (rule static_trans)
    moreover have "same_refs (evs s x) (evs (cull_loop dt q k i u) x)" if "q < x" "ef_quorum (evs s x)" for x
    proof -
      have "same_refs (evs u x) (evs (cull_loop dt q k i u) x)" using R that by (simp add: staticD [OF su])
      with tx [OF that] sr [OF less_imp_le [OF that(1)] that(2)] show ?thesis
        by (meson same_refs_trans)
    qed
    moreover have "static s (cull_loop dt q k i u)" using su R by (blast intro: static_trans)
    moreover have "eb_refcount (evs u q) = eb_refcount (evs s q) \<and> eb_freed (evs u q) = eb_freed (evs s q)"
      using uq tq by (simp add: same_refs_def)
    ultimately show ?thesis using R by simp
  qed
qed


lemma cull_members_spec:
  assumes dt: "dtor_ok P X q dt"
    and I: "einv G P X s" "q \<in> X" "\<forall>x\<in>X. ef_quorum (evs s x) \<and> q \<le> x"
  defines "s' \<equiv> cull_members dt q s"
  shows "einv G P X s'" "static s s'" "\<forall>m\<in>set (qb_members (evs s' q)). ef_triggered (evs s' m)"
    "eb_refcount (evs s' q) = eb_refcount (evs s q)" "eb_freed (evs s' q) = eb_freed (evs s q)"
    "\<forall>x>q. ef_quorum (evs s x) \<longrightarrow> same_refs (evs s x) (evs s' x)"
    "qb_members (evs s' q) = [] \<longrightarrow> ef_empty_members (evs s' q)"
proof -
  define t where "t = cull_loop dt q (length (qb_members (evs s q))) 0 s"
  have s': "s' = upd q (\<lambda>b. b\<lparr>ef_empty_members := (ef_empty_members b \<or> qb_members b = [])\<rparr>) t"
    by (simp add: s'_def cull_members_def t_def Let_def)
  have T: "einv G P X t \<and> static s t \<and> (\<forall>m\<in>set (qb_members (evs t q)). ef_triggered (evs t m)) \<and>
     eb_refcount (evs t q) = eb_refcount (evs s q) \<and> eb_freed (evs t q) = eb_freed (evs s q) \<and>
     (\<forall>x>q. ef_quorum (evs s x) \<longrightarrow> same_refs (evs s x) (evs t x))"
    unfolding t_def by (rule cull_loop_spec [OF dt I]) auto
  show "einv G P X s'" unfolding s' using T by (blast intro: einv_flag)
  show "static s s'" unfolding s' using T static_steps(6) static_trans by blast
  show "\<forall>m\<in>set (qb_members (evs s' q)). ef_triggered (evs s' m)" using T by (auto simp: s')
  show "eb_refcount (evs s' q) = eb_refcount (evs s q)" "eb_freed (evs s' q) = eb_freed (evs s q)"
    "\<forall>x>q. ef_quorum (evs s x) \<longrightarrow> same_refs (evs s x) (evs s' x)"
    "qb_members (evs s' q) = [] \<longrightarrow> ef_empty_members (evs s' q)"
    using T by (simp_all add: s')
qed

text \<open>Dropping the last reference frees the body when nothing is left to wait for.\<close>

lemma einv_last_ref:
  assumes I: "einv G P (insert e X) s" and e: "e < next_ev s" "e \<notin> X" "eb_refcount (evs s e) = 0"
    and flag: "ef_quorum (evs s e) \<longrightarrow> qb_members (evs s e) = [] \<longrightarrow> ef_empty_members (evs s e)"
    and nf: "\<not> eb_freed (evs s e)"
    and lt: "ef_quorum (evs s e) \<longrightarrow> \<not> ef_triggered (evs s e) \<longrightarrow>
        qb_triggered (evs s e) < qb_quorum (evs s e)"
    and del: "del \<longleftrightarrow> qb_members (evs s e) = []"
    and tr: "\<forall>m\<in>set (qb_members (evs s e)). ef_triggered (evs s m)"
  shows "einv G P X (if del then delete_body e s else s)"
proof (rule einv_leave)
  show "einv G P (insert e X) (if del then delete_body e s else s)"
    using I e del by (auto intro: einv_delete)
  show "e < next_ev (if del then delete_body e s else s)" using e by (simp add: delete_body_def)
  show "body_ok False (evs (if del then delete_body e s else s) e)"
    using e flag nf del einv_body_ok [OF I e(1)] by (auto simp: body_ok_def delete_body_def)
  have ok: "quorum_ok G True s e" using einv_quorum_ok [OF I e(1)] by simp
  then have ok: "quorum_ok G False s e" using lt e tr by (auto simp: quorum_ok_def)
  show "quorum_ok G False (if del then delete_body e s else s) e"
    by (rule quorum_ok_frame [OF ok]) (auto simp: delete_body_def)
qed

lemma handle_dtor_n_spec:
  assumes "einv G P X s" "0 < g_ext G e" "e \<notin> X" "\<forall>x\<in>X. ef_quorum (evs s x)"
    and "\<forall>x\<in>X. ef_quorum (evs s e) \<longrightarrow> e < x"
    and "1 \<le> n" "ef_quorum (evs s e) \<Longrightarrow> e + 2 \<le> n"
  defines "s' \<equiv> handle_dtor_n n e s"
  shows "einv (ext_del e G) P X s' \<and> static s s' \<and> spared e s s'"
  unfolding s'_def using assms(1-7)
proof (induction n arbitrary: e s G X)
  case 0
  then show ?case by simp
next
  case (Suc n)
  note I = Suc.prems(1) and ext = Suc.prems(2) and eX = Suc.prems(3)
  define t where "t = dec_ref e s"
  define rc where "rc = eb_refcount (evs s e)"
  have lt: "e < next_ev s" by (rule einv_ext_lt [OF I ext])
  have pos: "0 < rc" using einv_refcount [OF I lt] ext by (simp add: rc_def)
  have bok: "body_ok False (evs s e)" using einv_body_ok [OF I lt] eX by simp
  have nf: "\<not> eb_freed (evs s e)" using bok pos by (auto simp: body_ok_def rc_def)
  have qok: "quorum_ok G False s e" using einv_quorum_ok [OF I lt] eX by simp
  have te: "evs t e = (evs s e)\<lparr>eb_refcount := rc - 1\<rparr>" "next_ev t = next_ev s"
    by (simp_all add: t_def dec_ref_def rc_def)
  have st: "static s t" by (simp add: t_def static_steps)
  have sp: "spared e s t" by (auto simp: spared_def t_def dec_ref_def)
  have I1: "rc \<noteq> 1 \<Longrightarrow> einv (ext_del e G) P X t" and I2: "einv (ext_del e G) P (insert e X) t"
    using einv_dec_ref [OF I ext] by (simp_all add: t_def rc_def)
  have members: "\<not> ef_quorum (evs s e) \<Longrightarrow> qb_members (evs s e) = []"
    using inv_shape_member [OF einv_shape [OF I], of _ e] by (cases "qb_members (evs s e)") auto
  have lt_q: "ef_quorum (evs s e) \<longrightarrow> \<not> ef_triggered (evs s e) \<longrightarrow>
        qb_triggered (evs s e) < qb_quorum (evs s e)" using qok by (auto simp: quorum_ok_def)
  show ?case
  proof (cases "ef_quorum (evs s e) \<and> \<not> ef_empty_members (evs s e)")
    case False
    then have em: "qb_members (evs s e) = []" using bok members by (auto simp: body_ok_def)
    have res: "handle_dtor_n (Suc n) e s = (if rc \<noteq> 1 then t else delete_body e t)"
      using False by (auto simp: Let_def t_def rc_def)
    have "einv (ext_del e G) P X (if True then delete_body e t else t)" if "rc = 1"
      by (rule einv_last_ref [OF I2]) (use lt eX te that em False lt_q nf in auto)
    moreover have "static s (delete_body e t)" using st static_steps(2) by (blast intro: static_trans)
    moreover have "spared e s (delete_body e t)"
      by (auto simp: spared_def t_def dec_ref_def delete_body_def)
    ultimately show ?thesis unfolding res using I1 st sp by auto
  next
    case True
    define u where "u = (if \<not> ef_triggered (evs t e) then cull_members (handle_dtor_n n) e t else t)"
    define v where "v = (if ef_empty_members (evs u e) then delete_body e u else u)"
    have res: "handle_dtor_n (Suc n) e s = (if rc \<noteq> 1 then t else v)"
      using True by (simp add: Let_def t_def rc_def u_def v_def hard_deref_def)
    have X: "e \<in> insert e X" "\<forall>x\<in>insert e X. ef_quorum (evs t x) \<and> e \<le> x"
      using Suc.prems(4,5) True by (auto simp: staticD [OF st])
    have n: "e + 2 \<le> Suc n" using Suc.prems(7) True by simp
    have dt: "dtor_ok P (insert e X) e (handle_dtor_n n)"
      unfolding dtor_ok_def
    proof (intro allI impI, goal_cases)
      case (1 m w H)
      then show ?case by (intro Suc.IH) (use n X in auto)
    qed
    have U: "einv (ext_del e G) P (insert e X) u \<and> static t u \<and>
        eb_refcount (evs u e) = rc - 1 \<and> \<not> eb_freed (evs u e) \<and>
        (\<forall>x>e. ef_quorum (evs t x) \<longrightarrow> same_refs (evs t x) (evs u x)) \<and>
        (qb_members (evs u e) = [] \<longrightarrow> ef_empty_members (evs u e)) \<and>
        (\<forall>m\<in>set (qb_members (evs u e)). ef_triggered (evs u m))"
    proof (cases "ef_triggered (evs t e)")
      case False
      then have u: "u = cull_members (handle_dtor_n n) e t" by (simp add: u_def)
      note C = cull_members_spec [OF dt I2 X, folded u]
      have "eb_refcount (evs u e) = rc - 1" "\<not> eb_freed (evs u e)"
        using C(4,5) nf by (simp_all add: te)
      with C(1,2,3,6,7) show ?thesis by blast
    next
      case tr: True
      then have ut: "u = t" by (simp add: u_def)
      have "qb_members (evs t e) \<noteq> []" using True bok te by (auto simp: body_ok_def)
      moreover have "\<forall>m\<in>set (qb_members (evs t e)). ef_triggered (evs t m)"
        using einv_links [OF I2] tr unfolding inv_links_def by blast
      ultimately show ?thesis unfolding ut using I2 te nf by simp
    qed
    then have su: "static s u" using st by (blast intro: static_trans)
    have fl: "ef_empty_members (evs u e) \<longleftrightarrow> qb_members (evs u e) = []"
      using U einv_body_ok [of "ext_del e G" P "insert e X" u e] lt by (auto simp: body_ok_def staticD [OF su])
    have "einv (ext_del e G) P X v" if "rc = 1"
      unfolding v_def by (rule einv_last_ref)
        (use U lt eX lt_q that fl in \<open>auto simp: staticD [OF su]\<close>)
    moreover have "static s v" using su static_steps(2) by (auto simp: v_def intro: static_trans)
    moreover have "spared e s v"
      unfolding spared_def
    proof (intro allI impI)
      fix q assume q: "ef_quorum (evs s q)" "ef_quorum (evs s e) \<longrightarrow> e < q"
      then have "same_refs (evs t q) (evs u q)" using U True by (simp add: staticD [OF st])
      then show "same_refs (evs s q) (evs v q)"
        using q True by (auto simp: v_def t_def dec_ref_def delete_body_def)
    qed
    ultimately show ?thesis unfolding res using I1 st sp by auto
  qed
qed

lemma handle_dtor_spec:
  assumes "einv G P X s" "0 < g_ext G e" "e \<notin> X" "\<forall>x\<in>X. ef_quorum (evs s x) \<and> (ef_quorum (evs s e) \<longrightarrow> e < x)"
  shows "einv (ext_del e G) P X (handle_dtor e s)" "static s (handle_dtor e s)" "spared e s (handle_dtor e s)"
  using handle_dtor_n_spec [OF assms(1-3), of "e + 2"] assms(4) by (auto simp: handle_dtor_def)


subsection \<open>The trigger cascade\<close>

lemma scan_listeners_spec:
  "scan_listeners hm drv coh ds ls = (qs, ds', ks, coh') \<Longrightarrow>
    (\<forall>q. count_list qs q = count_list ls (Quorum q)) \<and> (\<forall>q. Quorum q \<notin> set ks) \<and>
    set ks \<subseteq> set ls \<and> (\<forall>c. Coro c \<in> set ks \<longrightarrow> drv \<noteq> Some (hm c) \<longrightarrow> hm c \<in> set ds') \<and>
    set ds \<subseteq> set ds' \<and> set ds' \<subseteq> set ds \<union> range hm \<and>
    (\<forall>c. count_list ls (Coro c) =
       count_list ks (Coro c) + (if coh = None \<and> coh' = Some c then 1 else 0)) \<and>
    (coh \<noteq> None \<longrightarrow> coh' = coh)"
proof (induction hm drv coh ds ls arbitrary: qs ds' ks coh' rule: scan_listeners.induct)
  case (1 hm drv coh ds)
  then show ?case by auto
next
  case (2 hm drv coh ds q ls)
  obtain qs1 where "scan_listeners hm drv coh ds ls = (qs1, ds', ks, coh')" "qs = q # qs1"
    using 2(2) by (auto split: prod.splits)
  with 2(1) [OF this(1)] show ?case by auto
next
  case (3 hm drv coh ds c ls)
  define ds1 where "ds1 = (if hm c \<in> set ds then ds else ds @ [hm c])"
  consider (claim) "drv = Some (hm c)" "coh = None" | (keep) "drv = Some (hm c)" "coh \<noteq> None"
    | (remote) "drv \<noteq> Some (hm c)" by blast
  then show ?case
  proof cases
    case claim
    with 3(4) have "scan_listeners hm drv (Some c) ds ls = (qs, ds', ks, coh')" by simp
    with 3(1) [OF claim] claim show ?thesis by auto
  next
    case keep
    with 3(4) obtain ks1 where "scan_listeners hm drv coh ds ls = (qs, ds', ks1, coh')" "ks = Coro c # ks1"
      by (auto split: prod.splits)
    with 3(2) [OF keep] keep show ?thesis by auto
  next
    case remote
    with 3(4) obtain ks1 where "scan_listeners hm drv coh ds1 ls = (qs, ds', ks1, coh')" "ks = Coro c # ks1"
      by (auto simp: ds1_def Let_def split: prod.splits)
    moreover have "set ds1 = insert (hm c) (set ds)" by (auto simp: ds1_def)
    ultimately show ?thesis using 3(3) [OF remote, of ds1 qs ds' ks1 coh'] remote
      by (auto simp: ds1_def)
  qed
qed

lemma count_map_Pair: "count (mset (map (Pair e) qs)) (m, q) = (if m = e then count_list qs q else 0)"
  by (induction qs) auto

lemma einv_fire:
  assumes I: "einv G P {e} s" and e: "e < next_ev s" "\<not> ef_triggered (evs s e)" "\<not> eb_freed (evs s e)"
    and ext: "0 < g_ext G e"
    and ms: "\<forall>m\<in>set (qb_members (evs s e)). ef_triggered (evs s m)"
    and em: "ef_quorum (evs s e) \<longrightarrow> qb_members (evs s e) = [] \<longrightarrow> ef_empty_members (evs s e)"
    and ql: "ef_quorum (evs s e) \<longrightarrow> e \<in> g_forced G \<or> qb_quorum (evs s e) \<le> fired G s e"
    and qs: "\<And>q. count_list qs q = count_list (eb_listeners (evs s e)) (Quorum q)"
    and ks: "\<And>q. Quorum q \<notin> set ks" "set ks \<subseteq> set (eb_listeners (evs s e))"
  defines "s' \<equiv> upd e (\<lambda>b. b\<lparr>eb_listeners := ks, ef_triggered := True, ef_empty := (ef_empty b \<or> ks = [])\<rparr>) s"
  shows "einv G (P + mset (map (Pair e) qs)) {} s'"
proof -
  note S = einv_shape [OF I] and L = einv_links [OF I]
  have "inv_shape s'" using S ks(2) e(1) by (auto simp: inv_shape_def s'_def)
  moreover have "inv_links (P + mset (map (Pair e) qs)) s'"
    unfolding inv_links_def
  proof (intro conjI allI impI ballI)
    fix m q
    have c: "count_list (qb_members (evs s q)) m =
        count_list (eb_listeners (evs s m)) (Quorum q) + count P (m, q)" using L by (simp add: inv_links_def)
    have "count_list ks (Quorum q) = 0" using ks(1) by simp
    with c qs [of q] show "count_list (qb_members (evs s' q)) m = count_list (eb_listeners (evs s' m)) (Quorum q) +
        count (P + mset (map (Pair e) qs)) (m, q)"
      by (auto simp add: s'_def count_map_Pair simp del: mset_map)
  next
    fix m q assume "(m, q) \<in># P + mset (map (Pair e) qs)"
    then show "ef_triggered (evs s' m)" using L by (auto simp: inv_links_def s'_def)
  qed (use L ks ms in \<open>auto simp: inv_links_def s'_def split: if_splits\<close>)
  moreover have "ref_ok G {} s' e"
  proof -
    have "0 < eb_refcount (evs s e)" using einv_refcount [OF I e(1)] ext by simp
    moreover have "body_ok True (evs s e)" using einv_body_ok [OF I e(1)] by simp
    moreover have "eb_refcount (evs s' e) = eb_refcount (evs s e)" "eb_freed (evs s' e) = eb_freed (evs s e)"
      "qb_members (evs s' e) = qb_members (evs s e)" "ef_quorum (evs s' e) = ef_quorum (evs s e)"
      "ef_empty_members (evs s' e) = ef_empty_members (evs s e)" by (simp_all add: s'_def)
    ultimately have "body_ok False (evs s' e)"
      using e(3) em by (cases "qb_members (evs s e) = []") (simp_all add: body_ok_def)
    moreover have "eb_refcount (evs s' e) = eb_refcount (evs s e)" "mrefs s' e = mrefs s e"
      "qrefs D s' e = qrefs D s e" for D by (simp_all add: s'_def)
    ultimately show ?thesis using einv_refcount [OF I e(1)] unfolding ref_ok_def by simp
  qed
  then have "inv_refs G {} s'"
    by (intro inv_refs_frame [OF einv_refs [OF I] _ _ _ e(1)]) (auto simp: s'_def elim!: ref_ok_frame)
  moreover have "quorum_ok G False s' q" if q: "q < next_ev s" for q
  proof (cases "q = e")
    case False
    have "quorum_ok G False s q" using einv_quorum_ok [OF I q] False by simp
    then show ?thesis by (rule quorum_ok_frame) (use False in \<open>auto simp: s'_def\<close>)
  next
    case True
    have "fired G s e \<le> fired G s' e" by (rule fired_mono) (auto simp: s'_def)
    then show ?thesis using ql ms True by (auto simp: quorum_ok_def s'_def)
  qed
  then have "inv_quorum G {} s'" by (simp add: inv_quorum_def s'_def)
  ultimately show ?thesis by (simp add: einv_def)
qed


definition grows :: "world \<Rightarrow> world \<Rightarrow> bool" where
  "grows s s' \<longleftrightarrow> next_ev s' = next_ev s \<and> home s' = home s \<and> current s' = current s \<and>
     (\<forall>x. (ef_triggered (evs s x) \<longrightarrow> ef_triggered (evs s' x)) \<and>
          ef_quorum (evs s' x) = ef_quorum (evs s x) \<and> qb_quorum (evs s' x) = qb_quorum (evs s x) \<and>
          ef_want_interest (evs s' x) = ef_want_interest (evs s x) \<and>
          ef_interest (evs s' x) = ef_interest (evs s x) \<and>
          set (eb_listeners (evs s' x)) \<subseteq> set (eb_listeners (evs s x)))"

lemma grows_refl [simp]: "grows s s" by (simp add: grows_def)

lemma grows_trans: "grows s t \<Longrightarrow> grows t u \<Longrightarrow> grows s u"
  unfolding grows_def by (metis order_trans)

lemma static_grows: "static s s' \<Longrightarrow> grows s s'"
  by (simp add: grows_def static_def static_body_def)

lemma growsD:
  assumes "grows s s'"
  shows "next_ev s' = next_ev s" "home s' = home s" "current s' = current s"
    "ef_triggered (evs s x) \<Longrightarrow> ef_triggered (evs s' x)"
    "ef_quorum (evs s' x) = ef_quorum (evs s x)" "qb_quorum (evs s' x) = qb_quorum (evs s x)"
    "set (eb_listeners (evs s' x)) \<subseteq> set (eb_listeners (evs s x))"
    "ef_want_interest (evs s' x) = ef_want_interest (evs s x)"
    "ef_interest (evs s' x) = ef_interest (evs s x)"
  using assms by (simp_all add: grows_def)

text \<open>What a trigger call must achieve for a quorum that has reached its count.\<close>

definition tu_ok :: "ghost \<Rightarrow> nat \<Rightarrow> eid \<Rightarrow> (eid \<Rightarrow> cid option \<times> world \<Rightarrow> cid option \<times> world) \<Rightarrow> bool" where
  "tu_ok G N lo tu \<longleftrightarrow> (\<forall>P q coh s coh' s'. einv G P {q} s \<longrightarrow> next_ev s = N \<longrightarrow> q < N \<longrightarrow> lo \<le> q \<longrightarrow>
     ef_quorum (evs s q) \<longrightarrow> \<not> ef_triggered (evs s q) \<longrightarrow> \<not> eb_freed (evs s q) \<longrightarrow>
     (qb_members (evs s q) = [] \<longrightarrow> ef_empty_members (evs s q)) \<longrightarrow>
     (q \<in> g_forced G \<or> qb_quorum (evs s q) \<le> fired G s q) \<longrightarrow> tu q (coh, s) = (coh', s') \<longrightarrow>
     einv G P {} s' \<and> grows s s' \<and> ef_triggered (evs s' q))"

lemma counted_fired: "counted G s q R \<Longrightarrow> qb_triggered (evs s q) \<le> fired G s q"
proof -
  assume c: "counted G s q R"
  then have "R \<subseteq># g_args G q"
    unfolding counted_def by (metis mset_subset_eq_add_right subset_mset.order_trans)
  then have "filter_mset (\<lambda>m. ef_triggered (evs s m)) R \<subseteq># filter_mset (\<lambda>m. ef_triggered (evs s m)) (g_args G q)"
    by (rule multiset_filter_mono)
  moreover have "filter_mset (\<lambda>m. ef_triggered (evs s m)) R = R"
    using c by (simp add: counted_def filter_mset_eq_conv)
  ultimately have "size R \<le> size (filter_mset (\<lambda>m. ef_triggered (evs s m)) (g_args G q))"
    by (metis size_mset_mono)
  then show ?thesis using c by (simp add: counted_def fired_def)
qed

lemma trigger_member_spec:
  assumes tu: "tu_ok G N lo tu" and I: "einv G (add_mset (e, q) P) {} s"
    and e: "0 < g_ext G e" "lo \<le> q" "next_ev s = N"
    and res: "trigger_member tu e q (coh, s) = (coh', s')"
  shows "einv G P {} s' \<and> grows s s'"
proof -
  define ms where "ms = remove_swap e (qb_members (evs s q))"
  define t where "t = upd q (\<lambda>b. b\<lparr>qb_triggered := qb_triggered b + 1, qb_members := ms,
                   ef_empty_members := (ef_empty_members b \<or> ms = [])\<rparr>) s"
  define u where "u = handle_dtor e t"
  note S = einv_shape [OF I] and L = einv_links [OF I]
  have "count_list (qb_members (evs s q)) e = count_list (eb_listeners (evs s e)) (Quorum q) +
      count (add_mset (e, q) P) (e, q)" using L unfolding inv_links_def by blast
  then have m: "e \<in> set (qb_members (evs s q))" by (simp add: count_list_pos)
  note mq = inv_shape_member [OF S m]
  have It: "einv (ext_add e 1 G) P {q} t" unfolding t_def ms_def by (rule einv_notified [OF I])
  have "einv (ext_del e (ext_add e 1 G)) P {q} u" "static t u" "spared e t u"
    unfolding u_def by (rule handle_dtor_spec [OF It]; use mq in \<open>auto simp: t_def\<close>)+
  then have Iu: "einv G P {q} u" and tu_st: "static t u" and sp: "spared e t u" by simp_all
  have "ef_quorum (evs t q)" "ef_quorum (evs t e) \<longrightarrow> e < q" using mq by (auto simp: t_def)
  with sp have sr: "same_refs (evs t q) (evs u q)" by (simp add: spared_def)
  have g: "grows s u"
    by (rule grows_trans [OF _ static_grows [OF tu_st]]) (simp add: grows_def t_def)
  have uq: "q < next_ev u" using mq tu_st by (simp add: staticD t_def)
  have "body_ok False (evs s q)" using einv_body_ok [OF I] mq by simp
  then have "\<not> eb_freed (evs s q)" using m by (auto simp: body_ok_def)
  then have nf: "\<not> eb_freed (evs u q)" using sr by (simp add: same_refs_def t_def)
  have em: "qb_members (evs u q) = [] \<longrightarrow> ef_empty_members (evs u q)"
    using sr by (simp add: same_refs_def t_def)
  have "trigger_member tu e q (coh, s) =
      (if \<not> ef_triggered (evs u q) \<and> qb_quorum (evs u q) \<le> qb_triggered (evs u q) then tu q (coh, u)
       else if ef_empty_members (evs u q) \<and> eb_refcount (evs u q) = 0 then (coh, delete_body q u)
       else (coh, u))"
    using m by (simp add: trigger_member_def Let_def u_def t_def ms_def)
  note res' = this [unfolded res, symmetric]
  have ok: "quorum_ok G True u q" using einv_quorum_ok [OF Iu uq] by simp
  have "quorum_ok G False s q" using einv_quorum_ok [OF I] mq by simp
  then have limbo: "eb_refcount (evs u q) = 0 \<longrightarrow> (\<forall>m\<in>set (qb_members (evs u q)). ef_triggered (evs u m))"
    using mq sr growsD(4) [OF g] set_remove_swap [of e "qb_members (evs s q)"]
    by (auto simp: quorum_ok_def same_refs_def t_def ms_def)
  have uquorum: "ef_quorum (evs u q)" using mq tu_st by (simp add: staticD t_def)
  show ?thesis
  proof (cases "\<not> ef_triggered (evs u q) \<and> qb_quorum (evs u q) \<le> qb_triggered (evs u q)")
    case True
    then obtain R where "counted G u q R" using ok uquorum by (auto simp: quorum_ok_def)
    from counted_fired [OF this] True have "qb_quorum (evs u q) \<le> fired G u q" by simp
    with tu [unfolded tu_ok_def, rule_format, OF Iu, of coh coh' s'] True res' nf em uq uquorum e g
    have "einv G P {} s'" "grows u s'" by (auto simp: growsD)
    with g show ?thesis by (blast intro: grows_trans)
  next
    case False
    have ok': "quorum_ok G False u q" if "eb_refcount (evs u q) = 0"
      using ok False that limbo by (auto simp: quorum_ok_def)
    show ?thesis
    proof (cases "ef_empty_members (evs u q) \<and> eb_refcount (evs u q) = 0")
      case del: True
      then have s': "s' = delete_body q u" using res' False by auto
      have e0: "qb_members (evs u q) = []" using einv_body_ok [OF Iu uq] del by (auto simp: body_ok_def)
      have "einv G P {} (if True then delete_body q u else u)"
        by (rule einv_last_ref) (use Iu uq del em nf e0 ok' in \<open>auto simp: quorum_ok_def\<close>)
      moreover have "grows u s'" unfolding s' using static_grows static_steps(2) by blast
      ultimately show ?thesis using g s' by (auto intro: grows_trans)
    next
      case nodel: False
      then have s': "s' = u" using res' False by auto
      have "body_ok True (evs u q)" using einv_body_ok [OF Iu uq] by simp
      then have b: "body_ok False (evs u q)"
        using nodel em nf by (cases "qb_members (evs u q) = []") (simp_all add: body_ok_def)
      have "\<exists>R. counted G u q R \<and> mset (qb_members (evs u q)) + R = g_args G q"
        if "\<not> ef_triggered (evs u q)" "0 < eb_refcount (evs u q)"
      proof -
        have "\<exists>R. counted G t q R \<and> mset (qb_members (evs t q)) + R = g_args G q"
          unfolding t_def ms_def
          by (rule einv_notified(2) [OF I]; fold ms_def; fold t_def)
             (use that sr in \<open>simp_all add: staticD [OF tu_st] same_refs_def\<close>)
        moreover have "counted G u q R = counted G t q R" for R
          using sr by (simp add: counted_def staticD [OF tu_st] same_refs_def)
        ultimately show ?thesis using sr by (simp add: same_refs_def)
      qed
      then have "quorum_ok G False u q"
        using ok False limbo by (cases "0 < eb_refcount (evs u q)") (auto simp: quorum_ok_def)
      with einv_leave [OF Iu uq b] g s' show ?thesis by simp
    qed
  qed
qed


lemma trigger_members_spec:
  assumes tu: "tu_ok G N lo tu" and I: "einv G (P + mset (map (Pair e) qs)) {} s"
    and e: "0 < g_ext G e" "\<forall>q\<in>set qs. lo \<le> q" "next_ev s = N"
    and res: "fold (trigger_member tu e) qs (coh, s) = (coh', s')"
  shows "einv G P {} s' \<and> grows s s'"
  using I e(2,3) res
proof (induction qs arbitrary: coh s)
  case Nil
  then show ?case by simp
next
  case (Cons q qs)
  obtain coh1 s1 where r: "trigger_member tu e q (coh, s) = (coh1, s1)" by fastforce
  have "einv G (add_mset (e, q) (P + mset (map (Pair e) qs))) {} s" using Cons.prems(1) by simp
  then have 1: "einv G (P + mset (map (Pair e) qs)) {} s1 \<and> grows s s1"
    by (rule trigger_member_spec [OF tu _ e(1)]) (use Cons.prems r in auto)
  then have "einv G P {} s' \<and> grows s1 s'"
    by (intro Cons.IH) (use Cons.prems r in \<open>auto simp: growsD\<close>)
  with 1 show ?case by (blast intro: grows_trans)
qed

lemma einv_post:
  assumes I: "einv (ext_add e 1 G) P X s" and d: "d \<in> g_drivers G"
  shows "einv G P X (post h e d s)"
proof -
  have fin: "finite (g_drivers G)" using einv_refs [OF I] by (simp add: inv_refs_def)
  have "0 < g_ext (ext_add e 1 G) e" by simp
  from einv_ext_lt [OF I this] have e: "e < next_ev s" .
  have "inv_shape (post h e d s)" using einv_shape [OF I] by (simp add: inv_shape_def)
  moreover have "inv_links P (post h e d s)" using einv_links [OF I] by (simp add: inv_links_def)
  moreover have "ref_ok G X (post h e d s) x" if "x < next_ev s" for x
    using einv_ok [OF I that] qrefs_post [OF fin d, of h e s x] by (simp add: ref_ok_def)
  then have "inv_refs G X (post h e d s)"
    using einv_refs [OF I] e qrefs_post [OF fin d] by (auto simp: inv_refs_def)
  moreover have "inv_quorum G X (post h e d s)"
    by (rule inv_quorum_frame [OF einv_quorum [OF I, simplified]]) auto
  ultimately show ?thesis by (simp add: einv_def)
qed

lemma einv_posts:
  "einv (ext_add e (length ds) G) P X s \<Longrightarrow> set ds \<subseteq> g_drivers G \<Longrightarrow>
    einv G P X (fold (post h e) ds s)"
proof (induction ds arbitrary: s)
  case Nil
  then show ?case by (simp add: ext_add_def)
next
  case (Cons d ds)
  have "ext_add e (length (d # ds)) G = ext_add e 1 (ext_add e (length ds) G)"
    by (simp add: ext_add_def)
  with Cons.prems(1) have "einv (ext_add e 1 (ext_add e (length ds) G)) P X s" by (simp only:)
  then have "einv (ext_add e (length ds) G) P X (post h e d s)"
    by (rule einv_post) (use Cons.prems in simp)
  then show ?case using Cons by simp
qed

lemma grows_post: "grows s (post h e d s)" by (simp add: grows_def)

lemma grows_posts: "grows s (fold (post h e) ds s)"
  by (induction ds arbitrary: s) (auto intro: grows_trans [OF grows_post])

lemma dtor_ok_handle_dtor: "dtor_ok P {q} q handle_dtor"
  unfolding dtor_ok_def using handle_dtor_spec by auto

text \<open>The first half of \<^verbatim>\<open>trigger_unlock\<close>: a quorum takes a reference to itself and gives up its members.\<close>

definition enter_trigger :: "eid \<Rightarrow> world \<Rightarrow> world" where
  "enter_trigger e s = (if ef_quorum (evs s e) then cull_members handle_dtor e (ref 1 e s) else s)"

definition held :: "eid \<Rightarrow> world \<Rightarrow> ghost \<Rightarrow> ghost" where
  "held e s G = (if ef_quorum (evs s e) then ext_add e 1 G else G)"

lemma enter_trigger_spec:
  assumes I: "einv G P {e} s" and e: "e < next_ev s" "\<not> ef_triggered (evs s e)" "\<not> eb_freed (evs s e)"
    and live: "\<not> ef_quorum (evs s e) \<longrightarrow> 0 < g_ext G e"
  defines "t \<equiv> enter_trigger e s"
  shows "einv (held e s G) P {e} t" "static s t" "\<not> eb_freed (evs t e)"
    "\<forall>m\<in>set (qb_members (evs t e)). ef_triggered (evs t m)" "0 < g_ext (held e s G) e"
    "ef_quorum (evs s e) \<longrightarrow> qb_members (evs t e) = [] \<longrightarrow> ef_empty_members (evs t e)"
proof -
  have "einv (held e s G) P {e} t \<and> static s t \<and> \<not> eb_freed (evs t e) \<and>
    (\<forall>m\<in>set (qb_members (evs t e)). ef_triggered (evs t m)) \<and> 0 < g_ext (held e s G) e \<and>
    (ef_quorum (evs s e) \<longrightarrow> qb_members (evs t e) = [] \<longrightarrow> ef_empty_members (evs t e))"
  proof (cases "ef_quorum (evs s e)")
    case False
    then have "qb_members (evs s e) = []"
      using inv_shape_member [OF einv_shape [OF I], of _ e] by (cases "qb_members (evs s e)") auto
    then show ?thesis using False I e live by (simp add: t_def enter_trigger_def held_def)
  next
    case True
    have t: "t = cull_members handle_dtor e (ref 1 e s)" using True by (simp add: t_def enter_trigger_def)
    have I1: "einv (ext_add e 1 G) P {e} (ref 1 e s)" by (rule einv_ref [OF I e(1,3)]) simp
    have X: "\<forall>x\<in>{e}. ef_quorum (evs (ref 1 e s) x) \<and> e \<le> x" using True by (simp add: ref_def)
    note C = cull_members_spec [OF dtor_ok_handle_dtor I1 _ X, folded t]
    have "static s t" using C(2) static_steps(3) by (blast intro: static_trans)
    moreover have "\<not> eb_freed (evs t e)" using C(5) e(3) by (simp add: ref_def)
    ultimately show ?thesis using C(1,3,7) True by (simp add: held_def)
  qed
  then show "einv (held e s G) P {e} t" "static s t" "\<not> eb_freed (evs t e)"
    "\<forall>m\<in>set (qb_members (evs t e)). ef_triggered (evs t m)" "0 < g_ext (held e s G) e"
    "ef_quorum (evs s e) \<longrightarrow> qb_members (evs t e) = [] \<longrightarrow> ef_empty_members (evs t e)"
    by blast+
qed

lemma fired_static: "static s t \<Longrightarrow> fired G t q = fired G s q"
  by (simp add: fired_def staticD)

definition fire :: "eid \<Rightarrow> listener list \<Rightarrow> world \<Rightarrow> world" where
  "fire e ks = upd e (\<lambda>b. b\<lparr>eb_listeners := ks, ef_triggered := True, ef_empty := (ef_empty b \<or> ks = [])\<rparr>)"

definition notify_drivers :: "did option \<Rightarrow> eid \<Rightarrow> did list \<Rightarrow> world \<Rightarrow> world" where
  "notify_drivers drv e ds s =
     (if ds \<noteq> [] then
        let here = (case drv of None \<Rightarrow> current s | Some d \<Rightarrow> d)
        in fold (post here e) ds (ref (length ds) e s)
      else s)"

definition leave_trigger :: "bool \<Rightarrow> eid \<Rightarrow> world \<Rightarrow> world" where
  "leave_trigger isq e s = (if isq then handle_dtor e s else s)"

lemma trigger_unlock_n_unfold:
  "trigger_unlock_n (Suc n) drv e (coh, s) =
     (let t = enter_trigger e s;
          (qs, ds, ks, coh1) = scan_listeners (home t) drv coh [] (eb_listeners (evs t e));
          (coh2, u) = fold (trigger_member (trigger_unlock_n n drv) e) qs (coh1, fire e ks t)
      in (coh2, leave_trigger (ef_quorum (evs s e)) e (notify_drivers drv e ds u)))"
  by (simp add: enter_trigger_def fire_def notify_drivers_def leave_trigger_def Let_def
      split: prod.splits)

lemma notify_drivers_spec:
  assumes I: "einv G P {} s" and e: "0 < g_ext G e" and ds: "set ds \<subseteq> g_drivers G"
  shows "einv G P {} (notify_drivers drv e ds s) \<and> grows s (notify_drivers drv e ds s)"
proof -
  have lt: "e < next_ev s" by (rule einv_ext_lt [OF I e])
  have pos: "0 < eb_refcount (evs s e)" using einv_refcount [OF I lt] e by simp
  then have "\<not> eb_freed (evs s e)" using einv_body_ok [OF I lt] by (auto simp: body_ok_def)
  then have "einv (ext_add e (length ds) G) P {} (ref (length ds) e s)"
    using pos by (intro einv_ref [OF I lt]) auto
  from einv_posts [OF this ds] have "einv G P {} (fold (post h e) ds (ref (length ds) e s))" for h .
  moreover have "grows s (fold (post h e) ds (ref (length ds) e s))" for h
    using static_grows [OF static_steps(3)] grows_posts by (blast intro: grows_trans)
  ultimately show ?thesis using I by (simp add: notify_drivers_def Let_def)
qed

lemma trigger_unlock_n_spec:
  assumes "einv G P {e} s" "e < next_ev s" "\<not> ef_triggered (evs s e)" "\<not> eb_freed (evs s e)"
    and "\<not> ef_quorum (evs s e) \<longrightarrow> 0 < g_ext G e"
    and "ef_quorum (evs s e) \<longrightarrow> e \<in> g_forced G \<or> qb_quorum (evs s e) \<le> fired G s e"
    and "ef_quorum (evs s e) \<longrightarrow> next_ev s \<le> e + n" "\<not> ef_quorum (evs s e) \<longrightarrow> next_ev s < n"
    and "trigger_unlock_n n drv e (coh, s) = (coh', s')"
  shows "einv G P {} s' \<and> grows s s' \<and> ef_triggered (evs s' e)"
  using assms
proof (induction n arbitrary: e s G P coh coh' s')
  case 0
  then show ?case by auto
next
  case (Suc n)
  note e = Suc.prems(2-4)
  define t where "t = enter_trigger e s"
  define H where "H = held e s G"
  obtain qs ds ks coh1 where sc:
    "scan_listeners (home t) drv coh [] (eb_listeners (evs t e)) = (qs, ds, ks, coh1)"
    by (metis prod_cases4)
  obtain coh2 u where fo:
    "fold (trigger_member (trigger_unlock_n n drv) e) qs (coh1, fire e ks t) = (coh2, u)" by fastforce
  define v where "v = notify_drivers drv e ds u"
  have res: "coh' = coh2" "s' = leave_trigger (ef_quorum (evs s e)) e v"
    using Suc.prems(9) sc fo
    by (simp_all add: trigger_unlock_n_unfold Let_def t_def [symmetric] v_def del: trigger_unlock_n.simps)
  note T = enter_trigger_spec [OF Suc.prems(1-5), folded t_def H_def]
  note st = staticD [OF T(2)]
  note sp = scan_listeners_spec [OF sc]
  have D: "set ds \<subseteq> g_drivers H"
    using sp einv_refs [OF Suc.prems(1)] by (auto simp: inv_refs_def st H_def held_def split: if_splits)
  have F: "einv H (P + mset (map (Pair e) qs)) {} (fire e ks t)"
    unfolding fire_def
    by (rule einv_fire [OF T(1)])
       (use e T Suc.prems(6) sp fired_static [OF T(2)] in \<open>auto simp: st H_def held_def fired_def\<close>)
  have gf: "grows t (fire e ks t)" using sp by (simp add: grows_def fire_def)
  define lo where "lo = (if ef_quorum (evs s e) then Suc e else 0)"
  have lo: "\<forall>q\<in>set qs. lo \<le> q"
  proof
    fix q assume "q \<in> set qs"
    then have "Quorum q \<in> set (eb_listeners (evs t e))" using sp by (metis count_list_0_iff)
    then have "e \<in> set (qb_members (evs t q))"
      using einv_links [OF T(1)] unfolding inv_links_def by (metis add_is_0 count_list_0_iff)
    from inv_shape_member [OF einv_shape [OF T(1)] this] show "lo \<le> q" by (auto simp: lo_def st)
  qed
  have tu: "tu_ok H (next_ev s) lo (trigger_unlock_n n drv)"
    unfolding tu_ok_def
  proof (intro allI impI, goal_cases)
    case (1 P' q c w c' w')
    then show ?case
      by (intro Suc.IH [where coh = c and coh' = c']) (use Suc.prems(7,8) in \<open>auto simp: lo_def split: if_splits\<close>)
  qed
  have U: "einv H P {} u \<and> grows (fire e ks t) u"
    by (rule trigger_members_spec [OF tu F T(5) lo _ fo]) (simp add: fire_def st)
  have V: "einv H P {} v \<and> grows u v"
    unfolding v_def using U notify_drivers_spec T(5) D by blast
  have "ef_triggered (evs (fire e ks t) e)" by (simp add: fire_def)
  then have tv: "ef_triggered (evs v e)" using U V growsD(4) by blast
  have g: "grows s v"
    using static_grows [OF T(2)] gf U V by (blast intro: grows_trans)
  show ?case
  proof (cases "ef_quorum (evs s e)")
    case True
    have "einv (ext_del e H) P {} (handle_dtor e v)" "static v (handle_dtor e v)"
      using handle_dtor_spec [of H P "{}" v e] V T(5) by auto
    moreover have "ext_del e H = G" using True by (simp add: H_def held_def)
    ultimately show ?thesis
      using True res g tv static_grows by (auto simp: leave_trigger_def staticD intro: grows_trans)
  next
    case False
    then show ?thesis using res V g tv by (simp add: leave_trigger_def H_def held_def)
  qed
qed

end
