(* ===== verification/EventRun.thy ===== *)
theory EventRun
  imports EventInv
begin

text \<open>
  The operations that programs apply to events, and the states they reach: every public
  operation keeps the invariant of \<open>EventInv\<close>, so it holds in every reachable state.
\<close>

subsection \<open>Weakening and ghost updates\<close>

lemma body_ok_mono: "body_ok False b \<Longrightarrow> body_ok x b"
  by (simp add: body_ok_def)

lemma quorum_ok_mono: "quorum_ok G False s q \<Longrightarrow> quorum_ok G x s q"
  by (auto simp: quorum_ok_def)

lemma einv_enter: "einv G P {} s \<Longrightarrow> einv G P X s"
  by (simp add: einv_def inv_refs_def ref_ok_def body_ok_mono inv_quorum_def quorum_ok_mono)

definition force :: "eid \<Rightarrow> ghost \<Rightarrow> ghost" where
  "force e G = G\<lparr>g_forced := insert e (g_forced G)\<rparr>"

lemma force_simps [simp]:
  "g_ext (force e G) = g_ext G" "g_args (force e G) = g_args G" "g_nulls (force e G) = g_nulls G"
  "g_drivers (force e G) = g_drivers G" "g_forced (force e G) = insert e (g_forced G)"
  by (simp_all add: force_def)

lemma einv_force: "einv G P X s \<Longrightarrow> einv (force e G) P X s"
  by (auto simp: einv_def inv_refs_def ref_ok_def inv_quorum_def quorum_ok_def counted_def fired_def)

lemma sparedD: "spared e s s' \<Longrightarrow> ef_quorum (evs s q) \<Longrightarrow> (ef_quorum (evs s e) \<longrightarrow> e < q) \<Longrightarrow>
    same_refs (evs s q) (evs s' q)"
  by (simp add: spared_def)

subsection \<open>Triggering\<close>

lemma einv_held_alive:
  assumes I: "einv G P {} s" and e: "0 < g_ext G e"
  shows "e < next_ev s" "0 < eb_refcount (evs s e)" "\<not> eb_freed (evs s e)"
proof -
  show lt: "e < next_ev s" by (rule einv_ext_lt [OF I e])
  show pos: "0 < eb_refcount (evs s e)" using einv_refcount [OF I lt] e by simp
  show "\<not> eb_freed (evs s e)" using einv_body_ok [OF I lt] pos by (auto simp: body_ok_def)
qed

lemma trigger_unlock_spec:
  assumes I: "einv G P {e} s" and e: "e < next_ev s" "\<not> ef_triggered (evs s e)" "\<not> eb_freed (evs s e)"
    and live: "\<not> ef_quorum (evs s e) \<longrightarrow> 0 < g_ext G e"
    and q: "ef_quorum (evs s e) \<longrightarrow> e \<in> g_forced G \<or> qb_quorum (evs s e) \<le> fired G s e"
    and res: "trigger_unlock drv e (coh, s) = (coh', s')"
  shows "einv G P {} s' \<and> grows s s' \<and> ef_triggered (evs s' e)"
  by (rule trigger_unlock_n_spec [OF I e live q, where n = "next_ev s + 1"])
     (use res in \<open>auto simp: trigger_unlock_def simp del: trigger_unlock_n.simps\<close>)

lemma trigger_spec:
  assumes I: "einv G {#} {} s" and e: "0 < g_ext G e"
  shows "einv (force e G) {#} {} (snd (trigger e s)) \<and> grows s (snd (trigger e s)) \<and>
    ef_triggered (evs (snd (trigger e s)) e)"
proof (cases "ef_triggered (evs s e)")
  case True
  then show ?thesis using einv_force [OF I] by (simp add: trigger_def)
next
  case False
  obtain coh' s' where r: "trigger_unlock None e (None, s) = (coh', s')" by fastforce
  have "einv (force e G) {#} {e} s" by (rule einv_force [OF einv_enter [OF I]])
  then have "einv (force e G) {#} {} s' \<and> grows s s' \<and> ef_triggered (evs s' e)"
    by (rule trigger_unlock_spec [OF _ _ False _ _ _ r]) (use einv_held_alive [OF I e] e in simp_all)
  moreover have "snd (trigger e s) = s'" using False r by (simp add: trigger_def)
  ultimately show ?thesis by metis
qed

lemma remove_coro_spec:
  assumes I: "einv G P X s"
  shows "einv G P X (remove_listener (Coro c) e s)"
proof -
  let ?s = "remove_listener (Coro c) e s"
  have cnt: "count_list (remove_swap (Coro c) ls) (Quorum q) = count_list ls (Quorum q)" for ls q
    by (simp add: count_list_remove_swap)
  then have mem: "Quorum q \<in> set (remove_swap (Coro c) ls) \<longleftrightarrow> Quorum q \<in> set ls" for ls q
    by (metis count_list_0_iff)
  have ne: "remove_swap (Coro c) ls = []" if "ls = []" for ls using that by simp
  have "inv_shape ?s" using einv_shape [OF I] ne
    by (auto simp: inv_shape_def remove_listener_def Let_def)
  moreover have "inv_links P ?s" using einv_links [OF I]
    unfolding inv_links_def remove_listener_def Let_def upd_simps fun_upd_apply
    by (simp add: cnt mem)
  moreover have "ref_ok G X ?s x" if "x < next_ev s" for x
    using einv_ok [OF I that] by (auto simp: ref_ok_def body_ok_def remove_listener_def Let_def)
  then have "inv_refs G X ?s" using einv_refs [OF I] by (auto simp: inv_refs_def remove_listener_def Let_def)
  moreover have "inv_quorum G X ?s"
    by (rule inv_quorum_frame [OF einv_quorum [OF I]]) (auto simp: remove_listener_def Let_def)
  ultimately show ?thesis by (simp add: einv_def)
qed


lemma upd_id: "f (evs s e) = evs s e \<Longrightarrow> upd e f s = s"
  by (simp add: upd_def)

lemma driver_trigger_spec:
  assumes I: "einv G {#} {} s" and e: "0 < g_ext G e"
  shows "einv (force e G) {#} {} (snd (driver_trigger d e s)) \<and>
    grows s (snd (driver_trigger d e s)) \<and> ef_triggered (evs (snd (driver_trigger d e s)) e)"
proof -
  let ?s' = "snd (driver_trigger d e s)"
  consider (triggered) "ef_triggered (evs s e)" "ef_empty (evs s e)"
    | (untriggered) "\<not> ef_triggered (evs s e)"
    | (none) "ef_triggered (evs s e)" "\<not> ef_empty (evs s e)"
        "find_home (home s) d (eb_listeners (evs s e)) = None"
    | (some) c where "ef_triggered (evs s e)" "\<not> ef_empty (evs s e)"
        "find_home (home s) d (eb_listeners (evs s e)) = Some c"
    by (cases "find_home (home s) d (eb_listeners (evs s e))") auto
  then show ?thesis
  proof cases
    case triggered
    then show ?thesis using einv_force [OF I] by (simp add: driver_trigger_def)
  next
    case untriggered
    obtain coh' s' where r: "trigger_unlock (Some d) e (None, s) = (coh', s')" by fastforce
    have "einv (force e G) {#} {e} s" by (rule einv_force [OF einv_enter [OF I]])
    then have "einv (force e G) {#} {} s' \<and> grows s s' \<and> ef_triggered (evs s' e)"
      by (rule trigger_unlock_spec [OF _ _ untriggered _ _ _ r])
         (use einv_held_alive [OF I e] e in simp_all)
    moreover have "?s' = s'" using untriggered r by (simp add: driver_trigger_def Let_def)
    ultimately show ?thesis by metis
  next
    case none
    then have "eb_listeners (evs s e) \<noteq> []" using einv_shape [OF I] by (simp add: inv_shape_def)
    then have "upd e (\<lambda>b. b\<lparr>ef_empty := (ef_empty b \<or> eb_listeners b = [])\<rparr>) s = s"
      by (intro upd_id) simp
    with none have "?s' = s" by (simp add: driver_trigger_def Let_def)
    then show ?thesis using einv_force [OF I] none by simp
  next
    case some
    then have s': "?s' = remove_listener (Coro c) e s" by (simp add: driver_trigger_def Let_def)
    have "grows s ?s'" unfolding s' by (simp add: grows_def remove_listener_def Let_def set_remove_swap)
    moreover have "ef_triggered (evs ?s' e)" using some unfolding s' by (simp add: remove_listener_def Let_def)
    ultimately show ?thesis using remove_coro_spec [OF einv_force [OF I]] s' by simp
  qed
qed

subsection \<open>Building events\<close>

text \<open>A body just allocated, with the ghost state of its arguments reset.\<close>

definition fresh :: "eid \<Rightarrow> ghost \<Rightarrow> ghost" where
  "fresh e G = (ext_add e 1 G)\<lparr>g_args := (g_args G)(e := {#}), g_nulls := (g_nulls G)(e := 0)\<rparr>"

lemma fresh_simps [simp]:
  "g_ext (fresh e G) = (g_ext G)(e := g_ext G e + 1)"
  "g_args (fresh e G) = (g_args G)(e := {#})" "g_nulls (fresh e G) = (g_nulls G)(e := 0)"
  "g_drivers (fresh e G) = g_drivers G" "g_forced (fresh e G) = g_forced G"
  by (simp_all add: fresh_def)

lemma mrefs_unallocated: "inv_shape s \<Longrightarrow> next_ev s \<le> e \<Longrightarrow> mrefs s e = 0"
  unfolding mrefs_def inv_shape_def by (auto intro!: sum.neutral) (metis count_list_0_iff leD)

lemma einv_alloc:
  assumes I: "einv G P {} s"
    and b: "b = event_body_new \<or> b = quorum_body_new n"
  defines "q \<equiv> next_ev s" and "s' \<equiv> snd (alloc b s)"
  shows "einv (fresh q G) P {q} s'" and "\<not> ef_quorum b \<Longrightarrow> einv (fresh q G) P {} s'"
proof -
  note S = einv_shape [OF I] and L = einv_links [OF I]
  have b': "eb_listeners b = []" "qb_members b = []" "eb_refcount b = 1" "\<not> eb_freed b" "ef_empty b"
     "\<not> ef_triggered b" "qb_triggered b = 0" "ef_empty_members b = ef_quorum b"
    using b by (auto simp: event_body_new_def quorum_body_new_def)
  have old: "eb_listeners (evs s q) = []" "qb_members (evs s q) = []"
    using S by (auto simp: inv_shape_def q_def)
  have s': "evs s' = (evs s)(q := b)" "next_ev s' = Suc q" "home s' = home s" "asap_q s' = asap_q s"
     "migrate_q s' = migrate_q s" by (simp_all add: s'_def alloc_def q_def)
  have qnm: "q \<notin> set (qb_members (evs s x))" for x using S by (auto simp: inv_shape_def q_def)
  have "inv_shape s'"
    using S qnm b' by (fastforce simp: inv_shape_def s' q_def)
  moreover have P: "(q, x) \<notin># P" "(x, q) \<notin># P" for x
  proof -
    have "count_list (qb_members (evs s x)) q = count_list (eb_listeners (evs s q)) (Quorum x) + count P (q, x)"
      "count_list (qb_members (evs s q)) x = count_list (eb_listeners (evs s x)) (Quorum q) + count P (x, q)"
      using L by (auto simp: inv_links_def)
    then show "(q, x) \<notin># P" "(x, q) \<notin># P" using qnm [of x] old by (simp_all add: not_in_iff)
  qed
  moreover have "inv_links P s'"
  proof -
    have "count_list (eb_listeners (evs s m)) (Quorum q) = 0" for m
      using L old unfolding inv_links_def by (metis add_is_0 count_list.simps(1))
    then show ?thesis
      using L b' P qnm unfolding inv_links_def s' fun_upd_apply
      by (simp add: not_in_iff) (metis count_list_0_iff)
  qed
  moreover have mr: "mrefs s' x = mrefs s x" for x
    unfolding mrefs_def s' using b' by (simp add: q_def lessThan_Suc)
  have qr: "qrefs D s' = qrefs D s" for D by (simp add: qrefs_def s' fun_eq_iff)
  have z: "mrefs s q = 0" "g_ext G q = 0" "qrefs (g_drivers G) s q = 0"
    using mrefs_unallocated [OF S] einv_refs [OF I] by (auto simp: inv_refs_def q_def)
  have ok: "ref_ok (fresh q G) X s' x" if "x < Suc q" for x X
  proof (cases "x = q")
    case True
    have "body_ok False b" using b' by (simp add: body_ok_def)
    then have "body_ok (q \<in> X) b" by (rule body_ok_mono)
    then show ?thesis using True z b' by (simp add: ref_ok_def s' mr qr)
  next
    case False
    then have "ref_ok G {} s x" using einv_ok [OF I] that by (simp add: q_def)
    then show ?thesis using False body_ok_mono by (simp add: ref_ok_def s' mr qr)
  qed
  then have R: "inv_refs (fresh q G) X s'" for X
    using einv_refs [OF I] by (auto simp: inv_refs_def s' qr q_def)
  have "quorum_ok (fresh q G) x s' y" if "y < q" for x y
  proof -
    have "quorum_ok G False s y" using einv_quorum_ok [OF I] that by (simp add: q_def)
    then have "quorum_ok G x s' y"
      by (rule quorum_ok_frame) (use that b' S in \<open>auto simp: s' q_def inv_shape_def\<close>)
    then show ?thesis using that by (simp add: quorum_ok_def counted_def fired_def)
  qed
  moreover have "quorum_ok (fresh q G) True s' q"
    using b' by (auto simp: quorum_ok_def s' counted_def intro!: exI [of _ "{#}"])
  moreover have "\<not> ef_quorum b \<Longrightarrow> quorum_ok (fresh q G) False s' q" by (simp add: quorum_ok_def s')
  ultimately show "einv (fresh q G) P {q} s'" and "\<not> ef_quorum b \<Longrightarrow> einv (fresh q G) P {} s'"
    using R by (auto simp: einv_def inv_quorum_def s' less_Suc_eq)
qed


text \<open>A quorum under construction: all of its arguments are accounted for.\<close>

definition exact :: "ghost \<Rightarrow> world \<Rightarrow> eid \<Rightarrow> bool" where
  "exact G s q \<longleftrightarrow> (\<exists>R. counted G s q R \<and> mset (qb_members (evs s q)) + R = g_args G q)"

definition building :: "ghost \<Rightarrow> eid \<Rightarrow> world \<Rightarrow> bool" where
  "building G q s \<longleftrightarrow> einv G {#} {q} s \<and> exact G s q \<and> 0 < g_ext G q \<and>
     ef_quorum (evs s q) \<and> \<not> ef_triggered (evs s q) \<and> \<not> eb_freed (evs s q) \<and>
     (qb_members (evs s q) = [] \<longrightarrow> ef_empty_members (evs s q))"

fun arg_ghost :: "eid \<Rightarrow> eid option \<Rightarrow> ghost \<Rightarrow> ghost" where
  "arg_ghost q None G = G\<lparr>g_nulls := (g_nulls G)(q := g_nulls G q + 1)\<rparr>"
| "arg_ghost q (Some e) G = (ext_del e G)\<lparr>g_args := (g_args G)(q := add_mset e (g_args G q))\<rparr>"

lemma quorum_ok_other:
  "quorum_ok G x s y \<Longrightarrow> g_args G' y = g_args G y \<Longrightarrow> g_nulls G' y = g_nulls G y \<Longrightarrow>
    g_forced G' = g_forced G \<Longrightarrow> quorum_ok G' x s y"
  by (simp add: quorum_ok_def counted_def fired_def)

lemma einv_count_arg:
  assumes I: "einv G P {q} s" and x: "exact G s q" and q: "\<not> ef_triggered (evs s q)"
    and G': "G' = G\<lparr>g_nulls := (g_nulls G)(q := g_nulls G q + 1)\<rparr> \<or>
      (\<exists>e. ef_triggered (evs s e) \<and> G' = G\<lparr>g_args := (g_args G)(q := add_mset e (g_args G q))\<rparr>)"
  defines "s' \<equiv> upd q (\<lambda>b. b\<lparr>qb_triggered := qb_triggered b + 1\<rparr>) s"
  shows "einv G' P {q} s' \<and> exact G' s' q"
proof -
  obtain R where R: "counted G s q R" "mset (qb_members (evs s q)) + R = g_args G q"
    using x by (auto simp: exact_def)
  have tr: "ef_triggered (evs s' y) = ef_triggered (evs s y)" for y by (simp add: s'_def)
  have x': "exact G' s' q"
    using G'
  proof
    assume "G' = G\<lparr>g_nulls := (g_nulls G)(q := g_nulls G q + 1)\<rparr>"
    then show ?thesis using R unfolding exact_def counted_def by (intro exI [of _ R]) (auto simp: s'_def)
  next
    assume "\<exists>e. ef_triggered (evs s e) \<and> G' = G\<lparr>g_args := (g_args G)(q := add_mset e (g_args G q))\<rparr>"
    then obtain e where "ef_triggered (evs s e)" "G' = G\<lparr>g_args := (g_args G)(q := add_mset e (g_args G q))\<rparr>"
      by blast
    then show ?thesis using R unfolding exact_def counted_def
      by (intro exI [of _ "add_mset e R"]) (auto simp: s'_def)
  qed
  have "quorum_ok G' True s' q" using x' q by (auto simp: quorum_ok_def exact_def tr)
  have "inv_shape s'" using einv_shape [OF I] by (auto simp: inv_shape_def s'_def)
  moreover have "inv_links P s'" using einv_links [OF I] by (auto simp: inv_links_def s'_def)
  moreover have "ref_ok G' {q} s' y" if "y < next_ev s" for y
    using einv_ok [OF I that] G' by (auto simp: ref_ok_def body_ok_def s'_def)
  then have "inv_refs G' {q} s'" using einv_refs [OF I] G' by (auto simp: inv_refs_def s'_def)
  moreover have "quorum_ok G' (y \<in> {q}) s' y" if "y < next_ev s" for y
  proof (cases "y = q")
    case False
    have "quorum_ok G False s y" using einv_quorum_ok [OF I that] False by simp
    then have "quorum_ok G False s' y" by (rule quorum_ok_frame) (use False in \<open>auto simp: s'_def\<close>)
    then show ?thesis using False G' by (auto elim!: quorum_ok_other)
  qed (use \<open>quorum_ok G' True s' q\<close> in simp)
  then have "inv_quorum G' {q} s'" by (simp add: inv_quorum_def s'_def)
  ultimately show ?thesis using x' by (simp add: einv_def)
qed


lemma einv_link:
  fixes w :: "event_body \<Rightarrow> bool"
  assumes I: "einv G P {q} s" and x: "exact G s q"
    and q: "\<not> ef_triggered (evs s q)" "ef_quorum (evs s q)" "q < next_ev s" "\<not> eb_freed (evs s q)"
    and e: "0 < g_ext G e" "\<not> ef_triggered (evs s e)" "e \<noteq> q" "ef_quorum (evs s e) \<longrightarrow> e < q"
  defines "G' \<equiv> arg_ghost q (Some e) G"
  defines "s' \<equiv> upd q (\<lambda>b. b\<lparr>ef_want_interest := w b, qb_members := qb_members b @ [e], ef_empty_members := False\<rparr>)
       (add_listener (Quorum q) e s)"
  shows "einv G' P {q} s' \<and> exact G' s' q"
proof -
  note S = einv_shape [OF I] and L = einv_links [OF I]
  have lt: "e < next_ev s" by (rule einv_ext_lt [OF I e(1)])
  have nxt: "next_ev s' = next_ev s" "home s' = home s" by (simp_all add: s'_def add_listener_def)
  have tr: "ef_triggered (evs s' y) = ef_triggered (evs s y)" for y by (simp add: s'_def add_listener_def)
  have mem: "qb_members (evs s' y) = qb_members (evs s y) @ (if y = q then [e] else [])" for y
    by (simp add: s'_def add_listener_def)
  have lis: "eb_listeners (evs s' y) = eb_listeners (evs s y) @ (if y = e then [Quorum q] else [])" for y
    using e(3) by (simp add: s'_def add_listener_def)
  have x': "exact G' s' q"
  proof -
    obtain R where "counted G s q R" "mset (qb_members (evs s q)) + R = g_args G q"
      using x by (auto simp: exact_def)
    then show ?thesis unfolding exact_def counted_def using e(3)
      by (intro exI [of _ R]) (auto simp: mem tr G'_def s'_def add_listener_def)
  qed
  have "inv_shape s'"
    using S q e lt unfolding inv_shape_def by (auto simp: s'_def add_listener_def)
  moreover have "inv_links P s'"
    unfolding inv_links_def
  proof (intro conjI allI impI ballI)
    fix m y
    have "count_list (qb_members (evs s y)) m = count_list (eb_listeners (evs s m)) (Quorum y) + count P (m, y)"
      using L by (simp add: inv_links_def)
    then show "count_list (qb_members (evs s' y)) m =
        count_list (eb_listeners (evs s' m)) (Quorum y) + count P (m, y)"
      by (auto simp: mem lis)
  qed (use L q e in \<open>auto simp: inv_links_def tr mem lis split: if_splits\<close>)
  moreover have "inv_refs G' {q} s'"
  proof -
    have mr: "mrefs s' y = mrefs s y + (if y = e then 1 else 0)" for y
      using mrefs_upd [of q "add_listener (Quorum q) e s" "\<lambda>b. b\<lparr>ef_want_interest := w b,
          qb_members := qb_members b @ [e], ef_empty_members := False\<rparr>" y] q(3) e(3)
      by (simp add: s'_def add_listener_def)
    have qr: "qrefs D s' = qrefs D s" for D by (simp add: s'_def add_listener_def)
    have "ref_ok G' {q} s' y" if "y < next_ev s" for y
    proof -
      have ok: "ref_ok G {q} s y" by (rule einv_ok [OF I that])
      have "eb_refcount (evs s' y) = mrefs s' y + g_ext G' y + qrefs (g_drivers G') s' y"
      proof -
        have "eb_refcount (evs s' y) = eb_refcount (evs s y)" by (simp add: s'_def add_listener_def)
        then show ?thesis using ok e(1) by (auto simp: ref_ok_def mr qr G'_def)
      qed
      moreover have "body_ok (y \<in> {q}) (evs s' y)"
        using ok q(4) by (auto simp: ref_ok_def body_ok_def s'_def add_listener_def)
      ultimately show ?thesis by (simp add: ref_ok_def)
    qed
    then show ?thesis using einv_refs [OF I] lt by (auto simp: inv_refs_def nxt qr G'_def)
  qed
  moreover have "quorum_ok G' (y \<in> {q}) s' y" if "y < next_ev s" for y
  proof (cases "y = q")
    case False
    have "quorum_ok G False s y" using einv_quorum_ok [OF I that] False by simp
    then have "quorum_ok G False s' y"
      by (rule quorum_ok_frame) (use False in \<open>auto simp: s'_def add_listener_def\<close>)
    then show ?thesis using False by (auto simp: G'_def elim!: quorum_ok_other)
  qed (use x' q in \<open>auto simp: quorum_ok_def exact_def tr\<close>)
  then have "inv_quorum G' {q} s'" by (simp add: inv_quorum_def nxt)
  ultimately show ?thesis using x' by (simp add: einv_def)
qed

definition lenient :: "world \<Rightarrow> world \<Rightarrow> bool" where
  "lenient s s' \<longleftrightarrow> next_ev s' = next_ev s \<and> home s' = home s \<and> current s' = current s \<and>
     (\<forall>x. ef_triggered (evs s' x) = ef_triggered (evs s x) \<and> ef_quorum (evs s' x) = ef_quorum (evs s x) \<and>
          qb_quorum (evs s' x) = qb_quorum (evs s x))"

lemma lenient_trans: "lenient s t \<Longrightarrow> lenient t u \<Longrightarrow> lenient s u"
  by (simp add: lenient_def)

lemma add_member_spec:
  assumes B: "building G q s"
    and h: "\<And>e. h = Some e \<Longrightarrow> 0 < g_ext G e \<and> e \<noteq> q \<and> (ef_quorum (evs s e) \<longrightarrow> e < q)"
  shows "building (arg_ghost q h G) q (add_member q h s) \<and> lenient s (add_member q h s)"
proof -
  have I: "einv G {#} {q} s" and x: "exact G s q" and q: "ef_quorum (evs s q)" "\<not> ef_triggered (evs s q)"
    "\<not> eb_freed (evs s q)" "qb_members (evs s q) = [] \<longrightarrow> ef_empty_members (evs s q)" and ext: "0 < g_ext G q"
    using B by (auto simp: building_def)
  have lt: "q < next_ev s" by (rule einv_ext_lt [OF I ext])
  define t where "t = upd q (\<lambda>b. b\<lparr>qb_triggered := qb_triggered b + 1\<rparr>) s"
  show ?thesis
  proof (cases h)
    case None
    have s': "add_member q h s = t" by (simp add: add_member_def None t_def)
    have "einv (arg_ghost q h G) {#} {q} t \<and> exact (arg_ghost q h G) t q"
      unfolding t_def None arg_ghost.simps by (rule einv_count_arg [OF I x q(2)]) simp
    then show ?thesis unfolding s' using q ext None by (auto simp: building_def t_def lenient_def)
  next
    case (Some e)
    note e = h [OF Some]
    show ?thesis
    proof (cases "ef_triggered (evs s e)")
      case True
      define G1 where "G1 = G\<lparr>g_args := (g_args G)(q := add_mset e (g_args G q))\<rparr>"
      have s': "add_member q h s = handle_dtor e t" using True Some by (simp add: add_member_def t_def)
      have T: "einv G1 {#} {q} t \<and> exact G1 t q"
        unfolding t_def G1_def by (rule einv_count_arg [OF I x q(2)]) (use True in auto)
      have G1: "arg_ghost q h G = ext_del e G1" "g_ext G1 = g_ext G" by (simp_all add: Some G1_def ext_del_def)
      have "einv (ext_del e G1) {#} {q} (handle_dtor e t)" and st: "static t (handle_dtor e t)"
        and sp: "spared e t (handle_dtor e t)"
        using handle_dtor_spec [of G1 "{#}" "{q}" t e] T e q by (auto simp: G1 t_def)
      moreover have sr: "same_refs (evs t q) (evs (handle_dtor e t) q)"
        by (rule sparedD [OF sp]) (use e q in \<open>auto simp: t_def\<close>)
      moreover have "exact (ext_del e G1) (handle_dtor e t) q"
        using T sr by (auto simp: exact_def counted_def staticD [OF st] same_refs_def)
      moreover have "ef_quorum (evs t q)" "\<not> ef_triggered (evs t q)" "\<not> eb_freed (evs t q)"
        "qb_members (evs t q) = [] \<longrightarrow> ef_empty_members (evs t q)"
        using q by (simp_all add: t_def)
      moreover have "lenient s t" by (simp add: lenient_def t_def)
      moreover have "lenient t (handle_dtor e t)" by (simp add: lenient_def staticD [OF st])
      ultimately show ?thesis unfolding s' G1(1) using ext e lenient_trans
        by (auto simp: building_def staticD [OF st] same_refs_def G1(2))
    next
      case False
      define s' where "s' = add_member q h s"
      have s'e: "s' = upd q (\<lambda>b. b\<lparr>ef_want_interest := (ef_want_interest b \<or> ef_want_interest (evs s e)),
           qb_members := qb_members b @ [e], ef_empty_members := False\<rparr>) (add_listener (Quorum q) e s)"
        using False Some by (simp add: s'_def add_member_def Let_def)
      have "einv (arg_ghost q h G) {#} {q} s' \<and> exact (arg_ghost q h G) s' q"
        unfolding Some s'e by (rule einv_link [OF I x q(2,1) lt q(3)]) (use e False in auto)
      moreover have "ef_quorum (evs s' q)" "\<not> ef_triggered (evs s' q)" "\<not> eb_freed (evs s' q)"
        "qb_members (evs s' q) \<noteq> []"
        using q e by (simp_all add: s'e add_listener_def)
      moreover have "lenient s s'" by (simp add: lenient_def s'e add_listener_def)
      ultimately show ?thesis unfolding s'_def [symmetric] using ext e Some
        by (simp add: building_def)
    qed
  qed
qed


lemma seal_spec:
  assumes B: "building G q s"
  shows "einv G {#} {} (seal q s) \<and> grows s (seal q s)"
proof -
  have I: "einv G {#} {q} s" and x: "exact G s q" and q: "ef_quorum (evs s q)" "\<not> ef_triggered (evs s q)"
    "\<not> eb_freed (evs s q)" "qb_members (evs s q) = [] \<longrightarrow> ef_empty_members (evs s q)" and ext: "0 < g_ext G q"
    using B by (auto simp: building_def)
  have lt: "q < next_ev s" by (rule einv_ext_lt [OF I ext])
  obtain R where R: "counted G s q R" "mset (qb_members (evs s q)) + R = g_args G q"
    using x by (auto simp: exact_def)
  show ?thesis
  proof (cases "qb_quorum (evs s q) \<le> qb_triggered (evs s q)")
    case True
    obtain coh' s' where r: "trigger_unlock None q (None, s) = (coh', s')" by fastforce
    have f: "qb_quorum (evs s q) \<le> fired G s q" using True counted_fired [OF R(1)] by simp
    have "einv G {#} {} s' \<and> grows s s' \<and> ef_triggered (evs s' q)"
      by (rule trigger_unlock_spec [OF I lt q(2,3) _ _ r]) (use q f in auto)
    moreover have "seal q s = s'" using True r by (simp add: seal_def)
    ultimately show ?thesis by simp
  next
    case False
    have pos: "0 < eb_refcount (evs s q)" using einv_refcount [OF I lt] ext by simp
    moreover have "body_ok True (evs s q)" using einv_body_ok [OF I lt] by simp
    ultimately have "body_ok False (evs s q)"
      using q by (cases "qb_members (evs s q) = []") (simp_all add: body_ok_def)
    moreover have "quorum_ok G False s q" using False R q pos by (auto simp: quorum_ok_def)
    ultimately have "einv G {#} {} s" using einv_leave [OF I lt] by simp
    moreover have "seal q s = s" using False by (simp add: seal_def)
    ultimately show ?thesis by simp
  qed
qed

lemma exact_ext [simp]: "exact (ext_add e n G) s q = exact G s q"
  by (simp add: exact_def counted_def)

lemma exact_upd:
  assumes f: "ef_triggered (f (evs s e)) = ef_triggered (evs s e)"
    "qb_members (f (evs s e)) = qb_members (evs s e)" "qb_triggered (f (evs s e)) = qb_triggered (evs s e)"
  shows "exact G (upd e f s) q = exact G s q"
proof -
  have "ef_triggered (evs (upd e f s) m) = ef_triggered (evs s m)" for m using f by simp
  moreover have "qb_members (evs (upd e f s) q) = qb_members (evs s q)"
    "qb_triggered (evs (upd e f s) q) = qb_triggered (evs s q)" using f by simp_all
  ultimately show ?thesis unfolding exact_def counted_def by (simp only:)
qed

text \<open>An argument passed by reference: one handle more, which \<^verbatim>\<open>add_member\<close> consumes.\<close>

definition copy_ghost :: "eid option \<Rightarrow> ghost \<Rightarrow> ghost" where
  "copy_ghost h G = (case h of None \<Rightarrow> G | Some e \<Rightarrow> ext_add e 1 G)"

lemma building_copy:
  assumes B: "building G q s" and h: "\<And>e. h = Some e \<Longrightarrow> 0 < g_ext G e \<and> e \<noteq> q"
  shows "building (copy_ghost h G) q (copy_handle h s) \<and> lenient s (copy_handle h s)"
proof (cases h)
  case (Some e)
  have I: "einv G {#} {q} s" using B by (simp add: building_def)
  have lt: "e < next_ev s" using einv_ext_lt [OF I] h [OF Some] by simp
  have pos: "0 < eb_refcount (evs s e)" using einv_refcount [OF I lt] h [OF Some] by simp
  moreover have "\<not> eb_freed (evs s e)" using einv_body_ok [OF I lt] pos by (auto simp: body_ok_def)
  ultimately have "einv (ext_add e 1 G) {#} {q} (ref 1 e s)" by (intro einv_ref [OF I lt]) auto
  moreover have "exact (ext_add e 1 G) (ref 1 e s) q"
    using B by (simp add: building_def ref_def exact_upd)
  moreover have "evs (ref 1 e s) q = evs s q" using h [OF Some] by (simp add: ref_def)
  moreover have "lenient s (ref 1 e s)" by (simp add: lenient_def ref_def)
  ultimately show ?thesis using B h [OF Some] Some
    by (simp add: building_def copy_ghost_def copy_handle_def)
qed (use B in \<open>simp add: copy_ghost_def copy_handle_def lenient_def\<close>)

definition args_ghost :: "eid \<Rightarrow> quorum_arg \<Rightarrow> ghost \<Rightarrow> ghost" where
  "args_ghost q a G = (case a of EventArg h \<Rightarrow> arg_ghost q h (copy_ghost h G) | InterestArg \<Rightarrow> G)"

text \<open>Null arguments and event arguments of a call.\<close>

definition arg_events :: "quorum_arg list \<Rightarrow> eid multiset" where
  "arg_events as = mset (concat (map (\<lambda>a. case a of EventArg (Some e) \<Rightarrow> [e] | _ \<Rightarrow> []) as))"

definition arg_nulls :: "quorum_arg list \<Rightarrow> nat" where
  "arg_nulls as = length (filter (\<lambda>a. a = EventArg None) as)"

lemma add_interest_spec:
  assumes B: "building G q s"
  shows "building G q (add_interest q s) \<and> lenient s (add_interest q s)"
proof -
  have I: "einv G {#} {q} s" using B by (simp add: building_def)
  let ?s = "add_interest q s"
  have "inv_shape ?s" using einv_shape [OF I] by (auto simp: inv_shape_def add_interest_def)
  moreover have "inv_links {#} ?s" using einv_links [OF I] by (auto simp: inv_links_def add_interest_def)
  moreover have "ref_ok G {q} ?s y" if "y < next_ev s" for y
    using einv_ok [OF I that] by (auto simp: ref_ok_def body_ok_def add_interest_def)
  then have "inv_refs G {q} ?s" using einv_refs [OF I] by (auto simp: inv_refs_def add_interest_def)
  moreover have "inv_quorum G {q} ?s"
    by (rule inv_quorum_frame [OF einv_quorum [OF I]]) (auto simp: add_interest_def)
  ultimately have "einv G {#} {q} ?s" by (simp add: einv_def)
  moreover have "exact G ?s q" using B by (simp add: building_def add_interest_def exact_upd)
  ultimately show ?thesis using B
    by (simp add: building_def lenient_def) (simp add: add_interest_def)
qed

definition arg_held :: "ghost \<Rightarrow> quorum_arg \<Rightarrow> bool" where
  "arg_held G a \<longleftrightarrow> (\<forall>e. a = EventArg (Some e) \<longrightarrow> 0 < g_ext G e)"

lemma args_ghost_simps [simp]:
  "g_ext (args_ghost q a G) = g_ext G" "g_forced (args_ghost q a G) = g_forced G"
  "g_drivers (args_ghost q a G) = g_drivers G"
  by (auto simp: args_ghost_def copy_ghost_def split: quorum_arg.split option.split)

lemma add_arg_spec:
  assumes B: "building G q s" and a: "arg_held G a" "a \<noteq> EventArg (Some q)"
    and lt: "\<And>e. a = EventArg (Some e) \<Longrightarrow> ef_quorum (evs s e) \<Longrightarrow> e < q"
  shows "building (args_ghost q a G) q (add_arg q a s) \<and> lenient s (add_arg q a s)"
proof (cases a)
  case (EventArg h)
  have C: "building (copy_ghost h G) q (copy_handle h s) \<and> lenient s (copy_handle h s)"
    by (rule building_copy [OF B]) (use a EventArg in \<open>auto simp: arg_held_def\<close>)
  have "building (arg_ghost q h (copy_ghost h G)) q (add_member q h (copy_handle h s)) \<and>
      lenient (copy_handle h s) (add_member q h (copy_handle h s))"
    by (rule add_member_spec)
       (use C a lt EventArg in \<open>auto simp: copy_ghost_def lenient_def\<close>)
  with C show ?thesis by (simp add: EventArg args_ghost_def lenient_def)
next
  case InterestArg
  then show ?thesis using add_interest_spec [OF B] by (simp add: args_ghost_def)
qed

lemma add_args_spec:
  assumes "building G q s" "\<forall>a\<in>set as. arg_held G a \<and> (\<forall>e. a = EventArg (Some e) \<longrightarrow> e < q)"
  shows "building (fold (args_ghost q) as G) q (fold (add_arg q) as s) \<and> lenient s (fold (add_arg q) as s)"
  using assms
proof (induction as arbitrary: G s)
  case Nil
  then show ?case by (simp add: lenient_def)
next
  case (Cons a as)
  have 1: "building (args_ghost q a G) q (add_arg q a s) \<and> lenient s (add_arg q a s)"
    by (rule add_arg_spec [OF Cons.prems(1)]) (use Cons.prems(2) in auto)
  moreover have "arg_held (args_ghost q a G) = arg_held G" by (simp add: arg_held_def fun_eq_iff)
  ultimately show ?case
    using Cons.IH [of "args_ghost q a G" "add_arg q a s"] Cons.prems(2) by (simp add: lenient_def)
qed

lemma fold_args_ghost:
  "g_args (fold (args_ghost q) as G) = (g_args G)(q := g_args G q + arg_events as)"
  "g_nulls (fold (args_ghost q) as G) = (g_nulls G)(q := g_nulls G q + arg_nulls as)"
  "g_ext (fold (args_ghost q) as G) = g_ext G" "g_forced (fold (args_ghost q) as G) = g_forced G"
  by (induction as arbitrary: G)
     (auto simp: arg_events_def arg_nulls_def args_ghost_def copy_ghost_def fun_eq_iff
       split: quorum_arg.split option.split)

definition quorum_ghost :: "eid \<Rightarrow> quorum_arg list \<Rightarrow> ghost \<Rightarrow> ghost" where
  "quorum_ghost q as G = fold (args_ghost q) as (fresh q G)"

lemma make_quorum_spec:
  assumes I: "einv G {#} {} s" and as: "\<forall>a\<in>set as. arg_held G a"
    and res: "make_quorum n as s = (q, s')"
  shows "einv (quorum_ghost q as G) {#} {} s' \<and> q = next_ev s \<and> next_ev s' = Suc q \<and>
    ef_quorum (evs s' q) \<and> qb_quorum (evs s' q) = n \<and>
    (\<forall>x<next_ev s. ef_triggered (evs s x) \<longrightarrow> ef_triggered (evs s' x)) \<and> home s' = home s \<and>
    (\<forall>x<next_ev s. ef_quorum (evs s' x) = ef_quorum (evs s x) \<and> qb_quorum (evs s' x) = qb_quorum (evs s x)) \<and>
    grows (fold (add_arg q) as (snd (alloc (quorum_body_new n) s))) s'"
proof -
  define t where "t = snd (alloc (quorum_body_new n) s)"
  define u where "u = fold (add_arg q) as t"
  have q: "q = next_ev s" and s': "s' = seal q u"
    using res by (auto simp: make_quorum_def alloc_def Let_def t_def u_def)
  have t: "evs t = (evs s)(q := quorum_body_new n)" "next_ev t = Suc q" "home t = home s"
    by (simp_all add: t_def alloc_def q)
  have It: "einv (fresh q G) {#} {q} t" unfolding t_def q by (rule einv_alloc(1) [OF I, of _ n]) simp
  have old: "e < q" if "a \<in> set as" "a = EventArg (Some e)" for a e
  proof -
    have "0 < g_ext G e" using as that by (auto simp: arg_held_def)
    then show ?thesis unfolding q by (rule einv_ext_lt [OF I])
  qed
  have "exact (fresh q G) t q"
    by (simp add: exact_def counted_def t quorum_body_new_def event_body_new_def)
  then have B: "building (fresh q G) q t"
    using It by (simp add: building_def t quorum_body_new_def event_body_new_def)
  have "building (quorum_ghost q as G) q u \<and> lenient t u"
    unfolding u_def quorum_ghost_def
    by (rule add_args_spec [OF B]) (use as old in \<open>auto simp: arg_held_def\<close>)
  then have U: "building (quorum_ghost q as G) q u" "lenient t u" by auto
  note W = seal_spec [OF U(1), folded s']
  then have g: "grows u s'" by simp
  have "ef_quorum (evs s' q) \<and> qb_quorum (evs s' q) = n \<and> next_ev s' = Suc q"
    using U(2) t by (simp add: growsD [OF g] lenient_def quorum_body_new_def event_body_new_def)
  moreover have "ef_triggered (evs s' x)" if "x < next_ev s" "ef_triggered (evs s x)" for x
    using that U(2) t q by (intro growsD(4) [OF g]) (auto simp: lenient_def)
  moreover have "ef_quorum (evs s' x) = ef_quorum (evs s x) \<and> qb_quorum (evs s' x) = qb_quorum (evs s x)"
    if "x < next_ev s" for x
    using that U(2) t q by (simp add: growsD [OF g] lenient_def)
  moreover have "home s' = home s" using U(2) t by (simp add: growsD [OF g] lenient_def)
  ultimately show ?thesis using W q g by (simp add: u_def t_def)
qed


subsection \<open>Waiting\<close>

lemma einv_upd_flags:
  assumes I: "einv G P X s"
    and f: "eb_freed (f (evs s e)) = eb_freed (evs s e)" "eb_refcount (f (evs s e)) = eb_refcount (evs s e)"
      "ef_quorum (f (evs s e)) = ef_quorum (evs s e)" "ef_empty (f (evs s e)) = ef_empty (evs s e)"
      "ef_empty_members (f (evs s e)) = ef_empty_members (evs s e)"
      "ef_triggered (f (evs s e)) = ef_triggered (evs s e)"
      "eb_listeners (f (evs s e)) = eb_listeners (evs s e)" "qb_members (f (evs s e)) = qb_members (evs s e)"
      "qb_triggered (f (evs s e)) = qb_triggered (evs s e)" "qb_quorum (f (evs s e)) = qb_quorum (evs s e)"
  shows "einv G P X (upd e f s)"
proof -
  let ?s = "upd e f s"
  have eq: "eb_freed (evs ?s x) = eb_freed (evs s x)" "eb_refcount (evs ?s x) = eb_refcount (evs s x)"
      "ef_quorum (evs ?s x) = ef_quorum (evs s x)" "ef_empty (evs ?s x) = ef_empty (evs s x)"
      "ef_empty_members (evs ?s x) = ef_empty_members (evs s x)"
      "ef_triggered (evs ?s x) = ef_triggered (evs s x)"
      "eb_listeners (evs ?s x) = eb_listeners (evs s x)" "qb_members (evs ?s x) = qb_members (evs s x)"
      "qb_triggered (evs ?s x) = qb_triggered (evs s x)" "qb_quorum (evs ?s x) = qb_quorum (evs s x)" for x
    using f by simp_all
  have n: "next_ev ?s = next_ev s" "home ?s = home s" by simp_all
  have mr: "mrefs ?s x = mrefs s x" for x using f(8) by simp
  have "inv_shape ?s" using einv_shape [OF I] unfolding inv_shape_def eq n .
  moreover have "inv_links P ?s" using einv_links [OF I] unfolding inv_links_def eq .
  moreover have "inv_refs G X ?s"
    using einv_refs [OF I] unfolding inv_refs_def ref_ok_def body_ok_def eq n mr qrefs_upd .
  moreover have "inv_quorum G X ?s"
    using einv_quorum [OF I] unfolding inv_quorum_def quorum_ok_def counted_def fired_def eq n .
  ultimately show ?thesis by (simp add: einv_def)
qed

lemma building_enter:
  assumes I: "einv G {#} {} s" and q: "0 < g_ext G q" "ef_quorum (evs s q)" "\<not> ef_triggered (evs s q)"
  shows "building G q s"
proof -
  note al = einv_held_alive [OF I q(1)]
  have "exact G s q"
    using einv_quorum_ok [OF I al(1)] al q by (auto simp: quorum_ok_def exact_def)
  moreover have "body_ok False (evs s q)" using einv_body_ok [OF I al(1)] by simp
  ultimately show ?thesis
    using q al einv_enter [OF I] by (simp add: building_def body_ok_def)
qed

text \<open>Changes of the ghost state that only add arguments to quorums.\<close>

definition same_ghost :: "world \<Rightarrow> ghost \<Rightarrow> ghost \<Rightarrow> bool" where
  "same_ghost s G G' \<longleftrightarrow> g_ext G' = g_ext G \<and> g_forced G' = g_forced G \<and> g_drivers G' = g_drivers G \<and>
     (\<forall>q. ef_interest (evs s q) = 0 \<longrightarrow> g_args G' q = g_args G q \<and> g_nulls G' q = g_nulls G q)"

definition want_ok :: "world \<Rightarrow> bool" where
  "want_ok s \<longleftrightarrow> (\<forall>x. ef_want_interest (evs s x) \<longrightarrow> ef_quorum (evs s x))"

definition follows :: "world \<Rightarrow> world \<Rightarrow> bool" where
  "follows s s' \<longleftrightarrow> next_ev s' = next_ev s \<and> home s' = home s \<and> current s' = current s \<and>
     (want_ok s \<longrightarrow> want_ok s') \<and>
     (\<forall>x. (ef_interest (evs s x) = 0 \<longrightarrow> ef_interest (evs s' x) = 0) \<and>
          (ef_triggered (evs s x) \<longrightarrow> ef_triggered (evs s' x)) \<and>
          ef_quorum (evs s' x) = ef_quorum (evs s x) \<and> qb_quorum (evs s' x) = qb_quorum (evs s x))"

lemma follows_refl [simp]: "follows s s" by (simp add: follows_def)

lemma follows_trans: "follows s t \<Longrightarrow> follows t u \<Longrightarrow> follows s u"
  by (simp add: follows_def)

lemma followsD:
  assumes "follows s s'"
  shows "next_ev s' = next_ev s" "home s' = home s" "want_ok s \<Longrightarrow> want_ok s'"
    "ef_quorum (evs s' x) = ef_quorum (evs s x)" "qb_quorum (evs s' x) = qb_quorum (evs s x)"
    "ef_triggered (evs s x) \<Longrightarrow> ef_triggered (evs s' x)"
    "ef_interest (evs s x) = 0 \<Longrightarrow> ef_interest (evs s' x) = 0"
  using assms by (simp_all add: follows_def)

lemma grows_follows: "grows s s' \<Longrightarrow> follows s s'"
  by (simp add: grows_def follows_def want_ok_def)

lemma static_follows: "static s s' \<Longrightarrow> follows s s'"
  by (simp add: grows_follows static_grows)

lemma same_ghost_refl [simp]: "same_ghost s G G" by (simp add: same_ghost_def)

lemma same_ghost_trans:
  "same_ghost s F G \<Longrightarrow> follows s t \<Longrightarrow> same_ghost t G H \<Longrightarrow> same_ghost s F H"
  by (simp add: same_ghost_def follows_def)

lemma lenient_follows: "lenient s s' \<Longrightarrow> (want_ok s \<Longrightarrow> want_ok s') \<Longrightarrow>
    (\<And>x. ef_interest (evs s' x) = ef_interest (evs s x)) \<Longrightarrow> follows s s'"
  by (simp add: lenient_def follows_def)

lemma static_cull_loop: "(\<And>m s. static s (dt m s)) \<Longrightarrow> static s (cull_loop dt q k i s)"
proof (induction k arbitrary: i s)
  case (Suc k)
  define t where "t = upd q (\<lambda>b. b\<lparr>qb_members := butlast (swap_slots (qb_members (evs s q)) i
      (length (qb_members (evs s q)) - 1))\<rparr>) (remove_listener (Quorum q) (qb_members (evs s q) ! i) s)"
  have "static s t" unfolding t_def by (rule static_trans [OF static_steps(4,5)])
  then have "static s (cull_loop dt q k i (dt (qb_members (evs s q) ! i) t))"
    using Suc.prems Suc.IH [OF Suc.prems] static_trans by metis
  then show ?case using Suc.IH [OF Suc.prems] by (simp add: Let_def t_def)
qed simp

lemma static_cull_members: "(\<And>m s. static s (dt m s)) \<Longrightarrow> static s (cull_members dt q s)"
  unfolding cull_members_def Let_def using static_cull_loop static_steps(6) static_trans by blast

lemma static_handle_dtor_n: "static s (handle_dtor_n n e s)"
proof (induction n arbitrary: e s)
  case (Suc n)
  have "static s (hard_deref (handle_dtor_n n) e s)"
  proof -
    define t where "t = dec_ref e s"
    define u where "u = (if \<not> ef_triggered (evs t e) then cull_members (handle_dtor_n n) e t else t)"
    have "static s t" by (simp add: t_def static_steps)
    moreover have "static t u" using static_cull_members [OF Suc.IH] by (simp add: u_def)
    moreover have "static u (delete_body e u)" by (rule static_steps(2))
    ultimately have "static s t" "static s u" "static s (delete_body e u)"
      using static_trans by blast+
    then show ?thesis unfolding hard_deref_def Let_def t_def [symmetric] u_def [symmetric] by simp
  qed
  moreover have "static s (delete_body e (dec_ref e s))"
    using static_steps(1,2) static_trans by blast
  ultimately show ?case by (simp add: Let_def static_steps(1))
qed simp

lemma static_handle_dtor: "static s (handle_dtor e s)"
  by (simp only: handle_dtor_def static_handle_dtor_n)

lemma want_ok_add_member:
  assumes "want_ok s" "ef_quorum (evs s q)"
  shows "want_ok (add_member q h (copy_handle h s))"
proof (cases h)
  case None
  then show ?thesis using assms by (simp add: add_member_def copy_handle_def want_ok_def)
next
  case (Some e)
  show ?thesis
  proof (cases "ef_triggered (evs s e)")
    case True
    then have "add_member q h (copy_handle h s) =
        handle_dtor e (upd q (\<lambda>b. b\<lparr>qb_triggered := qb_triggered b + 1\<rparr>) (ref 1 e s))"
      using Some by (simp add: add_member_def copy_handle_def ref_def)
    moreover have "want_ok (upd q (\<lambda>b. b\<lparr>qb_triggered := qb_triggered b + 1\<rparr>) (ref 1 e s))"
      using assms by (simp add: want_ok_def ref_def)
    ultimately show ?thesis using followsD(3) [OF static_follows [OF static_handle_dtor]] by simp
  qed (use assms Some in \<open>simp add: add_member_def copy_handle_def want_ok_def Let_def ref_def add_listener_def\<close>)
qed

lemma interest_add_member:
  "ef_interest (evs (add_member q h (copy_handle h s)) x) = ef_interest (evs s x)"
  by (cases h) (auto simp: add_member_def copy_handle_def Let_def ref_def add_listener_def
      staticD [OF static_handle_dtor])

lemma apply_interest_spec:
  assumes "building G q s" "\<And>i. h = Some i \<Longrightarrow> 0 < g_ext G i \<and> \<not> ef_quorum (evs s i)"
    and "k \<le> ef_interest (evs s q)"
  shows "\<exists>G'. building G' q (apply_interest k h q s) \<and> same_ghost s G G' \<and>
    follows s (apply_interest k h q s)"
  using assms
proof (induction k arbitrary: G s)
  case 0
  then show ?case by auto
next
  case (Suc k)
  define t where "t = upd q (\<lambda>b. b\<lparr>ef_interest := ef_interest b - 1\<rparr>) s"
  define u where "u = add_member q h (copy_handle h t)"
  have I: "einv G {#} {q} s" using Suc.prems(1) by (simp add: building_def)
  have "einv G {#} {q} t" unfolding t_def by (rule einv_upd_flags [OF I]) simp_all
  moreover have "exact G t q" using Suc.prems(1) by (simp add: building_def t_def exact_upd)
  ultimately have Bt: "building G q t"
    using Suc.prems(1) by (simp add: building_def) (simp add: t_def)
  have ft: "follows s t" by (simp add: follows_def t_def want_ok_def)
  have qt: "ef_quorum (evs t q)" using Bt by (simp add: building_def)
  have h: "arg_held G (EventArg h)" "EventArg h \<noteq> EventArg (Some q)"
    "\<And>e. EventArg h = EventArg (Some e) \<Longrightarrow> ef_quorum (evs t e) \<Longrightarrow> e < q"
    using Suc.prems(2) qt by (auto simp: arg_held_def followsD [OF ft])
  have U: "building (args_ghost q (EventArg h) G) q u \<and> lenient t u"
    using add_arg_spec [OF Bt h] by (simp add: u_def)
  have fu: "follows t u"
    using U want_ok_add_member [OF _ qt] by (intro lenient_follows) (auto simp: u_def interest_add_member)
  have "\<exists>G'. building G' q (apply_interest k h q u) \<and> same_ghost u (args_ghost q (EventArg h) G) G' \<and>
      follows u (apply_interest k h q u)"
  proof (rule Suc.IH)
    show "building (args_ghost q (EventArg h) G) q u" using U by simp
    show "0 < g_ext (args_ghost q (EventArg h) G) i \<and> \<not> ef_quorum (evs u i)" if "h = Some i" for i
      using Suc.prems(2) [OF that] by (simp add: followsD [OF fu] followsD [OF ft])
    show "k \<le> ef_interest (evs u q)" using Suc.prems(3) by (simp add: u_def interest_add_member t_def)
  qed
  moreover have "same_ghost s G (args_ghost q (EventArg h) G)"
    using Suc.prems(3) by (auto simp: same_ghost_def args_ghost_def copy_ghost_def split: option.split)
  moreover have "follows s u" by (rule follows_trans [OF ft fu])
  moreover have "apply_interest (Suc k) h q s = apply_interest k h q u" by (simp add: u_def t_def)
  ultimately show ?case using follows_trans same_ghost_trans by metis
qed

lemma einv_refs_fold:
  assumes "einv G {#} {} s" "\<forall>m\<in>set ms. m < next_ev s \<and> 0 < eb_refcount (evs s m)"
  shows "einv (fold (\<lambda>m. ext_add m 1) ms G) {#} {} (fold (ref 1) ms s) \<and> static s (fold (ref 1) ms s)"
  using assms
proof (induction ms arbitrary: G s)
  case (Cons m ms)
  have "body_ok False (evs s m)" using einv_body_ok [OF Cons.prems(1)] Cons.prems(2) by simp
  then have "\<not> eb_freed (evs s m)" using Cons.prems(2) by (auto simp: body_ok_def)
  then have "einv (ext_add m 1 G) {#} {} (ref 1 m s)"
    using Cons.prems by (intro einv_ref) auto
  then have "einv (fold (\<lambda>m. ext_add m 1) ms (ext_add m 1 G)) {#} {} (fold (ref 1) ms (ref 1 m s)) \<and>
      static (ref 1 m s) (fold (ref 1) ms (ref 1 m s))"
    by (rule Cons.IH) (use Cons.prems(2) in \<open>auto simp: ref_def\<close>)
  then show ?case using static_steps(3) static_trans by fastforce
qed simp

lemma fold_ext_add:
  "g_ext (fold (\<lambda>m. ext_add m 1) ms G) e = g_ext G e + count_list ms e"
  "g_forced (fold (\<lambda>m. ext_add m 1) ms G) = g_forced G"
  "g_drivers (fold (\<lambda>m. ext_add m 1) ms G) = g_drivers G"
  "g_args (fold (\<lambda>m. ext_add m 1) ms G) = g_args G"
  "g_nulls (fold (\<lambda>m. ext_add m 1) ms G) = g_nulls G"
  by (induction ms arbitrary: G) auto

lemma handle_dtors_spec:
  assumes "einv G {#} {} s" "\<forall>e. count_list ms e \<le> g_ext G e"
  shows "\<exists>G'. einv G' {#} {} (fold handle_dtor ms s) \<and> g_forced G' = g_forced G \<and>
    g_drivers G' = g_drivers G \<and> (\<forall>e. g_ext G' e = g_ext G e - count_list ms e) \<and>
    static s (fold handle_dtor ms s) \<and> g_args G' = g_args G \<and> g_nulls G' = g_nulls G"
  using assms
proof (induction ms arbitrary: G s)
  case Nil
  then show ?case by auto
next
  case (Cons m ms)
  have pos: "0 < g_ext G m" using Cons.prems(2) [rule_format, of m] by simp
  have 1: "einv (ext_del m G) {#} {} (handle_dtor m s)" "static s (handle_dtor m s)"
    using handle_dtor_spec [OF Cons.prems(1) pos] by auto
  have "\<forall>e. count_list ms e \<le> g_ext (ext_del m G) e"
  proof
    fix e show "count_list ms e \<le> g_ext (ext_del m G) e"
      using Cons.prems(2) [rule_format, of e] by (auto split: if_splits)
  qed
  from Cons.IH [OF 1(1) this] obtain G' where G':
    "einv G' {#} {} (fold handle_dtor ms (handle_dtor m s))" "g_forced G' = g_forced G"
    "g_drivers G' = g_drivers G" "\<forall>e. g_ext G' e = g_ext (ext_del m G) e - count_list ms e"
    "static (handle_dtor m s) (fold handle_dtor ms (handle_dtor m s))"
    "g_args G' = g_args G" "g_nulls G' = g_nulls G" by auto
  have "g_ext G' e = g_ext G e - count_list (m # ms) e" for e using G'(4) by simp
  with G' 1(2) show ?case by (intro exI [of _ G']) (auto intro: static_trans)
qed


lemma fix_want_interest_n_spec:
  assumes "einv G {#} {} s" "want_ok s" "0 < g_ext G q" "ef_quorum (evs s q)" "q < n"
    and "\<And>i. h = Some i \<Longrightarrow> 0 < g_ext G i \<and> \<not> ef_quorum (evs s i)"
  shows "\<exists>G'. einv G' {#} {} (fix_want_interest_n n h q s) \<and> same_ghost s G G' \<and>
    follows s (fix_want_interest_n n h q s)"
  using assms
proof (induction n arbitrary: G q s)
  case 0
  then show ?case by simp
next
  case (Suc n)
  define t where "t = upd q (\<lambda>b. b\<lparr>ef_want_interest := False\<rparr>) s"
  have It: "einv G {#} {} t" unfolding t_def by (rule einv_upd_flags [OF Suc.prems(1)]) simp_all
  have ft: "follows s t" by (simp add: follows_def t_def want_ok_def)
  note tD = followsD [OF ft]
  show ?case
  proof (cases "ef_triggered (evs t q)")
    case True
    then have "fix_want_interest_n (Suc n) h q s = t" by (simp add: t_def)
    then show ?thesis using It ft same_ghost_refl by metis
  next
    case False
    define u where "u = apply_interest (ef_interest (evs t q)) h q t"
    have "building G q t" using building_enter [OF It Suc.prems(3)] Suc.prems(4) False by (simp add: tD)
    then have "\<exists>G1. building G1 q u \<and> same_ghost t G G1 \<and> follows t u"
      unfolding u_def by (rule apply_interest_spec) (use Suc.prems(6) in \<open>auto simp: tD\<close>)
    then obtain G1 where B: "building G1 q u" and g0: "same_ghost t G G1" and fu: "follows t u" by blast
    have fsu: "follows s u" by (rule follows_trans [OF ft fu])
    have g1: "same_ghost s G G1" by (rule same_ghost_trans [OF same_ghost_refl ft g0])
    have W: "einv G1 {#} {} (seal q u) \<and> grows u (seal q u)" by (rule seal_spec [OF B])
    show ?thesis
    proof (cases "qb_quorum (evs u q) \<le> qb_triggered (evs u q)")
      case True
      then have "fix_want_interest_n (Suc n) h q s = seal q u"
        using False by (simp add: t_def u_def seal_def Let_def)
      then show ?thesis using W g1 fsu grows_follows follows_trans by metis
    next
      case nq: False
      then have Iu: "einv G1 {#} {} u" using W by (simp add: seal_def)
      define wi where "wi = filter (\<lambda>m. ef_want_interest (evs u m)) (qb_members (evs u q))"
      have want: "want_ok u" using followsD(3) [OF fsu Suc.prems(2)] .
      have wi: "m < q \<and> ef_quorum (evs u m) \<and> m < next_ev u \<and> 0 < eb_refcount (evs u m)" if "m \<in> set wi" for m
      proof -
        have m: "m \<in> set (qb_members (evs u q))" "ef_want_interest (evs u m)" using that by (auto simp: wi_def)
        have qm: "ef_quorum (evs u m)" using want m(2) by (simp add: want_ok_def)
        note mq = inv_shape_member [OF einv_shape [OF Iu] m(1)]
        then have "0 < mrefs u m"
          using count_list_le_mrefs [of q u m] m(1) by (simp add: count_list_pos)
        then show ?thesis using mq qm einv_refcount [OF Iu] by simp
      qed
      define v where "v = fold (ref 1) wi u"
      define G2 where "G2 = fold (\<lambda>m. ext_add m 1) wi G1"
      have V: "einv G2 {#} {} v \<and> static u v"
        unfolding v_def G2_def by (rule einv_refs_fold [OF Iu]) (use wi in auto)
      then have fv: "follows u v" by (blast intro: static_follows)
      have g2: "g_ext G2 e = g_ext G e + count_list wi e" "g_forced G2 = g_forced G"
        "g_drivers G2 = g_drivers G" "g_args G2 = g_args G1" "g_nulls G2 = g_nulls G1" for e
        using g1 by (simp_all add: G2_def fold_ext_add [simplified] same_ghost_def)
      have fx: "\<exists>G3. einv G3 {#} {} (fold (fix_want_interest_n n h) ms w) \<and> same_ghost v G2 G3 \<and>
          follows w (fold (fix_want_interest_n n h) ms w)"
        if "einv H {#} {} w" "same_ghost v G2 H" "follows v w" "set ms \<subseteq> set wi" for ms w H
        using that
      proof (induction ms arbitrary: H w)
        case Nil
        then show ?case by auto
      next
        case (Cons m ms)
        note fw = followsD [OF follows_trans [OF fsu follows_trans [OF fv Cons.prems(3)]]]
        note fw' = followsD [OF follows_trans [OF fv Cons.prems(3)]]
        have "count_list wi m > 0" using Cons.prems(4) by (simp add: count_list_pos [symmetric])
        then have ext: "0 < g_ext H m" using Cons.prems(2) g2(1) [of m] by (simp add: same_ghost_def)
        have "\<exists>G'. einv G' {#} {} (fix_want_interest_n n h m w) \<and> same_ghost w H G' \<and>
            follows w (fix_want_interest_n n h m w)"
        proof (rule Suc.IH [OF Cons.prems(1) _ ext])
          show "want_ok w" using fw(3) Suc.prems(2) by simp
          show "ef_quorum (evs w m)" "m < n" using wi [of m] Cons.prems(4) Suc.prems(5) by (auto simp: fw'(4))
          show "0 < g_ext H i \<and> \<not> ef_quorum (evs w i)" if "h = Some i" for i
            using Suc.prems(6) [OF that] Cons.prems(2) g2(1) by (simp add: same_ghost_def fw(4))
        qed
        then obtain H1 where H1: "einv H1 {#} {} (fix_want_interest_n n h m w)" "same_ghost w H H1"
          "follows w (fix_want_interest_n n h m w)" by blast
        have "\<exists>G3. einv G3 {#} {} (fold (fix_want_interest_n n h) ms (fix_want_interest_n n h m w)) \<and>
            same_ghost v G2 G3 \<and> follows (fix_want_interest_n n h m w)
              (fold (fix_want_interest_n n h) ms (fix_want_interest_n n h m w))"
          by (rule Cons.IH [OF H1(1)])
             (use H1 Cons.prems in \<open>auto intro: same_ghost_trans follows_trans\<close>)
        then show ?case using H1(3) by (auto intro: follows_trans)
      qed
      define w where "w = fold (fix_want_interest_n n h) wi v"
      obtain G3 where W3: "einv G3 {#} {} w" "same_ghost v G2 G3" "follows v w"
        using fx [of G2 v wi] V by (auto simp: w_def)
      have "\<forall>e. count_list wi e \<le> g_ext G3 e" using W3(2) g2(1) by (simp add: same_ghost_def)
      from handle_dtors_spec [OF W3(1) this] obtain G4 where G4:
        "einv G4 {#} {} (fold handle_dtor wi w)" "g_forced G4 = g_forced G3" "g_drivers G4 = g_drivers G3"
        "\<forall>e. g_ext G4 e = g_ext G3 e - count_list wi e" "static w (fold handle_dtor wi w)"
        "g_args G4 = g_args G3" "g_nulls G4 = g_nulls G3" by blast
      have "same_ghost s G G4" using G4 W3(2) g1 g2 followsD(7) [OF follows_trans [OF fsu fv]]
        by (simp add: same_ghost_def fun_eq_iff)
      moreover have "follows s (fold handle_dtor wi w)"
        using fsu fv W3(3) static_follows [OF G4(5)] by (blast intro: follows_trans)
      moreover have "fix_want_interest_n (Suc n) h q s = fold handle_dtor wi w"
        using False nq by (simp add: t_def u_def v_def w_def wi_def Let_def)
      ultimately show ?thesis using G4(1) by metis
    qed
  qed
qed

lemma einv_add_coro:
  assumes I: "einv G P X s" and e: "e < next_ev s"
  shows "einv G P X (add_listener (Coro c) e s)"
proof -
  let ?s = "add_listener (Coro c) e s"
  have "inv_shape ?s" using einv_shape [OF I] e by (auto simp: inv_shape_def add_listener_def)
  moreover have "inv_links P ?s" using einv_links [OF I] by (auto simp: inv_links_def add_listener_def)
  moreover have "ref_ok G X ?s x" if "x < next_ev s" for x
    using einv_ok [OF I that] by (auto simp: ref_ok_def body_ok_def add_listener_def)
  then have "inv_refs G X ?s" using einv_refs [OF I] by (auto simp: inv_refs_def add_listener_def)
  moreover have "inv_quorum G X ?s"
    by (rule inv_quorum_frame [OF einv_quorum [OF I]]) (auto simp: add_listener_def)
  ultimately show ?thesis by (simp add: einv_def)
qed

lemma await_suspend_spec:
  assumes I: "einv G {#} {} s" and w: "want_ok s" and e: "0 < g_ext G e"
    and h: "\<And>i. h = Some i \<Longrightarrow> 0 < g_ext G i \<and> \<not> ef_quorum (evs s i)"
    and res: "await_suspend h c e s = (susp, s')"
  shows "\<exists>G'. einv G' {#} {} s' \<and> same_ghost s G G' \<and> follows s s' \<and> susp = (\<not> ef_triggered (evs s' e)) \<and>
    (susp \<longrightarrow> Coro c \<in> set (eb_listeners (evs s' e)))"
proof -
  define t where "t = (if ef_want_interest (evs s e) then fix_want_interest h e s else s)"
  have "\<exists>G'. einv G' {#} {} t \<and> same_ghost s G G' \<and> follows s t"
  proof (cases "ef_want_interest (evs s e)")
    case True
    have q: "ef_quorum (evs s e)" using True w by (simp add: want_ok_def)
    have t: "t = fix_want_interest_n (e + 1) h e s" using True by (simp add: t_def fix_want_interest_def)
    show ?thesis unfolding t by (rule fix_want_interest_n_spec [OF I w e q _ h]) simp_all
  qed (use I in \<open>auto simp: t_def\<close>)
  then obtain G' where T: "einv G' {#} {} t" "same_ghost s G G'" "follows s t" by blast
  have lt: "e < next_ev t" using einv_ext_lt [OF I e] by (simp add: followsD [OF T(3)])
  have r: "(susp, s') = (if ef_triggered (evs t e) then (False, t) else (True, add_listener (Coro c) e t))"
    using res unfolding await_suspend_def Let_def t_def by (rule sym)
  show ?thesis
  proof (cases "ef_triggered (evs t e)")
    case True
    then show ?thesis using T r by auto
  next
    case False
    then have s': "s' = add_listener (Coro c) e t" "susp" using r by auto
    have "follows t s'" by (simp add: s' follows_def add_listener_def want_ok_def)
    then have "follows s s'" using T(3) by (blast intro: follows_trans)
    moreover have "\<not> ef_triggered (evs s' e)" "Coro c \<in> set (eb_listeners (evs s' e))"
      using False by (simp_all add: s' add_listener_def)
    ultimately show ?thesis using T einv_add_coro [OF T(1) lt] s' by blast
  qed
qed

end
