(* ===== verification/EventReach.thy ===== *)
theory EventReach
  imports EventRun
begin

text \<open>
  Reachable event stores. \<open>reach H B F s\<close>: the program has applied event operations to reach
  \<open>s\<close>; it holds \<open>H e\<close> handles of \<open>e\<close>, built quorum \<open>q\<close> from the threshold and arguments \<open>B q\<close>,
  and called \<open>trigger\<close> on the events in \<open>F\<close>. Handles held by the queues of the drivers and by
  member vectors are part of the store.
\<close>

definition world_init :: "(cid \<Rightarrow> did) \<Rightarrow> did \<Rightarrow> world" where
  "world_init hm d = \<lparr>evs = (\<lambda>_. event_body_new), next_ev = 0, home = hm, current = d,
     asap_q = (\<lambda>_. []), migrate_q = (\<lambda>_. [])\<rparr>"

text \<open>The driver takes the first event off its own queue, and moves migrated events to it.\<close>

definition pop_asap :: "did \<Rightarrow> world \<Rightarrow> world" where
  "pop_asap d s = s\<lparr>asap_q := (asap_q s)(d := tl (asap_q s d))\<rparr>"

definition take_migrated :: "did \<Rightarrow> world \<Rightarrow> world" where
  "take_migrated d s = s\<lparr>asap_q := (asap_q s)(d := asap_q s d @ migrate_q s d),
     migrate_q := (migrate_q s)(d := [])\<rparr>"

inductive reach :: "(eid \<Rightarrow> nat) \<Rightarrow> (eid \<Rightarrow> (nat \<times> quorum_arg list) option) \<Rightarrow> eid set \<Rightarrow> world \<Rightarrow> bool" where
  init: "finite (range hm) \<Longrightarrow> reach (\<lambda>_. 0) (\<lambda>_. None) {} (world_init hm d)"
| new: "reach H B F s \<Longrightarrow> new_event s = (e, s') \<Longrightarrow> reach (H(e := H e + 1)) B F s'"
| copy: "reach H B F s \<Longrightarrow> 0 < H e \<Longrightarrow> reach (H(e := H e + 1)) B F (ref 1 e s)"
| drop: "reach H B F s \<Longrightarrow> 0 < H e \<Longrightarrow> reach (H(e := H e - 1)) B F (handle_dtor e s)"
| trig: "reach H B F s \<Longrightarrow> 0 < H e \<Longrightarrow> reach H B (insert e F) (snd (trigger e s))"
| dtrig: "reach H B F s \<Longrightarrow> 0 < H e \<Longrightarrow> reach H B (insert e F) (snd (driver_trigger d e s))"
| quorum: "reach H B F s \<Longrightarrow> (\<And>e. EventArg (Some e) \<in> set as \<Longrightarrow> 0 < H e) \<Longrightarrow>
    make_quorum n as s = (q, s') \<Longrightarrow> reach (H(q := H q + 1)) (B(q \<mapsto> (n, as))) F s'"
| await: "reach H B F s \<Longrightarrow> 0 < H e \<Longrightarrow> (\<And>i. h = Some i \<Longrightarrow> 0 < H i \<and> \<not> ef_quorum (evs s i)) \<Longrightarrow>
    reach H B F (snd (await_suspend h c e s))"
| leave: "reach H B F s \<Longrightarrow> reach H B F (remove_listener (Coro c) e s)"
| pop: "reach H B F s \<Longrightarrow> d \<in> range (home s) \<Longrightarrow> asap_q s d = e # r \<Longrightarrow>
    reach (H(e := H e + 1)) B F (pop_asap d s)"
| migrate: "reach H B F s \<Longrightarrow> d \<in> range (home s) \<Longrightarrow> reach H B F (take_migrated d s)"
| switch: "reach H B F s \<Longrightarrow> reach H B F (s\<lparr>current := d\<rparr>)"
| flags: "reach H B F s \<Longrightarrow> reach H B F (set_user_flags e n s)"

definition built_ok :: "(eid \<Rightarrow> (nat \<times> quorum_arg list) option) \<Rightarrow> ghost \<Rightarrow> world \<Rightarrow> bool" where
  "built_ok B G s \<longleftrightarrow> (\<forall>q n as. B q = Some (n, as) \<longrightarrow> q < next_ev s \<and> ef_quorum (evs s q) \<and>
     qb_quorum (evs s q) = n \<and> (InterestArg \<notin> set as \<longrightarrow>
       ef_interest (evs s q) = 0 \<and> g_args G q = arg_events as \<and> g_nulls G q = arg_nulls as))"

definition ghost_for :: "(eid \<Rightarrow> nat) \<Rightarrow> (eid \<Rightarrow> (nat \<times> quorum_arg list) option) \<Rightarrow> eid set \<Rightarrow> world \<Rightarrow> ghost \<Rightarrow> bool" where
  "ghost_for H B F s G \<longleftrightarrow> einv G {#} {} s \<and> want_ok s \<and> g_ext G = H \<and> g_forced G = F \<and>
     g_drivers G = range (home s) \<and> built_ok B G s"

lemma ghost_for_follows:
  assumes "ghost_for H B F s G" "einv G' {#} {} s'" "follows s s'" "same_ghost s G G'"
  shows "ghost_for H B F s' G'"
  using assms unfolding ghost_for_def built_ok_def same_ghost_def follows_def by auto

lemma built_ok_frame:
  assumes "built_ok B G s" "follows s s'" "g_args G' = g_args G" "g_nulls G' = g_nulls G"
  shows "built_ok B G' s'"
  using assms(1,3,4) followsD [OF assms(2)] by (simp add: built_ok_def)

lemma ghost_for_init: "finite (range hm) \<Longrightarrow>
    ghost_for (\<lambda>_. 0) (\<lambda>_. None) {} (world_init hm d)
      \<lparr>g_ext = (\<lambda>_. 0), g_args = (\<lambda>_. {#}), g_nulls = (\<lambda>_. 0), g_forced = {}, g_drivers = range hm\<rparr>"
  by (simp add: ghost_for_def einv_def inv_shape_def inv_links_def inv_refs_def inv_quorum_def
      world_init_def event_body_new_def want_ok_def built_ok_def qrefs_def)

lemma interest_add_args:
  assumes "InterestArg \<notin> set as \<or> x \<noteq> q"
  shows "ef_interest (evs (fold (add_arg q) as s) x) = ef_interest (evs s x)"
  using assms
proof (induction as arbitrary: s)
  case (Cons a as)
  then show ?case
    by (cases a) (auto simp: interest_add_member add_interest_def)
qed simp

lemma want_ok_add_args:
  assumes "want_ok s" "ef_quorum (evs s q)"
  shows "want_ok (fold (add_arg q) as s)"
  using assms
proof (induction as arbitrary: s)
  case (Cons a as)
  have "want_ok (add_arg q a s) \<and> ef_quorum (evs (add_arg q a s) q)"
  proof (cases a)
    case (EventArg h)
    have "ef_quorum (evs (add_member q h (copy_handle h s)) q) = ef_quorum (evs s q)"
      by (cases h) (auto simp: add_member_def copy_handle_def Let_def ref_def add_listener_def
          staticD [OF static_handle_dtor])
    then show ?thesis using Cons.prems EventArg want_ok_add_member by simp
  qed (use Cons.prems in \<open>simp add: add_interest_def want_ok_def\<close>)
  then show ?case using Cons.IH by simp
qed simp

lemma make_quorum_flags:
  assumes "want_ok s" "make_quorum n as s = (q, s')" "grows (fold (add_arg q) as (snd (alloc (quorum_body_new n) s))) s'"
  shows "want_ok s'" "InterestArg \<notin> set as \<Longrightarrow> ef_interest (evs s' q) = 0"
proof -
  let ?t = "snd (alloc (quorum_body_new n) s)"
  have q: "q = next_ev s" using assms(2) by (auto simp: make_quorum_def alloc_def Let_def)
  have t: "evs ?t = (evs s)(q := quorum_body_new n)" by (simp add: alloc_def q)
  have "want_ok ?t" using assms(1) unfolding want_ok_def t by (simp add: quorum_body_new_def event_body_new_def)
  then have "want_ok (fold (add_arg q) as ?t)"
    by (rule want_ok_add_args) (unfold t, simp add: quorum_body_new_def)
  then show "want_ok s'" using assms(3) by (simp add: grows_def want_ok_def)
  show "ef_interest (evs s' q) = 0" if "InterestArg \<notin> set as"
    unfolding growsD(9) [OF assms(3)] interest_add_args [OF disjI1 [OF that]] t
    by (simp add: quorum_body_new_def event_body_new_def)
qed


lemma qrefs_replace:
  assumes "finite D" "d \<in> D" "\<And>x. x \<noteq> d \<Longrightarrow> asap_q s' x = asap_q s x \<and> migrate_q s' x = migrate_q s x"
  shows "qrefs D s' e + count_list (asap_q s d) e + count_list (migrate_q s d) e =
    qrefs D s e + count_list (asap_q s' d) e + count_list (migrate_q s' d) e"
proof -
  have "qrefs D t e = count_list (asap_q t d) e + count_list (migrate_q t d) e +
      (\<Sum>y\<in>D - {d}. count_list (asap_q t y) e + count_list (migrate_q t y) e)" for t
    unfolding qrefs_def using assms(1,2) by (simp add: sum.remove)
  moreover have "(\<Sum>y\<in>D - {d}. count_list (asap_q s' y) e + count_list (migrate_q s' y) e) =
      (\<Sum>y\<in>D - {d}. count_list (asap_q s y) e + count_list (migrate_q s y) e)"
    using assms(3) by (intro sum.cong) auto
  ultimately show ?thesis by (simp only: ac_simps)
qed

lemma einv_queues:
  assumes I: "einv G P {} s" and s': "evs s' = evs s" "next_ev s' = next_ev s" "home s' = home s"
    and G': "g_args G' = g_args G" "g_nulls G' = g_nulls G" "g_forced G' = g_forced G" "g_drivers G' = g_drivers G"
    and q: "\<And>e. g_ext G' e + qrefs (g_drivers G) s' e = g_ext G e + qrefs (g_drivers G) s e"
  shows "einv G' P {} s'"
proof -
  have "mrefs s' = mrefs s" by (simp add: mrefs_def s' fun_eq_iff)
  then have "inv_refs G' {} s'"
    using einv_refs [OF I] q unfolding inv_refs_def ref_ok_def s' G'
    by (metis (no_types, lifting) add.assoc add_is_0)
  moreover have "inv_quorum G' {} s'"
    using einv_quorum [OF I] by (simp add: inv_quorum_def quorum_ok_def counted_def fired_def s' G')
  ultimately show ?thesis
    using einv_shape [OF I] einv_links [OF I] by (simp add: einv_def inv_shape_def inv_links_def s')
qed

lemma ghost_for_pop:
  assumes g: "ghost_for H B F s G" and d: "d \<in> range (home s)" "asap_q s d = e # r"
  shows "ghost_for (H(e := H e + 1)) B F (pop_asap d s) (ext_add e 1 G)"
proof -
  have I: "einv G {#} {} s" and D: "g_drivers G = range (home s)" using g by (auto simp: ghost_for_def)
  have fin: "finite (g_drivers G)" using einv_refs [OF I] by (simp add: inv_refs_def)
  have "qrefs (g_drivers G) (pop_asap d s) x + count_list (asap_q s d) x + count_list (migrate_q s d) x =
      qrefs (g_drivers G) s x + count_list (asap_q (pop_asap d s) d) x + count_list (migrate_q (pop_asap d s) d) x" for x
    by (rule qrefs_replace [OF fin]) (use d D in \<open>auto simp: pop_asap_def\<close>)
  then have c: "qrefs (g_drivers G) (pop_asap d s) x + count_list (e # r) x + count_list (migrate_q s d) x =
      qrefs (g_drivers G) s x + count_list r x + count_list (migrate_q s d) x" for x
    using d(2) by (simp add: pop_asap_def)
  have q: "qrefs (g_drivers G) (pop_asap d s) x + (if x = e then 1 else 0) = qrefs (g_drivers G) s x" for x
    using c [of x] by (cases "x = e") simp_all
  have "einv (ext_add e 1 G) {#} {} (pop_asap d s)"
  proof (rule einv_queues [OF I])
    fix x show "g_ext (ext_add e 1 G) x + qrefs (g_drivers G) (pop_asap d s) x = g_ext G x + qrefs (g_drivers G) s x"
      using q [of x] by (auto split: if_splits)
  qed (simp_all add: pop_asap_def)
  then show ?thesis using g by (simp add: ghost_for_def built_ok_def want_ok_def pop_asap_def)
qed

lemma ghost_for_migrate:
  assumes g: "ghost_for H B F s G" and d: "d \<in> range (home s)"
  shows "ghost_for H B F (take_migrated d s) G"
proof -
  have I: "einv G {#} {} s" and D: "g_drivers G = range (home s)" using g by (auto simp: ghost_for_def)
  have fin: "finite (g_drivers G)" using einv_refs [OF I] by (simp add: inv_refs_def)
  have "qrefs (g_drivers G) (take_migrated d s) x + count_list (asap_q s d) x + count_list (migrate_q s d) x =
      qrefs (g_drivers G) s x + count_list (asap_q (take_migrated d s) d) x +
      count_list (migrate_q (take_migrated d s) d) x" for x
    by (rule qrefs_replace [OF fin]) (use d D in \<open>auto simp: take_migrated_def\<close>)
  then have q: "qrefs (g_drivers G) (take_migrated d s) x = qrefs (g_drivers G) s x" for x
    by (simp add: take_migrated_def)
  have "einv G {#} {} (take_migrated d s)"
    by (rule einv_queues [OF I]) (simp_all add: q, simp_all add: take_migrated_def)
  then show ?thesis using g by (simp add: ghost_for_def built_ok_def want_ok_def take_migrated_def)
qed

lemma ghost_for_quorum:
  assumes g: "ghost_for H B F s G" and as: "\<And>e. EventArg (Some e) \<in> set as \<Longrightarrow> 0 < H e"
    and mk: "make_quorum n as s = (q, s')"
  shows "ghost_for (H(q := H q + 1)) (B(q \<mapsto> (n, as))) F s' (quorum_ghost q as G)"
proof -
  have I: "einv G {#} {} s" and w: "want_ok s" and G: "g_ext G = H" using g by (auto simp: ghost_for_def)
  have "\<forall>a\<in>set as. arg_held G a" using as G by (auto simp: arg_held_def)
  note M = make_quorum_spec [OF I this mk]
  note mf = make_quorum_flags [OF w mk]
  have D: "g_drivers (fold (args_ghost q) as K) = g_drivers K" for K
    by (induction as arbitrary: K) auto
  have "built_ok (B(q \<mapsto> (n, as))) (quorum_ghost q as G) s'"
    unfolding built_ok_def
  proof (intro allI impI, goal_cases)
    case (1 x m bs)
    show ?case
    proof (cases "x = q")
      case True
      then show ?thesis using 1 M mf(2)
        by (auto simp: quorum_ghost_def fold_args_ghost)
    next
      case False
      then have x: "B x = Some (m, bs)" using 1 by simp
      have old: "x < next_ev s" "ef_quorum (evs s x)" "qb_quorum (evs s x) = m"
        using g x by (auto simp: ghost_for_def built_ok_def)
      let ?t = "snd (alloc (quorum_body_new n) s)"
      have "ef_interest (evs s' x) = ef_interest (evs (fold (add_arg q) as ?t) x)"
        using M growsD(9) by blast
      also have "\<dots> = ef_interest (evs ?t x)" using False by (intro interest_add_args) simp
      also have "\<dots> = ef_interest (evs s x)" using M False by (simp add: alloc_def)
      finally have "ef_interest (evs s' x) = ef_interest (evs s x)" .
      moreover have "InterestArg \<notin> set bs \<longrightarrow> ef_interest (evs s x) = 0 \<and>
          g_args G x = arg_events bs \<and> g_nulls G x = arg_nulls bs"
        using g x by (simp add: ghost_for_def built_ok_def)
      moreover have "x < next_ev s'" using old(1) M by simp
      moreover have "ef_quorum (evs s' x)" "qb_quorum (evs s' x) = m" using M old by simp_all
      ultimately show ?thesis using False by (simp add: quorum_ghost_def fold_args_ghost)
    qed
  qed
  moreover have "want_ok s'" using mf(1) M by blast
  moreover have "einv (quorum_ghost q as G) {#} {} s'" "home s' = home s" using M by blast+
  moreover have "g_ext (quorum_ghost q as G) = H(q := H q + 1)" "g_forced (quorum_ghost q as G) = F"
    "g_drivers (quorum_ghost q as G) = range (home s)"
    using g by (simp_all add: ghost_for_def quorum_ghost_def fold_args_ghost D)
  ultimately show ?thesis by (simp add: ghost_for_def)
qed


lemma reach_ghost: "reach H B F s \<Longrightarrow> \<exists>G. ghost_for H B F s G"
proof (induction rule: reach.induct)
  case (init hm d)
  then show ?case using ghost_for_init by blast
next
  case (new H B F s e s')
  then obtain G where g: "ghost_for H B F s G" by blast
  then have I: "einv G {#} {} s" by (simp add: ghost_for_def)
  have e: "e = next_ev s" and s': "s' = snd (alloc event_body_new s)"
    using new(2) by (auto simp: new_event_def alloc_def)
  have "einv (fresh e G) {#} {} s'"
    unfolding s' e by (rule einv_alloc(2) [OF I]) (simp_all add: event_body_new_def)
  moreover have "want_ok s'"
    using g unfolding s' by (simp add: ghost_for_def want_ok_def alloc_def event_body_new_def)
  moreover have "built_ok B (fresh e G) s'"
    unfolding built_ok_def
  proof (intro allI impI)
    fix q n as assume q: "B q = Some (n, as)"
    then have "q < next_ev s" using g by (simp add: ghost_for_def built_ok_def)
    then have "q \<noteq> e" "q < next_ev s'" "evs s' q = evs s q" by (simp_all add: e s' alloc_def)
    then show "q < next_ev s' \<and> ef_quorum (evs s' q) \<and> qb_quorum (evs s' q) = n \<and> (InterestArg \<notin> set as \<longrightarrow>
       ef_interest (evs s' q) = 0 \<and> g_args (fresh e G) q = arg_events as \<and> g_nulls (fresh e G) q = arg_nulls as)"
      using g q by (simp add: ghost_for_def built_ok_def)
  qed
  moreover have "home s' = home s" by (simp add: s' alloc_def)
  ultimately show ?case using g by (intro exI [of _ "fresh e G"]) (auto simp: ghost_for_def)
next
  case (copy H B F s e)
  then obtain G where g: "ghost_for H B F s G" by blast
  then have I: "einv G {#} {} s" and e: "0 < g_ext G e" using copy by (auto simp: ghost_for_def)
  have "einv (ext_add e 1 G) {#} {} (ref 1 e s)"
    by (rule einv_ref [OF I]) (use einv_held_alive [OF I e] in auto)
  then show ?case
    using g built_ok_frame [OF _ static_follows [OF static_steps(3)]] followsD [OF static_follows [OF static_steps(3)]]
    by (intro exI [of _ "ext_add e 1 G"]) (auto simp: ghost_for_def)
next
  case (drop H B F s e)
  then obtain G where g: "ghost_for H B F s G" by blast
  then have I: "einv G {#} {} s" and e: "0 < g_ext G e" using drop by (auto simp: ghost_for_def)
  have "einv (ext_del e G) {#} {} (handle_dtor e s)" using handle_dtor_spec(1) [OF I e] by simp
  then show ?case
    using g built_ok_frame [OF _ static_follows [OF static_handle_dtor]] followsD [OF static_follows [OF static_handle_dtor]]
    by (intro exI [of _ "ext_del e G"]) (auto simp: ghost_for_def)
next
  case (trig H B F s e)
  then obtain G where g: "ghost_for H B F s G" by blast
  then have I: "einv G {#} {} s" and e: "0 < g_ext G e" using trig by (auto simp: ghost_for_def)
  note T = trigger_spec [OF I e]
  then have f: "follows s (snd (trigger e s))" by (blast intro: grows_follows)
  show ?case using g T built_ok_frame [OF _ f] followsD [OF f]
    by (intro exI [of _ "force e G"]) (auto simp: ghost_for_def)
next
  case (dtrig H B F s e d)
  then obtain G where g: "ghost_for H B F s G" by blast
  then have I: "einv G {#} {} s" and e: "0 < g_ext G e" using dtrig by (auto simp: ghost_for_def)
  note T = driver_trigger_spec [OF I e, of d]
  then have f: "follows s (snd (driver_trigger d e s))" by (blast intro: grows_follows)
  show ?case using g T built_ok_frame [OF _ f] followsD [OF f]
    by (intro exI [of _ "force e G"]) (auto simp: ghost_for_def)
next
  case (quorum H B F s as n q s')
  then show ?case using ghost_for_quorum by metis
next
  case (await H B F s e h c)
  then obtain G where g: "ghost_for H B F s G" by blast
  then have I: "einv G {#} {} s" "want_ok s" "0 < g_ext G e"
    "\<And>i. h = Some i \<Longrightarrow> 0 < g_ext G i \<and> \<not> ef_quorum (evs s i)"
    using await by (auto simp: ghost_for_def)
  obtain susp s' where r: "await_suspend h c e s = (susp, s')" by fastforce
  from await_suspend_spec [OF I r] ghost_for_follows [OF g] have "\<exists>G'. ghost_for H B F s' G'" by blast
  then show ?case by (simp add: r)
next
  case (leave H B F s c e)
  then obtain G where g: "ghost_for H B F s G" by blast
  then have "einv G {#} {} (remove_listener (Coro c) e s)" using remove_coro_spec by (simp add: ghost_for_def)
  moreover have "follows s (remove_listener (Coro c) e s)"
    by (simp add: follows_def remove_listener_def Let_def want_ok_def)
  ultimately show ?case using ghost_for_follows [OF g] same_ghost_refl by blast
next
  case (pop H B F s d e r)
  then show ?case using ghost_for_pop by metis
next
  case (migrate H B F s d)
  then show ?case using ghost_for_migrate by metis
next
  case (switch H B F s d)
  then obtain G where g: "ghost_for H B F s G" by blast
  then have I: "einv G {#} {} s" by (simp add: ghost_for_def)
  have "einv G {#} {} (s\<lparr>current := d\<rparr>)"
    by (rule einv_queues [OF I]) (simp_all add: qrefs_def)
  then show ?case using g by (auto simp: ghost_for_def built_ok_def want_ok_def)
next
  case (flags H B F s e n)
  then obtain G where g: "ghost_for H B F s G" by blast
  then have "einv G {#} {} (set_user_flags e n s)"
    unfolding set_user_flags_def by (intro einv_upd_flags) (simp_all add: ghost_for_def)
  moreover have "follows s (set_user_flags e n s)" by (simp add: follows_def set_user_flags_def want_ok_def)
  ultimately show ?case using ghost_for_follows [OF g] same_ghost_refl by blast
qed


subsection \<open>What reachable stores satisfy\<close>

lemma reach_einv:
  assumes "reach H B F s"
  obtains G where "einv G {#} {} s" "g_ext G = H" "g_forced G = F" "g_drivers G = range (home s)"
    "built_ok B G s"
  using reach_ghost [OF assms] by (auto simp: ghost_for_def)

text \<open>How many arguments of a quorum have triggered; a null event counts as triggered.\<close>

definition args_fired :: "quorum_arg list \<Rightarrow> world \<Rightarrow> nat" where
  "args_fired as s = length (filter (\<lambda>a. case a of EventArg h \<Rightarrow> handle_triggered s h | InterestArg \<Rightarrow> False) as)"

lemma args_fired_eq:
  "args_fired as s = arg_nulls as + size (filter_mset (\<lambda>m. ef_triggered (evs s m)) (arg_events as))"
  by (induction as)
     (auto simp: args_fired_def arg_nulls_def arg_events_def handle_triggered_def
       split: quorum_arg.splits option.splits)

lemma reach_members_untriggered:
  assumes I: "einv G {#} {} s" and m: "m \<in> set (qb_members (evs s q))"
  shows "\<not> ef_triggered (evs s m)"
proof -
  have "count_list (qb_members (evs s q)) m = count_list (eb_listeners (evs s m)) (Quorum q)"
    using einv_links [OF I] by (simp add: inv_links_def)
  then have "Quorum q \<in> set (eb_listeners (evs s m))" using m by (metis count_list_0_iff)
  then show ?thesis using einv_links [OF I] by (auto simp: inv_links_def)
qed

lemma einv_fired_count:
  assumes I: "einv G {#} {} s" and q: "q < next_ev s" "ef_quorum (evs s q)" "\<not> ef_triggered (evs s q)"
    "0 < eb_refcount (evs s q)"
  shows "qb_triggered (evs s q) = fired G s q"
proof -
  obtain R where R: "counted G s q R" "mset (qb_members (evs s q)) + R = g_args G q"
    using einv_quorum_ok [OF I q(1)] q by (auto simp: quorum_ok_def)
  have "filter_mset (\<lambda>m. ef_triggered (evs s m)) (mset (qb_members (evs s q))) = {#}"
    using reach_members_untriggered [OF I] by (auto simp: filter_mset_eq_conv)
  moreover have "filter_mset (\<lambda>m. ef_triggered (evs s m)) R = R"
    using R by (simp add: counted_def filter_mset_eq_conv)
  ultimately have "filter_mset (\<lambda>m. ef_triggered (evs s m)) (g_args G q) = R"
    unfolding R(2) [symmetric] by simp
  then show ?thesis using R by (simp add: counted_def fired_def)
qed

text \<open>
  C3: A quorum event built from events fires exactly when enough of its arguments have
  fired: in every reachable state, for a quorum that is still referenced and that nobody
  triggered by hand, \<^verbatim>\<open>triggered()\<close> holds if and only if at least the threshold number of its
  arguments have triggered.
\<close>

theorem quorum_fires_iff:
  assumes "reach H B F s" "B q = Some (n, as)" "InterestArg \<notin> set as" "0 < H q" "q \<notin> F"
  shows "ef_triggered (evs s q) \<longleftrightarrow> n \<le> args_fired as s"
proof -
  obtain G where I: "einv G {#} {} s" and G: "g_ext G = H" "g_forced G = F" and bo: "built_ok B G s"
    using reach_einv [OF assms(1)] by metis
  have q: "q < next_ev s" "ef_quorum (evs s q)" "qb_quorum (evs s q) = n"
    "g_args G q = arg_events as" "g_nulls G q = arg_nulls as"
    using bo assms(2,3) by (auto simp: built_ok_def)
  have f: "fired G s q = args_fired as s" using q by (simp add: fired_def args_fired_eq)
  have rc: "0 < eb_refcount (evs s q)" using einv_held_alive(2) [OF I] G assms(4) by simp
  have ok: "quorum_ok G False s q" using einv_quorum_ok [OF I q(1)] by simp
  show ?thesis
  proof
    assume "ef_triggered (evs s q)"
    then show "n \<le> args_fired as s" using ok q assms(5) G(2) f by (auto simp: quorum_ok_def)
  next
    assume n: "n \<le> args_fired as s"
    show "ef_triggered (evs s q)"
    proof (rule ccontr)
      assume nt: "\<not> ef_triggered (evs s q)"
      then have "qb_triggered (evs s q) < n" using ok q by (auto simp: quorum_ok_def)
      with einv_fired_count [OF I q(1,2) nt rc] f n show False by simp
    qed
  qed
qed

lemma einv_unreferenced_freed:
  assumes I: "einv G {#} {} s" and e: "e < next_ev s"
  shows "eb_freed (evs s e) \<longleftrightarrow> mrefs s e = 0 \<and> g_ext G e = 0 \<and> qrefs (g_drivers G) s e = 0"
proof
  assume "eb_freed (evs s e)"
  then have "eb_refcount (evs s e) = 0" using einv_body_ok [OF I e] by (simp add: body_ok_def)
  then show "mrefs s e = 0 \<and> g_ext G e = 0 \<and> qrefs (g_drivers G) s e = 0"
    using einv_refcount [OF I e] by simp
next
  assume "mrefs s e = 0 \<and> g_ext G e = 0 \<and> qrefs (g_drivers G) s e = 0"
  then have rc: "eb_refcount (evs s e) = 0" using einv_refcount [OF I e] by simp
  have "qb_members (evs s e) = []"
  proof (rule ccontr)
    assume "qb_members (evs s e) \<noteq> []"
    then obtain m where m: "m \<in> set (qb_members (evs s e))" by (meson hd_in_set)
    then have "ef_triggered (evs s m)"
      using einv_quorum_ok [OF I e] inv_shape_member [OF einv_shape [OF I] m] rc by (auto simp: quorum_ok_def)
    then show False using reach_members_untriggered [OF I m] by blast
  qed
  then show "eb_freed (evs s e)" using rc einv_body_ok [OF I e] by (simp add: body_ok_def)
qed

lemma mrefs_zero:
  assumes "inv_shape s"
  shows "mrefs s e = 0 \<longleftrightarrow> (\<forall>q. e \<notin> set (qb_members (evs s q)))"
proof
  assume "mrefs s e = 0"
  then show "\<forall>q. e \<notin> set (qb_members (evs s q))"
    using count_list_le_mrefs [of _ s e] assms unfolding inv_shape_def
    by (metis count_list_0_iff empty_iff le_zero_eq list.set(1) not_le)
qed (simp add: mrefs_def)

lemma qrefs_zero:
  "finite D \<Longrightarrow> qrefs D s e = 0 \<longleftrightarrow> (\<forall>d\<in>D. e \<notin> set (asap_q s d) \<and> e \<notin> set (migrate_q s d))"
  by (simp add: qrefs_def count_list_0_iff)

text \<open>
  C4: No dangling references and no leaks: in every reachable state an event body has been
  deleted if and only if the program holds no handle of it, no driver has queued it, and it
  is a member of no quorum. In particular everything reachable through a handle, a queue or
  a member vector is alive.
\<close>

theorem freed_iff_unreferenced:
  assumes "reach H B F s" "e < next_ev s"
  shows "eb_freed (evs s e) \<longleftrightarrow> H e = 0 \<and> (\<forall>q. e \<notin> set (qb_members (evs s q))) \<and>
    (\<forall>d\<in>range (home s). e \<notin> set (asap_q s d) \<and> e \<notin> set (migrate_q s d))"
proof -
  obtain G where I: "einv G {#} {} s" and G: "g_ext G = H" "g_drivers G = range (home s)"
    using reach_einv [OF assms(1)] by metis
  have "finite (g_drivers G)" using einv_refs [OF I] by (simp add: inv_refs_def)
  then show ?thesis
    using einv_unreferenced_freed [OF I assms(2)] mrefs_zero [OF einv_shape [OF I]]
      qrefs_zero [of "g_drivers G" s e] G by auto
qed

text \<open>
  Links are symmetric and alive: in every reachable state a quorum is registered as a
  listener of an event exactly as often as the event is its member; such an event is not
  triggered and a registered quorum has not been deleted, so the cascade of a trigger never
  follows a stale pointer.
\<close>

theorem listener_links:
  assumes "reach H B F s"
  shows "count_list (eb_listeners (evs s e)) (Quorum q) = count_list (qb_members (evs s q)) e \<and>
    (Quorum q \<in> set (eb_listeners (evs s e)) \<longrightarrow> \<not> ef_triggered (evs s e) \<and> \<not> eb_freed (evs s q) \<and> \<not> eb_freed (evs s e))"
proof -
  obtain G where I: "einv G {#} {} s" using reach_einv [OF assms] by metis
  have c: "count_list (eb_listeners (evs s e)) (Quorum q) = count_list (qb_members (evs s q)) e"
    using einv_links [OF I] by (simp add: inv_links_def)
  have "\<not> ef_triggered (evs s e) \<and> \<not> eb_freed (evs s q) \<and> \<not> eb_freed (evs s e)"
    if "Quorum q \<in> set (eb_listeners (evs s e))"
  proof -
    have m: "e \<in> set (qb_members (evs s q))" using that c by (metis count_list_0_iff)
    note mq = inv_shape_member [OF einv_shape [OF I] m]
    have "body_ok False (evs s q)" using einv_body_ok [OF I] mq by simp
    then have "\<not> eb_freed (evs s q)" using m by (auto simp: body_ok_def)
    moreover have "mrefs s e \<noteq> 0" using mrefs_zero [OF einv_shape [OF I]] m by blast
    then have "\<not> eb_freed (evs s e)" using einv_unreferenced_freed [OF I] mq by simp
    ultimately show ?thesis using reach_members_untriggered [OF I m] by simp
  qed
  with c show ?thesis by blast
qed


subsection \<open>Wake-ups\<close>

text \<open>
  Every coroutine left on a triggered event is found by its driver: the event is in a queue
  of the coroutine's home driver. \<open>drv\<close> is the driver running the cascade, which looks at its
  own coroutines itself; \<open>Y\<close> are events whose queue entries are still to be made.
\<close>

definition wake :: "did option \<Rightarrow> eid set \<Rightarrow> world \<Rightarrow> bool" where
  "wake drv Y s \<longleftrightarrow> (\<forall>e c. e \<notin> Y \<longrightarrow> ef_triggered (evs s e) \<longrightarrow> Coro c \<in> set (eb_listeners (evs s e)) \<longrightarrow>
     drv \<noteq> Some (home s c) \<longrightarrow> e \<in> set (asap_q s (home s c)) \<union> set (migrate_q s (home s c)))"

definition calm :: "world \<Rightarrow> world \<Rightarrow> bool" where
  "calm s s' \<longleftrightarrow> home s' = home s \<and> (\<forall>e. set (eb_listeners (evs s' e)) \<subseteq> set (eb_listeners (evs s e))) \<and>
     (\<forall>d. set (asap_q s d) \<subseteq> set (asap_q s' d) \<and> set (migrate_q s d) \<subseteq> set (migrate_q s' d))"

lemma calm_refl [simp]: "calm s s" by (simp add: calm_def)

lemma calm_trans: "calm s t \<Longrightarrow> calm t u \<Longrightarrow> calm s u"
  unfolding calm_def by (metis order_trans)

lemma static_calm: "static s s' \<Longrightarrow> calm s s'"
  by (simp add: calm_def static_def static_body_def)

lemma wake_calm:
  "wake drv Y s \<Longrightarrow> calm s s' \<Longrightarrow> (\<And>e. e \<notin> Y \<Longrightarrow> ef_triggered (evs s' e) \<Longrightarrow> ef_triggered (evs s e)) \<Longrightarrow> wake drv Y s'"
  by (simp add: wake_def calm_def) blast

lemma wake_static: "wake drv Y s \<Longrightarrow> static s s' \<Longrightarrow> wake drv Y s'"
  by (rule wake_calm [OF _ static_calm]) (auto simp: staticD)

lemma calm_posts: "calm s (fold (post h e) ds s)"
proof (induction ds arbitrary: s)
  case (Cons d ds)
  have "calm s (post h e d s)" by (auto simp: calm_def post_def)
  then show ?case using Cons [of "post h e d s"] by (auto intro: calm_trans)
qed simp

lemma posts_queued: "d \<in> set ds \<Longrightarrow>
   e \<in> set (asap_q (fold (post h e) ds s) d) \<union> set (migrate_q (fold (post h e) ds s) d)"
proof (induction ds arbitrary: s)
  case (Cons x ds)
  show ?case
  proof (cases "d = x")
    case True
    have "e \<in> set (asap_q (post h e d s) d) \<union> set (migrate_q (post h e d s) d)" by (simp add: post_def)
    then show ?thesis using calm_posts [of "post h e d s" h e ds] True by (auto simp: calm_def)
  qed (use Cons in auto)
qed simp

lemma calm_notify: "calm s (notify_drivers drv e ds s)"
  using calm_trans [OF static_calm [OF static_steps(3)] calm_posts]
  by (simp add: notify_drivers_def Let_def)

lemma notify_queued: "d \<in> set ds \<Longrightarrow>
   e \<in> set (asap_q (notify_drivers drv e ds s) d) \<union> set (migrate_q (notify_drivers drv e ds s) d)"
  using posts_queued [of d ds e] by (auto simp: notify_drivers_def Let_def)

lemma notify_triggered: "ef_triggered (evs (notify_drivers drv e ds s) x) = ef_triggered (evs s x)"
proof -
  have "evs (fold (post h e) ds t) = evs t" for h t by (induction ds arbitrary: t) simp_all
  then show ?thesis by (simp add: notify_drivers_def Let_def ref_def)
qed

lemma static_enter_trigger: "static s (enter_trigger e s)"
proof (cases "ef_quorum (evs s e)")
  case True
  have "static (ref 1 e s) (cull_members handle_dtor e (ref 1 e s))"
    by (rule static_cull_members) (rule static_handle_dtor)
  then show ?thesis using True static_trans [OF static_steps(3)] by (simp add: enter_trigger_def)
qed (simp add: enter_trigger_def)

definition wake_ok :: "did option \<Rightarrow> (eid \<Rightarrow> cid option \<times> world \<Rightarrow> cid option \<times> world) \<Rightarrow> bool" where
  "wake_ok drv tu \<longleftrightarrow> (\<forall>q coh s coh' s' Y. tu q (coh, s) = (coh', s') \<longrightarrow>
     calm s s' \<and> (wake drv Y s \<longrightarrow> wake drv Y s'))"

lemma trigger_member_wake:
  assumes tu: "wake_ok drv tu" and res: "trigger_member tu e q (coh, s) = (coh', s')"
  shows "calm s s' \<and> (wake drv Y s \<longrightarrow> wake drv Y s')"
proof -
  define t where "t = (if e \<in> set (qb_members (evs s q)) then
      let ms = remove_swap e (qb_members (evs s q)) in
      handle_dtor e (upd q (\<lambda>b. b\<lparr>qb_triggered := qb_triggered b + 1, qb_members := ms,
        ef_empty_members := (ef_empty_members b \<or> ms = [])\<rparr>) s) else s)"
  have r: "(coh', s') = (if \<not> ef_triggered (evs t q) \<and> qb_quorum (evs t q) \<le> qb_triggered (evs t q) then tu q (coh, t)
         else if ef_empty_members (evs t q) \<and> eb_refcount (evs t q) = 0 then (coh, delete_body q t) else (coh, t))"
    using res unfolding trigger_member_def Let_def t_def by simp
  have T: "calm s t \<and> (wake drv Y s \<longrightarrow> wake drv Y t)"
  proof (cases "e \<in> set (qb_members (evs s q))")
    case True
    define u where "u = upd q (\<lambda>b. b\<lparr>qb_triggered := qb_triggered b + 1,
        qb_members := remove_swap e (qb_members (evs s q)),
        ef_empty_members := (ef_empty_members b \<or> remove_swap e (qb_members (evs s q)) = [])\<rparr>) s"
    have t: "t = handle_dtor e u" using True by (simp add: t_def u_def Let_def)
    have "calm s u" by (simp add: calm_def u_def)
    moreover have "wake drv Y u" if "wake drv Y s"
      by (rule wake_calm [OF that \<open>calm s u\<close>]) (auto simp: u_def split: if_splits)
    ultimately show ?thesis unfolding t
      using static_handle_dtor calm_trans static_calm wake_static by blast
  qed (simp add: t_def)
  consider "(coh', s') = tu q (coh, t)" | "s' = delete_body q t" | "s' = t"
    using r by (auto split: if_splits)
  then show ?thesis
  proof cases
    case 1
    then have "calm t s' \<and> (wake drv Y t \<longrightarrow> wake drv Y s')" using tu unfolding wake_ok_def by metis
    then show ?thesis using T calm_trans by blast
  next
    case 2
    then show ?thesis using T static_steps(2) calm_trans static_calm wake_static by blast
  qed (use T in simp)
qed

lemma trigger_unlock_n_wake: "wake_ok drv (trigger_unlock_n n drv)"
proof (induction n)
  case 0
  then show ?case by (simp add: wake_ok_def)
next
  case (Suc n)
  show ?case
    unfolding wake_ok_def
  proof (intro allI impI)
    fix e coh s coh' s' Y assume run: "trigger_unlock_n (Suc n) drv e (coh, s) = (coh', s')"
    define t where "t = enter_trigger e s"
    obtain qs ds ks coh1 where sc: "scan_listeners (home t) drv coh [] (eb_listeners (evs t e)) = (qs, ds, ks, coh1)"
      by (metis prod_cases4)
    obtain coh2 u where fo:
      "fold (trigger_member (trigger_unlock_n n drv) e) qs (coh1, fire e ks t) = (coh2, u)" by fastforce
    define v where "v = notify_drivers drv e ds u"
    have s': "s' = leave_trigger (ef_quorum (evs s e)) e v"
      using run sc fo by (simp add: trigger_unlock_n_unfold Let_def t_def [symmetric] v_def del: trigger_unlock_n.simps)
    note sp = scan_listeners_spec [OF sc]
    have st: "static s t" unfolding t_def by (rule static_enter_trigger)
    have cf: "calm t (fire e ks t)" using sp by (simp add: calm_def fire_def)
    have fold: "calm w w' \<and> (wake drv Z w \<longrightarrow> wake drv Z w')"
      if "fold (trigger_member (trigger_unlock_n n drv) e) ps (c, w) = (c', w')" for ps c w c' w' Z
      using that
    proof (induction ps arbitrary: c w)
      case (Cons p ps)
      obtain c1 w1 where 1: "trigger_member (trigger_unlock_n n drv) e p (c, w) = (c1, w1)" by fastforce
      show ?case using Cons.IH [of c1 w1] Cons.prems 1 trigger_member_wake [OF Suc 1, of Z] calm_trans by auto
    qed simp
    have cu: "calm (fire e ks t) u" using fold [OF fo] by blast
    have cv: "calm u v" unfolding v_def by (rule calm_notify)
    have csv: "calm s v" using static_calm [OF st] cf cu cv calm_trans by blast
    have "wake drv Y v" if w: "wake drv Y s"
    proof -
      have "wake drv (insert e Y) t" using wake_static [OF w st] by (simp add: wake_def)
      then have "wake drv (insert e Y) (fire e ks t)"
        by (rule wake_calm [OF _ cf]) (auto simp: fire_def)
      then have "wake drv (insert e Y) u" using fold [OF fo] by blast
      then have wv: "wake drv (insert e Y) v"
        by (rule wake_calm [OF _ cv]) (simp add: v_def notify_triggered)
      have "e \<in> set (asap_q v (home v c)) \<union> set (migrate_q v (home v c))"
        if "Coro c \<in> set (eb_listeners (evs v e))" "drv \<noteq> Some (home v c)" for c
      proof -
        have hv: "home v = home t" using cf cu cv by (simp add: calm_def)
        have "set (eb_listeners (evs v e)) \<subseteq> set (eb_listeners (evs (fire e ks t) e))"
          using calm_trans [OF cu cv] by (simp add: calm_def)
        then have "Coro c \<in> set ks" using that(1) by (auto simp: fire_def)
        then have "home t c \<in> set ds" using sp that(2) hv by simp
        then show ?thesis using notify_queued [of "home t c" ds e drv u] by (simp add: v_def [symmetric] hv)
      qed
      then show ?thesis using wv unfolding wake_def by (metis insert_iff)
    qed
    moreover have "static v s'" unfolding s' leave_trigger_def using static_handle_dtor by simp
    ultimately show "calm s s' \<and> (wake drv Y s \<longrightarrow> wake drv Y s')"
      using csv static_calm wake_static calm_trans by blast
  qed
qed



text \<open>
  A cascade run by a driver never loses a coroutine of another driver: the same rule
  holds for every coroutine whose home is not the driver that called \<^verbatim>\<open>driver_trigger\<close>.
\<close>

theorem driver_trigger_others_wake:
  assumes "wake (Some d) {} s"
  shows "wake (Some d) {} (snd (driver_trigger d e s))"
proof -
  obtain coh' s' where r: "trigger_unlock (Some d) e (None, s) = (coh', s')" by fastforce
  then have U: "wake (Some d) {} s'"
    using trigger_unlock_n_wake [of "Some d" "next_ev s + 1", unfolded wake_ok_def, rule_format, of e None s coh' s' "{}"]
      assms by (simp add: trigger_unlock_def del: trigger_unlock_n.simps)
  have c: "wake (Some d) {} (remove_listener (Coro c) e s)" for c
    by (rule wake_calm [OF assms])
       (auto simp: calm_def remove_listener_def Let_def set_remove_swap split: if_splits)
  have f: "wake (Some d) {} (upd e (\<lambda>b. b\<lparr>ef_empty := (ef_empty b \<or> eb_listeners b = [])\<rparr>) s)"
    by (rule wake_calm [OF assms]) (auto simp: calm_def split: if_splits)
  show ?thesis using assms U r c f by (simp add: driver_trigger_def Let_def split: option.split)
qed

text \<open>
  Triggering is one-shot: after \<^verbatim>\<open>trigger\<close> the event is triggered, no event ever becomes
  untriggered, and a second \<^verbatim>\<open>trigger\<close> returns false and changes nothing.
\<close>

theorem trigger_once:
  assumes "reach H B F s" "0 < H e"
  shows "ef_triggered (evs (snd (trigger e s)) e) \<and>
    (\<forall>x. ef_triggered (evs s x) \<longrightarrow> ef_triggered (evs (snd (trigger e s)) x)) \<and>
    trigger e (snd (trigger e s)) = (False, snd (trigger e s))"
proof -
  obtain G where I: "einv G {#} {} s" and G: "g_ext G = H" using reach_einv [OF assms(1)] by metis
  have "grows s (snd (trigger e s)) \<and> ef_triggered (evs (snd (trigger e s)) e)"
    using trigger_spec [OF I, of e] assms(2) G by simp
  moreover have "trigger e t = (False, t)" if "ef_triggered (evs t e)" for t using that by (simp add: trigger_def)
  ultimately show ?thesis using growsD(4) by blast
qed

text \<open>
  \<^verbatim>\<open>co_await\<close> suspends the coroutine exactly when the event has not triggered once the
  pending \<^verbatim>\<open>interest{}\<close> has been applied, and a suspended coroutine is registered with it.
\<close>

theorem await_suspend_registers:
  assumes "reach H B F s" "0 < H e"
    and "\<And>i. h = Some i \<Longrightarrow> 0 < H i \<and> \<not> ef_quorum (evs s i)"
    and "await_suspend h c e s = (susp, s')"
  shows "(susp \<longleftrightarrow> \<not> ef_triggered (evs s' e)) \<and> (susp \<longrightarrow> Coro c \<in> set (eb_listeners (evs s' e))) \<and>
    (\<forall>x. ef_triggered (evs s x) \<longrightarrow> ef_triggered (evs s' x))"
proof -
  obtain G where g: "ghost_for H B F s G" using reach_ghost [OF assms(1)] by blast
  then have I: "einv G {#} {} s" "want_ok s" "0 < g_ext G e"
    "\<And>i. h = Some i \<Longrightarrow> 0 < g_ext G i \<and> \<not> ef_quorum (evs s i)"
    using assms by (auto simp: ghost_for_def)
  show ?thesis using await_suspend_spec [OF I assms(4)] by (auto simp: follows_def)
qed


subsection \<open>Sample runs\<close>

text \<open>Two events, \<open>any\<close> of them, and a trigger of the first.\<close>

definition demo_args :: "quorum_arg list" where
  "demo_args = [EventArg (Some 0), EventArg (Some 1)]"

definition demo_events :: world where
  "demo_events = snd (new_event (snd (new_event (world_init (\<lambda>_. 0) 0))))"

definition demo_any :: world where
  "demo_any = snd (make_quorum 1 demo_args demo_events)"

definition demo_handles :: "eid \<Rightarrow> nat" where
  "demo_handles = (\<lambda>_. 0)(0 := 1, 1 := 1, 2 := 1)"

definition demo_built :: "eid \<Rightarrow> (nat \<times> quorum_arg list) option" where
  "demo_built = (\<lambda>_. None)(2 \<mapsto> (1, demo_args))"

lemma demo_events_reach: "reach ((\<lambda>_. 0)(0 := 1, 1 := 1)) (\<lambda>_. None) {} demo_events"
proof -
  let ?w = "world_init (\<lambda>_. 0) 0"
  have 0: "reach (\<lambda>_. 0) (\<lambda>_. None) {} ?w" by (rule reach.init) simp
  have e0: "new_event ?w = (0, snd (new_event ?w))" by (simp add: new_event_def alloc_def world_init_def)
  from reach.new [OF 0 e0] have 1: "reach ((\<lambda>_. 0)(0 := 1)) (\<lambda>_. None) {} (snd (new_event ?w))" by simp
  have "new_event (snd (new_event ?w)) = (1, demo_events)"
    by (simp add: demo_events_def new_event_def alloc_def world_init_def)
  from reach.new [OF 1 this] show ?thesis by simp
qed

lemma demo_any_reach: "reach demo_handles demo_built {} demo_any"
proof -
  have "next_ev demo_events = 2" by (simp add: demo_events_def new_event_def alloc_def world_init_def)
  then have "make_quorum 1 demo_args demo_events = (2, demo_any)"
    by (simp add: demo_any_def make_quorum_def alloc_def Let_def)
  note mk = this
  have "0 < ((\<lambda>_. 0)(0 := 1, 1 := 1 :: nat)) e" if "EventArg (Some e) \<in> set demo_args" for e
    using that by (auto simp: demo_args_def)
  note r = reach.quorum [OF demo_events_reach this mk]
  have "((\<lambda>_. 0)(0 := 1, 1 := 1))(2 := ((\<lambda>_. 0)(0 := 1, 1 := 1)) (2 :: nat) + 1) = demo_handles"
    by (simp add: demo_handles_def)
  with r show ?thesis unfolding demo_built_def by metis
qed

lemma demo_fired_reach: "reach demo_handles demo_built {0} (snd (trigger 0 demo_any))"
  using reach.trig [OF demo_any_reach, of 0] by (simp add: demo_handles_def)

lemma demo_fired_evals:
  "ef_triggered (evs (snd (trigger 0 demo_any)) 2)" "\<not> ef_triggered (evs (snd (trigger 0 demo_any)) 1)"
  "next_ev (snd (trigger 0 demo_any)) = 3"
  by code_simp+


theorem quorum_fires_iff_witness:
  "reach demo_handles demo_built {0} (snd (trigger 0 demo_any)) \<and> demo_built 2 = Some (1, demo_args) \<and>
   (ef_triggered (evs (snd (trigger 0 demo_any)) 2) \<longleftrightarrow> 1 \<le> args_fired demo_args (snd (trigger 0 demo_any)))"
  using quorum_fires_iff [OF demo_fired_reach, of 2 1 demo_args] demo_fired_reach
  by (simp add: demo_built_def demo_args_def demo_handles_def)

theorem freed_iff_unreferenced_witness:
  "eb_freed (evs (snd (trigger 0 demo_any)) 1) \<longleftrightarrow> demo_handles 1 = 0 \<and>
     (\<forall>q. 1 \<notin> set (qb_members (evs (snd (trigger 0 demo_any)) q))) \<and>
     (\<forall>d\<in>range (home (snd (trigger 0 demo_any))).
        1 \<notin> set (asap_q (snd (trigger 0 demo_any)) d) \<and> 1 \<notin> set (migrate_q (snd (trigger 0 demo_any)) d))"
  by (rule freed_iff_unreferenced [OF demo_fired_reach]) (simp add: demo_fired_evals(3))

theorem listener_links_witness:
  "count_list (eb_listeners (evs demo_any 1)) (Quorum 2) = count_list (qb_members (evs demo_any 2)) 1 \<and>
   \<not> eb_freed (evs demo_any 2)"
proof -
  have "Quorum 2 \<in> set (eb_listeners (evs demo_any 1))" by code_simp
  then show ?thesis using listener_links [OF demo_any_reach, of 1 2] by blast
qed

lemma demo_waiting_reach: "reach demo_handles demo_built {} (snd (await_suspend None 7 2 demo_any))"
  by (rule reach.await [OF demo_any_reach]) (simp_all add: demo_handles_def)

lemma reach_untriggered:
  assumes "reach H B F s" "\<And>e. e < next_ev s \<Longrightarrow> \<not> ef_triggered (evs s e)"
  shows "wake drv Y s"
proof -
  obtain G where "einv G {#} {} s" using reach_einv [OF assms(1)] by metis
  then have "\<not> ef_triggered (evs s e)" for e
    using assms(2) einv_shape unfolding inv_shape_def by (metis not_le)
  then show ?thesis by (simp add: wake_def)
qed

lemma demo_waiting_wake: "wake drv Y (snd (await_suspend None 7 2 demo_any))"
proof (rule reach_untriggered [OF demo_waiting_reach])
  fix e assume "e < next_ev (snd (await_suspend None 7 2 demo_any))"
  moreover have "next_ev (snd (await_suspend None 7 2 demo_any)) = 3" by code_simp
  ultimately consider "e = 0" | "e = 1" | "e = 2" by linarith
  then show "\<not> ef_triggered (evs (snd (await_suspend None 7 2 demo_any)) e)"
    by cases (simp, code_simp)+
qed


theorem driver_trigger_others_wake_witness:
  "wake (Some 1) {} (snd (driver_trigger 1 0 (snd (await_suspend None 7 2 demo_any)))) \<and>
   migrate_q (snd (driver_trigger 1 0 (snd (await_suspend None 7 2 demo_any)))) 0 = [2]"
  by (rule conjI [OF driver_trigger_others_wake [OF demo_waiting_wake]]) code_simp

theorem trigger_once_witness:
  "ef_triggered (evs (snd (trigger 0 demo_any)) 0) \<and>
   trigger 0 (snd (trigger 0 demo_any)) = (False, snd (trigger 0 demo_any))"
  using trigger_once [OF demo_any_reach, of 0] by (simp add: demo_handles_def)

theorem await_suspend_registers_witness:
  "fst (await_suspend None 7 2 demo_any) \<and> Coro 7 \<in> set (eb_listeners (evs (snd (await_suspend None 7 2 demo_any)) 2))"
proof -
  have f: "fst (await_suspend None 7 2 demo_any)" by code_simp
  then have r: "await_suspend None 7 2 demo_any = (True, snd (await_suspend None 7 2 demo_any))"
    by (metis prod.collapse)
  have "0 < demo_handles 2" by (simp add: demo_handles_def)
  from await_suspend_registers [OF demo_any_reach this _ r] f show ?thesis by simp
qed

subsection \<open>The driver's loop over one event\<close>

text \<open>
  \<^verbatim>\<open>while (auto coh = eh->driver_trigger(this)) { coh(); step_time(); }\<close>: \<open>resume\<close> is the effect
  of running a coroutine until it suspends; \<open>n\<close> bounds the iterations.
\<close>

primrec run_event :: "nat \<Rightarrow> (cid \<Rightarrow> world \<Rightarrow> world) \<Rightarrow> did \<Rightarrow> eid \<Rightarrow> world \<Rightarrow> cid list \<times> world" where
  "run_event 0 resume d e s = ([], s)"
| "run_event (Suc n) resume d e s =
     (case driver_trigger d e s of
        (None, s') \<Rightarrow> ([], s')
      | (Some c, s') \<Rightarrow> (let (cs, s'') = run_event n resume d e (resume c s') in (c # cs, s'')))"

text \<open>The coroutines of driver \<open>d\<close> among the listeners.\<close>

fun home_coros :: "(cid \<Rightarrow> did) \<Rightarrow> did \<Rightarrow> listener list \<Rightarrow> cid list" where
  "home_coros hm d [] = []"
| "home_coros hm d (Coro c # ls) = (if hm c = d then c # home_coros hm d ls else home_coros hm d ls)"
| "home_coros hm d (Quorum q # ls) = home_coros hm d ls"

lemma find_home_Some: "find_home hm d ls = Some c \<Longrightarrow> hm c = d \<and> Coro c \<in> set ls"
  by (induction hm d ls rule: find_home.induct) (auto split: if_splits)

lemma find_home_None: "find_home hm d ls = None \<Longrightarrow> home_coros hm d ls = []"
  by (induction hm d ls rule: find_home.induct) (auto split: if_splits)

lemma count_home_coros:
  "count_list (home_coros hm d ls) c = (if hm c = d then count_list ls (Coro c) else 0)"
  by (induction hm d ls rule: home_coros.induct) simp_all

lemma home_coros_remove:
  assumes "hm c = d" "Coro c \<in> set ls"
  shows "mset (home_coros hm d ls) = add_mset c (mset (home_coros hm d (remove_swap (Coro c) ls)))"
proof (rule multiset_eqI)
  fix x
  have "0 < count_list ls (Coro c)" using assms(2) by (simp add: count_list_pos [symmetric])
  then show "count (mset (home_coros hm d ls)) x =
      count (add_mset c (mset (home_coros hm d (remove_swap (Coro c) ls)))) x"
    using assms(1) by (auto simp: count_mset count_home_coros count_list_remove_swap)
qed

text \<open>
  The loop over an event that has already triggered ends and resumes every coroutine of
  the driver that is registered with the event, once per registration, as long as running a
  coroutine leaves the list of the event alone: no coroutine of the driver remains on it.
\<close>

theorem run_event_complete:
  assumes "ef_triggered (evs s e)" "ef_empty (evs s e) \<longleftrightarrow> eb_listeners (evs s e) = []"
    and "\<And>c t. evs (resume c t) e = evs t e \<and> home (resume c t) = home t"
    and "length (eb_listeners (evs s e)) < n" "run_event n resume d e s = (cs, s')"
  shows "mset cs = mset (home_coros (home s) d (eb_listeners (evs s e))) \<and>
    home_coros (home s) d (eb_listeners (evs s' e)) = []"
  using assms
proof (induction n arbitrary: s cs)
  case 0
  then show ?case by simp
next
  case (Suc n)
  let ?ls = "eb_listeners (evs s e)"
  show ?case
  proof (cases "ef_empty (evs s e)")
    case True
    then show ?thesis using Suc.prems by (simp add: driver_trigger_def)
  next
    case ne: False
    show ?thesis
    proof (cases "find_home (home s) d ?ls")
      case None
      then show ?thesis using ne Suc.prems find_home_None [OF None]
        by (auto simp: driver_trigger_def Let_def)
    next
      case (Some c)
      note fh = find_home_Some [OF Some]
      define t where "t = resume c (remove_listener (Coro c) e s)"
      have te: "evs t e = evs (remove_listener (Coro c) e s) e" and th: "home t = home s"
        using Suc.prems(3) by (simp_all add: t_def remove_listener_def Let_def)
      then have tl: "eb_listeners (evs t e) = remove_swap (Coro c) ?ls" "ef_triggered (evs t e)"
        "ef_empty (evs t e) \<longleftrightarrow> eb_listeners (evs t e) = []"
        using Suc.prems(1) ne by (simp_all add: remove_listener_def Let_def)
      obtain cs1 where r: "run_event n resume d e t = (cs1, s')" "cs = c # cs1"
        using Suc.prems(5) ne Some Suc.prems(1) by (auto simp: driver_trigger_def Let_def t_def split: prod.splits)
      have len: "length (eb_listeners (evs t e)) < n"
        using Suc.prems(4) fh by (cases ?ls) (auto simp: tl(1) length_remove_swap)
      from Suc.IH [OF tl(2,3) Suc.prems(3) len r(1)] home_coros_remove [of "home s" c d ?ls] fh
      show ?thesis by (simp add: r(2) tl(1) th)
    qed
  qed
qed

theorem run_event_complete_witness:
  "mset (fst (run_event 3 (\<lambda>c t. t) 0 2 (snd (trigger 0 (snd (await_suspend None 7 2 demo_any)))))) =
    mset (home_coros (home (snd (trigger 0 (snd (await_suspend None 7 2 demo_any))))) 0
      (eb_listeners (evs (snd (trigger 0 (snd (await_suspend None 7 2 demo_any)))) 2))) \<and>
   fst (run_event 3 (\<lambda>c t. t) 0 2 (snd (trigger 0 (snd (await_suspend None 7 2 demo_any))))) = [7]"
proof -
  define w where "w = snd (trigger 0 (snd (await_suspend None 7 2 demo_any)))"
  have 1: "ef_triggered (evs w 2)" unfolding w_def by code_simp
  have 2: "ef_empty (evs w 2) \<longleftrightarrow> eb_listeners (evs w 2) = []" unfolding w_def by code_simp
  have 3: "length (eb_listeners (evs w 2)) < 3" unfolding w_def by code_simp
  have 4: "fst (run_event 3 (\<lambda>c t. t) 0 2 w) = [7]" unfolding w_def by code_simp
  from run_event_complete [OF 1 2 _ 3, of "\<lambda>c t. t"] 4 show ?thesis
    unfolding w_def [symmetric] by (metis prod.collapse)
qed

text \<open>
  The state of the example: coroutine 1 waits for event 0, coroutine 2 waits for \<open>any\<close> of
  events 0 and 1; both live on driver 0.
\<close>

definition demo_nested :: world where
  "demo_nested = snd (await_suspend None 2 2 (snd (await_suspend None 1 0 demo_any)))"


end
