(* ===== verification/Mutex.thy ===== *)
theory Mutex
  imports EventReach
begin

text \<open>
  The coroutine mutex of \<^verbatim>\<open>cotamer/cotamer.hh\<close> with its implementation in
  \<^verbatim>\<open>cotamer_impl.hh\<close> and \<^verbatim>\<open>cotamer.cc\<close>, and the guards \<^verbatim>\<open>unique_lock\<close> and \<^verbatim>\<open>shared_lock\<close>.

  The latch word keeps its width and its bits: \<open>2\<close> and \<open>4\<close> tell what the first waiter
  wants, \<open>8\<close> is the exclusive lock and every shared lock adds \<open>16\<close>. The latch bit \<open>1\<close> is set
  only inside an operation, and operations are atomic in the model, so it is clear between
  them. A \<^verbatim>\<open>bool*\<close> that a waiter asks to be set is an index into \<open>m_notes\<close>.
\<close>

unbundle bit_operations_syntax

record mstate =
  m_world :: world
  m_latch :: u32
  m_waiters :: "(eid \<times> nat option) list"
  m_notes :: "nat \<Rightarrow> bool"

definition mutex_init :: "world \<Rightarrow> mstate" where
  "mutex_init w = \<lparr>m_world = w, m_latch = 0, m_waiters = [], m_notes = (\<lambda>_. False)\<rparr>"

definition waiter_shared :: "world \<Rightarrow> eid \<Rightarrow> bool" where
  "waiter_shared w e \<longleftrightarrow> odd (ef_user (evs w e))"

definition allow :: "bool \<Rightarrow> u32 \<Rightarrow> bool" where
  "allow is_shared l = (if is_shared then l AND 8 = 0 else l < 8)"

definition lock_unit :: "bool \<Rightarrow> u32" where
  "lock_unit is_shared = (if is_shared then 16 else 8)"

definition set_note :: "nat option \<Rightarrow> (nat \<Rightarrow> bool) \<Rightarrow> nat \<Rightarrow> bool" where
  "set_note n ns = (case n of None \<Rightarrow> ns | Some i \<Rightarrow> ns(i := True))"

text \<open>\<^verbatim>\<open>latch()\<close> returns the word without the next bits; \<^verbatim>\<open>unlatch\<close> stores it with fresh ones.\<close>

definition latch :: "mstate \<Rightarrow> u32" where
  "latch s = m_latch s AND NOT 6"

definition unlatch :: "u32 \<Rightarrow> mstate \<Rightarrow> mstate" where
  "unlatch l s =
     s\<lparr>m_latch := (case m_waiters s of
         [] \<Rightarrow> l
       | (e, n) # ws \<Rightarrow> l + (if waiter_shared (m_world s) e then 4 else 2))\<rparr>"

fun notify_loop :: "(eid \<times> nat option) list \<Rightarrow> u32 \<Rightarrow> world \<Rightarrow> (nat \<Rightarrow> bool)
    \<Rightarrow> (eid \<times> nat option) list \<times> u32 \<times> world \<times> (nat \<Rightarrow> bool)" where
  "notify_loop [] l w ns = ([], l, w, ns)"
| "notify_loop ((e, n) # ws) l w ns =
     (if \<not> handle_empty w (Some e) then
        let sh = waiter_shared w e in
        if \<not> allow sh l then ((e, n) # ws, l, w, ns)
        else
          let (t, w) = trigger e w in
          if t then notify_loop ws (l + lock_unit sh) (handle_dtor e w) (set_note n ns)
          else notify_loop ws l (handle_dtor e w) ns
      else notify_loop ws l (handle_dtor e w) ns)"

definition notify_locked :: "u32 \<Rightarrow> mstate \<Rightarrow> u32 \<times> mstate" where
  "notify_locked l s =
     (let (ws, l, w, ns) = notify_loop (m_waiters s) l (m_world s) (m_notes s)
      in (l, s\<lparr>m_waiters := ws, m_world := w, m_notes := ns\<rparr>))"

definition lock_impl :: "bool \<Rightarrow> eid option \<Rightarrow> nat option \<Rightarrow> mstate \<Rightarrow> eid option \<times> mstate" where
  "lock_impl is_shared h notify s =
     (let (l, s) = notify_locked (latch s) s in
      if m_waiters s = [] \<and> allow is_shared l then
        let s = s\<lparr>m_world := snd (event_trigger h (m_world s)),
                  m_notes := set_note notify (m_notes s)\<rparr>
        in (h, unlatch (l + lock_unit is_shared) s)
      else
        let (e, w) = (case h of Some e \<Rightarrow> (e, m_world s) | None \<Rightarrow> new_event (m_world s));
            w = (if is_shared then set_user_flags e 1 w else w)
        in (Some e, unlatch l (s\<lparr>m_waiters := m_waiters s @ [(e, notify)], m_world := ref 1 e w\<rparr>)))"

definition unlock_impl :: "bool \<Rightarrow> mstate \<Rightarrow> mstate" where
  "unlock_impl is_shared s =
     (let (l, s) = notify_locked (latch s - lock_unit is_shared) s in unlatch l s)"

text \<open>
  The result of \<^verbatim>\<open>lock\<close> is a \<^verbatim>\<open>mutex_event\<close>, of which the model keeps the handle; a null handle
  is an event that has already triggered.
\<close>

definition mutex_lock :: "mstate \<Rightarrow> eid option \<times> mstate" where
  "mutex_lock s = lock_impl False None None s"

definition mutex_lock_notify :: "nat \<Rightarrow> mstate \<Rightarrow> eid option \<times> mstate" where
  "mutex_lock_notify n s = lock_impl False None (Some n) s"

definition mutex_lock_shared :: "mstate \<Rightarrow> eid option \<times> mstate" where
  "mutex_lock_shared s = lock_impl True None None s"

definition mutex_lock_shared_notify :: "nat \<Rightarrow> mstate \<Rightarrow> eid option \<times> mstate" where
  "mutex_lock_shared_notify n s = lock_impl True None (Some n) s"

definition mutex_event_triggered :: "mstate \<Rightarrow> eid option \<Rightarrow> bool" where
  "mutex_event_triggered s h = handle_triggered (m_world s) h"

definition mutex_try_lock :: "mstate \<Rightarrow> bool \<times> mstate" where
  "mutex_try_lock s = (if m_latch s = 0 then (True, s\<lparr>m_latch := 8\<rparr>) else (False, s))"

definition mutex_unlock :: "mstate \<Rightarrow> mstate" where
  "mutex_unlock s =
     (if m_latch s AND (1 OR 6) = 0 then s\<lparr>m_latch := m_latch s - 8\<rparr> else unlock_impl False s)"

definition mutex_try_lock_shared :: "mstate \<Rightarrow> bool \<times> mstate" where
  "mutex_try_lock_shared s =
     (if m_latch s AND (1 OR 6 OR 8) \<noteq> 0 then (False, s)
      else (True, s\<lparr>m_latch := m_latch s + 16\<rparr>))"

definition mutex_unlock_shared :: "mstate \<Rightarrow> mstate" where
  "mutex_unlock_shared s =
     (let l = m_latch s in
      if l AND (1 OR 4) = 0 \<and> (l AND 2 = 0 \<or> 32 \<le> l) then s\<lparr>m_latch := l - 16\<rparr>
      else unlock_impl True s)"

subsection \<open>Guards\<close>

text \<open>
  A guard is attached to the mutex or not (\<^verbatim>\<open>m_\<close>); its \<^verbatim>\<open>owned_\<close> is the note at its address, since
  \<^verbatim>\<open>lock\<close> hands that address to the mutex.
\<close>

datatype lock_error = Operation_not_permitted | Resource_deadlock_would_occur

record guard =
  g_attached :: bool
  g_owned :: nat

definition owned :: "guard \<Rightarrow> mstate \<Rightarrow> bool" where
  "owned g s = m_notes s (g_owned g)"

definition set_owned :: "guard \<Rightarrow> bool \<Rightarrow> mstate \<Rightarrow> mstate" where
  "set_owned g b s = s\<lparr>m_notes := (m_notes s)(g_owned g := b)\<rparr>"

definition unique_from_token :: "nat \<Rightarrow> mstate \<Rightarrow> guard \<times> mstate" where
  "unique_from_token a s = (let g = \<lparr>g_attached = True, g_owned = a\<rparr> in (g, set_owned g True s))"

definition unique_defer :: "nat \<Rightarrow> mstate \<Rightarrow> guard \<times> mstate" where
  "unique_defer a s = (let g = \<lparr>g_attached = True, g_owned = a\<rparr> in (g, set_owned g False s))"

definition unique_try :: "nat \<Rightarrow> mstate \<Rightarrow> guard \<times> mstate" where
  "unique_try a s =
     (let g = \<lparr>g_attached = True, g_owned = a\<rparr>; (b, s) = mutex_try_lock s in (g, set_owned g b s))"

definition unique_adopt :: "nat \<Rightarrow> mstate \<Rightarrow> guard \<times> mstate" where
  "unique_adopt a s = (let g = \<lparr>g_attached = True, g_owned = a\<rparr> in (g, set_owned g True s))"

text \<open>The move constructor: the new guard at address \<open>a\<close> and the emptied source.\<close>

definition unique_move :: "nat \<Rightarrow> guard \<Rightarrow> mstate \<Rightarrow> (guard \<times> guard) \<times> mstate" where
  "unique_move a x s =
     (let g = \<lparr>g_attached = g_attached x, g_owned = a\<rparr>
      in ((g, x\<lparr>g_attached := False\<rparr>), set_owned x False (set_owned g (owned x s) s)))"

definition unique_dtor :: "guard \<Rightarrow> mstate \<Rightarrow> mstate" where
  "unique_dtor g s = (if owned g s then mutex_unlock s else s)"

text \<open>The move assignment: the new target, the emptied source, and the state.\<close>

definition unique_move_assign :: "guard \<Rightarrow> guard \<Rightarrow> mstate \<Rightarrow> (guard \<times> guard) \<times> mstate" where
  "unique_move_assign g x s =
     (let s = (if owned g s then mutex_unlock s else s);
          s = set_owned g (owned x s) (set_owned x False s)
      in ((g\<lparr>g_attached := g_attached x\<rparr>, x\<lparr>g_attached := False\<rparr>), s))"

definition unique_swap :: "guard \<Rightarrow> guard \<Rightarrow> mstate \<Rightarrow> (guard \<times> guard) \<times> mstate" where
  "unique_swap g x s =
     ((g\<lparr>g_attached := g_attached x\<rparr>, x\<lparr>g_attached := g_attached g\<rparr>),
      set_owned x (owned g s) (set_owned g (owned x s) s))"

definition unique_lock_lock :: "guard \<Rightarrow> mstate \<Rightarrow> lock_error + (eid option \<times> mstate)" where
  "unique_lock_lock g s =
     (if \<not> g_attached g then Inl Operation_not_permitted
      else if owned g s then Inl Resource_deadlock_would_occur
      else Inr (mutex_lock_notify (g_owned g) s))"

definition unique_lock_try_lock :: "guard \<Rightarrow> mstate \<Rightarrow> lock_error + (bool \<times> mstate)" where
  "unique_lock_try_lock g s =
     (if \<not> g_attached g then Inl Operation_not_permitted
      else if owned g s then Inl Resource_deadlock_would_occur
      else let (b, s) = mutex_try_lock s in Inr (b, set_owned g b s))"

definition unique_lock_unlock :: "guard \<Rightarrow> mstate \<Rightarrow> lock_error + mstate" where
  "unique_lock_unlock g s =
     (if \<not> owned g s then Inl Operation_not_permitted
      else Inr (set_owned g False (mutex_unlock s)))"

definition unique_release :: "guard \<Rightarrow> mstate \<Rightarrow> guard \<times> mstate" where
  "unique_release g s = (g\<lparr>g_attached := False\<rparr>, set_owned g False s)"

definition shared_from_token :: "nat \<Rightarrow> mstate \<Rightarrow> guard \<times> mstate" where
  "shared_from_token a s = (let g = \<lparr>g_attached = True, g_owned = a\<rparr> in (g, set_owned g True s))"

definition shared_defer :: "nat \<Rightarrow> mstate \<Rightarrow> guard \<times> mstate" where
  "shared_defer a s = (let g = \<lparr>g_attached = True, g_owned = a\<rparr> in (g, set_owned g False s))"

definition shared_try :: "nat \<Rightarrow> mstate \<Rightarrow> guard \<times> mstate" where
  "shared_try a s =
     (let g = \<lparr>g_attached = True, g_owned = a\<rparr>; (b, s) = mutex_try_lock_shared s
      in (g, set_owned g b s))"

definition shared_adopt :: "nat \<Rightarrow> mstate \<Rightarrow> guard \<times> mstate" where
  "shared_adopt a s = (let g = \<lparr>g_attached = True, g_owned = a\<rparr> in (g, set_owned g True s))"

definition shared_move :: "nat \<Rightarrow> guard \<Rightarrow> mstate \<Rightarrow> (guard \<times> guard) \<times> mstate" where
  "shared_move a x s =
     (let g = \<lparr>g_attached = g_attached x, g_owned = a\<rparr>
      in ((g, x\<lparr>g_attached := False\<rparr>), set_owned x False (set_owned g (owned x s) s)))"

definition shared_dtor :: "guard \<Rightarrow> mstate \<Rightarrow> mstate" where
  "shared_dtor g s = (if owned g s then mutex_unlock_shared s else s)"

definition shared_move_assign :: "guard \<Rightarrow> guard \<Rightarrow> mstate \<Rightarrow> (guard \<times> guard) \<times> mstate" where
  "shared_move_assign g x s =
     (let s = (if owned g s then mutex_unlock_shared s else s);
          s = set_owned g (owned x s) (set_owned x False s)
      in ((g\<lparr>g_attached := g_attached x\<rparr>, x\<lparr>g_attached := False\<rparr>), s))"

definition shared_swap :: "guard \<Rightarrow> guard \<Rightarrow> mstate \<Rightarrow> (guard \<times> guard) \<times> mstate" where
  "shared_swap g x s =
     ((g\<lparr>g_attached := g_attached x\<rparr>, x\<lparr>g_attached := g_attached g\<rparr>),
      set_owned x (owned g s) (set_owned g (owned x s) s))"

definition shared_lock_lock :: "guard \<Rightarrow> mstate \<Rightarrow> lock_error + (eid option \<times> mstate)" where
  "shared_lock_lock g s =
     (if \<not> g_attached g then Inl Operation_not_permitted
      else if owned g s then Inl Resource_deadlock_would_occur
      else Inr (mutex_lock_shared_notify (g_owned g) s))"

definition shared_lock_try_lock :: "guard \<Rightarrow> mstate \<Rightarrow> lock_error + (bool \<times> mstate)" where
  "shared_lock_try_lock g s =
     (if \<not> g_attached g then Inl Operation_not_permitted
      else if owned g s then Inl Resource_deadlock_would_occur
      else let (b, s) = mutex_try_lock_shared s in Inr (b, set_owned g b s))"

definition shared_lock_unlock :: "guard \<Rightarrow> mstate \<Rightarrow> lock_error + mstate" where
  "shared_lock_unlock g s =
     (if \<not> owned g s then Inl Operation_not_permitted
      else Inr (set_owned g False (mutex_unlock_shared s)))"

definition shared_release :: "guard \<Rightarrow> mstate \<Rightarrow> guard \<times> mstate" where
  "shared_release g s = (g\<lparr>g_attached := False\<rparr>, set_owned g False s)"

end
