(* ===== verification/EventFrame.thy ===== *)
theory EventFrame
  imports EventReach
begin

text \<open>
  What a trigger cascade leaves alone. A relation on stores that is reflexive and transitive and
  contains every elementary step of the cascade contains the whole cascade; this is the locale
  \<open>cascade_rel\<close>. It is interpreted for two relations: user flags and the number of bodies are
  unchanged, and a triggered event stays triggered.
\<close>

locale cascade_rel =
  fixes R :: "world \<Rightarrow> world \<Rightarrow> bool"
  assumes R_trans: "R s t \<Longrightarrow> R t u \<Longrightarrow> R s u"
    and R_static: "static s t \<Longrightarrow> R s t"
    and R_member: "R s (upd q (\<lambda>b. b\<lparr>qb_triggered := k, qb_members := ms, ef_empty_members := f b\<rparr>) s)"
    and R_fire: "R s (fire e ks s)"
    and R_queues: "evs t = evs s \<Longrightarrow> next_ev t = next_ev s \<Longrightarrow> R s t"
begin

lemma R_refl: "R s s" by (rule R_queues) simp_all

lemma R_handle_dtor: "R s (handle_dtor e s)" by (rule R_static [OF static_handle_dtor])

lemma R_trigger_member:
  assumes tu: "\<forall>q c t. R t (snd (tu q (c, t)))"
  shows "R s (snd (trigger_member tu e q (coh, s)))"
proof -
  define t where "t = (if e \<in> set (qb_members (evs s q)) then
      let ms = remove_swap e (qb_members (evs s q)) in
      handle_dtor e (upd q (\<lambda>b. b\<lparr>qb_triggered := qb_triggered b + 1, qb_members := ms,
        ef_empty_members := (ef_empty_members b \<or> ms = [])\<rparr>) s) else s)"
  have "R s (upd q (\<lambda>b. b\<lparr>qb_triggered := qb_triggered b + 1, qb_members := ms, ef_empty_members := f b\<rparr>) s)" for ms f
    using R_member [where s = s and q = q and k = "qb_triggered (evs s q) + 1" and ms = ms and f = f] by (simp add: upd_def)
  then have st: "R s t"
    unfolding t_def Let_def using R_trans [OF _ R_handle_dtor] R_refl by simp
  have "snd (trigger_member tu e q (coh, s)) \<in> {snd (tu q (coh, t)), delete_body q t, t}"
    by (simp add: trigger_member_def Let_def t_def)
  then show ?thesis
    using R_trans [OF st spec [OF spec [OF spec [OF tu]]]] R_trans [OF st R_static [OF static_steps(2)]] st by auto
qed

lemma R_trigger_members:
  assumes tu: "\<forall>q c t. R t (snd (tu q (c, t)))"
  shows "R w (snd (fold (trigger_member tu e) qs (c, w)))"
proof (induction qs arbitrary: c w)
  case (Cons p ps)
  obtain c1 w1 where 1: "trigger_member tu e p (c, w) = (c1, w1)" by fastforce
  have "R w w1" using R_trigger_member [OF tu, where s = w and e = e and q = p and coh = c] 1 by simp
  then show ?case using R_trans Cons.IH [where c = c1 and w = w1] 1 by auto
qed (simp add: R_refl)

lemma R_notify: "R u (notify_drivers drv e ds u)"
proof -
  have "evs (fold (post h e) ds w) = evs w \<and> next_ev (fold (post h e) ds w) = next_ev w" for h w
    by (induction ds arbitrary: w) simp_all
  then have "R (ref (length ds) e u) (fold (post h e) ds (ref (length ds) e u))" for h by (intro R_queues) simp_all
  then have "R u (fold (post h e) ds (ref (length ds) e u))" for h
    using R_trans [OF R_static [OF static_steps(3)]] by blast
  then show ?thesis using R_refl by (simp add: notify_drivers_def Let_def)
qed

lemma R_leave: "R w (leave_trigger b e w)"
  using R_handle_dtor R_refl by (simp add: leave_trigger_def)

lemma R_trigger_unlock_n: "R s (snd (trigger_unlock_n n drv e (coh, s)))"
proof (induction n arbitrary: e coh s)
  case 0
  then show ?case by (simp add: R_refl)
next
  case (Suc n)
  define t where "t = enter_trigger e s"
  obtain qs ds ks coh1 where sc: "scan_listeners (home t) drv coh [] (eb_listeners (evs t e)) = (qs, ds, ks, coh1)"
    by (metis prod_cases4)
  obtain coh2 u where fo:
    "fold (trigger_member (trigger_unlock_n n drv) e) qs (coh1, fire e ks t) = (coh2, u)" by fastforce
  have fu: "R (fire e ks t) u"
    using R_trigger_members [where tu = "trigger_unlock_n n drv" and w = "fire e ks t" and e = e and qs = qs and c = coh1]
      Suc.IH fo by simp
  have st: "R s t" unfolding t_def by (rule R_static [OF static_enter_trigger])
  note nd = R_notify [of u drv e ds]
  from R_leave have "R s (leave_trigger (ef_quorum (evs s e)) e (notify_drivers drv e ds u))"
    using R_trans [OF R_trans [OF R_trans [OF R_trans [OF st R_fire] fu] nd]] by blast
  then show ?case
    using sc fo by (simp add: trigger_unlock_n_unfold Let_def t_def [symmetric] del: trigger_unlock_n.simps)
qed

lemma R_trigger: "R s (snd (trigger e s))"
  using R_trigger_unlock_n [of s "next_ev s + 1" None e None] R_refl
  by (simp add: trigger_def trigger_unlock_def del: trigger_unlock_n.simps)

lemma R_trigger_fired:
  assumes "\<not> ef_triggered (evs s e)"
  shows "\<exists>t ks. R (fire e ks t) (snd (trigger e s))"
proof -
  define t where "t = enter_trigger e s"
  obtain qs ds ks coh1 where sc: "scan_listeners (home t) None None [] (eb_listeners (evs t e)) = (qs, ds, ks, coh1)"
    by (metis prod_cases4)
  obtain coh2 u where fo:
    "fold (trigger_member (trigger_unlock_n (next_ev s) None) e) qs (coh1, fire e ks t) = (coh2, u)" by fastforce
  have fu: "R (fire e ks t) u"
    using R_trigger_members [where tu = "trigger_unlock_n (next_ev s) None" and w = "fire e ks t" and e = e and qs = qs and c = coh1]
      R_trigger_unlock_n fo by simp
  note nd = R_notify [of u None e ds]
  from R_leave have "R (fire e ks t) (leave_trigger (ef_quorum (evs s e)) e (notify_drivers None e ds u))"
    using R_trans [OF R_trans [OF fu nd]] by blast
  then show ?thesis using assms sc fo
    by (auto simp: trigger_def trigger_unlock_def trigger_unlock_n_unfold Let_def t_def [symmetric]
        simp del: trigger_unlock_n.simps)
qed

end

definition user_same :: "world \<Rightarrow> world \<Rightarrow> bool" where
  "user_same s s' \<longleftrightarrow> next_ev s' = next_ev s \<and> (\<forall>x. ef_user (evs s' x) = ef_user (evs s x))"

definition fires_only :: "world \<Rightarrow> world \<Rightarrow> bool" where
  "fires_only s s' \<longleftrightarrow> (\<forall>x. ef_triggered (evs s x) \<longrightarrow> ef_triggered (evs s' x))"

interpretation us: cascade_rel user_same
  by unfold_locales (auto simp: user_same_def static_def static_body_def fire_def)

interpretation fo: cascade_rel fires_only
  by unfold_locales (auto simp: fires_only_def static_def static_body_def fire_def upd_def)

lemma user_same_refl [simp]: "user_same s s" by (rule us.R_refl)

lemma user_same_trans: "user_same s t \<Longrightarrow> user_same t u \<Longrightarrow> user_same s u"
  by (rule us.R_trans)

lemma static_user: "static s s' \<Longrightarrow> user_same s s'"
  by (rule us.R_static)

lemma trigger_user: "user_same s (snd (trigger e s))"
  by (rule us.R_trigger)

lemma trigger_fires: "ef_triggered (evs (snd (trigger e s)) e)"
proof (cases "ef_triggered (evs s e)")
  case False
  then show ?thesis using fo.R_trigger_fired by (fastforce simp: fires_only_def fire_def)
qed (simp add: trigger_def)

lemma trigger_keeps: "ef_triggered (evs s x) \<Longrightarrow> ef_triggered (evs (snd (trigger e s)) x)"
  using fo.R_trigger by (simp add: fires_only_def)

end
