(* ===== verification/MutexInv.thy ===== *)
theory MutexInv
  imports Mutex EventFrame "HOL-Library.Sublist"
begin

text \<open>
  Correctness of the mutex. The latch word is read as the number of exclusive and shared locks
  held (\<open>lw\<close>), \<open>mutex_inv\<close> relates word, queue and holders, and every operation keeps it. Runs of
  the mutex are the inductive predicate \<open>mrun\<close>; its properties are mutual exclusion, that no lock is
  left idle while somebody could take it, that the queue is served in order, and the error
  behaviour of the guards. What the mutex needs of the events is the locale \<open>marked_events\<close>,
  interpreted on the event store.
\<close>

unbundle bit_operations_syntax


subsection \<open>The latch word\<close>

text \<open>\<open>lw x n\<close>: \<open>x\<close> exclusive and \<open>n\<close> shared locks held, no other bits.\<close>

definition lw :: "nat \<Rightarrow> nat \<Rightarrow> u32" where
  "lw x n = push_bit 3 (of_nat (x + 2 * n))"

definition next_bits :: "mstate \<Rightarrow> u32" where
  "next_bits s = (case m_waiters s of
      [] \<Rightarrow> 0 | (e, n) # ws \<Rightarrow> (if waiter_shared (m_world s) e then 4 else 2))"

lemma lw_add: "lw x n + 8 = lw (x + 1) n" "lw x n + 16 = lw x (n + 1)"
  by (simp_all add: lw_def push_bit_eq_mult algebra_simps)

lemma lw_sub: "lw (Suc x) n - 8 = lw x n" "lw x (Suc n) - 16 = lw x n"
  by (simp_all add: lw_def push_bit_eq_mult algebra_simps)

lemma unat_lw: "x \<le> 1 \<Longrightarrow> n < 2 ^ 27 \<Longrightarrow> unat (lw x n) = 8 * (x + 2 * n)"
proof -
  assume a: "x \<le> 1" "n < 2 ^ 27"
  have "lw x n = of_nat (8 * (x + 2 * n))" by (simp add: lw_def push_bit_eq_mult algebra_simps)
  then have "unat (lw x n) = 8 * (x + 2 * n) mod 2 ^ 32" by (simp only: unat_of_nat) simp
  moreover have "8 * (x + 2 * n) < 2 ^ 32" using a by simp
  ultimately show ?thesis by (simp only: mod_less)
qed

lemma bit_lw: "bit (lw x n) 3 \<longleftrightarrow> odd x" "i < 3 \<Longrightarrow> \<not> bit (lw x n) i"
proof -
  have "bit (lw x n) 3 \<longleftrightarrow> bit (of_nat (x + 2 * n) :: u32) 0"
    by (simp add: lw_def bit_push_bit_iff del: of_nat_add of_nat_mult)
  also have "\<dots> \<longleftrightarrow> odd x" by (simp add: bit_0)
  finally show "bit (lw x n) 3 \<longleftrightarrow> odd x" .
qed (simp add: lw_def bit_push_bit_iff)

lemma allow_lw:
  assumes "x \<le> 1" "n < 2 ^ 27"
  shows "allow True (lw x n) \<longleftrightarrow> x = 0" "allow False (lw x n) \<longleftrightarrow> x = 0 \<and> n = 0"
proof -
  have "lw x n AND 2 ^ 3 = 0 \<longleftrightarrow> \<not> bit (lw x n) 3" by (rule and_exp_eq_0_iff_not_bit)
  then show "allow True (lw x n) \<longleftrightarrow> x = 0"
    using assms(1) by (auto simp: allow_def bit_lw elim: oddE)
  have "lw x n < 8 \<longleftrightarrow> unat (lw x n) < 8" by (simp add: word_less_nat_alt)
  then show "allow False (lw x n) \<longleftrightarrow> x = 0 \<and> n = 0"
    using unat_lw [OF assms] by (auto simp: allow_def)
qed

lemma bit_small: "bit (6::u32) i \<longleftrightarrow> i = 1 \<or> i = 2" "bit (4::u32) i \<longleftrightarrow> i = 2" "bit (2::u32) i \<longleftrightarrow> i = 1"
   "bit (8::u32) i \<longleftrightarrow> i = 3" "bit (1::u32) i \<longleftrightarrow> i = 0"
   "bit (7::u32) i \<longleftrightarrow> i = 0 \<or> i = 1 \<or> i = 2" "bit (5::u32) i \<longleftrightarrow> i = 0 \<or> i = 2"
   "bit (15::u32) i \<longleftrightarrow> i = 0 \<or> i = 1 \<or> i = 2 \<or> i = 3"
proof -
  have p: "bit ((2::u32) ^ k) i \<longleftrightarrow> i = k" if "k < 32" for k using that by (auto simp: bit_exp_iff)
  show 4: "bit (4::u32) i \<longleftrightarrow> i = 2" using p [of 2] by simp
  show 2: "bit (2::u32) i \<longleftrightarrow> i = 1" using p [of 1] by simp
  show 8: "bit (8::u32) i \<longleftrightarrow> i = 3" using p [of 3] by simp
  show 1: "bit (1::u32) i \<longleftrightarrow> i = 0" using p [of 0] by simp
  have "(6::u32) = 4 OR 2" by simp
  then show 6: "bit (6::u32) i \<longleftrightarrow> i = 1 \<or> i = 2" by (metis 4 2 bit_or_iff)
  have "(7::u32) = 1 OR 6" by simp
  then show 7: "bit (7::u32) i \<longleftrightarrow> i = 0 \<or> i = 1 \<or> i = 2" by (metis 1 6 bit_or_iff)
  have "(5::u32) = 1 OR 4" by simp
  then show "bit (5::u32) i \<longleftrightarrow> i = 0 \<or> i = 2" by (metis 1 4 bit_or_iff)
  have "(15::u32) = 7 OR 8" by simp
  then show "bit (15::u32) i \<longleftrightarrow> i = 0 \<or> i = 1 \<or> i = 2 \<or> i = 3" by (metis 7 8 bit_or_iff)
qed

lemma bit_not_6: "bit (- 7 :: u32) i \<longleftrightarrow> i < 32 \<and> i \<noteq> 1 \<and> i \<noteq> 2"
proof -
  have "(- 7 :: u32) = NOT 6" by simp
  then show ?thesis by (simp only: bit_not_iff bit_small possible_bit_word) auto
qed

lemma bit_lw_low [simp]: "\<not> bit (lw x n) 0" "\<not> bit (lw x n) (Suc 0)" "\<not> bit (lw x n) 2"
  by (simp_all add: bit_lw(2))

lemma lw_or: "nb \<in> {0, 2, 4} \<Longrightarrow> lw x n + nb = lw x n OR nb"
  by (intro disjunctive_add)
     (auto simp: bit_small simp del: bit_numeral_word_iff)

lemma lw_next:
  assumes "nb \<in> {0, 2, 4}"
  shows "(lw x n + nb) AND NOT 6 = lw x n" "(lw x n + nb) AND (1 OR 6) = nb"
    "(lw x n + nb) AND (1 OR 4) = (if nb = 4 then 4 else 0)" "(lw x n + nb) AND 2 = (if nb = 2 then 2 else 0)"
proof -
  have l: "bit (lw x n) i \<Longrightarrow> i \<noteq> 0 \<and> i \<noteq> 1 \<and> i \<noteq> 2" for i
    using bit_lw_low [of x n] by (metis One_nat_def)
  show "(lw x n + nb) AND NOT 6 = lw x n"
    unfolding lw_or [OF assms] using assms l
    by (intro bit_word_eqI)
       (auto simp: bit_small bit_not_6 bit_and_iff bit_or_iff
         simp del: bit_numeral_word_iff bit_neg_numeral_word_iff not_numeral_eq)
  show "(lw x n + nb) AND (1 OR 6) = nb"
    unfolding lw_or [OF assms] using assms l
    by (intro bit_word_eqI) (auto simp: bit_small bit_and_iff bit_or_iff simp del: bit_numeral_word_iff bit_1_iff)
  show "(lw x n + nb) AND (1 OR 4) = (if nb = 4 then 4 else 0)"
    unfolding lw_or [OF assms] using assms l
    by (intro bit_word_eqI) (auto simp: bit_small bit_and_iff bit_or_iff simp del: bit_numeral_word_iff bit_1_iff)
  show "(lw x n + nb) AND 2 = (if nb = 2 then 2 else 0)"
    unfolding lw_or [OF assms] using assms l
    by (intro bit_word_eqI) (auto simp: bit_small bit_and_iff bit_or_iff simp del: bit_numeral_word_iff bit_1_iff)
qed


subsection \<open>What the mutex needs of its waiters' events\<close>

text \<open>
  The mutex marks a shared waiter with a user flag of its event. Triggering or dropping any
  event leaves the marks alone, so the kind of a waiter is fixed while it is queued.
\<close>

locale marked_events =
  fixes mark :: "'w \<Rightarrow> 'e \<Rightarrow> bool"
    and fire :: "'e \<Rightarrow> 'w \<Rightarrow> bool \<times> 'w"
    and discard :: "'e \<Rightarrow> 'w \<Rightarrow> 'w"
  assumes fire_mark: "mark (snd (fire e w)) x = mark w x"
    and discard_mark: "mark (discard e w) x = mark w x"
begin

lemma fire_discard_mark: "fire e w = (t, w') \<Longrightarrow> mark (discard e w') = mark w"
  using fire_mark [of e w] by (simp add: discard_mark fun_eq_iff)

end

interpretation mw: marked_events waiter_shared trigger handle_dtor
  using trigger_user static_user [OF static_handle_dtor]
  by unfold_locales (simp_all add: waiter_shared_def user_same_def)


subsection \<open>Invariant\<close>

definition valid_holders :: "nat \<Rightarrow> nat \<Rightarrow> bool" where
  "valid_holders x n \<longleftrightarrow> x \<le> 1 \<and> (x = 1 \<longrightarrow> n = 0)"

definition blocked :: "(eid \<times> nat option) list \<Rightarrow> world \<Rightarrow> u32 \<Rightarrow> bool" where
  "blocked ws w l \<longleftrightarrow> (case ws of [] \<Rightarrow> True | (e, _) # _ \<Rightarrow> \<not> allow (waiter_shared w e) l)"

text \<open>
  \<open>x\<close> exclusive and \<open>n\<close> shared locks are held: the word agrees, its next bits describe the
  first waiter, and the first waiter cannot be admitted.
\<close>

definition mutex_inv :: "nat \<Rightarrow> nat \<Rightarrow> mstate \<Rightarrow> bool" where
  "mutex_inv x n s \<longleftrightarrow> valid_holders x n \<and> n + length (m_waiters s) < 2 ^ 27 \<and>
     m_latch s = lw x n + next_bits s \<and> blocked (m_waiters s) (m_world s) (lw x n)"

lemma next_bits_range: "next_bits s \<in> {0, 2, 4}"
  by (simp add: next_bits_def split: list.split)

lemma next_bits_latch [simp]: "next_bits (s\<lparr>m_latch := l\<rparr>) = next_bits s"
  by (simp add: next_bits_def split: list.split)

lemma latch_lw: "m_latch s = lw x n + next_bits s \<Longrightarrow> latch s = lw x n"
  by (simp only: latch_def lw_next(1) [OF next_bits_range])

lemma m_latch_unlatch: "m_latch (unlatch l s) = l + next_bits s"
  by (simp add: unlatch_def next_bits_def split: list.split)

lemma unlatch_simps [simp]:
  "m_waiters (unlatch l s) = m_waiters s" "m_world (unlatch l s) = m_world s"
  "m_notes (unlatch l s) = m_notes s" "next_bits (unlatch l s) = next_bits s"
  by (simp_all add: unlatch_def next_bits_def split: list.split)

text \<open>The waiters a call of \<open>notify_loop\<close> admits, in order, with their kinds.\<close>

fun admitted :: "(eid \<times> nat option) list \<Rightarrow> u32 \<Rightarrow> world \<Rightarrow> (eid \<times> bool) list" where
  "admitted [] l w = []"
| "admitted ((e, n) # ws) l w =
     (if \<not> handle_empty w (Some e) then
        let sh = waiter_shared w e in
        if \<not> allow sh l then []
        else
          let (t, w) = trigger e w in
          if t then (e, sh) # admitted ws (l + lock_unit sh) (handle_dtor e w)
          else admitted ws l (handle_dtor e w)
      else admitted ws l (handle_dtor e w))"

definition num_excl :: "(eid \<times> bool) list \<Rightarrow> nat" where
  "num_excl gs = length (filter (\<lambda>g. \<not> snd g) gs)"

definition num_shared :: "(eid \<times> bool) list \<Rightarrow> nat" where
  "num_shared gs = length (filter snd gs)"

lemma num_simps [simp]:
  "num_excl [] = 0" "num_shared [] = 0"
  "num_excl ((e, sh) # gs) = num_excl gs + (if sh then 0 else 1)"
  "num_shared ((e, sh) # gs) = num_shared gs + (if sh then 1 else 0)"
  by (simp_all add: num_excl_def num_shared_def)

lemma admit_one:
  assumes "valid_holders x n" "n < 2 ^ 27" "allow sh (lw x n)"
  shows "lw x n + lock_unit sh = lw (x + (if sh then 0 else 1)) (n + (if sh then 1 else 0))"
    "valid_holders (x + (if sh then 0 else 1)) (n + (if sh then 1 else 0))"
  using assms allow_lw [of x n] by (auto simp: lock_unit_def lw_add valid_holders_def)

definition notified :: "nat \<Rightarrow> nat \<Rightarrow> (eid \<times> nat option) list \<Rightarrow> (eid \<times> bool) list
    \<Rightarrow> (eid \<times> nat option) list \<Rightarrow> u32 \<Rightarrow> world \<Rightarrow> bool" where
  "notified x n ws gs ws' l' w' \<longleftrightarrow>
     l' = lw (x + num_excl gs) (n + num_shared gs) \<and> valid_holders (x + num_excl gs) (n + num_shared gs) \<and>
     num_shared gs + length ws' \<le> length ws \<and> blocked ws' w' l' \<and>
     (\<exists>ps. ws = ps @ ws' \<and> subseq (map fst gs) (map fst ps))"

lemma notified_skip: "notified x n ws gs ws' l' w' \<Longrightarrow> notified x n (p # ws) gs ws' l' w'"
  unfolding notified_def by (auto intro!: exI [of _ "p # _"])

lemma notified_admit:
  "notified (x + (if sh then 0 else 1)) (n + (if sh then 1 else 0)) ws gs ws' l' w' \<Longrightarrow>
    notified x n ((e, nt) # ws) ((e, sh) # gs) ws' l' w'"
  unfolding notified_def by (auto intro!: exI [of _ "(e, nt) # _"] simp: add_ac split: if_splits)

lemma notify_loop_spec:
  assumes "notify_loop ws l w ns = (ws', l', w', ns')" "l = lw x n" "valid_holders x n" "n + length ws < 2 ^ 27"
  shows "notified x n ws (admitted ws l w) ws' l' w'"
  using assms
proof (induction ws l w ns arbitrary: x n rule: notify_loop.induct)
  case (1 l w ns)
  then show ?case by (auto simp: blocked_def notified_def)
next
  case (2 e nt ws l w ns)
  define sh where "sh = waiter_shared w e"
  obtain t w1 where tr: "trigger e w = (t, w1)" by fastforce
  consider (empty) "handle_empty w (Some e)"
    | (wait) "\<not> handle_empty w (Some e)" "\<not> allow sh l"
    | (admit) "\<not> handle_empty w (Some e)" "allow sh l" "t"
    | (drop) "\<not> handle_empty w (Some e)" "allow sh l" "\<not> t" by blast
  then show ?case
  proof cases
    case empty
    then have "notified x n ws (admitted ws l (handle_dtor e w)) ws' l' w'"
      using 2 by auto
    then show ?thesis using empty notified_skip by simp
  next
    case wait
    then show ?thesis using 2(4-7) by (auto simp: sh_def blocked_def notified_def Let_def)
  next
    case admit
    have one: "l + lock_unit sh = lw (x + (if sh then 0 else 1)) (n + (if sh then 1 else 0))"
      "valid_holders (x + (if sh then 0 else 1)) (n + (if sh then 1 else 0))"
      using admit_one [of x n sh] admit 2(5-7) by auto
    have "notified (x + (if sh then 0 else 1)) (n + (if sh then 1 else 0)) ws
        (admitted ws (l + lock_unit sh) (handle_dtor e w1)) ws' l' w'"
      by (rule 2(1)) (use admit tr one 2(4,7) in \<open>auto simp: sh_def Let_def\<close>)
    then show ?thesis using admit tr notified_admit by (simp add: sh_def Let_def)
  next
    case drop
    have "notified x n ws (admitted ws l (handle_dtor e w1)) ws' l' w'"
      by (rule 2(2)) (use drop tr 2(4-7) in \<open>auto simp: sh_def Let_def\<close>)
    then show ?thesis using drop tr notified_skip by (simp add: sh_def Let_def)
  qed
qed


subsection \<open>Operations\<close>

lemma mutex_inv_unlatch:
  assumes "notified x n ws gs (m_waiters s) l (m_world s)" "n + length ws < 2 ^ 27"
  shows "mutex_inv (x + num_excl gs) (n + num_shared gs) (unlatch l s)"
  using assms by (auto simp: notified_def mutex_inv_def m_latch_unlatch)

lemma mutex_inv_valid: "mutex_inv x n s \<Longrightarrow> valid_holders x n"
  by (simp add: mutex_inv_def)

lemma release_valid: "valid_holders (Suc x) n \<Longrightarrow> valid_holders x n" "valid_holders x (Suc n) \<Longrightarrow> valid_holders x n"
  by (auto simp: valid_holders_def)

text \<open>Releasing a lock and admitting waiters.\<close>

lemma unlock_impl_notified:
  assumes I: "mutex_inv (if sh then x else Suc x) (if sh then Suc n else n) s"
  defines "gs \<equiv> admitted (m_waiters s) (lw x n) (m_world s)"
  shows "\<exists>t l. unlock_impl sh s = unlatch l t \<and>
     notified x n (m_waiters s) gs (m_waiters t) l (m_world t) \<and> n + length (m_waiters s) < 2 ^ 27"
proof -
  have l: "latch s - lock_unit sh = lw x n"
  proof (cases sh)
    case True
    then have "latch s = lw x (Suc n)" using I latch_lw [of s x "Suc n"] by (simp add: mutex_inv_def)
    then show ?thesis using True by (simp add: lock_unit_def lw_sub)
  next
    case False
    then have "latch s = lw (Suc x) n" using I latch_lw [of s "Suc x" n] by (simp add: mutex_inv_def)
    then show ?thesis using False by (simp add: lock_unit_def lw_sub)
  qed
  have v: "valid_holders x n"
    using mutex_inv_valid [OF I] release_valid(1) [of x n] release_valid(2) [of x n]
    by (cases sh) simp_all
  have len: "n + length (m_waiters s) < 2 ^ 27" using I by (auto simp: mutex_inv_def split: if_splits)
  obtain ws' l' w' ns' where r: "notify_loop (m_waiters s) (lw x n) (m_world s) (m_notes s) = (ws', l', w', ns')"
    by (metis prod_cases4)
  define t where "t = s\<lparr>m_waiters := ws', m_world := w', m_notes := ns'\<rparr>"
  have "notified x n (m_waiters s) gs (m_waiters t) l' (m_world t)"
    using notify_loop_spec [OF r refl v len] by (simp add: gs_def t_def)
  moreover have "unlock_impl sh s = unlatch l' t" by (simp add: unlock_impl_def notify_locked_def l r t_def)
  ultimately show ?thesis using len by blast
qed

lemma unlock_impl_inv:
  assumes I: "mutex_inv (if sh then x else Suc x) (if sh then Suc n else n) s"
  defines "gs \<equiv> admitted (m_waiters s) (lw x n) (m_world s)"
  shows "mutex_inv (x + num_excl gs) (n + num_shared gs) (unlock_impl sh s)"
  using unlock_impl_notified [OF I] mutex_inv_unlatch unfolding gs_def by metis

lemma unlock_impl_fifo:
  assumes I: "mutex_inv (if sh then x else Suc x) (if sh then Suc n else n) s"
  shows "\<exists>ps. m_waiters s = ps @ m_waiters (unlock_impl sh s) \<and>
    subseq (map fst (admitted (m_waiters s) (lw x n) (m_world s))) (map fst ps)"
  using unlock_impl_notified [OF I] unfolding notified_def by auto

text \<open>A word without next bits means that nobody waits.\<close>

lemma no_waiters: "m_latch s = lw x n + next_bits s \<Longrightarrow> m_latch s AND (1 OR 6) = 0 \<longleftrightarrow> m_waiters s = []"
  using lw_next(2) [OF next_bits_range, of x n s]
  by (simp add: next_bits_def split: list.split if_splits)

lemma mutex_unlock_inv:
  assumes I: "mutex_inv (Suc x) n s"
  defines "gs \<equiv> admitted (m_waiters s) (lw x n) (m_world s)"
  shows "mutex_inv (x + num_excl gs) (n + num_shared gs) (mutex_unlock s)"
proof (cases "m_latch s AND (1 OR 6) = 0")
  case True
  have L: "m_latch s = lw (Suc x) n + next_bits s" using I by (simp add: mutex_inv_def)
  then have ws: "m_waiters s = []" using True no_waiters by blast
  then have "m_latch s - 8 = lw x n" using L by (simp add: next_bits_def lw_sub)
  then have "mutex_inv x n (s\<lparr>m_latch := m_latch s - 8\<rparr>)"
    using I ws by (auto simp: mutex_inv_def valid_holders_def next_bits_def blocked_def)
  then show ?thesis using True ws by (simp add: mutex_unlock_def gs_def)
next
  case False
  then have "mutex_unlock s = unlock_impl False s" unfolding mutex_unlock_def by argo
  then show ?thesis using unlock_impl_inv [of False x n s] I by (simp add: gs_def)
qed

lemma lw_ge: "x \<le> 1 \<Longrightarrow> n < 2 ^ 27 \<Longrightarrow> nb \<in> {0, 2, 4} \<Longrightarrow> unat (lw x n + nb) = 8 * (x + 2 * n) + unat nb"
proof -
  assume a: "x \<le> 1" "n < 2 ^ 27" "nb \<in> {0, 2, 4}"
  then have u: "unat nb \<le> 4" by auto
  have "8 * (x + 2 * n) + unat nb < 2 ^ 32" using a u by simp
  then show ?thesis using unat_add_lem [of "lw x n" nb] unat_lw [OF a(1,2)] by simp
qed

text \<open>
  The waiters an unlock admitted: none if it left the queue alone. The fast path of a shared
  unlock leaves the queue alone without looking at it.
\<close>

definition unlock_grants :: "u32 \<Rightarrow> mstate \<Rightarrow> mstate \<Rightarrow> (eid \<times> bool) list" where
  "unlock_grants l s s' =
     (if m_waiters s' = m_waiters s then [] else admitted (m_waiters s) l (m_world s))"

lemma unlock_impl_grants:
  assumes "mutex_inv (if sh then x else Suc x) (if sh then Suc n else n) s"
  shows "unlock_grants (lw x n) s (unlock_impl sh s) = admitted (m_waiters s) (lw x n) (m_world s)"
proof -
  obtain ps where "m_waiters s = ps @ m_waiters (unlock_impl sh s)"
    "subseq (map fst (admitted (m_waiters s) (lw x n) (m_world s))) (map fst ps)"
    using unlock_impl_fifo [OF assms] by blast
  then show ?thesis by (cases "admitted (m_waiters s) (lw x n) (m_world s)") (auto simp: unlock_grants_def)
qed

lemma mutex_unlock_shared_inv:
  assumes I: "mutex_inv x (Suc n) s"
  defines "gs \<equiv> unlock_grants (lw x n) s (mutex_unlock_shared s)"
  shows "mutex_inv (x + num_excl gs) (n + num_shared gs) (mutex_unlock_shared s)"
proof (cases "m_latch s AND (1 OR 4) = 0 \<and> (m_latch s AND 2 = 0 \<or> 32 \<le> m_latch s)")
  case True
  have x: "x = 0" and n: "Suc n < 2 ^ 27" and L: "m_latch s = lw x (Suc n) + next_bits s"
    using I by (auto simp: mutex_inv_def valid_holders_def)
  have nb: "next_bits s \<noteq> 4" "next_bits s = 2 \<longrightarrow> 32 \<le> m_latch s"
    using True lw_next(3,4) [OF next_bits_range, of x "Suc n" s] L by (auto split: if_splits)
  have l: "m_latch s - 16 = lw x n + next_bits s" using L lw_sub(2) [of x n] by (simp add: algebra_simps)
  have "blocked (m_waiters s) (m_world s) (lw x n)"
  proof (cases "m_waiters s")
    case (Cons p ws)
    obtain e k where p: "p = (e, k)" by fastforce
    have ns: "\<not> waiter_shared (m_world s) e" and n2: "next_bits s = 2"
      using nb(1) Cons p by (auto simp: next_bits_def split: if_splits)
    then have "32 \<le> unat (m_latch s)" using nb(2) by (simp add: word_le_nat_alt)
    then have "0 < n" using lw_ge [of x "Suc n" "next_bits s"] x n n2 L by simp
    then show ?thesis using Cons p ns x n allow_lw(2) [of x n] by (simp add: blocked_def)
  qed (simp add: blocked_def)
  then have "mutex_inv x n (s\<lparr>m_latch := m_latch s - 16\<rparr>)"
    using I l by (auto simp: mutex_inv_def valid_holders_def)
  moreover have "gs = []" using True by (simp add: gs_def unlock_grants_def mutex_unlock_shared_def Let_def)
  ultimately show ?thesis using True by (simp add: mutex_unlock_shared_def Let_def)
next
  case False
  then have "mutex_unlock_shared s = unlock_impl True s" unfolding mutex_unlock_shared_def Let_def by argo
  then show ?thesis
    using unlock_impl_inv [of True x n s] unlock_impl_grants [of True x n s] I by (simp add: gs_def)
qed


text \<open>
  The events of the waiters belong to the store, so a new event is not one of them.
\<close>

definition waiters_known :: "mstate \<Rightarrow> bool" where
  "waiters_known s \<longleftrightarrow> (\<forall>(e, n)\<in>set (m_waiters s). e < next_ev (m_world s))"

lemma notify_loop_user:
  "notify_loop ws l w ns = (ws', l', w', ns') \<Longrightarrow> user_same w w'"
proof (induction ws l w ns rule: notify_loop.induct)
  case (2 e nt ws l w ns)
  obtain t w1 where tr: "trigger e w = (t, w1)" by fastforce
  have "user_same w w1" using trigger_user [of w e] tr by simp
  then have 1: "user_same w (handle_dtor e w1)" "user_same w (handle_dtor e w)"
    using static_user [OF static_handle_dtor] user_same_trans by blast+
  from 2(4) tr show ?case
    using 2(1) [OF _ refl _ tr [symmetric] refl] 2(2) [OF _ refl _ tr [symmetric] refl] 2(3) user_same_trans [OF 1(1)] user_same_trans [OF 1(2)]
    by (auto simp: Let_def split: if_splits)
qed simp

lemma notify_loop_suffix:
  "notify_loop ws l w ns = (ws', l', w', ns') \<Longrightarrow> set ws' \<subseteq> set ws"
proof (induction ws l w ns rule: notify_loop.induct)
  case (2 e nt ws l w ns)
  obtain t w1 where tr: "trigger e w = (t, w1)" by fastforce
  from 2(4) tr show ?case
    using 2(1) [OF _ refl _ tr [symmetric] refl] 2(2) [OF _ refl _ tr [symmetric] refl] 2(3) by (auto simp: Let_def split: if_splits)
qed simp

lemma waiters_known_notify:
  assumes "waiters_known s" "notify_loop (m_waiters s) l (m_world s) (m_notes s) = (ws', l', w', ns')"
  shows "\<forall>(e, n)\<in>set ws'. e < next_ev w'"
  using assms notify_loop_user [OF assms(2)] notify_loop_suffix [OF assms(2)]
  by (auto simp: waiters_known_def user_same_def)

text \<open>Queueing a new waiter.\<close>

lemma enqueue_inv:
  fixes nt :: "nat option"
  assumes N: "notified x n vs gs (m_waiters s) l (m_world s)" and len: "n + length vs + 1 < 2 ^ 27"
    and k: "waiters_known s" and no: "\<not> (m_waiters s = [] \<and> allow sh l)"
    and new: "new_event (m_world s) = (e, w)"
  defines "s' \<equiv> s\<lparr>m_waiters := m_waiters s @ [(e, nt)],
     m_world := ref 1 e (if sh then set_user_flags e 1 w else w)\<rparr>"
  shows "mutex_inv (x + num_excl gs) (n + num_shared gs) (unlatch l s') \<and> waiters_known s'"
proof -
  have e: "e = next_ev (m_world s)" and w: "evs w = (evs (m_world s))(e := event_body_new)" "next_ev w = Suc e"
    using new by (auto simp: new_event_def alloc_def)
  have sh: "waiter_shared (m_world s') e = sh"
    by (simp add: s'_def waiter_shared_def ref_def set_user_flags_def w event_body_new_def)
  have old: "waiter_shared (m_world s') y = waiter_shared (m_world s) y" if "y \<noteq> e" for y
    using that by (simp add: s'_def waiter_shared_def ref_def set_user_flags_def w)
  have "blocked (m_waiters s') (m_world s') l"
  proof (cases "m_waiters s")
    case Nil
    then show ?thesis using no sh by (simp add: blocked_def s'_def)
  next
    case (Cons p ws)
    obtain y k where p: "p = (y, k)" by fastforce
    have "y \<noteq> e" using k Cons p e by (auto simp: waiters_known_def)
    moreover have "blocked (m_waiters s) (m_world s) l" using N unfolding notified_def by blast
    ultimately show ?thesis using Cons p old by (simp add: blocked_def s'_def)
  qed
  moreover have "num_shared gs + length (m_waiters s) \<le> length vs" using N by (simp add: notified_def)
  ultimately have "mutex_inv (x + num_excl gs) (n + num_shared gs) (unlatch l s')"
    using N len by (simp add: mutex_inv_def m_latch_unlatch notified_def s'_def)
  moreover have "waiters_known s'"
    using k by (auto simp: waiters_known_def s'_def ref_def set_user_flags_def w e)
  ultimately show ?thesis by simp
qed

lemma lock_impl_inv:
  assumes I: "mutex_inv x n s" and k: "waiters_known s" and room: "n + length (m_waiters s) + 1 < 2 ^ 27"
    and res: "lock_impl sh None nt s = (h, s')"
  defines "gs \<equiv> admitted (m_waiters s) (lw x n) (m_world s)"
  shows "waiters_known s' \<and>
    (if h = None then mutex_inv (x + num_excl gs + (if sh then 0 else 1)) (n + num_shared gs + (if sh then 1 else 0)) s'
     else mutex_inv (x + num_excl gs) (n + num_shared gs) s')"
proof -
  have l: "latch s = lw x n" using I latch_lw by (simp add: mutex_inv_def)
  have v: "valid_holders x n" and len: "n + length (m_waiters s) < 2 ^ 27" using I by (auto simp: mutex_inv_def)
  obtain ws' l' w' ns' where r: "notify_loop (m_waiters s) (lw x n) (m_world s) (m_notes s) = (ws', l', w', ns')"
    by (metis prod_cases4)
  define t where "t = s\<lparr>m_waiters := ws', m_world := w', m_notes := ns'\<rparr>"
  have N: "notified x n (m_waiters s) gs (m_waiters t) l' (m_world t)"
    using notify_loop_spec [OF r refl v len] by (simp add: gs_def t_def)
  have kt: "waiters_known t" using waiters_known_notify [OF k r] by (simp add: waiters_known_def t_def)
  have nl: "notify_locked (latch s) s = (l', t)" by (simp add: notify_locked_def l r t_def)
  show ?thesis
  proof (cases "m_waiters t = [] \<and> allow sh l'")
    case True
    then have h: "h = None" "s' = unlatch (l' + lock_unit sh) (t\<lparr>m_notes := set_note nt (m_notes t)\<rparr>)"
      using res nl by (auto simp: lock_impl_def event_trigger_def)
    have n': "n + num_shared gs < 2 ^ 27" using N len by (auto simp: notified_def)
    have l': "l' = lw (x + num_excl gs) (n + num_shared gs)" "valid_holders (x + num_excl gs) (n + num_shared gs)"
      using N by (auto simp: notified_def)
    note one = admit_one [OF l'(2) n', of sh]
    have "mutex_inv (x + num_excl gs + (if sh then 0 else 1)) (n + num_shared gs + (if sh then 1 else 0)) s'"
      using True N room one l' unfolding h mutex_inv_def m_latch_unlatch
      by (auto simp: notified_def next_bits_def blocked_def)
    moreover have "waiters_known s'" using True by (simp add: waiters_known_def h)
    ultimately show ?thesis using h by simp
  next
    case False
    obtain e w where ne: "new_event (m_world t) = (e, w)" by fastforce
    have s': "h = Some e" "s' = unlatch l' (t\<lparr>m_waiters := m_waiters t @ [(e, nt)],
       m_world := ref 1 e (if sh then set_user_flags e 1 w else w)\<rparr>)"
      using res nl ne False by (auto simp: lock_impl_def Let_def split: if_splits)
    from enqueue_inv [OF N room kt False ne, of nt] show ?thesis
      unfolding s' by (simp add: waiters_known_def)
  qed
qed



lemma word_and_or_eq_0: "(a :: u32) AND (b OR c) = 0 \<longleftrightarrow> a AND b = 0 \<and> a AND c = 0"
  by (simp add: bit_eq_iff bit_and_iff bit_or_iff) blast

lemma try_lock_iff:
  assumes I: "mutex_inv x n s"
  shows "fst (mutex_try_lock s) \<longleftrightarrow> x = 0 \<and> n = 0 \<and> m_waiters s = []"
    "fst (mutex_try_lock_shared s) \<longleftrightarrow> x = 0 \<and> m_waiters s = []"
proof -
  have L: "m_latch s = lw x n + next_bits s" and x: "x \<le> 1" and n: "n < 2 ^ 27"
    using I by (auto simp: mutex_inv_def valid_holders_def)
  have u: "unat (m_latch s) = 8 * (x + 2 * n) + unat (next_bits s)"
    unfolding L by (rule lw_ge [OF x n next_bits_range])
  have nb: "next_bits s = 0 \<longleftrightarrow> m_waiters s = []" by (simp add: next_bits_def split: list.split)
  have "m_latch s = 0 \<longleftrightarrow> unat (m_latch s) = 0" by (simp add: unat_eq_0)
  then show "fst (mutex_try_lock s) \<longleftrightarrow> x = 0 \<and> n = 0 \<and> m_waiters s = []"
    using nb by (auto simp: mutex_try_lock_def u unat_eq_0)
  have "m_latch s AND (1 OR 6 OR 8) = 0 \<longleftrightarrow> m_latch s AND (1 OR 6) = 0 \<and> m_latch s AND 8 = 0"
    by (simp only: or.assoc [symmetric] word_and_or_eq_0)
  also have "\<dots> \<longleftrightarrow> m_waiters s = [] \<and> lw x n AND 8 = 0"
    using no_waiters [OF L] L by (auto simp: next_bits_def)
  also have "lw x n AND 8 = 0 \<longleftrightarrow> x = 0" using allow_lw(1) [OF x n] by (simp add: allow_def)
  finally have "m_latch s AND (1 OR 6 OR 8) = 0 \<longleftrightarrow> m_waiters s = [] \<and> x = 0" .
  moreover have "fst (mutex_try_lock_shared s) \<longleftrightarrow> m_latch s AND (1 OR 6 OR 8) = 0"
    unfolding mutex_try_lock_shared_def by (cases "m_latch s AND (1 OR 6 OR 8) = 0") (simp_all only: if_True if_False simp_thms fst_conv)
  ultimately show "fst (mutex_try_lock_shared s) \<longleftrightarrow> x = 0 \<and> m_waiters s = []" by blast
qed

lemma try_lock_inv:
  assumes I: "mutex_inv x n s" and r: "mutex_try_lock s = (b, s')"
  shows "mutex_inv (if b then x + 1 else x) n s'"
proof (cases b)
  case True
  then have e: "x = 0" "n = 0" "m_waiters s = []" using try_lock_iff(1) [OF I] r by auto
  have "s' = s\<lparr>m_latch := 8\<rparr>" using r True by (auto simp: mutex_try_lock_def split: if_splits)
  then show ?thesis using e True lw_add(1) [of 0 0]
    by (simp add: mutex_inv_def valid_holders_def next_bits_def blocked_def) (simp add: lw_def)
next
  case False
  then show ?thesis using I r by (auto simp: mutex_try_lock_def split: if_splits)
qed

lemma try_lock_shared_inv:
  assumes I: "mutex_inv x n s" and r: "mutex_try_lock_shared s = (b, s')" and room: "n + 1 < 2 ^ 27"
  shows "mutex_inv x (if b then n + 1 else n) s'"
proof (cases b)
  case True
  then have e: "x = 0" "m_waiters s = []" using try_lock_iff(2) [OF I] r by auto
  have "s' = s\<lparr>m_latch := m_latch s + 16\<rparr>" "m_latch s = lw x n"
    using r True I e by (auto simp: mutex_try_lock_shared_def mutex_inv_def next_bits_def split: if_splits)
  then show ?thesis using e True lw_add(2) [of 0 n] room
    by (simp add: mutex_inv_def valid_holders_def next_bits_def blocked_def)
next
  case False
  then show ?thesis using I r by (auto simp: mutex_try_lock_shared_def split: if_splits)
qed

lemma waiters_known_latch [simp]: "waiters_known (s\<lparr>m_latch := l\<rparr>) = waiters_known s"
  "waiters_known (unlatch l s) = waiters_known s"
  by (simp_all add: waiters_known_def)

lemma unlock_impl_known: "waiters_known s \<Longrightarrow> waiters_known (unlock_impl sh s)"
proof -
  assume k: "waiters_known s"
  obtain ws' l' w' ns' where r: "notify_loop (m_waiters s) (latch s - lock_unit sh) (m_world s) (m_notes s) = (ws', l', w', ns')"
    by (metis prod_cases4)
  show ?thesis using waiters_known_notify [OF k r]
    by (simp add: unlock_impl_def notify_locked_def r waiters_known_def)
qed

lemma unlock_known:
  "waiters_known s \<Longrightarrow> waiters_known (mutex_unlock s)"
  "waiters_known s \<Longrightarrow> waiters_known (mutex_unlock_shared s)"
  by (simp_all add: mutex_unlock_def mutex_unlock_shared_def unlock_impl_known Let_def)

lemma try_known:
  "waiters_known s \<Longrightarrow> waiters_known (snd (mutex_try_lock s))"
  "waiters_known s \<Longrightarrow> waiters_known (snd (mutex_try_lock_shared s))"
  by (simp_all add: mutex_try_lock_def mutex_try_lock_shared_def)

text \<open>
  Runs of the mutex: \<open>x\<close> counts the exclusive and \<open>n\<close> the shared locks granted and not yet
  released, where a lock is granted by the call itself or when the mutex triggers the event
  of a waiter. Between its operations the rest of the program may change the event store in
  any way that leaves the marks of the queued events, and the notes in any way at all.
\<close>

inductive mrun :: "nat \<Rightarrow> nat \<Rightarrow> mstate \<Rightarrow> bool" where
  mrun_init: "mrun 0 0 (mutex_init w)"
| mrun_env: "mrun x n s \<Longrightarrow>
    \<forall>(e, k)\<in>set (m_waiters s). e < next_ev w \<and> waiter_shared w e = waiter_shared (m_world s) e \<Longrightarrow>
    mrun x n (s\<lparr>m_world := w, m_notes := ns\<rparr>)"
| mrun_lock: "mrun x n s \<Longrightarrow> n + length (m_waiters s) + 1 < 2 ^ 27 \<Longrightarrow>
    lock_impl sh None nt s = (h, s') \<Longrightarrow> gs = admitted (m_waiters s) (latch s) (m_world s) \<Longrightarrow>
    x' = x + num_excl gs + (if h = None \<and> \<not> sh then 1 else 0) \<Longrightarrow>
    n' = n + num_shared gs + (if h = None \<and> sh then 1 else 0) \<Longrightarrow> mrun x' n' s'"
| mrun_try_lock: "mrun x n s \<Longrightarrow> mutex_try_lock s = (b, s') \<Longrightarrow> mrun (if b then x + 1 else x) n s'"
| mrun_try_lock_shared: "mrun x n s \<Longrightarrow> n + 1 < 2 ^ 27 \<Longrightarrow> mutex_try_lock_shared s = (b, s') \<Longrightarrow>
    mrun x (if b then n + 1 else n) s'"
| mrun_unlock: "mrun (Suc x) n s \<Longrightarrow> mutex_unlock s = s' \<Longrightarrow>
    gs = unlock_grants (latch s - 8) s s' \<Longrightarrow> mrun (x + num_excl gs) (n + num_shared gs) s'"
| mrun_unlock_shared: "mrun x (Suc n) s \<Longrightarrow> mutex_unlock_shared s = s' \<Longrightarrow>
    gs = unlock_grants (latch s - 16) s s' \<Longrightarrow> mrun (x + num_excl gs) (n + num_shared gs) s'"

lemma mutex_unlock_inv_grants:
  assumes I: "mutex_inv (Suc x) n s"
  defines "gs \<equiv> unlock_grants (lw x n) s (mutex_unlock s)"
  shows "mutex_inv (x + num_excl gs) (n + num_shared gs) (mutex_unlock s)"
proof (cases "m_latch s AND (1 OR 6) = 0")
  case True
  then have "m_waiters s = []" using I no_waiters by (auto simp: mutex_inv_def)
  then have "gs = admitted (m_waiters s) (lw x n) (m_world s)" by (simp add: gs_def unlock_grants_def)
  then show ?thesis using mutex_unlock_inv [OF I] by simp
next
  case False
  then have "mutex_unlock s = unlock_impl False s" unfolding mutex_unlock_def by argo
  then show ?thesis
    using unlock_impl_inv [of False x n s] unlock_impl_grants [of False x n s] I by (simp add: gs_def)
qed

lemma mrun_inv: "mrun x n s \<Longrightarrow> mutex_inv x n s \<and> waiters_known s"
proof (induction rule: mrun.induct)
  case (mrun_init w)
  then show ?case
    by (simp add: mutex_inv_def valid_holders_def mutex_init_def next_bits_def blocked_def waiters_known_def lw_def)
next
  case (mrun_env x n s w ns)
  then show ?case
    by (cases "m_waiters s")
       (auto simp: mutex_inv_def blocked_def next_bits_def waiters_known_def)
next
  case (mrun_lock x n s sh nt h s' gs x' n')
  then have I: "mutex_inv x n s" "waiters_known s" and l: "latch s = lw x n"
    using latch_lw by (auto simp: mutex_inv_def)
  show ?case using lock_impl_inv [OF I mrun_lock(2,3)] mrun_lock(4-6) l by (auto split: if_splits)
next
  case (mrun_try_lock x n s b s')
  then show ?case using try_lock_inv [of x n s b s'] try_known(1) [of s] by simp
next
  case (mrun_try_lock_shared x n s b s')
  then show ?case using try_lock_shared_inv [of x n s b s'] try_known(2) [of s] by simp
next
  case (mrun_unlock x n s s' gs)
  then have I: "mutex_inv (Suc x) n s" and "latch s = lw (Suc x) n"
    using latch_lw by (auto simp: mutex_inv_def)
  then have "latch s - 8 = lw x n" by (simp add: lw_sub)
  then show ?case
    using mutex_unlock_inv_grants [OF I] unlock_known(1) [of s] mrun_unlock by simp
next
  case (mrun_unlock_shared x n s s' gs)
  then have I: "mutex_inv x (Suc n) s" and "latch s = lw x (Suc n)"
    using latch_lw by (auto simp: mutex_inv_def)
  then have "latch s - 16 = lw x n" by (simp add: lw_sub)
  then show ?case
    using mutex_unlock_shared_inv [OF I] unlock_known(2) [of s] mrun_unlock_shared by simp
qed


subsection \<open>Properties\<close>

text \<open>C1: Mutual exclusion. In every run of the mutex at most one exclusive lock is held, none while
  shared locks are held, and the latch word tells the truth: \<open>try_lock\<close> succeeds exactly when
  nothing is held and nobody waits, \<open>try_lock_shared\<close> exactly when no exclusive lock is held
  and nobody waits.\<close>

theorem mutex_exclusion:
  assumes "mrun x n s"
  shows "x \<le> 1 \<and> (x = 1 \<longrightarrow> n = 0) \<and>
    (fst (mutex_try_lock s) \<longleftrightarrow> x = 0 \<and> n = 0 \<and> m_waiters s = []) \<and>
    (fst (mutex_try_lock_shared s) \<longleftrightarrow> x = 0 \<and> m_waiters s = [])"
proof -
  have I: "mutex_inv x n s" using mrun_inv [OF assms] by simp
  then have "valid_holders x n" by (simp add: mutex_inv_def)
  then show ?thesis using try_lock_iff [OF I] by (simp add: valid_holders_def)
qed

text \<open>C15: No lock is left idle. When no lock is held the queue is empty; when only shared locks are
  held, the first waiter wants the exclusive lock.\<close>

theorem mutex_no_idle:
  assumes "mrun x n s"
  shows "(x = 0 \<longrightarrow> n = 0 \<longrightarrow> m_waiters s = []) \<and>
    (x = 0 \<longrightarrow> m_waiters s \<noteq> [] \<longrightarrow> \<not> waiter_shared (m_world s) (fst (hd (m_waiters s))))"
proof -
  have "blocked (m_waiters s) (m_world s) (lw x n)" "x \<le> 1" "n < 2 ^ 27"
    using mrun_inv [OF assms] by (auto simp: mutex_inv_def valid_holders_def)
  then show ?thesis using allow_lw [of x n]
    by (cases "m_waiters s"; cases "waiter_shared (m_world s) (fst (hd (m_waiters s)))") (auto simp: blocked_def)
qed




text \<open>
  A sample run: an exclusive lock, then a shared and an exclusive request that wait, then the
  first holder unlocks.
\<close>

definition demo_mutex :: "nat \<Rightarrow> mstate" where
  "demo_mutex k = ((\<lambda>s. mutex_unlock s) ^^ k)
     (snd (mutex_lock (snd (mutex_lock_shared (snd (mutex_lock (mutex_init (world_init (\<lambda>_. 0) 1))))))))"

lemma demo_mutex_run: "mrun 1 0 (demo_mutex 0)"
proof -
  define w where "w = world_init (\<lambda>_. 0) 1"
  define a where "a = snd (mutex_lock (mutex_init w))"
  define b where "b = snd (mutex_lock_shared a)"
  have 1: "mrun 1 0 a"
    by (rule mrun_lock [OF mrun_init [of w], where sh = False and nt = None and h = None and gs = "[]"])
       (simp_all add: a_def mutex_lock_def mutex_init_def lock_impl_def notify_locked_def event_trigger_def
          allow_def latch_def)
  have "fst (mutex_lock_shared a) = Some 0" unfolding a_def w_def by code_simp
  then have a': "lock_impl True None None a = (Some 0, b)"
    unfolding b_def mutex_lock_shared_def by (metis prod.collapse)
  have aw: "m_waiters a = []" unfolding a_def w_def by code_simp
  have 2: "mrun 1 0 b"
    by (rule mrun_lock [OF 1 _ a', where gs = "[]"]) (simp_all add: aw)
  have "fst (mutex_lock b) = Some 1" unfolding b_def a_def w_def by code_simp
  moreover have "demo_mutex 0 = snd (mutex_lock b)" by (simp add: demo_mutex_def b_def a_def w_def)
  ultimately have b1: "lock_impl False None None b = (Some 1, demo_mutex 0)"
    unfolding mutex_lock_def by (metis prod.collapse)
  have b': "m_waiters b = [(0, None)]" "admitted (m_waiters b) (latch b) (m_world b) = []"
    unfolding a_def b_def w_def by code_simp+
  show ?thesis by (rule mrun_lock [OF 2 _ b1, where gs = "[]"]) (simp add: b'(1), simp only: b'(2), simp_all)
qed

lemma demo_mutex_unlocked: "mrun 0 1 (demo_mutex 1)"
proof -
  have "mrun (0 + num_excl [(0, True)]) (0 + num_shared [(0, True)]) (demo_mutex 1)"
    by (rule mrun_unlock [where s = "demo_mutex 0"])
       (use demo_mutex_run in simp, simp add: demo_mutex_def, code_simp)
  then show ?thesis by simp
qed

theorem mutex_exclusion_witness:
  "(1::nat) \<le> 1 \<and> fst (mutex_try_lock (demo_mutex 0)) = False \<and> mrun 1 0 (demo_mutex 0)"
  using mutex_exclusion [OF demo_mutex_run] demo_mutex_run by simp

theorem mutex_no_idle_witness:
  "m_waiters (demo_mutex 1) \<noteq> [] \<and>
   \<not> waiter_shared (m_world (demo_mutex 1)) (fst (hd (m_waiters (demo_mutex 1))))"
proof -
  have "m_waiters (demo_mutex 1) \<noteq> []" by code_simp
  then show ?thesis using mutex_no_idle [OF demo_mutex_unlocked] by simp
qed



text \<open>
  A guard that is moved while its lock is pending. The mutex keeps the address of \<^verbatim>\<open>owned_\<close> in
  the old guard, so the lock is granted to the moved-from guard, which has no mutex any more,
  and the guard that took its place never owns it.
\<close>

definition demo_moved :: "(guard \<times> guard) \<times> mstate" where
  "demo_moved =
     (let s = snd (mutex_lock_notify 1 (mutex_init (world_init (\<lambda>_. 0) 1)));
          (h, s) = unique_defer 2 s;
          s = snd (mutex_lock_notify (g_owned h) s);
          ((g, h), s) = unique_move 3 h s
      in ((g, h), mutex_unlock s))"

theorem moved_guard_owned:
  "let ((g, h), s) = demo_moved in
     g_attached g \<and> \<not> owned g s \<and> \<not> g_attached h \<and> owned h s \<and> \<not> fst (mutex_try_lock s)"
  by code_simp

end
