(* ===== verification/FdSet.thy ===== *)
theory FdSet
  imports Events
begin

text \<open>
  File descriptors: the reference-counted \<^verbatim>\<open>fd_body\<close> and the \<^verbatim>\<open>fd_event_set\<close> of a driver
  (\<^verbatim>\<open>cotamer_impl.hh\<close>, \<^verbatim>\<open>event_handle.hh\<close>, \<^verbatim>\<open>io.cc\<close>).

  The event set keeps, per descriptor, a singly linked list of watch records threaded through
  one vector by \<open>index + 1\<close> links, a free list through the same vector, and a list of
  descriptors whose interest may differ from the kernel's. The model keeps the links, the
  tail pointers and the pointer-to-link loops of the source. Links between watch records stay
  below \<open>2 ^ 32\<close> and are natural numbers; epochs and links of the update list are words.
\<close>

unbundle bit_operations_syntax

subsection \<open>fd bodies\<close>

record fd_body =
  fb_fd :: int
  fb_base_fd :: int
  fb_ref :: nat
  fb_drivers :: "did list"
  fb_deleted :: bool

definition fd_body_new :: "int \<Rightarrow> fd_body" where
  "fd_body_new raw = \<lparr>fb_fd = raw, fb_base_fd = raw, fb_ref = 1, fb_drivers = [], fb_deleted = False\<rparr>"

text \<open>The world a descriptor operation changes: events, bodies, and the \<^verbatim>\<open>::close\<close> calls made so far.\<close>

record iost =
  io_world :: world
  io_bodies :: "nat \<Rightarrow> fd_body"
  io_closed :: "int list"

definition upd_body :: "nat \<Rightarrow> (fd_body \<Rightarrow> fd_body) \<Rightarrow> iost \<Rightarrow> iost" where
  "upd_body b f io = io\<lparr>io_bodies := (io_bodies io)(b := f (io_bodies io b))\<rparr>"

definition os_close :: "int \<Rightarrow> iost \<Rightarrow> iost" where
  "os_close fd io = io\<lparr>io_closed := io_closed io @ [fd]\<rparr>"

text \<open>\<^verbatim>\<open>delete this\<close>, with the destructor's \<^verbatim>\<open>::close\<close>.\<close>

definition fd_body_delete :: "nat \<Rightarrow> iost \<Rightarrow> iost" where
  "fd_body_delete b io =
     (let io = (if 0 \<le> fb_base_fd (io_bodies io b) then os_close (fb_base_fd (io_bodies io b)) io else io)
      in upd_body b (\<lambda>x. x\<lparr>fb_deleted := True\<rparr>) io)"

definition fd_body_ref :: "nat \<Rightarrow> iost \<Rightarrow> iost" where
  "fd_body_ref b = upd_body b (\<lambda>x. x\<lparr>fb_ref := fb_ref x + 1\<rparr>)"

definition fd_add_listener :: "nat \<Rightarrow> did \<Rightarrow> iost \<Rightarrow> iost" where
  "fd_add_listener b d = upd_body b (\<lambda>x. x\<lparr>fb_drivers := fb_drivers x @ [d]\<rparr>)"

definition fd_remove_listener :: "nat \<Rightarrow> did \<Rightarrow> iost \<Rightarrow> iost" where
  "fd_remove_listener b d io =
     (let io = upd_body b (\<lambda>x. x\<lparr>fb_drivers := remove_swap d (fb_drivers x)\<rparr>) io in
      if fb_drivers (io_bodies io b) \<noteq> [] then io
      else
        let deletable = (fb_ref (io_bodies io b) = 0);
            closable = (if fb_fd (io_bodies io b) < 0 then fb_base_fd (io_bodies io b) else - 1);
            io = (if 0 \<le> closable then upd_body b (\<lambda>x. x\<lparr>fb_base_fd := - 1\<rparr>) io else io);
            io = (if 0 \<le> closable then os_close closable io else io)
        in if deletable then fd_body_delete b io else io)"

text \<open>
  \<^verbatim>\<open>fd_body::close\<close> up to the notification of the drivers: the result is the drivers to notify,
  the descriptor they are told about, and whether the body is deleted at the end.
\<close>

definition fd_body_close_begin :: "nat \<Rightarrow> bool \<Rightarrow> iost \<Rightarrow> (did list \<times> int \<times> bool) \<times> iost" where
  "fd_body_close_begin b because_deref io =
     (let x = io_bodies io b;
          first = (0 \<le> fb_fd x);
          drivers = (if first then fb_drivers x else []);
          base_fd = (if first then fb_base_fd x else - 1);
          x' = (if first then x\<lparr>fb_fd := - 1, fb_base_fd := (if 0 \<le> base_fd \<and> drivers = [] then - 1 else fb_base_fd x)\<rparr>
                else x);
          deletable = (because_deref \<and> fb_drivers x' = []);
          x'' = (if because_deref then x'\<lparr>fb_ref := fb_ref x' - 1\<rparr> else x');
          io = upd_body b (\<lambda>_. x'') io
      in if 0 \<le> base_fd \<and> drivers = [] then (([], base_fd, deletable), os_close base_fd io)
         else ((if base_fd < 0 then [] else drivers, base_fd, deletable), io))"

subsection \<open>The event set\<close>

type_synonym fdmask = u32    \<comment> \<open>\<^verbatim>\<open>fdevent\<close>: read is 1, write 2, close 4\<close>

record fdrec =
  fr_body :: "nat option"
  fr_epoch :: u32
  fr_whead :: nat
  fr_wtail :: nat
  fr_update :: u32

record watchrec =
  wr_ev :: "eid option"
  wr_mask :: fdmask
  wr_wlink :: nat

record fdset =
  fdrs :: "fdrec list"
  update_head :: u32
  ws :: "watchrec list"
  free_wlink :: nat

record fd_update =
  fu_fd :: int
  fu_mask :: fdmask
  fu_epoch :: u32

definition link_clean :: "'a :: zero" where "link_clean = 0"
definition link_sentinel :: u32 where "link_sentinel = - 1"
definition user_epoch :: u32 where "user_epoch = 2"
definition internal_epoch :: u32 where "internal_epoch = 1"
definition first_capacity :: nat where "first_capacity = 128"
definition block_capacity :: nat where "block_capacity = 1024"

definition fdrec_new :: fdrec where
  "fdrec_new = \<lparr>fr_body = None, fr_epoch = 0, fr_whead = link_clean, fr_wtail = link_clean,
     fr_update = link_clean\<rparr>"

definition fdset_new :: fdset where
  "fdset_new = \<lparr>fdrs = [], update_head = link_sentinel, ws = [], free_wlink = 0\<rparr>"

text \<open>The conversion of an \<^verbatim>\<open>int\<close> descriptor to \<^verbatim>\<open>unsigned\<close>.\<close>

definition ufd_of :: "int \<Rightarrow> nat" where
  "ufd_of fd = nat (fd mod 2 ^ 32)"

definition upd_fdrec :: "nat \<Rightarrow> (fdrec \<Rightarrow> fdrec) \<Rightarrow> fdset \<Rightarrow> fdset" where
  "upd_fdrec i f fs = fs\<lparr>fdrs := (fdrs fs)[i := f (fdrs fs ! i)]\<rparr>"

definition upd_watch :: "nat \<Rightarrow> (watchrec \<Rightarrow> watchrec) \<Rightarrow> fdset \<Rightarrow> fdset" where
  "upd_watch wix f fs = fs\<lparr>ws := (ws fs)[wix - 1 := f (ws fs ! (wix - 1))]\<rparr>"

text \<open>Putting a descriptor on the update list, unless it is there.\<close>

definition queue_update :: "nat \<Rightarrow> fdset \<Rightarrow> fdset" where
  "queue_update ufd fs =
     (if fr_update (fdrs fs ! ufd) = link_clean then
        (upd_fdrec ufd (\<lambda>r. r\<lparr>fr_update := update_head fs\<rparr>) fs)\<lparr>update_head := of_nat ufd + 1\<rparr>
      else fs)"

function grow_capacity :: "nat \<Rightarrow> nat \<Rightarrow> nat" where
  "grow_capacity ufd n = (if 0 < n \<and> n \<le> ufd then grow_capacity ufd (n * 2) else n)"
  by pat_completeness auto
termination by (relation "measure (\<lambda>(ufd, n). ufd + 1 - n)") auto

declare grow_capacity.simps [simp del]

definition new_capacity :: "nat \<Rightarrow> nat \<Rightarrow> nat" where
  "new_capacity ufd cap =
     (if block_capacity \<le> ufd then (ufd div block_capacity + 1) * block_capacity
      else grow_capacity ufd (max first_capacity (cap * 2)))"

definition hard_ensure :: "nat \<Rightarrow> fdset \<Rightarrow> fdset" where
  "hard_ensure ufd fs =
     fs\<lparr>fdrs := fdrs fs @ replicate (new_capacity ufd (length (fdrs fs)) - length (fdrs fs)) fdrec_new\<rparr>"

text \<open>The detaching loop of \<^verbatim>\<open>take_watch_list\<close> with its two pointers to link cells.\<close>

datatype link_cell = HeadCell | NodeCell nat

record take_state =
  tk_ws :: "watchrec list"
  tk_whead :: nat
  tk_fhead :: nat
  tk_wtail :: nat
  tk_wp :: link_cell
  tk_fp :: link_cell

definition store_wp :: "nat \<Rightarrow> take_state \<Rightarrow> take_state" where
  "store_wp v t = (case tk_wp t of
      HeadCell \<Rightarrow> t\<lparr>tk_whead := v\<rparr>
    | NodeCell i \<Rightarrow> t\<lparr>tk_ws := (tk_ws t)[i - 1 := (tk_ws t ! (i - 1))\<lparr>wr_wlink := v\<rparr>]\<rparr>)"

definition store_fp :: "nat \<Rightarrow> take_state \<Rightarrow> take_state" where
  "store_fp v t = (case tk_fp t of
      HeadCell \<Rightarrow> t\<lparr>tk_fhead := v\<rparr>
    | NodeCell i \<Rightarrow> t\<lparr>tk_ws := (tk_ws t)[i - 1 := (tk_ws t ! (i - 1))\<lparr>wr_wlink := v\<rparr>]\<rparr>)"

text \<open>A watch is taken if its fmask meets \<open>imask\<close> or nobody can see its event any more.\<close>

definition taken :: "world \<Rightarrow> fdmask \<Rightarrow> watchrec \<Rightarrow> bool" where
  "taken w imask r \<longleftrightarrow> imask AND wr_mask r \<noteq> 0 \<or> handle_empty w (wr_ev r)"

text \<open>The walk visits every record at most once, so the length of the vector bounds it.\<close>

primrec take_loop :: "nat \<Rightarrow> world \<Rightarrow> fdmask \<Rightarrow> nat \<Rightarrow> take_state \<Rightarrow> take_state" where
  "take_loop 0 w imask wix t = t"
| "take_loop (Suc k) w imask wix t =
     (if wix = 0 then t
      else
        let r = tk_ws t ! (wix - 1); next = wr_wlink r in
        if taken w imask r then take_loop k w imask next ((store_wp wix t)\<lparr>tk_wp := NodeCell wix\<rparr>)
        else take_loop k w imask next ((store_fp wix t)\<lparr>tk_wtail := wix, tk_fp := NodeCell wix\<rparr>))"

definition take_watch_list :: "int \<Rightarrow> fdmask \<Rightarrow> u32 \<Rightarrow> world \<Rightarrow> fdset \<Rightarrow> nat \<times> fdset" where
  "take_watch_list fd imask epoch w fs =
     (let ufd = ufd_of fd in
      if length (fdrs fs) \<le> ufd then (0, fs)
      else
        let fdi = fdrs fs ! ufd in
        if fr_whead fdi = 0 \<or> (epoch \<noteq> 0 \<and> epoch \<noteq> fr_epoch fdi) then (0, fs)
        else
          let t = take_loop (length (ws fs)) w imask (fr_whead fdi)
                    \<lparr>tk_ws = ws fs, tk_whead = 0, tk_fhead = fr_whead fdi, tk_wtail = 0,
                     tk_wp = HeadCell, tk_fp = HeadCell\<rparr>;
              t = store_fp 0 (store_wp 0 t);
              fs = upd_fdrec ufd (\<lambda>r. r\<lparr>fr_whead := tk_fhead t, fr_wtail := tk_wtail t\<rparr>)
                     (fs\<lparr>ws := tk_ws t\<rparr>);
              fs = (if tk_whead t \<noteq> 0 then queue_update ufd fs else fs)
          in (tk_whead t, fs))"

text \<open>
  \<^verbatim>\<open>pop_watch_list_event\<close>: the rest of the list, the event, and the state; the reference the
  record held is the caller's. The user flags of the event tell which condition fired.
\<close>

definition pop_watch_list_event :: "nat \<Rightarrow> fdmask \<Rightarrow> world \<Rightarrow> fdset
    \<Rightarrow> (nat \<times> eid option) \<times> world \<times> fdset" where
  "pop_watch_list_event wix fmask w fs =
     (let r = ws fs ! (wix - 1);
          fs' = (upd_watch wix (\<lambda>r. r\<lparr>wr_wlink := free_wlink fs, wr_ev := None\<rparr>) fs)\<lparr>free_wlink := wix\<rparr>;
          w = (case wr_ev r of
                 Some e \<Rightarrow> if fmask \<noteq> 0 then set_user_flags e (unat fmask) w else w
               | None \<Rightarrow> w)
      in ((wr_wlink r, wr_ev r), w, fs'))"

definition has_update :: "fdset \<Rightarrow> bool" where
  "has_update fs \<longleftrightarrow> update_head fs \<noteq> link_sentinel"

primrec watch_list_mask_n :: "nat \<Rightarrow> world \<Rightarrow> watchrec list \<Rightarrow> nat \<Rightarrow> fdmask" where
  "watch_list_mask_n 0 w rs wix = 0"
| "watch_list_mask_n (Suc k) w rs wix =
     (if wix = 0 then 0
      else
        let r = rs ! (wix - 1) in
        (if handle_empty w (wr_ev r) then 0 else wr_mask r) OR watch_list_mask_n k w rs (wr_wlink r))"

definition watch_list_mask :: "world \<Rightarrow> fdset \<Rightarrow> nat \<Rightarrow> fdmask" where
  "watch_list_mask w fs wix = watch_list_mask_n (length (ws fs)) w (ws fs) wix"

definition pop_update :: "world \<Rightarrow> fdset \<Rightarrow> fd_update option \<times> fdset" where
  "pop_update w fs =
     (if update_head fs = link_sentinel then (None, fs)
      else
        let ufd = unat (update_head fs - 1);
            fdi = fdrs fs ! ufd;
            fs = (upd_fdrec ufd (\<lambda>r. r\<lparr>fr_update := link_clean\<rparr>) fs)\<lparr>update_head := fr_update fdi\<rparr>;
            fmask = watch_list_mask w fs (fr_whead fdi);
            epoch = fr_epoch fdi;
            (epoch, fs) =
              (if fmask = 0 then (epoch, upd_fdrec ufd (\<lambda>r. r\<lparr>fr_epoch := fr_epoch r + 1\<rparr>) fs)
               else if epoch < user_epoch then (user_epoch, upd_fdrec ufd (\<lambda>r. r\<lparr>fr_epoch := user_epoch\<rparr>) fs)
               else (epoch, fs))
        in (Some \<lparr>fu_fd = int ufd, fu_mask = fmask, fu_epoch = epoch\<rparr>, fs))"

text \<open>The scan of \<^verbatim>\<open>next_known\<close> from \<open>ufd\<close> on; \<open>k\<close> records are left.\<close>

primrec next_known_from :: "nat \<Rightarrow> world \<Rightarrow> fdset \<Rightarrow> nat \<Rightarrow> fd_update option" where
  "next_known_from 0 w fs ufd = None"
| "next_known_from (Suc k) w fs ufd =
     (let r = fdrs fs ! ufd in
      if fr_whead r \<noteq> link_clean then
        Some \<lparr>fu_fd = int ufd, fu_mask = watch_list_mask w fs (fr_whead r), fu_epoch = fr_epoch r\<rparr>
      else next_known_from k w fs (ufd + 1))"

definition next_known :: "int \<Rightarrow> world \<Rightarrow> fdset \<Rightarrow> fd_update option" where
  "next_known fd w fs =
     (let ufd = ufd_of (fd + 1) in
      if length (fdrs fs) \<le> ufd then None else next_known_from (length (fdrs fs) - ufd) w fs ufd)"

primrec free_count :: "nat \<Rightarrow> watchrec list \<Rightarrow> nat \<Rightarrow> nat" where
  "free_count 0 rs wix = 0"
| "free_count (Suc k) rs wix = (if wix = 0 then 0 else 1 + free_count k rs (wr_wlink (rs ! (wix - 1))))"

definition active_watch_count :: "fdset \<Rightarrow> nat" where
  "active_watch_count fs = length (ws fs) - free_count (length (ws fs)) (ws fs) (free_wlink fs)"

definition fd_mask :: "int \<Rightarrow> world \<Rightarrow> fdset \<Rightarrow> fdmask" where
  "fd_mask fd w fs =
     (let ufd = ufd_of fd in
      if length (fdrs fs) \<le> ufd then 0 else watch_list_mask w fs (fr_whead (fdrs fs ! ufd)))"

text \<open>The loop of \<^verbatim>\<open>fd_close\<close>: unlink the head, trigger and drop its event, recycle the record.\<close>

primrec fd_close_loop :: "nat \<Rightarrow> nat \<Rightarrow> world \<times> fdset \<Rightarrow> world \<times> fdset" where
  "fd_close_loop 0 ufd st = st"
| "fd_close_loop (Suc k) ufd st =
     (let (w, fs) = st; wix = fr_whead (fdrs fs ! ufd) in
      if wix = 0 then (w, fs)
      else
        let r = ws fs ! (wix - 1);
            fs = upd_fdrec ufd (\<lambda>x. x\<lparr>fr_whead := wr_wlink r\<rparr>) fs;
            w = (case wr_ev r of Some e \<Rightarrow> handle_dtor e (snd (trigger e w)) | None \<Rightarrow> w);
            fs = (upd_watch wix (\<lambda>x. x\<lparr>wr_ev := None, wr_wlink := free_wlink fs\<rparr>) fs)\<lparr>free_wlink := wix\<rparr>
        in fd_close_loop k ufd (w, fs))"

text \<open>The result is the body and the epoch before the bump.\<close>

definition fd_close :: "int \<Rightarrow> iost \<Rightarrow> fdset \<Rightarrow> (nat \<times> u32) option \<times> iost \<times> fdset" where
  "fd_close fd io fs =
     (let ufd = ufd_of fd in
      if length (fdrs fs) \<le> ufd then (None, io, fs)
      else
        case fr_body (fdrs fs ! ufd) of
          None \<Rightarrow> (None, io, fs)
        | Some b \<Rightarrow>
            if 0 \<le> fb_fd (io_bodies io b) then (None, io, fs)
            else
              let (w, fs) = fd_close_loop (length (ws fs)) ufd (io_world io, fs);
                  fs = upd_fdrec ufd (\<lambda>x. x\<lparr>fr_wtail := link_clean, fr_epoch := fr_epoch x + 1\<rparr>) fs;
                  fs = queue_update ufd fs;
                  epoch = fr_epoch (fdrs fs ! ufd) - 1;
                  fs = upd_fdrec ufd (\<lambda>x. x\<lparr>fr_body := None\<rparr>) fs
              in (Some (b, epoch), io\<lparr>io_world := w\<rparr>, fs))"

text \<open>Appending a watch record: a recycled one if the free list has one.\<close>

definition alloc_watch :: "fdmask \<Rightarrow> fdset \<Rightarrow> nat \<times> fdset" where
  "alloc_watch imask fs =
     (let wix = free_wlink fs in
      if wix \<noteq> 0 then
        (wix, (upd_watch wix (\<lambda>r. r\<lparr>wr_mask := imask, wr_wlink := link_clean\<rparr>) fs)
                \<lparr>free_wlink := wr_wlink (ws fs ! (wix - 1))\<rparr>)
      else
        (length (ws fs) + 1, fs\<lparr>ws := ws fs @ [\<lparr>wr_ev = None, wr_mask = imask, wr_wlink = link_clean\<rparr>]\<rparr>))"

definition append_watch :: "nat \<Rightarrow> fdmask \<Rightarrow> eid \<Rightarrow> fdset \<Rightarrow> fdset" where
  "append_watch ufd imask e fs =
     (let (wix, fs) = alloc_watch imask fs;
          fdi = fdrs fs ! ufd;
          fs = (if fr_whead fdi \<noteq> 0 then upd_watch (fr_wtail fdi) (\<lambda>r. r\<lparr>wr_wlink := wix\<rparr>) fs
                else upd_fdrec ufd (\<lambda>x. x\<lparr>fr_whead := wix\<rparr>) fs);
          fs = upd_fdrec ufd (\<lambda>x. x\<lparr>fr_wtail := wix\<rparr>) fs
      in upd_watch wix (\<lambda>r. r\<lparr>wr_ev := Some e\<rparr>) fs)"

datatype io_fault = Nullopt_dereference

text \<open>
  \<^verbatim>\<open>watch\<close>. When the record holds another body, the source closes the descriptor in the event
  set and dereferences the result, which is null when that body is still open: the fault.
  The returned event has two references, the caller's and the record's.
\<close>

definition set_fdrec_body :: "nat \<Rightarrow> nat \<Rightarrow> did \<Rightarrow> int \<Rightarrow> iost \<Rightarrow> fdset \<Rightarrow> io_fault + iost \<times> fdset" where
  "set_fdrec_body ufd b drv fd io fs =
     (if fr_body (fdrs fs ! ufd) = Some b then Inr (io, fs)
      else
        let install = (\<lambda>io fs. (fd_add_listener b drv io, upd_fdrec ufd (\<lambda>r. r\<lparr>fr_body := Some b\<rparr>) fs)) in
        if fr_body (fdrs fs ! ufd) = None then Inr (install io fs)
        else
          case fd_close fd io fs of
            (None, io, fs) \<Rightarrow> Inl Nullopt_dereference
          | (Some (b', ep), io, fs) \<Rightarrow> Inr (install (fd_remove_listener b' drv io) fs))"

definition watch :: "int \<Rightarrow> fdmask \<Rightarrow> nat \<Rightarrow> did \<Rightarrow> iost \<Rightarrow> fdset \<Rightarrow> io_fault + eid \<times> iost \<times> fdset" where
  "watch fd imask body drv io fs =
     (if fd < 0 \<or> imask = 0 then
        let (e, w) = new_event (io_world io) in Inr (e, io\<lparr>io_world := w\<rparr>, fs)
      else
        let ufd = ufd_of fd;
            fs = (if length (fdrs fs) \<le> ufd then hard_ensure ufd fs else fs)
        in case set_fdrec_body ufd body drv fd io fs of
             Inl err \<Rightarrow> Inl err
           | Inr (io, fs) \<Rightarrow>
               let fs = queue_update ufd fs;
                   (e, w) = new_event (io_world io);
                   fs = append_watch ufd imask e fs
               in Inr (e, io\<lparr>io_world := ref 1 e w\<rparr>, fs))"

text \<open>\<^verbatim>\<open>deref_all\<close>: the driver leaves every body it still watches.\<close>

definition deref_all :: "did \<Rightarrow> fdset \<Rightarrow> iost \<Rightarrow> iost" where
  "deref_all drv fs io =
     fold (\<lambda>r io. case fr_body r of None \<Rightarrow> io | Some b \<Rightarrow> fd_remove_listener b drv io) (fdrs fs) io"

end
