(* ===== verification/FdInv.thy ===== *)
theory FdInv
  imports FdSet EventReach
begin

text \<open>
  Correctness of the descriptor machinery. \<open>seg\<close> reads a linked list out of the record vector,
  \<open>fd_inv\<close> says that every record is on exactly one list, and the operations are shown to
  refine an abstract view in which every descriptor has a plain list of watches (\<open>watches\<close>).
  \<open>fbrun\<close> are the runs of one descriptor body; \<^verbatim>\<open>::close\<close> happens exactly once in each.
\<close>

unbundle bit_operations_syntax

subsection \<open>Linked lists in the record vector\<close>

primrec seg :: "watchrec list \<Rightarrow> nat \<Rightarrow> nat list \<Rightarrow> nat \<Rightarrow> bool" where
  "seg rs h [] e \<longleftrightarrow> h = e"
| "seg rs h (x # xs) e \<longleftrightarrow> h = x \<and> 0 < x \<and> x \<le> length rs \<and> seg rs (wr_wlink (rs ! (x - 1))) xs e"

primrec walk :: "nat \<Rightarrow> watchrec list \<Rightarrow> nat \<Rightarrow> nat list" where
  "walk 0 rs h = []"
| "walk (Suc k) rs h = (if h = 0 then [] else h # walk k rs (wr_wlink (rs ! (h - 1))))"

lemma seg_append: "seg rs h (xs @ ys) e \<longleftrightarrow> (\<exists>m. seg rs h xs m \<and> seg rs m ys e)"
  by (induction xs arbitrary: h) auto

lemma seg_range: "seg rs h xs e \<Longrightarrow> x \<in> set xs \<Longrightarrow> 0 < x \<and> x \<le> length rs"
  by (induction xs arbitrary: h) auto

lemma seg_frame:
  assumes "seg rs h xs e" "length rs \<le> length rs'"
    and "\<And>x. x \<in> set xs \<Longrightarrow> wr_wlink (rs' ! (x - 1)) = wr_wlink (rs ! (x - 1))"
  shows "seg rs' h xs e"
  using assms by (induction xs arbitrary: h) auto

lemma seg_length: "seg rs h xs e \<Longrightarrow> distinct xs \<Longrightarrow> length xs \<le> length rs"
proof -
  assume a: "seg rs h xs e" "distinct xs"
  have "set xs \<subseteq> {1..length rs}" using seg_range [OF a(1)] by (fastforce simp: Suc_le_eq)
  then have "card (set xs) \<le> length rs" using card_mono [of "{1..length rs}" "set xs"] by simp
  then show ?thesis using distinct_card [OF a(2)] by simp
qed

lemma walk_seg: "seg rs h xs 0 \<Longrightarrow> length xs \<le> n \<Longrightarrow> walk n rs h = xs"
proof (induction xs arbitrary: h n)
  case Nil
  then show ?case by (cases n) auto
next
  case (Cons x xs)
  then show ?case by (cases n) auto
qed

lemma walk_of: "seg rs h xs 0 \<Longrightarrow> distinct xs \<Longrightarrow> walk (length rs) rs h = xs"
  using walk_seg seg_length by blast

definition last0 :: "nat list \<Rightarrow> nat" where
  "last0 xs = (if xs = [] then 0 else last xs)"

text \<open>A list under construction: the last link is the cell \<open>c\<close> that has still to be written.\<close>

definition oseg :: "watchrec list \<Rightarrow> nat \<Rightarrow> nat list \<Rightarrow> link_cell \<Rightarrow> bool" where
  "oseg rs h xs c \<longleftrightarrow> (case c of HeadCell \<Rightarrow> xs = []
     | NodeCell y \<Rightarrow> \<exists>ys. xs = ys @ [y] \<and> seg rs h ys y \<and> 0 < y \<and> y \<le> length rs)"

definition store_cell :: "link_cell \<Rightarrow> nat \<Rightarrow> nat \<times> watchrec list \<Rightarrow> nat \<times> watchrec list" where
  "store_cell c v st = (case c of HeadCell \<Rightarrow> (v, snd st)
     | NodeCell i \<Rightarrow> (fst st, (snd st)[i - 1 := (snd st ! (i - 1))\<lparr>wr_wlink := v\<rparr>]))"

lemma store_wp_cell: "store_wp v t =
   (case store_cell (tk_wp t) v (tk_whead t, tk_ws t) of (h, rs) \<Rightarrow> t\<lparr>tk_whead := h, tk_ws := rs\<rparr>)"
  by (simp add: store_wp_def store_cell_def split: link_cell.split)

lemma store_fp_cell: "store_fp v t =
   (case store_cell (tk_fp t) v (tk_fhead t, tk_ws t) of (h, rs) \<Rightarrow> t\<lparr>tk_fhead := h, tk_ws := rs\<rparr>)"
  by (simp add: store_fp_def store_cell_def split: link_cell.split)

text \<open>What a write to the cell of \<open>xs\<close> leaves alone.\<close>

definition same_but :: "nat list \<Rightarrow> watchrec list \<Rightarrow> watchrec list \<Rightarrow> bool" where
  "same_but xs rs rs' \<longleftrightarrow> length rs' = length rs \<and>
     (\<forall>i<length rs. wr_ev (rs' ! i) = wr_ev (rs ! i) \<and> wr_mask (rs' ! i) = wr_mask (rs ! i) \<and>
       (Suc i \<notin> set xs \<longrightarrow> wr_wlink (rs' ! i) = wr_wlink (rs ! i)))"

lemma same_but_refl [simp]: "same_but xs rs rs" by (simp add: same_but_def)

lemma same_but_trans: "same_but xs rs rs' \<Longrightarrow> same_but ys rs' rs'' \<Longrightarrow> same_but (xs @ ys) rs rs''"
  by (auto simp: same_but_def)

lemma same_but_mono: "same_but xs rs rs' \<Longrightarrow> set xs \<subseteq> set ys \<Longrightarrow> same_but ys rs rs'"
  by (auto simp: same_but_def)

lemma seg_same_but: "seg rs h xs e \<Longrightarrow> same_but ys rs rs' \<Longrightarrow> set xs \<inter> set ys = {} \<Longrightarrow> seg rs' h xs e"
proof -
  assume a: "seg rs h xs e" "same_but ys rs rs'" "set xs \<inter> set ys = {}"
  have "wr_wlink (rs' ! (x - 1)) = wr_wlink (rs ! (x - 1))" if x: "x \<in> set xs" for x
  proof -
    have "0 < x" "x \<le> length rs" "x \<notin> set ys" using seg_range [OF a(1) x] a(3) x by auto
    then have "x - 1 < length rs" "Suc (x - 1) \<notin> set ys" by auto
    then show ?thesis using a(2) by (simp add: same_but_def)
  qed
  then show ?thesis using seg_frame [OF a(1)] a(2) by (simp add: same_but_def)
qed

lemma oseg_same_but: "oseg rs h xs c \<Longrightarrow> same_but ys rs rs' \<Longrightarrow> set xs \<inter> set ys = {} \<Longrightarrow> oseg rs' h xs c"
proof (cases c)
  case (NodeCell y)
  assume a: "oseg rs h xs c" "same_but ys rs rs'" "set xs \<inter> set ys = {}"
  then obtain zs where z: "xs = zs @ [y]" "seg rs h zs y" "0 < y" "y \<le> length rs"
    using NodeCell by (auto simp: oseg_def)
  then have "seg rs' h zs y" using seg_same_but a by auto
  moreover have "length rs' = length rs" using a(2) by (simp add: same_but_def)
  ultimately show ?thesis using z NodeCell by (simp add: oseg_def)
qed (simp add: oseg_def)

lemma store_cell_spec:
  assumes o: "oseg rs h xs c" and d: "distinct xs" and s: "store_cell c v (h, rs) = (h', rs')"
  shows "same_but xs rs rs'" "seg rs' h' xs v"
proof -
  show sb: "same_but xs rs rs'"
  proof (cases c)
    case (NodeCell i)
    then have "i \<in> set xs" "0 < i" "i - 1 < length rs" using o by (auto simp: oseg_def)
    then show ?thesis using s NodeCell
      by (auto simp: store_cell_def same_but_def nth_list_update split: if_splits)
  qed (use s in \<open>simp add: store_cell_def\<close>)
  show "seg rs' h' xs v"
  proof (cases c)
    case HeadCell
    then show ?thesis using o s by (simp add: oseg_def store_cell_def)
  next
    case (NodeCell y)
    then obtain ys where y: "xs = ys @ [y]" "seg rs h ys y" "0 < y" "y \<le> length rs" using o by (auto simp: oseg_def)
    have h: "h' = h" and rs': "rs' = rs[y - 1 := (rs ! (y - 1))\<lparr>wr_wlink := v\<rparr>]"
      using s NodeCell by (auto simp: store_cell_def)
    have "same_but [y] rs rs'" using y by (auto simp: same_but_def rs' nth_list_update)
    then have "seg rs' h ys y" using seg_same_but [OF y(2)] y d by auto
    then show ?thesis using y h by (auto simp: seg_append rs')
  qed
qed

lemma seg_extend:
  assumes "seg rs h xs v" "0 < v" "v \<le> length rs"
  shows "oseg rs h (xs @ [v]) (NodeCell v)"
  using assms by (auto simp: oseg_def)

subsection \<open>The detaching loop\<close>

definition take_inv :: "watchrec list \<Rightarrow> nat list \<Rightarrow> nat list \<Rightarrow> nat list \<Rightarrow> nat \<Rightarrow> take_state \<Rightarrow> bool" where
  "take_inv rs T K xs wix t \<longleftrightarrow> same_but (T @ K) rs (tk_ws t) \<and> oseg (tk_ws t) (tk_whead t) T (tk_wp t) \<and>
     oseg (tk_ws t) (tk_fhead t) K (tk_fp t) \<and> tk_wtail t = last0 K \<and> seg (tk_ws t) wix xs 0 \<and>
     distinct (T @ K @ xs)"

abbreviation tk :: "world \<Rightarrow> fdmask \<Rightarrow> watchrec list \<Rightarrow> nat \<Rightarrow> bool" where
  "tk w m rs x \<equiv> taken w m (rs ! (x - 1))"

lemma taken_same: "same_but xs rs rs' \<Longrightarrow> i < length rs \<Longrightarrow> taken w m (rs' ! i) = taken w m (rs ! i)"
  by (simp add: same_but_def taken_def)

lemma take_step_taken:
  assumes I: "take_inv rs T K (x # xs) wix t"
  shows "take_inv rs (T @ [x]) K xs (wr_wlink (tk_ws t ! (wix - 1))) ((store_wp wix t)\<lparr>tk_wp := NodeCell wix\<rparr>)"
proof -
  have x: "wix = x" "0 < x" "x \<le> length (tk_ws t)" "seg (tk_ws t) (wr_wlink (tk_ws t ! (x - 1))) xs 0"
    and d: "distinct (T @ K @ x # xs)" and sb: "same_but (T @ K) rs (tk_ws t)"
    and T: "oseg (tk_ws t) (tk_whead t) T (tk_wp t)" and K: "oseg (tk_ws t) (tk_fhead t) K (tk_fp t)"
    using I by (auto simp: take_inv_def)
  obtain h' rs' where s: "store_cell (tk_wp t) x (tk_whead t, tk_ws t) = (h', rs')" by fastforce
  note S = store_cell_spec [OF T _ s]
  have 1: "same_but T (tk_ws t) rs'" and 2: "seg rs' h' T x" using S d by auto
  have "same_but ((T @ [x]) @ K) rs rs'"
    using same_but_trans [OF sb 1] by (rule same_but_mono) auto
  moreover have "oseg rs' h' (T @ [x]) (NodeCell x)"
    using seg_extend [OF 2] x 1 by (simp add: same_but_def)
  moreover have "oseg rs' (tk_fhead t) K (tk_fp t)" using oseg_same_but [OF K 1] d by auto
  moreover have "seg rs' (wr_wlink (tk_ws t ! (x - 1))) xs 0" using seg_same_but [OF x(4) 1] d by auto
  ultimately show ?thesis using I d x by (auto simp: take_inv_def store_wp_cell s)
qed

lemma take_step_kept:
  assumes I: "take_inv rs T K (x # xs) wix t"
  shows "take_inv rs T (K @ [x]) xs (wr_wlink (tk_ws t ! (wix - 1)))
    ((store_fp wix t)\<lparr>tk_wtail := wix, tk_fp := NodeCell wix\<rparr>)"
proof -
  have x: "wix = x" "0 < x" "x \<le> length (tk_ws t)" "seg (tk_ws t) (wr_wlink (tk_ws t ! (x - 1))) xs 0"
    and d: "distinct (T @ K @ x # xs)" and sb: "same_but (T @ K) rs (tk_ws t)"
    and T: "oseg (tk_ws t) (tk_whead t) T (tk_wp t)" and K: "oseg (tk_ws t) (tk_fhead t) K (tk_fp t)"
    using I by (auto simp: take_inv_def)
  obtain h' rs' where s: "store_cell (tk_fp t) x (tk_fhead t, tk_ws t) = (h', rs')" by fastforce
  note S = store_cell_spec [OF K _ s]
  have 1: "same_but K (tk_ws t) rs'" and 2: "seg rs' h' K x" using S d by auto
  have "same_but (T @ K @ [x]) rs rs'"
    using same_but_trans [OF sb 1] by (rule same_but_mono) auto
  moreover have "oseg rs' h' (K @ [x]) (NodeCell x)"
    using seg_extend [OF 2] x 1 by (simp add: same_but_def)
  moreover have "oseg rs' (tk_whead t) T (tk_wp t)" using oseg_same_but [OF T 1] d by auto
  moreover have "seg rs' (wr_wlink (tk_ws t ! (x - 1))) xs 0" using seg_same_but [OF x(4) 1] d by auto
  ultimately show ?thesis using I d x by (auto simp: take_inv_def store_fp_cell s last0_def)
qed

lemma take_loop_spec:
  assumes "take_inv rs T K xs wix t" "length xs \<le> k"
  shows "take_inv rs (T @ filter (tk w m rs) xs) (K @ filter (\<lambda>x. \<not> tk w m rs x) xs) [] 0 (take_loop k w m wix t)"
  using assms
proof (induction xs arbitrary: T K wix t k)
  case Nil
  then show ?case by (cases k) (auto simp: take_inv_def)
next
  case (Cons x xs)
  then obtain j where k: "k = Suc j" by (cases k) auto
  have x: "wix = x" "0 < x" "x \<le> length rs" and sb: "same_but (T @ K) rs (tk_ws t)"
    using Cons.prems by (auto simp: take_inv_def same_but_def)
  have t: "taken w m (tk_ws t ! (x - 1)) = tk w m rs x"
    using taken_same [OF sb, of "x - 1"] x by simp
  show ?case
  proof (cases "tk w m rs x")
    case True
    then show ?thesis
      using Cons.IH [OF take_step_taken [OF Cons.prems(1)], of j] Cons.prems(2) k x t by (simp add: Let_def)
  next
    case False
    then show ?thesis
      using Cons.IH [OF take_step_kept [OF Cons.prems(1)], of j] Cons.prems(2) k x t by (simp add: Let_def)
  qed
qed

text \<open>After the two final writes both lists are closed.\<close>

lemma take_done:
  assumes I: "take_inv rs T K [] 0 t"
  defines "t' \<equiv> store_fp 0 (store_wp 0 t)"
  shows "same_but (T @ K) rs (tk_ws t') \<and> seg (tk_ws t') (tk_whead t') T 0 \<and>
    seg (tk_ws t') (tk_fhead t') K 0 \<and> tk_wtail t' = last0 K"
proof -
  have d: "distinct (T @ K)" and sb: "same_but (T @ K) rs (tk_ws t)"
    and T: "oseg (tk_ws t) (tk_whead t) T (tk_wp t)" and K: "oseg (tk_ws t) (tk_fhead t) K (tk_fp t)"
    using I by (auto simp: take_inv_def)
  obtain h1 r1 where s1: "store_cell (tk_wp t) 0 (tk_whead t, tk_ws t) = (h1, r1)" by fastforce
  obtain h2 r2 where s2: "store_cell (tk_fp t) 0 (tk_fhead t, r1) = (h2, r2)" by fastforce
  have 1: "same_but T (tk_ws t) r1" "seg r1 h1 T 0" using store_cell_spec [OF T _ s1] d by auto
  have "oseg r1 (tk_fhead t) K (tk_fp t)" using oseg_same_but [OF K 1(1)] d by auto
  then have 2: "same_but K r1 r2" "seg r2 h2 K 0" using store_cell_spec [OF _ _ s2] d by auto
  have "seg r2 h1 T 0" using seg_same_but [OF 1(2) 2(1)] d by auto
  moreover have "same_but (T @ K) rs r2"
    using same_but_trans [OF same_but_trans [OF sb 1(1)] 2(1)] by (rule same_but_mono) auto
  ultimately show ?thesis using I 2(2)
    by (auto simp: t'_def store_wp_cell store_fp_cell s1 s2 take_inv_def)
qed


subsection \<open>Invariant\<close>

text \<open>
  Every record belongs to the list of one descriptor, to the free list, or to the list that
  \<^verbatim>\<open>take_watch_list\<close> has handed to its caller, whose head is \<open>d\<close>.
\<close>

datatype owner = Watch nat | Free | Detached

definition head_of :: "fdset \<Rightarrow> nat \<Rightarrow> owner \<Rightarrow> nat" where
  "head_of fs d t = (case t of
      Watch i \<Rightarrow> if i < length (fdrs fs) then fr_whead (fdrs fs ! i) else 0
    | Free \<Rightarrow> free_wlink fs
    | Detached \<Rightarrow> d)"

definition lists_ok :: "watchrec list \<Rightarrow> (owner \<Rightarrow> nat) \<Rightarrow> (owner \<Rightarrow> nat list) \<Rightarrow> bool" where
  "lists_ok rs hh K \<longleftrightarrow> (\<forall>t. seg rs (hh t) (K t) 0 \<and> distinct (K t)) \<and>
     (\<forall>t u. t \<noteq> u \<longrightarrow> set (K t) \<inter> set (K u) = {}) \<and>
     (\<forall>t. t \<noteq> Free \<longrightarrow> (\<forall>x\<in>set (K t). wr_ev (rs ! (x - 1)) \<noteq> None))"

definition fd_inv :: "fdset \<Rightarrow> nat \<Rightarrow> (owner \<Rightarrow> nat list) \<Rightarrow> bool" where
  "fd_inv fs d K \<longleftrightarrow> lists_ok (ws fs) (head_of fs d) K \<and>
     (\<forall>i<length (fdrs fs). fr_wtail (fdrs fs ! i) = last0 (K (Watch i)))"

text \<open>Every record outside \<open>xs\<close> is as before.\<close>

definition same_rest :: "nat list \<Rightarrow> watchrec list \<Rightarrow> watchrec list \<Rightarrow> bool" where
  "same_rest xs rs rs' \<longleftrightarrow> length rs \<le> length rs' \<and> (\<forall>i<length rs. Suc i \<notin> set xs \<longrightarrow> rs' ! i = rs ! i)"

lemma same_but_rest: "same_but xs rs rs' \<Longrightarrow> same_rest xs rs rs'"
  by (auto simp: same_but_def same_rest_def intro: watchrec.equality)

lemma same_rest_nth:
  "same_rest xs rs rs' \<Longrightarrow> 0 < x \<Longrightarrow> x \<le> length rs \<Longrightarrow> x \<notin> set xs \<Longrightarrow> rs' ! (x - 1) = rs ! (x - 1)"
  by (auto simp: same_rest_def)

lemma same_rest_trans: "same_rest xs a b \<Longrightarrow> same_rest ys b c \<Longrightarrow> same_rest (xs @ ys) a c"
  unfolding same_rest_def by (metis Un_iff order.trans order.strict_trans2 set_append)

lemma same_rest_mono: "same_rest xs a b \<Longrightarrow> set xs \<subseteq> set ys \<Longrightarrow> same_rest ys a b"
  by (auto simp: same_rest_def)

lemma seg_same_rest:
  assumes "seg rs h xs e" "same_rest ys rs rs'" "set xs \<inter> set ys = {}"
  shows "seg rs' h xs e"
proof (rule seg_frame [OF assms(1)])
  fix x assume "x \<in> set xs"
  then show "wr_wlink (rs' ! (x - 1)) = wr_wlink (rs ! (x - 1))"
    using same_rest_nth [OF assms(2)] seg_range [OF assms(1)] assms(3) by (metis disjoint_iff)
qed (use assms(2) in \<open>simp add: same_rest_def\<close>)

text \<open>Moving records between two lists, with \<open>N\<close> fresh ones.\<close>

lemma lists_move:
  assumes ok: "lists_ok rs hh K" and ab: "a \<noteq> b" and sb: "same_rest (K a @ K b @ N) rs rs'"
    and hh: "\<And>t. t \<noteq> a \<Longrightarrow> t \<noteq> b \<Longrightarrow> hh' t = hh t"
    and A: "seg rs' (hh' a) A 0" and B: "seg rs' (hh' b) B 0" and d: "distinct (A @ B)"
    and sub: "set A \<union> set B \<subseteq> set (K a) \<union> set (K b) \<union> set N" and N: "\<And>t. set (K t) \<inter> set N = {}"
    and eA: "a \<noteq> Free \<Longrightarrow> \<forall>x\<in>set A. wr_ev (rs' ! (x - 1)) \<noteq> None"
    and eB: "b \<noteq> Free \<Longrightarrow> \<forall>x\<in>set B. wr_ev (rs' ! (x - 1)) \<noteq> None"
  shows "lists_ok rs' hh' (K(a := A, b := B))"
proof -
  have dj: "set (K t) \<inter> set (K u) = {}" if "t \<noteq> u" for t u using ok that by (simp add: lists_ok_def)
  have out: "set (K t) \<inter> set (K a @ K b @ N) = {}" if "t \<noteq> a" "t \<noteq> b" for t
    using dj [OF that(1)] dj [OF that(2)] N [of t] by auto
  have seg: "seg rs' (hh' t) (K t) 0" if "t \<noteq> a" "t \<noteq> b" for t
    using seg_same_rest [OF _ sb out [OF that]] ok hh that by (simp add: lists_ok_def)
  have ev: "wr_ev (rs' ! (x - 1)) \<noteq> None" if "t \<noteq> a" "t \<noteq> b" "t \<noteq> Free" "x \<in> set (K t)" for t x
  proof -
    have s: "seg rs (hh t) (K t) 0" and e: "wr_ev (rs ! (x - 1)) \<noteq> None"
      using ok that by (auto simp: lists_ok_def)
    have "x \<notin> set (K a @ K b @ N)" using out [OF that(1,2)] that(4) by auto
    then show ?thesis using same_rest_nth [OF sb] seg_range [OF s that(4)] e by simp
  qed
  have t1: "seg rs' (hh' t) ((K(a := A, b := B)) t) 0 \<and> distinct ((K(a := A, b := B)) t)" for t
    using A B d seg ok by (simp add: lists_ok_def)
  have "set (K t) \<inter> (set A \<union> set B) = {}" if "t \<noteq> a" "t \<noteq> b" for t using out [OF that] sub by auto
  then have t2: "set ((K(a := A, b := B)) t) \<inter> set ((K(a := A, b := B)) u) = {}" if "t \<noteq> u" for t u
    using that dj [OF that] d by (cases "t = a"; cases "t = b"; cases "u = a"; cases "u = b") auto
  have t3: "\<forall>x\<in>set ((K(a := A, b := B)) t). wr_ev (rs' ! (x - 1)) \<noteq> None" if "t \<noteq> Free" for t
    using that eA eB ev by auto
  show ?thesis unfolding lists_ok_def using t1 t2 t3 by blast
qed

lemma lists_okD:
  assumes "lists_ok rs hh K"
  shows "seg rs (hh t) (K t) 0" "distinct (K t)" "t \<noteq> u \<Longrightarrow> set (K t) \<inter> set (K u) = {}"
    "t \<noteq> Free \<Longrightarrow> x \<in> set (K t) \<Longrightarrow> wr_ev (rs ! (x - 1)) \<noteq> None"
  using assms by (auto simp: lists_ok_def)

lemma fd_invD:
  assumes "fd_inv fs d K"
  shows "lists_ok (ws fs) (head_of fs d) K"
    "i < length (fdrs fs) \<Longrightarrow> fr_wtail (fdrs fs ! i) = last0 (K (Watch i))"
    "i < length (fdrs fs) \<Longrightarrow> seg (ws fs) (fr_whead (fdrs fs ! i)) (K (Watch i)) 0"
    "seg (ws fs) (free_wlink fs) (K Free) 0" "seg (ws fs) d (K Detached) 0"
  using assms lists_okD(1) [of "ws fs" "head_of fs d" K "Watch i"] lists_okD(1) [of "ws fs" "head_of fs d" K Free]
    lists_okD(1) [of "ws fs" "head_of fs d" K Detached]
  by (auto simp: fd_inv_def head_of_def)

text \<open>Changing bodies, epochs and the update list does not concern the watch lists.\<close>

definition same_watch :: "fdset \<Rightarrow> fdset \<Rightarrow> bool" where
  "same_watch fs fs' \<longleftrightarrow> ws fs' = ws fs \<and> free_wlink fs' = free_wlink fs \<and> length (fdrs fs') = length (fdrs fs) \<and>
     (\<forall>i<length (fdrs fs). fr_whead (fdrs fs' ! i) = fr_whead (fdrs fs ! i) \<and>
        fr_wtail (fdrs fs' ! i) = fr_wtail (fdrs fs ! i))"

lemma fd_inv_same_watch: "same_watch fs fs' \<Longrightarrow> fd_inv fs d K \<Longrightarrow> fd_inv fs' d K"
proof -
  assume a: "same_watch fs fs'" "fd_inv fs d K"
  have "head_of fs' d = head_of fs d"
    using a(1) by (auto simp: same_watch_def head_of_def fun_eq_iff split: owner.split)
  then show ?thesis using a by (simp add: fd_inv_def same_watch_def)
qed

lemma same_watch_upd:
  "(\<And>r. fr_whead (f r) = fr_whead r \<and> fr_wtail (f r) = fr_wtail r) \<Longrightarrow> same_watch fs (upd_fdrec i f fs)"
  by (auto simp: same_watch_def upd_fdrec_def nth_list_update)
     (cases "i < length (fdrs fs)"; simp add: nth_list_update)+

lemma same_watch_queue: "same_watch fs (queue_update i fs)"
proof -
  have "same_watch fs (upd_fdrec i (\<lambda>r. r\<lparr>fr_update := v\<rparr>) fs)" for v by (rule same_watch_upd) simp
  then show ?thesis by (simp add: queue_update_def same_watch_def)
qed

lemma same_watch_trans: "same_watch a b \<Longrightarrow> same_watch b c \<Longrightarrow> same_watch a c"
  by (simp add: same_watch_def)

subsection \<open>Operations on the watch lists\<close>

lemma take_watch_list_spec:
  assumes I: "fd_inv fs 0 K" and r: "take_watch_list fd m ep w fs = (wix, fs')"
    and n: "ufd_of fd < length (fdrs fs)" and ep: "ep = 0 \<or> ep = fr_epoch (fdrs fs ! ufd_of fd)"
  defines "t \<equiv> Watch (ufd_of fd)"
  shows "fd_inv fs' wix (K(t := filter (\<lambda>x. \<not> tk w m (ws fs) x) (K t), Detached := filter (tk w m (ws fs)) (K t)))"
    "same_but (K t) (ws fs) (ws fs')"
proof -
  let ?u = "ufd_of fd"
  let ?T = "filter (tk w m (ws fs)) (K t)" and ?R = "filter (\<lambda>x. \<not> tk w m (ws fs) x) (K t)"
  have D: "K Detached = []" using fd_invD(5) [OF I] by (cases "K Detached") auto
  have sg: "seg (ws fs) (fr_whead (fdrs fs ! ?u)) (K t) 0" using fd_invD(3) [OF I n] by (simp add: t_def)
  have dt: "distinct (K t)" using lists_okD(2) [OF fd_invD(1) [OF I]] .
  show "fd_inv fs' wix (K(t := ?R, Detached := ?T))" "same_but (K t) (ws fs) (ws fs')"
  proof (atomize (full), cases "fr_whead (fdrs fs ! ?u) = 0")
    case True
    then have "K t = []" using sg by (cases "K t") auto
    then have "K(t := ?R, Detached := ?T) = K" using D by (auto simp: fun_eq_iff)
    then show "fd_inv fs' wix (K(t := ?R, Detached := ?T)) \<and> same_but (K t) (ws fs) (ws fs')"
      using I r True n by (simp add: take_watch_list_def Let_def)
  next
    case False
    define t0 where "t0 = \<lparr>tk_ws = ws fs, tk_whead = 0, tk_fhead = fr_whead (fdrs fs ! ?u), tk_wtail = 0,
                     tk_wp = HeadCell, tk_fp = HeadCell\<rparr>"
    define t1 where "t1 = take_loop (length (ws fs)) w m (fr_whead (fdrs fs ! ?u)) t0"
    define t2 where "t2 = store_fp 0 (store_wp 0 t1)"
    have "take_inv (ws fs) [] [] (K t) (fr_whead (fdrs fs ! ?u)) t0"
      using sg dt by (simp add: take_inv_def t0_def oseg_def last0_def)
    from take_loop_spec [OF this seg_length [OF sg dt], of w m]
    have "take_inv (ws fs) ?T ?R [] 0 t1" by (simp add: t1_def)
    note t2 = take_done [OF this, folded t2_def]
    have sb: "same_but (K t) (ws fs) (tk_ws t2)" using t2 by (auto intro: same_but_mono)
    define f1 where "f1 = upd_fdrec ?u (\<lambda>r. r\<lparr>fr_whead := tk_fhead t2, fr_wtail := tk_wtail t2\<rparr>) (fs\<lparr>ws := tk_ws t2\<rparr>)"
    have res: "wix = tk_whead t2" "fs' = (if tk_whead t2 \<noteq> 0 then queue_update ?u f1 else f1)"
      using r False n ep
      by (auto simp: take_watch_list_def Let_def t0_def [symmetric] t1_def [symmetric] t2_def [symmetric] f1_def [symmetric])
    have h: "head_of f1 wix u = (if u = t then tk_fhead t2 else if u = Detached then wix else head_of fs 0 u)" for u
      using n by (auto simp: head_of_def f1_def upd_fdrec_def t_def nth_list_update split: owner.split)
    have f1: "fd_inv f1 wix (K(t := ?R, Detached := ?T))"
    proof -
      have "lists_ok (tk_ws t2) (head_of f1 wix) (K(t := ?R, Detached := ?T))"
      proof (rule lists_move [OF fd_invD(1) [OF I], where N = "[]"])
        show "same_rest (K t @ K Detached @ []) (ws fs) (tk_ws t2)" using same_but_rest [OF sb] D by simp
        have ev: "wr_ev (tk_ws t2 ! (x - 1)) \<noteq> None" if "x \<in> set (K t)" for x
        proof -
          have "x - 1 < length (ws fs)" using seg_range [OF sg that] by auto
          then show ?thesis using sb lists_okD(4) [OF fd_invD(1) [OF I] _ that] by (simp add: same_but_def t_def)
        qed
        then show "\<forall>x\<in>set ?R. wr_ev (tk_ws t2 ! (x - 1)) \<noteq> None" "\<forall>x\<in>set ?T. wr_ev (tk_ws t2 ! (x - 1)) \<noteq> None"
          by auto
      qed (use t2 dt res(1) h in \<open>auto simp: t_def\<close>)
      moreover have "fr_wtail (fdrs f1 ! i) = last0 ((K(t := ?R, Detached := ?T)) (Watch i))" if "i < length (fdrs fs)" for i
        using that t2 fd_invD(2) [OF I that] by (auto simp: f1_def upd_fdrec_def t_def nth_list_update)
      ultimately show ?thesis by (simp add: fd_inv_def f1_def upd_fdrec_def)
    qed
    then have "fd_inv fs' wix (K(t := ?R, Detached := ?T))"
      using f1 fd_inv_same_watch [OF same_watch_queue f1] by (simp only: res(2) split: if_split) simp
    moreover have "ws fs' = tk_ws t2"
      using same_watch_queue [of f1 ?u] by (simp add: res same_watch_def f1_def upd_fdrec_def)
    ultimately show "fd_inv fs' wix (K(t := ?R, Detached := ?T)) \<and> same_but (K t) (ws fs) (ws fs')"
      using sb by simp
  qed
qed

text \<open>Recycling the head of a list.\<close>

lemma recycle_lists:
  assumes ok: "lists_ok rs hh K" and a: "a \<noteq> Free" and Ka: "K a = x # xs"
    and rs': "rs' = rs[x - 1 := r]" "wr_wlink r = hh Free"
    and hh': "hh' a = wr_wlink (rs ! (x - 1))" "hh' Free = x" "\<And>t. t \<noteq> a \<Longrightarrow> t \<noteq> Free \<Longrightarrow> hh' t = hh t"
  shows "lists_ok rs' hh' (K(a := xs, Free := x # K Free))"
proof -
  have s: "seg rs (hh a) (x # xs) 0" and d: "distinct (x # xs)" and df: "set (x # xs) \<inter> set (K Free) = {}"
    using lists_okD(1,2) [OF ok, of a] lists_okD(3) [OF ok a] Ka by auto
  have x: "0 < x" "x \<le> length rs" and sx: "seg rs (wr_wlink (rs ! (x - 1))) xs 0" using s by auto
  have sr: "same_rest [x] rs rs'" using x by (auto simp: same_rest_def rs' nth_list_update)
  have sf: "seg rs' (hh Free) (K Free) 0"
    using seg_same_rest [OF lists_okD(1) [OF ok] sr] df by auto
  show ?thesis
  proof (rule lists_move [OF ok a, where N = "[]"])
    show "same_rest (K a @ K Free @ []) rs rs'" using sr Ka by (auto simp: same_rest_def)
    show "seg rs' (hh' a) xs 0" using seg_same_rest [OF sx sr] d hh' by auto
    show "seg rs' (hh' Free) (x # K Free) 0" using x sf hh' by (simp add: rs')
    show "distinct (xs @ x # K Free)" using d df lists_okD(2) [OF ok, of Free] by auto
    show "\<forall>y\<in>set xs. wr_ev (rs' ! (y - 1)) \<noteq> None"
    proof
      fix y assume y: "y \<in> set xs"
      then have "y \<noteq> x" "0 < y" "y \<le> length rs" using d seg_range [OF sx] by auto
      then show "wr_ev (rs' ! (y - 1)) \<noteq> None"
        using same_rest_nth [OF sr, of y] lists_okD(4) [OF ok a, of y] y Ka by simp
    qed
  qed (use Ka hh' in auto)
qed

lemma pop_watch_list_event_spec:
  assumes I: "fd_inv fs d K" and D: "K Detached = x # D"
    and r: "pop_watch_list_event d m w fs = ((d', e), w', fs')"
  shows "fd_inv fs' d' (K(Detached := D, Free := x # K Free))" "e = wr_ev (ws fs ! (x - 1))" "e \<noteq> None"
    "same_rest [x] (ws fs) (ws fs')" "fdrs fs' = fdrs fs"
proof -
  have x: "d = x" "0 < x" "x \<le> length (ws fs)" using fd_invD(5) [OF I] D by auto
  have res: "d' = wr_wlink (ws fs ! (x - 1))" "e = wr_ev (ws fs ! (x - 1))"
    "fs' = (upd_watch x (\<lambda>r. r\<lparr>wr_wlink := free_wlink fs, wr_ev := None\<rparr>) fs)\<lparr>free_wlink := x\<rparr>"
    using r x by (auto simp: pop_watch_list_event_def Let_def)
  then show "e = wr_ev (ws fs ! (x - 1))" "e \<noteq> None" "same_rest [x] (ws fs) (ws fs')" "fdrs fs' = fdrs fs"
    using lists_okD(4) [OF fd_invD(1) [OF I], of Detached x] D x
    by (auto simp: upd_watch_def same_rest_def nth_list_update)
  have "lists_ok (ws fs') (head_of fs' d') (K(Detached := D, Free := x # K Free))"
    by (rule recycle_lists [OF fd_invD(1) [OF I] _ D, where r = "(ws fs ! (x - 1))\<lparr>wr_wlink := free_wlink fs, wr_ev := None\<rparr>"])
       (auto simp: res upd_watch_def head_of_def split: owner.split)
  then show "fd_inv fs' d' (K(Detached := D, Free := x # K Free))"
    using fd_invD(2) [OF I] by (auto simp: fd_inv_def res upd_watch_def)
qed

definition close_event :: "eid option \<Rightarrow> world \<Rightarrow> world" where
  "close_event h w = (case h of Some e \<Rightarrow> handle_dtor e (snd (trigger e w)) | None \<Rightarrow> w)"

lemma fd_close_step:
  assumes ok: "lists_ok (ws fs) (head_of fs d) K" and n: "u < length (fdrs fs)" and Ku: "K (Watch u) = x # xs"
  defines "fs' \<equiv> (upd_watch x (\<lambda>r. r\<lparr>wr_ev := None, wr_wlink := free_wlink fs\<rparr>)
      (upd_fdrec u (\<lambda>r. r\<lparr>fr_whead := wr_wlink (ws fs ! (x - 1))\<rparr>) fs))\<lparr>free_wlink := x\<rparr>"
  shows "lists_ok (ws fs') (head_of fs' d) (K(Watch u := xs, Free := x # K Free))"
  by (rule recycle_lists [OF ok _ Ku, where r = "(ws fs ! (x - 1))\<lparr>wr_ev := None, wr_wlink := free_wlink fs\<rparr>"])
     (use n in \<open>auto simp: fs'_def upd_watch_def upd_fdrec_def head_of_def nth_list_update split: owner.split\<close>)

text \<open>The loop triggers and drops the events of the list in order.\<close>

lemma fd_close_loop_spec:
  assumes "lists_ok (ws fs) (head_of fs d) K" "u < length (fdrs fs)" "K (Watch u) = xs" "length xs \<le> k"
    "fd_close_loop k u (w, fs) = (w', fs')"
  shows "lists_ok (ws fs') (head_of fs' d) (K(Watch u := [], Free := rev xs @ K Free)) \<and>
    w' = fold close_event (map (\<lambda>x. wr_ev (ws fs ! (x - 1))) xs) w \<and> same_rest xs (ws fs) (ws fs') \<and>
    update_head fs' = update_head fs \<and>
    (\<exists>h. fdrs fs' = (fdrs fs)[u := (fdrs fs ! u)\<lparr>fr_whead := h\<rparr>])"
  using assms
proof (induction xs arbitrary: k w fs K)
  case Nil
  have "fr_whead (fdrs fs ! u) = 0"
    using lists_okD(1) [OF Nil(1), of "Watch u"] Nil by (simp add: head_of_def)
  then have "w' = w" "fs' = fs" using Nil by (cases k; simp)+
  moreover have "K(Watch u := [], Free := rev [] @ K Free) = K" using Nil by (auto simp: fun_eq_iff)
  moreover have "\<exists>h. fdrs fs = (fdrs fs)[u := (fdrs fs ! u)\<lparr>fr_whead := h\<rparr>]"
    by (rule exI [of _ "fr_whead (fdrs fs ! u)"]) simp
  moreover have "same_rest [] (ws fs) (ws fs)" by (simp add: same_rest_def)
  ultimately show ?case using Nil(1) by (simp only: list.map fold_simps)
next
  case (Cons x xs)
  then obtain j where k: "k = Suc j" by (cases k) auto
  have sx: "seg (ws fs) (fr_whead (fdrs fs ! u)) (x # xs) 0"
    using lists_okD(1) [OF Cons.prems(1), of "Watch u"] Cons.prems by (simp add: head_of_def)
  then have x: "fr_whead (fdrs fs ! u) = x" "0 < x" "x \<le> length (ws fs)" by auto
  have dx: "x \<notin> set xs" using lists_okD(2) [OF Cons.prems(1), of "Watch u"] Cons.prems(3) by simp
  define f1 where "f1 = (upd_watch x (\<lambda>r. r\<lparr>wr_ev := None, wr_wlink := free_wlink fs\<rparr>)
      (upd_fdrec u (\<lambda>r. r\<lparr>fr_whead := wr_wlink (ws fs ! (x - 1))\<rparr>) fs))\<lparr>free_wlink := x\<rparr>"
  have sr: "same_rest [x] (ws fs) (ws f1)" using x by (auto simp: f1_def upd_watch_def upd_fdrec_def same_rest_def nth_list_update)
  have rest: "map (\<lambda>y. wr_ev (ws f1 ! (y - 1))) xs = map (\<lambda>y. wr_ev (ws fs ! (y - 1))) xs"
  proof (rule map_cong [OF refl])
    fix y assume y: "y \<in> set xs"
    then have "0 < y" "y \<le> length (ws fs)" "y \<notin> set [x]" using seg_range [OF sx, of y] dx by auto
    then show "wr_ev (ws f1 ! (y - 1)) = wr_ev (ws fs ! (y - 1))" using same_rest_nth [OF sr] by simp
  qed
  have "fd_close_loop j u (close_event (wr_ev (ws fs ! (x - 1))) w, f1) = (w', fs')"
    using Cons.prems(5) x k by (simp add: Let_def close_event_def f1_def upd_fdrec_def upd_watch_def)
  note IH = Cons.IH [OF fd_close_step [OF Cons.prems(1-3), folded f1_def] _ _ _ this]
  have "lists_ok (ws fs') (head_of fs' d) (K(Watch u := [], Free := rev xs @ x # K Free)) \<and>
    w' = fold close_event (map (\<lambda>x. wr_ev (ws f1 ! (x - 1))) xs) (close_event (wr_ev (ws fs ! (x - 1))) w) \<and>
    same_rest xs (ws f1) (ws fs') \<and> update_head fs' = update_head f1 \<and>
    (\<exists>h. fdrs fs' = (fdrs f1)[u := (fdrs f1 ! u)\<lparr>fr_whead := h\<rparr>])"
  proof -
    let ?K = "K(Watch u := xs, Free := x # K Free)"
    have "u < length (fdrs f1)" "?K (Watch u) = xs" "length xs \<le> j"
      using Cons.prems k by (simp_all add: f1_def upd_watch_def upd_fdrec_def)
    note R = IH [OF this]
    have "?K(Watch u := [], Free := rev xs @ ?K Free) = K(Watch u := [], Free := rev xs @ x # K Free)"
      by (simp add: fun_eq_iff)
    from R [unfolded this] show ?thesis .
  qed
  moreover have "update_head f1 = update_head fs" "fdrs f1 = (fdrs fs)[u := (fdrs fs ! u)\<lparr>fr_whead := wr_wlink (ws fs ! (x - 1))\<rparr>]"
    by (simp_all add: f1_def upd_watch_def upd_fdrec_def)
  moreover have "same_rest xs (ws f1) (ws fs') \<Longrightarrow> same_rest (x # xs) (ws fs) (ws fs')"
    using sr by (auto simp: same_rest_def)
  moreover have "\<exists>h. fdrs fs' = (fdrs f1)[u := (fdrs f1 ! u)\<lparr>fr_whead := h\<rparr>] \<Longrightarrow>
      \<exists>h. fdrs fs' = (fdrs fs)[u := (fdrs fs ! u)\<lparr>fr_whead := h\<rparr>]"
    using Cons.prems(2) by (auto simp: f1_def upd_watch_def upd_fdrec_def)
  ultimately show ?case
    unfolding rest list.map fold_simps rev.simps append_assoc append_Cons append_Nil by metis
qed

text \<open>Appending a record.\<close>

lemma alloc_watch_spec:
  assumes ok: "lists_ok (ws fs) hh K" and h: "hh Free = free_wlink fs" and r: "alloc_watch m fs = (x, fs1)"
  obtains F N where "0 < x" "x \<le> length (ws fs1)" "same_rest [x] (ws fs) (ws fs1)" "wr_mask (ws fs1 ! (x - 1)) = m"
    "wr_wlink (ws fs1 ! (x - 1)) = 0" "seg (ws fs1) (free_wlink fs1) F 0" "distinct (x # F)"
    "set F \<subseteq> set (K Free)" "x \<in> set (K Free) \<union> set N" "set N \<subseteq> {x}" "\<And>t. set (K t) \<inter> set N = {}"
    "fdrs fs1 = fdrs fs" "update_head fs1 = update_head fs" "\<And>t. t \<noteq> Free \<Longrightarrow> x \<notin> set (K t)"
proof (cases "free_wlink fs = 0")
  case True
  let ?r = "\<lparr>wr_ev = None, wr_mask = m, wr_wlink = link_clean\<rparr>"
  have e: "x = length (ws fs) + 1" "fs1 = fs\<lparr>ws := ws fs @ [?r]\<rparr>" using r True by (auto simp: alloc_watch_def)
  have F: "seg (ws fs) 0 (K Free) 0" using lists_okD(1) [OF ok, of Free] h True by simp
  then have F0: "K Free = []" by (cases "K Free") auto
  have "x \<notin> set (K t)" for t using seg_range [OF lists_okD(1) [OF ok]] e(1) by fastforce
  then show ?thesis
    by (intro that [of "[]" "[x]"]) (auto simp: e F0 True same_rest_def nth_append link_clean_def)
next
  case False
  then have e: "x = free_wlink fs" "fs1 = (upd_watch x (\<lambda>r. r\<lparr>wr_mask := m, wr_wlink := link_clean\<rparr>) fs)
      \<lparr>free_wlink := wr_wlink (ws fs ! (x - 1))\<rparr>"
    using r by (auto simp: alloc_watch_def Let_def)
  have s: "seg (ws fs) x (K Free) 0" using lists_okD(1) [OF ok, of Free] h e by simp
  then obtain F where F: "K Free = x # F" using False e by (cases "K Free") auto
  have x: "0 < x" "x \<le> length (ws fs)" "seg (ws fs) (wr_wlink (ws fs ! (x - 1))) F 0" using s F by auto
  have d: "distinct (x # F)" using lists_okD(2) [OF ok, of Free] F by simp
  have sr: "same_rest [x] (ws fs) (ws fs1)" using x by (auto simp: e(2) upd_watch_def same_rest_def nth_list_update)
  have "seg (ws fs1) (free_wlink fs1) F 0" using seg_same_rest [OF x(3) sr] d by (simp add: e(2) upd_watch_def)
  moreover have "x \<notin> set (K t)" if "t \<noteq> Free" for t using lists_okD(3) [OF ok that] F by auto
  ultimately show ?thesis
    using x d F sr by (intro that [of F "[]"]) (auto simp: e(2) upd_watch_def link_clean_def)
qed

lemma append_watch_spec:
  fixes m e
  assumes I: "fd_inv fs d K" and n: "u < length (fdrs fs)"
  defines "fs' \<equiv> append_watch u m e fs"
  shows "\<exists>x F. fd_inv fs' d (K(Watch u := K (Watch u) @ [x], Free := F)) \<and>
    same_rest (K (Watch u) @ [x]) (ws fs) (ws fs') \<and>
    wr_ev (ws fs' ! (x - 1)) = Some e \<and> wr_mask (ws fs' ! (x - 1)) = m \<and> (\<forall>t. t \<noteq> Free \<longrightarrow> x \<notin> set (K t)) \<and>
    (\<forall>y\<in>set (K (Watch u)). wr_ev (ws fs' ! (y - 1)) = wr_ev (ws fs ! (y - 1)) \<and> wr_mask (ws fs' ! (y - 1)) = wr_mask (ws fs ! (y - 1)))"
proof -
  note ok = fd_invD(1) [OF I]
  let ?L = "K (Watch u)"
  obtain x fs1 where al: "alloc_watch m fs = (x, fs1)" by fastforce
  obtain F N where A: "0 < x" "x \<le> length (ws fs1)" "same_rest [x] (ws fs) (ws fs1)" "wr_mask (ws fs1 ! (x - 1)) = m"
    "wr_wlink (ws fs1 ! (x - 1)) = 0" "seg (ws fs1) (free_wlink fs1) F 0" "distinct (x # F)"
    "set F \<subseteq> set (K Free)" "x \<in> set (K Free) \<union> set N" "set N \<subseteq> {x}" "\<And>t. set (K t) \<inter> set N = {}"
    "fdrs fs1 = fdrs fs" "update_head fs1 = update_head fs" "\<And>t. t \<noteq> Free \<Longrightarrow> x \<notin> set (K t)"
    by (rule alloc_watch_spec [OF ok _ al]) (auto simp: head_of_def)
  have sL: "seg (ws fs) (fr_whead (fdrs fs ! u)) ?L 0" and tl: "fr_wtail (fdrs fs ! u) = last0 ?L"
    using fd_invD(2,3) [OF I n] by auto
  have xL: "x \<notin> set ?L" using A(14) by simp
  have dL: "distinct ?L" using lists_okD(2) [OF ok] .
  have LF: "set ?L \<inter> set F = {}" using lists_okD(3) [OF ok, of "Watch u" Free] A(8) by auto
  have sL1: "seg (ws fs1) (fr_whead (fdrs fs ! u)) ?L 0" using seg_same_rest [OF sL A(3)] xL by auto
  define rs where "rs = (if ?L = [] then ws fs1 else
      (ws fs1)[last ?L - 1 := (ws fs1 ! (last ?L - 1))\<lparr>wr_wlink := x\<rparr>])"
  define rs' where "rs' = rs[x - 1 := (rs ! (x - 1))\<lparr>wr_ev := Some e\<rparr>]"
  define h where "h = (if ?L = [] then x else fr_whead (fdrs fs ! u))"
  have h0: "fr_whead (fdrs fs ! u) = 0 \<longleftrightarrow> ?L = []" using sL by (cases ?L) auto
  have fs': "ws fs' = rs'" "free_wlink fs' = free_wlink fs1" "length (fdrs fs') = length (fdrs fs)"
    "fdrs fs' = (fdrs fs)[u := (fdrs fs ! u)\<lparr>fr_whead := h, fr_wtail := x\<rparr>]"
    using n h0 tl unfolding fs'_def append_watch_def al
    by (auto simp: Let_def upd_watch_def upd_fdrec_def A(12) rs_def rs'_def h_def last0_def)
  have lastL: "?L \<noteq> [] \<Longrightarrow> 0 < last ?L \<and> last ?L \<le> length (ws fs1) \<and> last ?L \<noteq> x \<and> last ?L \<in> set ?L"
    using seg_range [OF sL1, of "last ?L"] xL by (metis last_in_set)
  have len: "length rs = length (ws fs1)" "length rs' = length (ws fs1)" by (simp_all add: rs_def rs'_def)
  have same: "same_rest (?L @ [x]) (ws fs1) rs'"
    using lastL A(1,2) by (auto simp: same_rest_def rs_def rs'_def nth_list_update)
  have fields: "wr_ev (rs' ! (y - 1)) = wr_ev (ws fs1 ! (y - 1)) \<and> wr_mask (rs' ! (y - 1)) = wr_mask (ws fs1 ! (y - 1))"
    if "y \<in> set ?L" for y
  proof -
    have "0 < y" "y \<noteq> x" using seg_range [OF sL1 that] xL that by auto
    then have "y - 1 \<noteq> x - 1" using A(1) by auto
    then show ?thesis using lastL by (auto simp: rs'_def rs_def nth_list_update)
  qed
  have xr: "wr_ev (rs' ! (x - 1)) = Some e" "wr_mask (rs' ! (x - 1)) = m" "wr_wlink (rs' ! (x - 1)) = 0"
  proof -
    have "?L \<noteq> [] \<Longrightarrow> last ?L - 1 \<noteq> x - 1" using lastL A(1) by (metis Suc_pred' One_nat_def)
    then have "rs ! (x - 1) = ws fs1 ! (x - 1)" by (simp add: rs_def)
    then show "wr_ev (rs' ! (x - 1)) = Some e" "wr_mask (rs' ! (x - 1)) = m" "wr_wlink (rs' ! (x - 1)) = 0"
      using A len by (simp_all add: rs'_def)
  qed
  have segL: "seg rs' h (?L @ [x]) 0"
  proof (cases "?L = []")
    case True
    then show ?thesis using A(1,2) xr len by (simp add: h_def)
  next
    case False
    then obtain ys y where y: "?L = ys @ [y]" by (metis rev_exhaust)
    then obtain k where k: "seg (ws fs1) (fr_whead (fdrs fs ! u)) ys k" "k = y" using sL1 by (auto simp: seg_append)
    have yx: "0 < y" "y \<le> length (ws fs1)" "y \<noteq> x" "y \<notin> set ys" using lastL y dL by auto
    have "same_rest (y # [x]) (ws fs1) rs'"
      using yx A(1,2) y by (auto simp: same_rest_def rs_def rs'_def nth_list_update)
    then have "seg rs' (fr_whead (fdrs fs ! u)) ys y"
      using seg_same_rest [OF k(1)] k(2) yx xL y by auto
    moreover have "wr_wlink (rs' ! (y - 1)) = x"
    proof -
      have "y - 1 \<noteq> x - 1" using yx A(1) by auto
      then show ?thesis using y yx by (simp add: rs'_def rs_def)
    qed
    ultimately show ?thesis using False y yx xr len A(1,2) by (auto simp: seg_append h_def)
  qed
  have "lists_ok (ws fs') (head_of fs' d) (K(Watch u := ?L @ [x], Free := F))"
  proof (rule lists_move [OF ok _ _ _ _ _ _ _ A(11)])
    show "same_rest (?L @ K Free @ N) (ws fs) (ws fs')"
      unfolding fs' by (rule same_rest_mono [OF same_rest_trans [OF A(3) same]]) (use A(9) in auto)
    show "seg (ws fs') (head_of fs' d (Watch u)) (?L @ [x]) 0" using segL n by (simp add: fs' head_of_def)
    show "seg (ws fs') (head_of fs' d Free) F 0"
      using seg_same_rest [OF A(6) same] A(7) LF by (auto simp: fs' head_of_def)
    show "distinct ((?L @ [x]) @ F)" using dL xL A(7) LF by auto
    show "set (?L @ [x]) \<union> set F \<subseteq> set ?L \<union> set (K Free) \<union> set N" using A(8,9) by auto
    show "\<forall>y\<in>set (?L @ [x]). wr_ev (ws fs' ! (y - 1)) \<noteq> None"
    proof
      fix y assume y: "y \<in> set (?L @ [x])"
      show "wr_ev (ws fs' ! (y - 1)) \<noteq> None"
      proof (cases "y = x")
        case False
        then have yL: "y \<in> set ?L" using y by simp
        then have "ws fs1 ! (y - 1) = ws fs ! (y - 1)"
          using same_rest_nth [OF A(3), of y] seg_range [OF sL yL] False by simp
        then show ?thesis using lists_okD(4) [OF ok _ yL] fields [OF yL] by (simp add: fs')
      qed (use xr in \<open>simp add: fs'\<close>)
    qed
  qed (use n in \<open>auto simp: head_of_def fs' nth_list_update split: owner.split\<close>)
  moreover have "fr_wtail (fdrs fs' ! i) = last0 ((K(Watch u := ?L @ [x], Free := F)) (Watch i))" if "i < length (fdrs fs)" for i
    using that fd_invD(2) [OF I that] n by (auto simp: fs' nth_list_update last0_def)
  ultimately have "fd_inv fs' d (K(Watch u := ?L @ [x], Free := F))" by (simp add: fd_inv_def fs')
  moreover have "same_rest (?L @ [x]) (ws fs) (ws fs')" 
    unfolding fs' by (rule same_rest_mono [OF same_rest_trans [OF A(3) same]]) auto
  moreover have "ws fs1 ! (y - 1) = ws fs ! (y - 1)" if "y \<in> set ?L" for y
    using same_rest_nth [OF A(3), of y] seg_range [OF sL that] xL that by auto
  ultimately show ?thesis using xr A(14) fields by (intro exI [of _ x] exI [of _ F]) (auto simp: fs')
qed


subsection \<open>The abstract view\<close>

text \<open>
  What the event set promises: for every descriptor the list of watches, an event with its
  mask, in the order of their installation.
\<close>

definition entry :: "watchrec list \<Rightarrow> nat \<Rightarrow> eid \<times> fdmask" where
  "entry rs x = (the (wr_ev (rs ! (x - 1))), wr_mask (rs ! (x - 1)))"

definition watches :: "fdset \<Rightarrow> nat \<Rightarrow> (eid \<times> fdmask) list" where
  "watches fs i = (if i < length (fdrs fs)
     then map (entry (ws fs)) (walk (length (ws fs)) (ws fs) (fr_whead (fdrs fs ! i))) else [])"

definition detached :: "fdset \<Rightarrow> nat \<Rightarrow> (eid \<times> fdmask) list" where
  "detached fs d = map (entry (ws fs)) (walk (length (ws fs)) (ws fs) d)"

definition fdset_ok :: "fdset \<Rightarrow> nat \<Rightarrow> bool" where
  "fdset_ok fs d \<longleftrightarrow> (\<exists>K. fd_inv fs d K)"

lemma watches_K:
  assumes "fd_inv fs d K"
  shows "watches fs i = map (entry (ws fs)) (K (Watch i))" "detached fs d = map (entry (ws fs)) (K Detached)"
proof -
  note ok = fd_invD(1) [OF assms]
  have s: "seg (ws fs) (head_of fs d t) (K t) 0" "distinct (K t)" for t
    using lists_okD(1,2) [OF ok] by auto
  show "detached fs d = map (entry (ws fs)) (K Detached)"
    using walk_of [OF s(1) s(2), of Detached] by (simp add: detached_def head_of_def)
  show "watches fs i = map (entry (ws fs)) (K (Watch i))"
  proof (cases "i < length (fdrs fs)")
    case True
    then show ?thesis using walk_of [OF s(1) s(2), of "Watch i"] by (simp add: watches_def head_of_def)
  next
    case False
    then have "K (Watch i) = []" using s(1) [of "Watch i"] by (cases "K (Watch i)") (auto simp: head_of_def)
    then show ?thesis using False by (simp add: watches_def)
  qed
qed

lemma same_watch_watches: "same_watch fs fs' \<Longrightarrow> watches fs' = watches fs" "same_watch fs fs' \<Longrightarrow> detached fs' = detached fs"
  by (auto simp: same_watch_def watches_def detached_def fun_eq_iff)

lemma entries_same:
  assumes "seg rs h xs e" "same_rest ys rs rs'" "set xs \<inter> set ys = {}"
  shows "map (entry rs') xs = map (entry rs) xs"
proof (rule map_cong [OF refl])
  fix x assume x: "x \<in> set xs"
  have "x \<notin> set ys" using assms(3) x by auto
  then have "rs' ! (x - 1) = rs ! (x - 1)"
    using same_rest_nth [OF assms(2)] seg_range [OF assms(1) x] by auto
  then show "entry rs' x = entry rs x" by (simp add: entry_def)
qed

text \<open>The other lists after a change inside list \<open>t\<close> and fresh or free records.\<close>

lemma watches_frame:
  assumes I: "fd_inv fs d K" and I': "fd_inv fs' d' K'" and sr: "same_rest ys (ws fs) (ws fs')"
    and i: "K' (Watch i) = K (Watch i)" and dj: "set (K (Watch i)) \<inter> set ys = {}"
  shows "watches fs' i = watches fs i"
  using watches_K(1) [OF I] watches_K(1) [OF I'] entries_same [OF lists_okD(1) [OF fd_invD(1) [OF I]] sr dj] i by simp

lemma detached_frame:
  assumes I: "fd_inv fs d K" and I': "fd_inv fs' d' K'" and sr: "same_rest ys (ws fs) (ws fs')"
    and i: "K' Detached = K Detached" and dj: "set (K Detached) \<inter> set ys = {}"
  shows "detached fs' d' = detached fs d"
  using watches_K(2) [OF I] watches_K(2) [OF I'] entries_same [OF lists_okD(1) [OF fd_invD(1) [OF I]] sr dj] i by simp

lemma append_watch_refines:
  assumes ok: "fdset_ok fs d" and n: "u < length (fdrs fs)"
  shows "fdset_ok (append_watch u m e fs) d \<and>
    watches (append_watch u m e fs) = (watches fs)(u := watches fs u @ [(e, m)]) \<and>
    detached (append_watch u m e fs) d = detached fs d"
proof -
  obtain K where I: "fd_inv fs d K" using ok by (auto simp: fdset_ok_def)
  let ?f = "append_watch u m e fs"
  obtain x F where A: "fd_inv ?f d (K(Watch u := K (Watch u) @ [x], Free := F))"
    "same_rest (K (Watch u) @ [x]) (ws fs) (ws ?f)" "wr_ev (ws ?f ! (x - 1)) = Some e" "wr_mask (ws ?f ! (x - 1)) = m"
    "\<And>t. t \<noteq> Free \<Longrightarrow> x \<notin> set (K t)"
    "\<And>y. y \<in> set (K (Watch u)) \<Longrightarrow> wr_ev (ws ?f ! (y - 1)) = wr_ev (ws fs ! (y - 1)) \<and> wr_mask (ws ?f ! (y - 1)) = wr_mask (ws fs ! (y - 1))"
    using append_watch_spec [OF I n, of m e] by blast
  have dj: "set (K t) \<inter> set (K (Watch u) @ [x]) = {}" if "t \<noteq> Watch u" "t \<noteq> Free" for t
    using lists_okD(3) [OF fd_invD(1) [OF I] that(1)] A(5) [OF that(2)] by auto
  have "watches ?f i = watches fs i" if "i \<noteq> u" for i
    by (rule watches_frame [OF I A(1,2)]) (use that dj [of "Watch i"] in auto)
  moreover have "map (entry (ws ?f)) (K (Watch u)) = map (entry (ws fs)) (K (Watch u))"
    using A(6) by (auto simp: entry_def)
  then have "watches ?f u = watches fs u @ [(e, m)]"
    using watches_K(1) [OF A(1), of u] watches_K(1) [OF I, of u] A(3,4) by (simp add: entry_def)
  moreover have "detached ?f d = detached fs d"
    by (rule detached_frame [OF I A(1,2)]) (use dj [of Detached] in auto)
  ultimately show ?thesis using A(1) by (auto simp: fdset_ok_def fun_eq_iff)
qed

lemma fdset_ok_same_watch: "same_watch fs fs' \<Longrightarrow> fdset_ok fs d \<Longrightarrow> fdset_ok fs' d"
  using fd_inv_same_watch unfolding fdset_ok_def by blast

lemma grow_capacity_gt: "0 < n \<Longrightarrow> ufd < grow_capacity ufd n \<and> n \<le> grow_capacity ufd n"
proof (induction ufd n rule: grow_capacity.induct)
  case (1 ufd n)
  then show ?case
    by (cases "n \<le> ufd") (auto simp: grow_capacity.simps [of ufd n] intro: order.trans)
qed

lemma new_capacity_gt: "cap \<le> ufd \<Longrightarrow> ufd < new_capacity ufd cap \<and> cap \<le> new_capacity ufd cap"
proof -
  assume c: "cap \<le> ufd"
  have "ufd < (ufd div 1024 + 1) * 1024" by (simp add: dividend_less_div_times)
  then show ?thesis
    using c grow_capacity_gt [of "max first_capacity (cap * 2)" ufd]
    by (cases "1024 \<le> ufd") (simp_all add: new_capacity_def block_capacity_def first_capacity_def less_max_iff_disj)
qed

lemma hard_ensure_ok:
  assumes ok: "fdset_ok fs d" and c: "length (fdrs fs) \<le> u"
  shows "fdset_ok (hard_ensure u fs) d \<and> watches (hard_ensure u fs) = watches fs \<and>
    detached (hard_ensure u fs) d = detached fs d \<and> u < length (fdrs (hard_ensure u fs)) \<and>
    (\<forall>i<length (fdrs fs). fdrs (hard_ensure u fs) ! i = fdrs fs ! i) \<and>
    (\<forall>i<length (fdrs (hard_ensure u fs)). length (fdrs fs) \<le> i \<longrightarrow> fdrs (hard_ensure u fs) ! i = fdrec_new)"
proof -
  let ?f = "hard_ensure u fs" and ?n = "length (fdrs fs)"
  obtain K where I: "fd_inv fs d K" using ok by (auto simp: fdset_ok_def)
  have len: "length (fdrs ?f) = new_capacity u ?n" "u < new_capacity u ?n" "?n \<le> new_capacity u ?n"
    using new_capacity_gt [OF c] by (auto simp: hard_ensure_def)
  have old: "fdrs ?f ! i = fdrs fs ! i" if "i < ?n" for i using that by (simp add: hard_ensure_def nth_append)
  have new: "fdrs ?f ! i = fdrec_new" if "?n \<le> i" "i < length (fdrs ?f)" for i
    using that len by (simp add: hard_ensure_def nth_append)
  have h: "head_of ?f d = head_of fs d"
    using old new len by (auto simp: head_of_def fun_eq_iff fdrec_new_def link_clean_def hard_ensure_def split: owner.split)
  have K0: "K (Watch i) = []" if "?n \<le> i" for i
    using lists_okD(1) [OF fd_invD(1) [OF I], of "Watch i"] that by (cases "K (Watch i)") (auto simp: head_of_def)
  have w: "ws ?f = ws fs" by (simp add: hard_ensure_def)
  have "fr_wtail (fdrs ?f ! i) = last0 (K (Watch i))" if "i < length (fdrs ?f)" for i
    using that old new fd_invD(2) [OF I, of i] K0 [of i]
    by (cases "i < ?n") (auto simp: fdrec_new_def link_clean_def last0_def)
  then have I': "fd_inv ?f d K" using I by (simp add: fd_inv_def h w)
  have "watches ?f i = watches fs i" for i using watches_K(1) [OF I', of i] watches_K(1) [OF I, of i] w by simp
  moreover have "detached ?f d = detached fs d" using watches_K(2) [OF I'] watches_K(2) [OF I] w by simp
  ultimately show ?thesis using I' len old new by (auto simp: fdset_ok_def)
qed


lemma fd_close_refines:
  assumes ok: "fdset_ok fs d" and r: "fd_close fd io fs = (Some (b, ep), io', fs')"
  shows "fdset_ok fs' d \<and> watches fs' = (watches fs)(ufd_of fd := []) \<and> detached fs' d = detached fs d \<and>
    io' = io\<lparr>io_world := fold close_event (map (\<lambda>p. Some (fst p)) (watches fs (ufd_of fd))) (io_world io)\<rparr> \<and>
    ufd_of fd < length (fdrs fs) \<and> length (fdrs fs') = length (fdrs fs) \<and>
    fr_body (fdrs fs ! ufd_of fd) = Some b \<and> fr_body (fdrs fs' ! ufd_of fd) = None \<and> fb_fd (io_bodies io b) < 0"
proof -
  obtain K where I: "fd_inv fs d K" using ok by (auto simp: fdset_ok_def)
  let ?u = "ufd_of fd"
  have n: "?u < length (fdrs fs)" and b: "fr_body (fdrs fs ! ?u) = Some b" "fb_fd (io_bodies io b) < 0"
    using r by (auto simp: fd_close_def Let_def split: if_splits option.splits prod.splits)
  obtain w fs1 where lp: "fd_close_loop (length (ws fs)) ?u (io_world io, fs) = (w, fs1)" by fastforce
  let ?L = "K (Watch ?u)"
  have sL: "seg (ws fs) (fr_whead (fdrs fs ! ?u)) ?L 0" by (rule fd_invD(3) [OF I n])
  have dL: "distinct ?L" by (rule lists_okD(2) [OF fd_invD(1) [OF I]])
  note C = fd_close_loop_spec [OF fd_invD(1) [OF I] n refl seg_length [OF sL dL] lp]
  let ?K = "K(Watch ?u := [], Free := rev ?L @ K Free)"
  obtain h where h: "fdrs fs1 = (fdrs fs)[?u := (fdrs fs ! ?u)\<lparr>fr_whead := h\<rparr>]" using C by blast
  define fs2 where "fs2 = upd_fdrec ?u (\<lambda>x. x\<lparr>fr_wtail := link_clean, fr_epoch := fr_epoch x + 1\<rparr>) fs1"
  define fs3 where "fs3 = queue_update ?u fs2"
  have res: "fs' = upd_fdrec ?u (\<lambda>x. x\<lparr>fr_body := None\<rparr>) fs3" "io' = io\<lparr>io_world := w\<rparr>"
    using r n b lp by (auto simp: fd_close_def Let_def fs2_def fs3_def)
  have "head_of fs2 d = head_of fs1 d"
    by (auto simp: head_of_def fs2_def upd_fdrec_def fun_eq_iff nth_list_update h n split: owner.split)
  moreover have "fr_wtail (fdrs fs2 ! i) = last0 (?K (Watch i))" if "i < length (fdrs fs)" for i
    using that fd_invD(2) [OF I that] n by (auto simp: fs2_def upd_fdrec_def h nth_list_update last0_def link_clean_def)
  ultimately have I2: "fd_inv fs2 d ?K" using C by (simp add: fd_inv_def fs2_def upd_fdrec_def h)
  have sw: "same_watch fs2 fs'" unfolding res fs3_def
    by (rule same_watch_trans [OF same_watch_queue same_watch_upd]) simp
  have I': "fd_inv fs' d ?K" by (rule fd_inv_same_watch [OF sw I2])
  have w2: "ws fs' = ws fs1" using sw by (simp add: same_watch_def fs2_def upd_fdrec_def)
  have sr: "same_rest ?L (ws fs) (ws fs')" using C w2 by simp
  have dj: "set (K t) \<inter> set ?L = {}" if "t \<noteq> Watch ?u" for t using lists_okD(3) [OF fd_invD(1) [OF I] that] .
  have "watches fs' i = watches fs i" if "i \<noteq> ?u" for i
    by (rule watches_frame [OF I I' sr]) (use that dj [of "Watch i"] in auto)
  moreover have "watches fs' ?u = []" using watches_K(1) [OF I', of ?u] by simp
  moreover have "detached fs' d = detached fs d"
    by (rule detached_frame [OF I I' sr]) (use dj [of Detached] in auto)
  moreover have "map (\<lambda>x. wr_ev (ws fs ! (x - 1))) ?L = map (\<lambda>p. Some (fst p)) (watches fs ?u)"
    unfolding watches_K(1) [OF I] using lists_okD(4) [OF fd_invD(1) [OF I], of "Watch ?u"]
    by (fastforce simp: entry_def)
  then have "w = fold close_event (map (\<lambda>p. Some (fst p)) (watches fs ?u)) (io_world io)" using C by simp
  moreover have "length (fdrs fs') = length (fdrs fs)" using sw by (simp add: same_watch_def fs2_def upd_fdrec_def h)
  moreover have "fr_body (fdrs fs' ! ?u) = None"
  proof -
    have "length (fdrs fs3) = length (fdrs fs)"
      using same_watch_queue [of fs2 ?u] by (simp add: fs3_def same_watch_def fs2_def upd_fdrec_def h)
    then show ?thesis using n by (simp add: res upd_fdrec_def)
  qed
  ultimately show ?thesis using I' n b res by (auto simp: fdset_ok_def fun_eq_iff)
qed

lemma watch_effect:
  assumes ok: "fdset_ok fs d" and fd: "0 \<le> fd" "fd < 2 ^ 31" "m \<noteq> 0"
    and r: "watch fd m b drv io fs = Inr (e, io', fs')"
  shows "fdset_ok fs' d \<and> detached fs' d = detached fs d \<and>
    (\<exists>old. watches fs' = (watches fs)(nat fd := old @ [(e, m)]) \<and>
       (old = watches fs (nat fd) \<or>
        old = [] \<and> nat fd < length (fdrs fs) \<and> fr_body (fdrs fs ! nat fd) \<notin> {None, Some b}))"
proof -
  have u: "ufd_of fd = nat fd" using fd by (simp add: ufd_of_def)
  define f1 where "f1 = (if length (fdrs fs) \<le> nat fd then hard_ensure (nat fd) fs else fs)"
  have f1: "fdset_ok f1 d" "watches f1 = watches fs" "detached f1 d = detached fs d" "nat fd < length (fdrs f1)"
    "length (fdrs fs) \<le> nat fd \<Longrightarrow> fr_body (fdrs f1 ! nat fd) = None"
    "nat fd < length (fdrs fs) \<Longrightarrow> fdrs f1 ! nat fd = fdrs fs ! nat fd"
    using ok hard_ensure_ok [OF ok, of "nat fd"] by (auto simp: f1_def fdrec_new_def)
  obtain io2 f2 where s: "set_fdrec_body (nat fd) b drv fd io f1 = Inr (io2, f2)"
    and e: "e = fst (new_event (io_world io2))" and fs': "fs' = append_watch (nat fd) m e (queue_update (nat fd) f2)"
    using r fd by (auto simp: watch_def Let_def u f1_def [symmetric] split: sum.splits prod.splits)
  have body: "same_watch f (upd_fdrec i (\<lambda>r. r\<lparr>fr_body := v\<rparr>) f)" for f i v by (rule same_watch_upd) simp
  have f2: "fdset_ok f2 d \<and> detached f2 d = detached fs d \<and> length (fdrs f2) = length (fdrs f1) \<and>
    (\<exists>old. watches f2 = (watches fs)(nat fd := old) \<and> (old = watches fs (nat fd) \<or>
       old = [] \<and> nat fd < length (fdrs fs) \<and> fr_body (fdrs fs ! nat fd) \<notin> {None, Some b}))"
  proof (cases "fr_body (fdrs f1 ! nat fd) \<in> {None, Some b}")
    case True
    then have "same_watch f1 f2" using s body by (auto simp: set_fdrec_body_def Let_def same_watch_def split: if_splits)
    then show ?thesis
      using f1 fdset_ok_same_watch [of f1 f2 d] same_watch_watches [of f1 f2]
      by (auto simp: same_watch_def fun_eq_iff intro!: exI [of _ "watches fs (nat fd)"])
  next
    case False
    then obtain b' ep io3 f3 where c: "fd_close fd io f1 = (Some (b', ep), io3, f3)"
      and f2: "f2 = upd_fdrec (nat fd) (\<lambda>r. r\<lparr>fr_body := Some b\<rparr>) f3"
      using s by (auto simp: set_fdrec_body_def Let_def split: option.splits prod.splits)
    have sw: "same_watch f3 f2" unfolding f2 by (rule body)
    have l: "nat fd < length (fdrs fs)" using False f1(5) by (cases "length (fdrs fs) \<le> nat fd") auto
    show ?thesis
      using fd_close_refines [OF f1(1) c] fdset_ok_same_watch [OF sw, of d] same_watch_watches [OF sw] f1 l False u
      by (auto simp: same_watch_def f2 upd_fdrec_def intro!: exI [of _ "[]"])
  qed
  then obtain old where o: "watches f2 = (watches fs)(nat fd := old)" "old = watches fs (nat fd) \<or>
       old = [] \<and> nat fd < length (fdrs fs) \<and> fr_body (fdrs fs ! nat fd) \<notin> {None, Some b}" by blast
  note q = same_watch_queue [of f2 "nat fd"]
  have "nat fd < length (fdrs (queue_update (nat fd) f2))" using q f2 f1(4) by (simp add: same_watch_def)
  from append_watch_refines [OF fdset_ok_same_watch [OF q, of d] this, of m e]
  show ?thesis using f2 o fs' same_watch_watches [OF q] by (auto simp: fun_eq_iff)
qed

subsection \<open>Properties\<close>

text \<open>
  C25: Installing a watch. Whenever \<open>watch\<close> returns for a valid descriptor and mask, the lists
  of the event set stay well-formed and the abstract effect is one append: the new event with
  its mask goes to the end of the descriptor's list, every other descriptor's list and the
  list handed to a caller stay as they are. If the record belonged to another body, the old
  watches are gone.
\<close>

theorem watch_refines:
  assumes ok: "fdset_ok fs d" and fd: "0 \<le> fd" "fd < 2 ^ 31" "m \<noteq> 0"
    and r: "watch fd m b drv io fs = Inr (e, io', fs')"
  shows "fdset_ok fs' d \<and> detached fs' d = detached fs d \<and>
    (\<exists>old. watches fs' = (watches fs)(nat fd := old @ [(e, m)]) \<and>
       (old = watches fs (nat fd) \<or>
        old = [] \<and> nat fd < length (fdrs fs) \<and> fr_body (fdrs fs ! nat fd) \<notin> {None, Some b}))"
  using assms by (rule watch_effect)

text \<open>
  C8: Delivering a descriptor's conditions. \<open>take_watch_list\<close> splits the descriptor's list in
  order: the caller gets the watches whose mask meets the conditions, and those whose event
  nobody can see any more, the others stay, and no other descriptor is touched. A notification
  that carries an old epoch takes nothing.
\<close>

theorem take_watch_list_refines:
  assumes ok: "fdset_ok fs 0" and r: "take_watch_list fd m ep w fs = (wix, fs')" and n: "ufd_of fd < length (fdrs fs)"
  defines "sel \<equiv> \<lambda>(e, k). m AND k \<noteq> 0 \<or> handle_empty w (Some e)"
  shows "if ep = 0 \<or> ep = fr_epoch (fdrs fs ! ufd_of fd)
    then fdset_ok fs' wix \<and> detached fs' wix = filter sel (watches fs (ufd_of fd)) \<and>
      watches fs' = (watches fs)(ufd_of fd := filter (\<lambda>p. \<not> sel p) (watches fs (ufd_of fd)))
    else wix = 0 \<and> fs' = fs"
proof (cases "ep = 0 \<or> ep = fr_epoch (fdrs fs ! ufd_of fd)")
  case True
  obtain K where I: "fd_inv fs 0 K" using ok by (auto simp: fdset_ok_def)
  let ?u = "ufd_of fd"
  let ?L = "K (Watch ?u)"
  let ?K = "K(Watch ?u := filter (\<lambda>x. \<not> tk w m (ws fs) x) ?L, Detached := filter (tk w m (ws fs)) ?L)"
  note T = take_watch_list_spec [OF I r n True]
  have sr: "same_rest ?L (ws fs) (ws fs')" by (rule same_but_rest [OF T(2)])
  have ev: "wr_ev (ws fs ! (x - 1)) \<noteq> None" and rng: "x - 1 < length (ws fs)" if "x \<in> set ?L" for x
    using lists_okD(4) [OF fd_invD(1) [OF I] _ that] seg_range [OF lists_okD(1) [OF fd_invD(1) [OF I]] that] by auto
  have en: "entry (ws fs') x = entry (ws fs) x" if "x \<in> set ?L" for x
    using T(2) rng [OF that] by (simp add: entry_def same_but_def)
  have sel: "sel (entry (ws fs) x) \<longleftrightarrow> tk w m (ws fs) x" if "x \<in> set ?L" for x
    using ev [OF that] by (auto simp: sel_def entry_def taken_def)
  have flt: "map (entry (ws fs')) (filter (tk w m (ws fs)) xs) = filter sel (map (entry (ws fs)) xs)"
    "map (entry (ws fs')) (filter (\<lambda>x. \<not> tk w m (ws fs) x) xs) = filter (\<lambda>p. \<not> sel p) (map (entry (ws fs)) xs)"
    if "set xs \<subseteq> set ?L" for xs
    using that en sel by (induction xs) auto
  have "watches fs' i = watches fs i" if "i \<noteq> ?u" for i
    by (rule watches_frame [OF I T(1) sr]) (use that lists_okD(3) [OF fd_invD(1) [OF I], of "Watch i" "Watch ?u"] in auto)
  moreover have "watches fs' ?u = filter (\<lambda>p. \<not> sel p) (watches fs ?u)"
    using watches_K(1) [OF T(1), of ?u] watches_K(1) [OF I, of ?u] flt(2) [OF order.refl] by simp
  moreover have "detached fs' wix = filter sel (watches fs ?u)"
    using watches_K(2) [OF T(1)] watches_K(1) [OF I, of ?u] flt(1) [OF order.refl] by simp
  ultimately show ?thesis using True T(1) by (auto simp: fdset_ok_def fun_eq_iff)
next
  case False
  then show ?thesis using r n by (auto simp: take_watch_list_def Let_def)
qed



subsection \<open>Descriptor bodies\<close>

text \<open>
  Runs of one body: \<open>fbrun raw io\<close> says that the operations so far left body \<open>0\<close> of \<open>io\<close>. The
  program may copy, drop and close the descriptor while it holds a reference; a driver may
  start to watch it while it is open, and leaves it when it is told that it was closed or when
  it goes away. The notification of the drivers may happen at any later time.
\<close>

definition deref_last :: "iost \<Rightarrow> iost" where
  "deref_last io = (let ((ds, fd, deletable), io) = fd_body_close_begin 0 True io
     in if deletable then fd_body_delete 0 io else io)"

inductive fbrun :: "int \<Rightarrow> iost \<Rightarrow> bool" where
  fb_init: "0 \<le> raw \<Longrightarrow> fbrun raw \<lparr>io_world = w, io_bodies = (\<lambda>_. fd_body_new raw), io_closed = []\<rparr>"
| fb_copy: "fbrun raw io \<Longrightarrow> 0 < fb_ref (io_bodies io 0) \<Longrightarrow> fbrun raw (fd_body_ref 0 io)"
| fb_close: "fbrun raw io \<Longrightarrow> 0 < fb_ref (io_bodies io 0) \<Longrightarrow> fbrun raw (snd (fd_body_close_begin 0 False io))"
| fb_drop: "fbrun raw io \<Longrightarrow> 1 < fb_ref (io_bodies io 0) \<Longrightarrow>
    fbrun raw (upd_body 0 (\<lambda>x. x\<lparr>fb_ref := fb_ref x - 1\<rparr>) io)"
| fb_last: "fbrun raw io \<Longrightarrow> fb_ref (io_bodies io 0) = 1 \<Longrightarrow> fbrun raw (deref_last io)"
| fb_listen: "fbrun raw io \<Longrightarrow> 0 < fb_ref (io_bodies io 0) \<Longrightarrow> 0 \<le> fb_fd (io_bodies io 0) \<Longrightarrow>
    fbrun raw (fd_add_listener 0 d io)"
| fb_leave: "fbrun raw io \<Longrightarrow> d \<in> set (fb_drivers (io_bodies io 0)) \<Longrightarrow> fbrun raw (fd_remove_listener 0 d io)"

definition fb_ok :: "int \<Rightarrow> fd_body \<Rightarrow> int list \<Rightarrow> bool" where
  "fb_ok raw b cs \<longleftrightarrow> 0 \<le> raw \<and> (fb_fd b = raw \<or> fb_fd b = - 1) \<and>
     (fb_base_fd b = raw \<and> cs = [] \<or> fb_base_fd b = - 1 \<and> cs = [raw] \<and> fb_fd b = - 1) \<and>
     (fb_fd b = - 1 \<and> fb_drivers b = [] \<longrightarrow> fb_base_fd b = - 1) \<and> (fb_drivers b \<noteq> [] \<longrightarrow> fb_base_fd b = raw) \<and>
     (fb_ref b = 0 \<longrightarrow> fb_fd b = - 1) \<and> (fb_deleted b \<longleftrightarrow> fb_ref b = 0 \<and> fb_drivers b = [])"

lemma fbrun_ok: "fbrun raw io \<Longrightarrow> fb_ok raw (io_bodies io 0) (io_closed io)"
proof (induction rule: fbrun.induct)
  case (fb_last raw io)
  then show ?case
    by (cases "0 \<le> fb_fd (io_bodies io 0)"; cases "fb_drivers (io_bodies io 0) = []") (auto simp: deref_last_def fb_ok_def fd_body_close_begin_def fd_body_delete_def upd_body_def os_close_def Let_def)
next
  case (fb_leave raw io d)
  let ?b = "io_bodies io 0" and ?ds = "remove_swap d (fb_drivers (io_bodies io 0))"
  have b: "0 \<le> raw" "fb_base_fd ?b = raw" "io_closed io = []" "fb_fd ?b = raw \<or> fb_fd ?b = - 1"
    "fb_ref ?b = 0 \<longrightarrow> fb_fd ?b = - 1" "\<not> fb_deleted ?b"
    using fb_leave by (auto simp: fb_ok_def)
  show ?case
  proof (cases "?ds = []")
    case False
    then show ?thesis using b by (auto simp: fd_remove_listener_def upd_body_def fb_ok_def Let_def)
  next
    case True
    show ?thesis
    proof (cases "fb_fd ?b = - 1")
      case closed: True
      show ?thesis using b True closed
        by (simp add: fd_remove_listener_def fd_body_delete_def upd_body_def os_close_def Let_def fb_ok_def)
    next
      case False
      then show ?thesis using b True by (simp add: fd_remove_listener_def upd_body_def Let_def fb_ok_def)
    qed
  qed
next
  case (fb_close raw io)
  then show ?case
    by (cases "0 \<le> fb_fd (io_bodies io 0)"; cases "fb_drivers (io_bodies io 0) = []")
       (auto simp: fb_ok_def fd_body_close_begin_def upd_body_def os_close_def Let_def)
next
  case (fb_listen raw io d)
  then show ?case by (auto simp: fb_ok_def fd_add_listener_def upd_body_def)
next
  case (fb_copy raw io)
  then show ?case by (simp add: fb_ok_def fd_body_ref_def upd_body_def)
next
  case (fb_drop raw io)
  then show ?case by (simp add: fb_ok_def upd_body_def)
qed (simp add: fb_ok_def fd_body_new_def)

text \<open>
  C9: A descriptor is closed exactly once. Whatever the program and the drivers do with a
  descriptor body, \<open>::close\<close> has been called on its descriptor at most once; it has been called
  exactly when the body is closed and no driver watches it any more; the body is deleted
  exactly when no reference and no driver is left, and then the descriptor is closed.
\<close>

theorem fd_closed_once:
  assumes "fbrun raw io"
  defines "b \<equiv> io_bodies io 0"
  shows "io_closed io = (if fb_fd b < 0 \<and> fb_drivers b = [] then [raw] else []) \<and>
    (fb_deleted b \<longleftrightarrow> fb_ref b = 0 \<and> fb_drivers b = []) \<and> (fb_deleted b \<longrightarrow> io_closed io = [raw])"
  using fbrun_ok [OF assms(1)] by (auto simp: fb_ok_def b_def)

theorem fd_closed_once_witness:
  "io_closed (fd_remove_listener 0 3 (deref_last (fd_add_listener 0 3
     \<lparr>io_world = world_init (\<lambda>_. 0) 0, io_bodies = (\<lambda>_. fd_body_new 5), io_closed = []\<rparr>))) = [5]"
proof -
  let ?i = "\<lparr>io_world = world_init (\<lambda>_. 0) 0, io_bodies = (\<lambda>_. fd_body_new 5), io_closed = []\<rparr>"
  have 1: "fbrun 5 (fd_add_listener 0 3 ?i)"
    by (rule fb_listen [OF fb_init]) (simp_all add: fd_body_new_def)
  have 2: "fbrun 5 (deref_last (fd_add_listener 0 3 ?i))"
    by (rule fb_last [OF 1]) (simp add: fd_add_listener_def upd_body_def fd_body_new_def)
  have 3: "fbrun 5 (fd_remove_listener 0 3 (deref_last (fd_add_listener 0 3 ?i)))"
    by (rule fb_leave [OF 2]) code_simp
  have "fb_deleted (io_bodies (fd_remove_listener 0 3 (deref_last (fd_add_listener 0 3 ?i))) 0)" by code_simp
  then show ?thesis using fd_closed_once [OF 3] by blast
qed

subsection \<open>A sample event set\<close>

definition demo_io :: iost where
  "demo_io = \<lparr>io_world = world_init (\<lambda>_. 0) 0, io_bodies = (\<lambda>b. fd_body_new (int b)), io_closed = []\<rparr>"

definition demo_watch :: "eid \<times> iost \<times> fdset" where
  "demo_watch = (case watch 7 1 7 0 demo_io fdset_new of Inr r \<Rightarrow> r | Inl _ \<Rightarrow> (0, demo_io, fdset_new))"

lemma fdset_new_ok: "fdset_ok fdset_new 0"
  unfolding fdset_ok_def
  by (rule exI [of _ "\<lambda>_. []"])
     (simp add: fd_inv_def lists_ok_def fdset_new_def head_of_def split: owner.split)

lemma watch_fault_cond:
  assumes fd: "0 \<le> fd" "fd < 2 ^ 31" "m \<noteq> 0"
  shows "watch fd m b drv io fs = Inl Nullopt_dereference \<longleftrightarrow>
    nat fd < length (fdrs fs) \<and>
    (\<exists>b'. fr_body (fdrs fs ! nat fd) = Some b' \<and> b' \<noteq> b \<and> 0 \<le> fb_fd (io_bodies io b'))"
proof -
  have u: "ufd_of fd = nat fd" using fd by (simp add: ufd_of_def)
  define f1 where "f1 = (if length (fdrs fs) \<le> nat fd then hard_ensure (nat fd) fs else fs)"
  have new: "fr_body (fdrs f1 ! nat fd) = None \<and> nat fd < length (fdrs f1)" if c: "length (fdrs fs) \<le> nat fd"
  proof -
    have "nat fd - length (fdrs fs) < new_capacity (nat fd) (length (fdrs fs)) - length (fdrs fs)"
      using new_capacity_gt [OF c] c by linarith
    then have "fdrs f1 ! nat fd = fdrec_new" using c by (simp add: f1_def hard_ensure_def nth_append)
    then show ?thesis using new_capacity_gt [OF c] c by (simp add: f1_def hard_ensure_def fdrec_new_def)
  qed
  have "watch fd m b drv io fs = Inl Nullopt_dereference \<longleftrightarrow>
      set_fdrec_body (nat fd) b drv fd io f1 = Inl Nullopt_dereference"
    using fd by (auto simp: watch_def Let_def u f1_def [symmetric] split: sum.splits prod.splits)
  also have "\<dots> \<longleftrightarrow> fr_body (fdrs f1 ! nat fd) \<notin> {None, Some b} \<and> fst (fd_close fd io f1) = None"
    by (auto simp: set_fdrec_body_def Let_def split: option.splits prod.splits)
  also have "\<dots> \<longleftrightarrow> nat fd < length (fdrs fs) \<and>
    (\<exists>b'. fr_body (fdrs fs ! nat fd) = Some b' \<and> b' \<noteq> b \<and> 0 \<le> fb_fd (io_bodies io b'))"
  proof (cases "length (fdrs fs) \<le> nat fd")
    case True
    then show ?thesis using new by simp
  next
    case False
    then have "f1 = fs" by (simp add: f1_def)
    then show ?thesis using False
      by (auto simp: fd_close_def u Let_def split: option.splits prod.splits)
  qed
  finally show ?thesis .
qed

text \<open>
  C32: When \<open>watch\<close> faults. For a valid descriptor and mask it returns an event unless the
  descriptor's record belongs to another body that is still open, in which case the null
  result of \<open>fd_close\<close> is dereferenced.
\<close>

theorem watch_faults_iff:
  assumes fd: "0 \<le> fd" "fd < 2 ^ 31" "m \<noteq> 0"
  shows "watch fd m b drv io fs = Inl Nullopt_dereference \<longleftrightarrow>
    nat fd < length (fdrs fs) \<and>
    (\<exists>b'. fr_body (fdrs fs ! nat fd) = Some b' \<and> b' \<noteq> b \<and> 0 \<le> fb_fd (io_bodies io b'))"
  using assms by (rule watch_fault_cond)

theorem watch_faults_iff_witness:
  "watch 7 1 8 0 demo_io (fdset_new\<lparr>fdrs := replicate 8 (fdrec_new\<lparr>fr_body := Some 7\<rparr>)\<rparr>) = Inl Nullopt_dereference"
proof -
  have "fr_body (replicate 8 (fdrec_new\<lparr>fr_body := Some 7\<rparr>) ! nat 7) = Some 7" by (subst nth_replicate) simp_all
  then show ?thesis by (subst watch_faults_iff) (simp_all add: demo_io_def fd_body_new_def)
qed

lemma demo_watch_returns: "watch 7 1 7 0 demo_io fdset_new = Inr demo_watch"
proof (cases "watch 7 1 7 0 demo_io fdset_new")
  case (Inl f)
  then show ?thesis
    using watch_fault_cond [of 7 1 7 0 demo_io fdset_new] by (cases f) (simp add: fdset_new_def)
qed (simp add: demo_watch_def)

lemma demo_watch_ok:
  shows "fdset_ok (snd (snd demo_watch)) 0" "watches (snd (snd demo_watch)) 7 = [(fst demo_watch, 1)]"
    "ufd_of 7 < length (fdrs (snd (snd demo_watch)))"
proof -
  have w: "watch 7 1 7 0 demo_io fdset_new = Inr (fst demo_watch, fst (snd demo_watch), snd (snd demo_watch))"
    using demo_watch_returns by simp
  from watch_effect [OF fdset_new_ok _ _ _ w]
  show "fdset_ok (snd (snd demo_watch)) 0" and e: "watches (snd (snd demo_watch)) 7 = [(fst demo_watch, 1)]"
    by (auto simp: fdset_new_def watches_def)
  then show "ufd_of 7 < length (fdrs (snd (snd demo_watch)))"
    by (auto simp: watches_def ufd_of_def split: if_splits)
qed

theorem watch_refines_witness:
  "fdset_ok (snd (snd demo_watch)) 0 \<and> watches (snd (snd demo_watch)) 7 = [(fst demo_watch, 1)]"
proof -
  have w: "watch 7 1 7 0 demo_io fdset_new = Inr (fst demo_watch, fst (snd demo_watch), snd (snd demo_watch))"
    using demo_watch_returns by simp
  from watch_refines [OF fdset_new_ok _ _ _ w] show ?thesis by (auto simp: fdset_new_def watches_def)
qed

theorem take_watch_list_refines_witness:
  "let fs = snd (snd demo_watch); w = io_world (fst (snd demo_watch)); (wix, fs') = take_watch_list 7 1 0 w fs in
     detached fs' wix = [(fst demo_watch, 1)] \<and> watches fs' 7 = []"
proof -
  let ?fs = "snd (snd demo_watch)" and ?w = "io_world (fst (snd demo_watch))"
  note ok = demo_watch_ok
  obtain wix fs' where t: "take_watch_list 7 1 0 ?w ?fs = (wix, fs')" by fastforce
  from take_watch_list_refines [OF ok(1) t ok(3)] show ?thesis using t ok(2) by (simp add: ufd_of_def)
qed


end
