(* ===== verification/Driver.thy ===== *)
theory Driver
  imports TimerHeap FdSet EventReach
begin

text \<open>
  The driver: clocks, timers, queues, descriptor events and the event loop
  (\<^verbatim>\<open>cotamer_impl.hh\<close>, \<^verbatim>\<open>cotamer.cc\<close>, \<^verbatim>\<open>io.cc\<close>, with epoll as the kernel notifier).

  A state has all drivers of the process, the event store, the descriptor bodies and the
  kernel calls made so far. Everything the loop cannot determine is in an environment: what a
  resumed coroutine does, the clocks, what the kernel reports, and whether a call to the
  kernel fails. Times are integers, in ticks of the steady clock (nanoseconds). The queues
  \<^verbatim>\<open>asap_\<close> and \<^verbatim>\<open>migrate_\<close> are part of the event store; \<^verbatim>\<open>df_nonempty\<close> in \<^verbatim>\<open>lock_\<close> is set with every
  entry of \<^verbatim>\<open>migrate_\<close> and \<^verbatim>\<open>migrate_fd_close_\<close> and cleared when both are taken, so it says
  that one of them is not empty.
\<close>

unbundle bit_operations_syntax

subsection \<open>State\<close>

record driver =
  virtual_epoch :: int
  snow :: int
  dr_clearing :: bool
  real_time :: bool
  guard_count :: int
  timed :: "eid timer_heap"
  keepalives :: "eid list"
  dr_migrate_fd :: "int list"
  nfdctl :: u32
  fdctl :: "64 word list"
  fds :: fdset

definition driver_new :: "bool \<Rightarrow> driver" where
  "driver_new global_real_time =
     \<lparr>virtual_epoch = 1634070069 * 1000000000, snow = 0, dr_clearing = False, real_time = global_real_time,
      guard_count = 0, timed = timer_heap_new, keepalives = [], dr_migrate_fd = [], nfdctl = 0,
      fdctl = [], fds = fdset_new\<rparr>"

text \<open>A call of \<^verbatim>\<open>epoll_ctl\<close>: operation, descriptor, event mask, data word. \<open>sy_ctl\<close> has the calls of each driver.\<close>

datatype ctl_op = EPOLL_CTL_ADD | EPOLL_CTL_MOD | EPOLL_CTL_DEL

record ctl_call =
  ctl_op :: ctl_op
  ctl_fd :: int
  ctl_events :: u32
  ctl_data :: "64 word"

record sys =
  sy_io :: iost
  sy_drv :: "did \<Rightarrow> driver"
  sy_ctl :: "did \<Rightarrow> ctl_call list"

datatype wait_result = Wait_failed bool | Ready "(u32 \<times> 64 word) list"

text \<open>\<open>Wait_failed True\<close> is a call interrupted by a signal.\<close>

record env =
  resume :: "cid \<Rightarrow> sys \<Rightarrow> sys"
  steady_clock :: "sys \<Rightarrow> int"
  system_clock :: "sys \<Rightarrow> int"
  epoll_wait :: "int \<Rightarrow> sys \<Rightarrow> wait_result"
  ctl_fails :: "ctl_call \<Rightarrow> bool"
  wakefd :: int

definition sy_world :: "sys \<Rightarrow> world" where
  "sy_world s = io_world (sy_io s)"

definition upd_world :: "(world \<Rightarrow> world) \<Rightarrow> sys \<Rightarrow> sys" where
  "upd_world f s = s\<lparr>sy_io := (sy_io s)\<lparr>io_world := f (io_world (sy_io s))\<rparr>\<rparr>"

definition upd_drv :: "did \<Rightarrow> (driver \<Rightarrow> driver) \<Rightarrow> sys \<Rightarrow> sys" where
  "upd_drv d f s = s\<lparr>sy_drv := (sy_drv s)(d := f (sy_drv s d))\<rparr>"

subsection \<open>Clocks\<close>

datatype clock = Real_time | Virtual_time

definition driver_clock :: "driver \<Rightarrow> clock" where
  "driver_clock dr = (if real_time dr then Real_time else Virtual_time)"

definition set_clock :: "clock \<Rightarrow> driver \<Rightarrow> driver" where
  "set_clock ct dr = dr\<lparr>real_time := (ct = Real_time)\<rparr>"

definition driver_now :: "env \<Rightarrow> did \<Rightarrow> sys \<Rightarrow> int" where
  "driver_now env d s =
     (if real_time (sy_drv s d) then system_clock env s
      else virtual_epoch (sy_drv s d) + snow (sy_drv s d))"

definition steady_now :: "env \<Rightarrow> did \<Rightarrow> sys \<Rightarrow> int" where
  "steady_now env d s = (if real_time (sy_drv s d) then steady_clock env s else snow (sy_drv s d))"

definition step_time :: "did \<Rightarrow> sys \<Rightarrow> sys" where
  "step_time d = upd_drv d (\<lambda>dr. if real_time dr then dr else dr\<lparr>snow := snow dr + 1\<rparr>)"

definition driver_nonempty :: "did \<Rightarrow> sys \<Rightarrow> bool" where
  "driver_nonempty d s \<longleftrightarrow> migrate_q (sy_world s) d \<noteq> [] \<or> dr_migrate_fd (sy_drv s d) \<noteq> []"

definition driver_empty :: "did \<Rightarrow> sys \<Rightarrow> bool" where
  "driver_empty d s \<longleftrightarrow> th_empty (timed (sy_drv s d)) \<and> nfdctl (sy_drv s d) = 0 \<and>
     \<not> has_update (fds (sy_drv s d)) \<and> \<not> driver_nonempty d s \<and> guard_count (sy_drv s d) = 0 \<and>
     keepalives (sy_drv s d) = []"

text \<open>Conversion of timeouts for the kernel. The \<^verbatim>\<open>int\<close> result of the second keeps 32 bits.\<close>

definition duration_timespec :: "int \<Rightarrow> int \<times> int" where
  "duration_timespec d =
     (if d \<le> 0 then (0, 0) else let sec = d div 1000000000 in (sec, d - sec * 1000000000))"

definition duration_milliseconds :: "int \<Rightarrow> int" where
  "duration_milliseconds d = (if d \<le> 0 then 0 else signed_take_bit 31 (d div 1000000))"

subsection \<open>Scheduling\<close>

text \<open>Events are passed by value: the caller has counted a reference for the argument.\<close>

definition keepalive :: "did \<Rightarrow> eid option \<Rightarrow> sys \<Rightarrow> sys" where
  "keepalive d h s =
     (case h of
        None \<Rightarrow> s
      | Some e \<Rightarrow>
          if ef_triggered (evs (sy_world s) e) then upd_world (handle_dtor e) s
          else upd_drv d (\<lambda>dr. dr\<lparr>keepalives := keepalives dr @ [e]\<rparr>) s)"

definition asap_event :: "did \<Rightarrow> eid option \<Rightarrow> sys \<Rightarrow> sys" where
  "asap_event d h s =
     (case h of
        None \<Rightarrow> s
      | Some e \<Rightarrow> upd_world (\<lambda>w. w\<lparr>asap_q := (asap_q w)(d := asap_q w d @ [e])\<rparr>) s)"

definition asap_new :: "did \<Rightarrow> sys \<Rightarrow> eid option \<times> sys" where
  "asap_new d s =
     (let (e, w) = new_event (sy_world s)
      in (Some e, asap_event d (Some e) (upd_world (\<lambda>_. ref 1 e w) s)))"

definition timer_emp :: "world \<Rightarrow> eid \<Rightarrow> bool" where
  "timer_emp w e = handle_empty w (Some e)"

definition at_event :: "did \<Rightarrow> int \<Rightarrow> eid option \<Rightarrow> sys \<Rightarrow> sys" where
  "at_event d t h s =
     (case h of
        None \<Rightarrow> s
      | Some e \<Rightarrow>
          let (hp, w) = emplace timer_emp handle_dtor t e (timed (sy_drv s d)) (sy_world s)
          in upd_drv d (\<lambda>dr. dr\<lparr>timed := hp\<rparr>) (upd_world (\<lambda>_. w) s))"

definition at_new :: "did \<Rightarrow> int \<Rightarrow> sys \<Rightarrow> eid option \<times> sys" where
  "at_new d t s =
     (if \<not> real_time (sy_drv s d) \<and> t \<le> snow (sy_drv s d) then (None, s)
      else
        let (e, w) = new_event (sy_world s)
        in (Some e, at_event d t (Some e) (upd_world (\<lambda>_. ref 1 e w) s)))"

definition after_event :: "env \<Rightarrow> did \<Rightarrow> int \<Rightarrow> eid option \<Rightarrow> sys \<Rightarrow> sys" where
  "after_event env d t h s = at_event d (steady_now env d s + t) h s"

definition after_new :: "env \<Rightarrow> did \<Rightarrow> int \<Rightarrow> sys \<Rightarrow> eid option \<times> sys" where
  "after_new env d t s = at_new d (steady_now env d s + t) s"

definition at_system_event :: "env \<Rightarrow> did \<Rightarrow> int \<Rightarrow> eid option \<Rightarrow> sys \<Rightarrow> sys" where
  "at_system_event env d t h s = after_event env d (t - driver_now env d s) h s"

definition at_system_new :: "env \<Rightarrow> did \<Rightarrow> int \<Rightarrow> sys \<Rightarrow> eid option \<times> sys" where
  "at_system_new env d t s = after_new env d (t - driver_now env d s) s"

definition driver_clear :: "did \<Rightarrow> sys \<Rightarrow> sys" where
  "driver_clear d = upd_drv d (\<lambda>dr. dr\<lparr>dr_clearing := True\<rparr>)"

subsection \<open>Guards\<close>

text \<open>A guard holds the driver it keeps alive, or nothing.\<close>

definition guard_new :: "did \<Rightarrow> sys \<Rightarrow> did option \<times> sys" where
  "guard_new d s =
     (if \<not> dr_clearing (sy_drv s d)
      then (Some d, upd_drv d (\<lambda>dr. dr\<lparr>guard_count := guard_count dr + 1\<rparr>) s) else (None, s))"

definition guard_dtor :: "did option \<Rightarrow> sys \<Rightarrow> sys" where
  "guard_dtor g s =
     (case g of
        None \<Rightarrow> s
      | Some d \<Rightarrow> if \<not> dr_clearing (sy_drv s d)
                   then upd_drv d (\<lambda>dr. dr\<lparr>guard_count := guard_count dr - 1\<rparr>) s else s)"

text \<open>Target and source after the move.\<close>

definition guard_move :: "did option \<Rightarrow> did option \<times> did option" where
  "guard_move x = (x, None)"

definition guard_move_assign :: "did option \<Rightarrow> did option \<Rightarrow> sys \<Rightarrow> (did option \<times> did option) \<times> sys" where
  "guard_move_assign g x s = ((x, None), guard_dtor g s)"

subsection \<open>The kernel notifier\<close>

definition EPOLLIN :: u32 where "EPOLLIN = 1"
definition EPOLLOUT :: u32 where "EPOLLOUT = 4"
definition EPOLLERR :: u32 where "EPOLLERR = 8"
definition EPOLLHUP :: u32 where "EPOLLHUP = 16"
definition EPOLLRDHUP :: u32 where "EPOLLRDHUP = 8192"

definition mask_out :: "fdmask \<Rightarrow> u32" where
  "mask_out m =
     (if m AND 1 \<noteq> 0 then EPOLLIN OR EPOLLRDHUP else 0) OR
     (if m AND 2 \<noteq> 0 then EPOLLOUT else 0) OR
     (if m AND 4 \<noteq> 0 then EPOLLRDHUP else 0)"

definition mask_in :: "u32 \<Rightarrow> fdmask" where
  "mask_in ev =
     (if ev AND (EPOLLIN OR EPOLLRDHUP OR EPOLLHUP OR EPOLLERR) \<noteq> 0 then 1 else 0) OR
     (if ev AND (EPOLLOUT OR EPOLLHUP OR EPOLLERR) \<noteq> 0 then 2 else 0) OR
     (if ev AND (EPOLLRDHUP OR EPOLLHUP OR EPOLLERR) \<noteq> 0 then 4 else 0)"

definition pack_data :: "int \<Rightarrow> u32 \<Rightarrow> 64 word" where
  "pack_data fd epoch = word_of_int fd OR push_bit 32 (ucast epoch)"

definition unpack_data :: "64 word \<Rightarrow> int \<times> u32" where
  "unpack_data x = (signed_take_bit 31 (uint (x AND 4294967295)), ucast (drop_bit 32 x))"

text \<open>\<^verbatim>\<open>fd_batch::add\<close>: one \<^verbatim>\<open>epoll_ctl\<close>; \<open>None\<close> is the exception.\<close>

definition batch_add :: "env \<Rightarrow> did \<Rightarrow> fd_update \<Rightarrow> fdmask \<Rightarrow> sys \<Rightarrow> sys option" where
  "batch_add env d fdu old_mask s =
     (let call = \<lparr>ctl_op = (if fu_mask fdu \<noteq> 0 then if old_mask \<noteq> 0 then EPOLL_CTL_MOD else EPOLL_CTL_ADD
                             else EPOLL_CTL_DEL),
                  ctl_fd = fu_fd fdu, ctl_events = mask_out (fu_mask fdu),
                  ctl_data = pack_data (fu_fd fdu) (fu_epoch fdu)\<rparr>
      in if ctl_fails env call then None else Some (s\<lparr>sy_ctl := (sy_ctl s)(d := sy_ctl s d @ [call])\<rparr>))"

text \<open>\<^verbatim>\<open>fd_batch::pop\<close>: events without a condition are skipped.\<close>

fun batch_pop :: "(u32 \<times> 64 word) list \<Rightarrow> (fd_update \<times> (u32 \<times> 64 word) list) option" where
  "batch_pop [] = None"
| "batch_pop ((ev, x) # rdy) =
     (let (fd, epoch) = unpack_data x; m = mask_in ev in
      if m \<noteq> 0 then Some (\<lparr>fu_fd = fd, fu_mask = m, fu_epoch = epoch\<rparr>, rdy) else batch_pop rdy)"

text \<open>The registered masks, four bits per descriptor.\<close>

definition fdctl_mask :: "64 word list \<Rightarrow> nat \<Rightarrow> fdmask" where
  "fdctl_mask xs u =
     (if u div 16 < length xs then ucast (drop_bit (u mod 16 * 4) (xs ! (u div 16)) AND 15) else 0)"

definition fdctl_resize :: "nat \<Rightarrow> 64 word list \<Rightarrow> 64 word list" where
  "fdctl_resize i xs = (if length xs \<le> i then xs @ replicate (i + 1 - length xs) 0 else xs)"

definition fdctl_set :: "nat \<Rightarrow> fdmask \<Rightarrow> fdmask \<Rightarrow> 64 word list \<Rightarrow> 64 word list" where
  "fdctl_set u old_mask new_mask xs =
     xs[u div 16 := xs ! (u div 16) XOR push_bit (u mod 16 * 4) (ucast (old_mask XOR new_mask))]"

definition apply_fd_update :: "env \<Rightarrow> did \<Rightarrow> fd_update \<Rightarrow> sys \<Rightarrow> sys option" where
  "apply_fd_update env d fdu s =
     (let u = ufd_of (fu_fd fdu);
          s = upd_drv d (\<lambda>dr. dr\<lparr>fdctl := fdctl_resize (u div 16) (fdctl dr)\<rparr>) s;
          old_mask = fdctl_mask (fdctl (sy_drv s d)) u
      in if old_mask = fu_mask fdu then Some s
         else
           case batch_add env d fdu old_mask s of
             None \<Rightarrow> None
           | Some s \<Rightarrow>
               Some (upd_drv d (\<lambda>dr. dr\<lparr>fdctl := fdctl_set u old_mask (fu_mask fdu) (fdctl dr),
                        nfdctl := (if old_mask = 0 then nfdctl dr + 1
                                   else if fu_mask fdu = 0 then nfdctl dr - 1 else nfdctl dr)\<rparr>) s))"

definition notify_close :: "env \<Rightarrow> did \<Rightarrow> int \<Rightarrow> sys \<Rightarrow> sys option" where
  "notify_close env d base_fd s =
     (case fd_close base_fd (sy_io s) (fds (sy_drv s d)) of
        (None, _, _) \<Rightarrow> Some s
      | (Some (b, ep), io, fs) \<Rightarrow>
          let s = upd_drv d (\<lambda>dr. dr\<lparr>fds := fs\<rparr>) (s\<lparr>sy_io := io\<rparr>) in
          case apply_fd_update env d \<lparr>fu_fd = base_fd, fu_mask = 0, fu_epoch = ep\<rparr> s of
            None \<Rightarrow> None
          | Some s \<Rightarrow> Some (s\<lparr>sy_io := fd_remove_listener b d (sy_io s)\<rparr>))"

definition migrate_asap :: "did \<Rightarrow> eid \<Rightarrow> sys \<Rightarrow> sys" where
  "migrate_asap d e = upd_world (\<lambda>w. w\<lparr>migrate_q := (migrate_q w)(d := migrate_q w d @ [e])\<rparr>)"

definition migrate_fd_close :: "did \<Rightarrow> int \<Rightarrow> sys \<Rightarrow> sys" where
  "migrate_fd_close d base_fd = upd_drv d (\<lambda>dr. dr\<lparr>dr_migrate_fd := dr_migrate_fd dr @ [base_fd]\<rparr>)"

primrec notify_all :: "env \<Rightarrow> did \<Rightarrow> int list \<Rightarrow> sys \<Rightarrow> sys option" where
  "notify_all env d [] s = Some s"
| "notify_all env d (fd # fdl) s =
     (case notify_close env d fd s of None \<Rightarrow> None | Some s \<Rightarrow> notify_all env d fdl s)"

definition finish_migrate :: "env \<Rightarrow> did \<Rightarrow> sys \<Rightarrow> sys option" where
  "finish_migrate env d s =
     (let fdl = dr_migrate_fd (sy_drv s d);
          s = upd_drv d (\<lambda>dr. dr\<lparr>dr_migrate_fd := []\<rparr>) (upd_world (take_migrated d) s)
      in notify_all env d fdl s)"

definition file_event :: "did \<Rightarrow> nat option \<Rightarrow> fdmask \<Rightarrow> sys \<Rightarrow> io_fault + eid \<times> sys" where
  "file_event d f m s =
     (let b = (case f of None \<Rightarrow> 0 | Some b \<Rightarrow> b);
          fileno = (case f of None \<Rightarrow> - 1 | Some b \<Rightarrow> fb_fd (io_bodies (sy_io s) b))
      in case watch fileno m b d (sy_io s) (fds (sy_drv s d)) of
           Inl x \<Rightarrow> Inl x
         | Inr (e, io, fs) \<Rightarrow> Inr (e, upd_drv d (\<lambda>dr. dr\<lparr>fds := fs\<rparr>) (s\<lparr>sy_io := io\<rparr>)))"

subsection \<open>Descriptor objects\<close>

text \<open>
  \<^verbatim>\<open>fd\<close> objects are handles of bodies. Closing tells every watching driver; a failing kernel
  call inside the notification is an exception, \<open>None\<close>.
\<close>

definition close_notify :: "env \<Rightarrow> did \<Rightarrow> int \<Rightarrow> sys option \<Rightarrow> sys option" where
  "close_notify env d base_fd r =
     (case r of
        None \<Rightarrow> None
      | Some s \<Rightarrow> if d = current (sy_world s) then notify_close env d base_fd s
                   else Some (migrate_fd_close d base_fd s))"

definition body_close :: "env \<Rightarrow> nat \<Rightarrow> bool \<Rightarrow> sys \<Rightarrow> sys option" where
  "body_close env b because_deref s =
     (let ((ds, fd, deletable), io) = fd_body_close_begin b because_deref (sy_io s)
      in case fold (\<lambda>d. close_notify env d fd) ds (Some (s\<lparr>sy_io := io\<rparr>)) of
           None \<Rightarrow> None
         | Some s \<Rightarrow> Some (if deletable then s\<lparr>sy_io := fd_body_delete b (sy_io s)\<rparr> else s))"

definition body_deref :: "env \<Rightarrow> nat \<Rightarrow> sys \<Rightarrow> sys option" where
  "body_deref env b s =
     (if fb_ref (io_bodies (sy_io s) b) = 1 then body_close env b True s
      else Some (s\<lparr>sy_io := upd_body b (\<lambda>x. x\<lparr>fb_ref := fb_ref x - 1\<rparr>) (sy_io s)\<rparr>))"

text \<open>The constructor puts a fresh body at address \<open>b\<close>; a negative descriptor needs none.\<close>

definition fd_new :: "nat \<Rightarrow> int \<Rightarrow> sys \<Rightarrow> nat option \<times> sys" where
  "fd_new b fileno s =
     (if 0 \<le> fileno then (Some b, s\<lparr>sy_io := upd_body b (\<lambda>_. fd_body_new fileno) (sy_io s)\<rparr>) else (None, s))"

definition fd_copy :: "nat option \<Rightarrow> sys \<Rightarrow> nat option \<times> sys" where
  "fd_copy x s = (x, case x of None \<Rightarrow> s | Some b \<Rightarrow> s\<lparr>sy_io := fd_body_ref b (sy_io s)\<rparr>)"

definition fd_drop :: "env \<Rightarrow> nat option \<Rightarrow> sys \<Rightarrow> sys option" where
  "fd_drop env f s = (case f of None \<Rightarrow> Some s | Some b \<Rightarrow> body_deref env b s)"

definition fd_assign_copy :: "env \<Rightarrow> nat option \<Rightarrow> nat option \<Rightarrow> sys \<Rightarrow> (nat option \<times> sys) option" where
  "fd_assign_copy env f x s =
     (if f \<noteq> x then
        case fd_drop env f (snd (fd_copy x s)) of None \<Rightarrow> None | Some s \<Rightarrow> Some (x, s)
      else Some (f, s))"

text \<open>Target and source; the two objects are different.\<close>

definition fd_assign_move :: "env \<Rightarrow> nat option \<Rightarrow> nat option \<Rightarrow> sys \<Rightarrow> ((nat option \<times> nat option) \<times> sys) option" where
  "fd_assign_move env f x s =
     (case fd_drop env f s of None \<Rightarrow> None | Some s \<Rightarrow> Some ((x, None), s))"

definition fd_fileno :: "nat option \<Rightarrow> sys \<Rightarrow> int" where
  "fd_fileno f s = (case f of None \<Rightarrow> - 1 | Some b \<Rightarrow> fb_fd (io_bodies (sy_io s) b))"

definition fd_valid :: "nat option \<Rightarrow> sys \<Rightarrow> bool" where
  "fd_valid f s \<longleftrightarrow> 0 \<le> fd_fileno f s"

definition fd_close_handle :: "env \<Rightarrow> nat option \<Rightarrow> sys \<Rightarrow> sys option" where
  "fd_close_handle env f s = (case f of None \<Rightarrow> Some s | Some b \<Rightarrow> body_close env b False s)"

subsection \<open>The event loop\<close>

text \<open>
  Running the coroutines of one event. Loops that run user code may not end: they are partial,
  and \<open>None\<close> is a loop that does not end or an exception that leaves the driver.
\<close>

partial_function (option) run_coros :: "env \<Rightarrow> bool \<Rightarrow> did \<Rightarrow> eid \<Rightarrow> sys \<Rightarrow> sys option" where
  "run_coros env step d e s =
     (case driver_trigger d e (sy_world s) of
        (None, w) \<Rightarrow> Some (upd_world (\<lambda>_. w) s)
      | (Some c, w) \<Rightarrow>
          run_coros env step d e
            ((if step then step_time d else id) (resume env c (upd_world (\<lambda>_. w) s))))"

text \<open>The handle goes out of scope after its coroutines have run.\<close>

definition run_handle :: "env \<Rightarrow> bool \<Rightarrow> did \<Rightarrow> eid \<Rightarrow> sys \<Rightarrow> sys option" where
  "run_handle env step d e s =
     (case run_coros env step d e s of None \<Rightarrow> None | Some s \<Rightarrow> Some (upd_world (handle_dtor e) s))"

definition asap_quota :: nat where "asap_quota = 4096"

primrec run_asap :: "nat \<Rightarrow> env \<Rightarrow> did \<Rightarrow> sys \<Rightarrow> sys option" where
  "run_asap 0 env d s = Some s"
| "run_asap (Suc n) env d s =
     (case asap_q (sy_world s) d of
        [] \<Rightarrow> Some s
      | e # _ \<Rightarrow>
          (case run_handle env True d e (upd_world (pop_asap d) s) of
             None \<Rightarrow> None
           | Some s \<Rightarrow> run_asap n env d s))"

text \<open>Dead keepalives are dropped from the back.\<close>

fun drop_dead :: "eid list \<Rightarrow> world \<Rightarrow> eid list \<times> world" where
  "drop_dead [] w = ([], w)"
| "drop_dead (e # ks) w =
     (if ef_triggered (evs w e) then drop_dead ks (handle_dtor e w) else (e # ks, w))"

definition drop_keepalives :: "did \<Rightarrow> sys \<Rightarrow> sys" where
  "drop_keepalives d s =
     (let (ks, w) = drop_dead (rev (keepalives (sy_drv s d))) (sy_world s)
      in upd_drv d (\<lambda>dr. dr\<lparr>keepalives := rev ks\<rparr>) (upd_world (\<lambda>_. w) s))"

text \<open>Running the events of a list taken from the event set.\<close>

partial_function (option) run_watch_list :: "env \<Rightarrow> bool \<Rightarrow> did \<Rightarrow> fdmask \<Rightarrow> nat \<Rightarrow> sys \<Rightarrow> sys option" where
  "run_watch_list env step d m wix s =
     (if wix = 0 then Some s
      else
        case pop_watch_list_event wix m (sy_world s) (fds (sy_drv s d)) of
          ((wix', h), w, fs) \<Rightarrow>
            let s = upd_drv d (\<lambda>dr. dr\<lparr>fds := fs\<rparr>) (upd_world (\<lambda>_. w) s) in
            case h of
              None \<Rightarrow> run_watch_list env step d m wix' s
            | Some e \<Rightarrow>
                (case run_handle env step d e s of
                   None \<Rightarrow> None
                 | Some s \<Rightarrow> run_watch_list env step d m wix' s))"

partial_function (option) clear_fds :: "env \<Rightarrow> did \<Rightarrow> int \<Rightarrow> sys \<Rightarrow> sys option" where
  "clear_fds env d fd s =
     (case next_known fd (sy_world s) (fds (sy_drv s d)) of
        None \<Rightarrow> Some s
      | Some fdu \<Rightarrow>
          (case take_watch_list (fu_fd fdu) 7 0 (sy_world s) (fds (sy_drv s d)) of
             (wix, fs) \<Rightarrow>
               (case run_watch_list env False d 0 wix (upd_drv d (\<lambda>dr. dr\<lparr>fds := fs\<rparr>) s) of
                  None \<Rightarrow> None
                | Some s \<Rightarrow> clear_fds env d (fu_fd fdu) s)))"

definition pop_timer :: "did \<Rightarrow> sys \<Rightarrow> eid \<times> sys" where
  "pop_timer d s =
     (let (hp, dead) = th_pop (timed (sy_drv s d)) in (e_value dead, upd_drv d (\<lambda>dr. dr\<lparr>timed := hp\<rparr>) s))"

partial_function (option) clear_timers :: "env \<Rightarrow> did \<Rightarrow> sys \<Rightarrow> sys option" where
  "clear_timers env d s =
     (if th_empty (timed (sy_drv s d)) then Some s
      else
        case pop_timer d s of
          (e, s) \<Rightarrow>
            (case run_handle env False d e s of None \<Rightarrow> None | Some s \<Rightarrow> clear_timers env d s))"

definition process_clearing :: "env \<Rightarrow> did \<Rightarrow> sys \<Rightarrow> sys option" where
  "process_clearing env d s =
     (let s = upd_world (fold handle_dtor (keepalives (sy_drv s d))) s;
          s = upd_drv d (\<lambda>dr. dr\<lparr>keepalives := [], guard_count := 0\<rparr>) s
      in case clear_fds env d (- 1) s of None \<Rightarrow> None | Some s \<Rightarrow> clear_timers env d s)"

text \<open>Registering the changed descriptors with the kernel.\<close>

partial_function (option) apply_updates :: "env \<Rightarrow> did \<Rightarrow> sys \<Rightarrow> sys option" where
  "apply_updates env d s =
     (case pop_update (sy_world s) (fds (sy_drv s d)) of
        (None, _) \<Rightarrow> Some s
      | (Some fdu, fs) \<Rightarrow>
          (case apply_fd_update env d fdu (upd_drv d (\<lambda>dr. dr\<lparr>fds := fs\<rparr>) s) of
             None \<Rightarrow> None
           | Some s \<Rightarrow> apply_updates env d s))"

text \<open>The loop over the events the kernel returned; the wake-up descriptor is the driver's own.\<close>

partial_function (option) run_batch :: "env \<Rightarrow> did \<Rightarrow> (u32 \<times> 64 word) list \<Rightarrow> sys \<Rightarrow> sys option" where
  "run_batch env d rdy s =
     (case batch_pop rdy of
        None \<Rightarrow> Some s
      | Some (fdu, rdy) \<Rightarrow>
          if fu_fd fdu = wakefd env then run_batch env d rdy s
          else
            case take_watch_list (fu_fd fdu) (fu_mask fdu) (fu_epoch fdu) (sy_world s) (fds (sy_drv s d)) of
              (wix, fs) \<Rightarrow>
                (case run_watch_list env True d (fu_mask fdu) wix (upd_drv d (\<lambda>dr. dr\<lparr>fds := fs\<rparr>) s) of
                   None \<Rightarrow> None
                 | Some s \<Rightarrow> run_batch env d rdy s))"

definition watch_fds :: "env \<Rightarrow> did \<Rightarrow> int \<Rightarrow> sys \<Rightarrow> (bool \<times> sys) option" where
  "watch_fds env d timeout s =
     (let timeout = (if driver_nonempty d s then 0 else timeout) in
      case epoll_wait env (duration_milliseconds timeout) s of
        Wait_failed eintr \<Rightarrow> if eintr then Some (False, s) else None
      | Ready rdy \<Rightarrow>
          (case run_batch env d rdy s of None \<Rightarrow> None | Some s \<Rightarrow> Some (0 < length rdy, s)))"

partial_function (option) run_timers :: "env \<Rightarrow> did \<Rightarrow> sys \<Rightarrow> sys option" where
  "run_timers env d s =
     (case top_time (timed (sy_drv s d)) of
        None \<Rightarrow> Some s
      | Some t \<Rightarrow>
          if t \<le> snow (sy_drv s d) then
            case pop_timer d s of
              (e, s) \<Rightarrow> (case run_handle env True d e s of None \<Rightarrow> None | Some s \<Rightarrow> run_timers env d s)
          else Some s)"

definition loop_timeout :: "env \<Rightarrow> did \<Rightarrow> bool \<Rightarrow> sys \<Rightarrow> int" where
  "loop_timeout env d polling s =
     (if asap_q (sy_world s) d \<noteq> [] \<or> \<not> real_time (sy_drv s d) \<or> driver_nonempty d s \<or> polling \<or>
         dr_clearing (sy_drv s d) then 0
      else case top_time (timed (sy_drv s d)) of
             Some t \<Rightarrow> t - steady_now env d s
           | None \<Rightarrow> 3600 * 1000000000)"

definition update_time :: "env \<Rightarrow> did \<Rightarrow> bool \<Rightarrow> sys \<Rightarrow> sys" where
  "update_time env d had_fd_event s =
     (if real_time (sy_drv s d) then upd_drv d (\<lambda>dr. dr\<lparr>snow := steady_now env d s\<rparr>) s
      else if asap_q (sy_world s) d = [] \<and> \<not> had_fd_event then
        case top_time (timed (sy_drv s d)) of
          None \<Rightarrow> s
        | Some t \<Rightarrow> upd_drv d (\<lambda>dr. dr\<lparr>snow := t\<rparr>) s
      else s)"

text \<open>The first half of an iteration, up to the exit test; \<open>quota\<close> bounds the queued events it runs.\<close>

definition loop_prepare :: "nat \<Rightarrow> env \<Rightarrow> did \<Rightarrow> sys \<Rightarrow> sys option" where
  "loop_prepare quota env d s =
     (case (if driver_nonempty d s then finish_migrate env d s else Some s) of
        None \<Rightarrow> None
      | Some s \<Rightarrow>
          (case run_asap quota env d s of
             None \<Rightarrow> None
           | Some s \<Rightarrow>
               let s = drop_keepalives d s in
               (case (if dr_clearing (sy_drv s d) then process_clearing env d s else Some s) of
                  None \<Rightarrow> None
                | Some s \<Rightarrow>
                    (case apply_updates env d s of
                       None \<Rightarrow> None
                     | Some s \<Rightarrow>
                         let (hp, w) = cull timer_emp handle_dtor (timed (sy_drv s d)) (sy_world s)
                         in Some (upd_drv d (\<lambda>dr. dr\<lparr>timed := hp\<rparr>) (upd_world (\<lambda>_. w) s))))))"

definition loop_done :: "did \<Rightarrow> sys \<Rightarrow> bool" where
  "loop_done d s \<longleftrightarrow> th_empty (timed (sy_drv s d)) \<and> nfdctl (sy_drv s d) = 0 \<and> \<not> driver_nonempty d s \<and>
     guard_count (sy_drv s d) = 0 \<and> keepalives (sy_drv s d) = []"

text \<open>The second half: wait, advance the time, run the timers.\<close>

definition loop_wait :: "env \<Rightarrow> did \<Rightarrow> bool \<Rightarrow> sys \<Rightarrow> sys option" where
  "loop_wait env d polling s =
     (let timeout = loop_timeout env d polling s in
      case (if nfdctl (sy_drv s d) = 0 \<and> timeout \<le> 0 then Some (False, s) else watch_fds env d timeout s) of
        None \<Rightarrow> None
      | Some (had_fd_event, s) \<Rightarrow> run_timers env d (update_time env d had_fd_event s))"

text \<open>\<^verbatim>\<open>driver::loop\<close>: the result is \<^verbatim>\<open>true\<close> if the loop was asked to poll and there is more to do.\<close>

partial_function (option) driver_loop :: "env \<Rightarrow> did \<Rightarrow> bool \<Rightarrow> sys \<Rightarrow> (bool \<times> sys) option" where
  "driver_loop env d polling s =
     (case loop_prepare asap_quota env d s of
        None \<Rightarrow> None
      | Some s \<Rightarrow>
          if loop_done d s then Some (False, upd_drv d (\<lambda>dr. dr\<lparr>dr_clearing := False\<rparr>) s)
          else
            case loop_wait env d polling s of
              None \<Rightarrow> None
            | Some s \<Rightarrow> if polling then Some (True, s) else driver_loop env d polling s)"

definition loop_complete :: "env \<Rightarrow> did \<Rightarrow> sys \<Rightarrow> sys option" where
  "loop_complete env d s = (case driver_loop env d False s of None \<Rightarrow> None | Some (_, s) \<Rightarrow> Some s)"

definition driver_poll :: "env \<Rightarrow> did \<Rightarrow> sys \<Rightarrow> (bool \<times> sys) option" where
  "driver_poll env d s = driver_loop env d True s"

text \<open>
  The destructor clears what is left. \<^verbatim>\<open>reset\<close> installs a new driver \<open>d'\<close> as the current one first
  and then destroys the old one.
\<close>

definition driver_dtor :: "env \<Rightarrow> did \<Rightarrow> sys \<Rightarrow> sys option" where
  "driver_dtor env d s =
     (case (if asap_q (sy_world s) d \<noteq> [] \<or> \<not> th_empty (timed (sy_drv s d)) \<or> has_update (fds (sy_drv s d)) \<or>
               nfdctl (sy_drv s d) \<noteq> 0 \<or> driver_nonempty d s \<or> 0 < guard_count (sy_drv s d) \<or>
               keepalives (sy_drv s d) \<noteq> []
            then loop_complete env d (driver_clear d s) else Some s) of
        None \<Rightarrow> None
      | Some s \<Rightarrow> Some (s\<lparr>sy_io := deref_all d (fds (sy_drv s d)) (sy_io s)\<rparr>))"

definition reset_driver :: "env \<Rightarrow> bool \<Rightarrow> did \<Rightarrow> did \<Rightarrow> sys \<Rightarrow> sys option" where
  "reset_driver env global_real_time d d' s =
     driver_dtor env d (upd_world (\<lambda>w. w\<lparr>current := d'\<rparr>) (upd_drv d' (\<lambda>_. driver_new global_real_time) s))"

lemmas loop_unfold = run_coros.simps run_watch_list.simps clear_fds.simps clear_timers.simps
  apply_updates.simps run_batch.simps run_timers.simps driver_loop.simps

declare loop_unfold [code]

end
