(* ===== verification/DriverInv.thy ===== *)
theory DriverInv
  imports Driver
begin

text \<open>
  Properties of the driver: the kernel's interest set mirrors the packed masks, the data word
  and the masks survive the trip through the kernel, timeouts, and when the loop ends. Two
  sample systems show where the loop does not do what its comments say.
\<close>

unbundle bit_operations_syntax

subsection \<open>Registered masks\<close>

lemma bit_fdctl_mask:
  "bit (fdctl_mask xs u) i \<longleftrightarrow> u div 16 < length xs \<and> i < 4 \<and> bit (xs ! (u div 16)) (u mod 16 * 4 + i)"
proof -
  have 15: "bit (15 :: 64 word) j \<longleftrightarrow> j < 4" for j
  proof -
    have "(15 :: 64 word) = mask 4" by (simp add: mask_eq_exp_minus_1)
    then show ?thesis by (simp only: bit_mask_iff possible_bit_word) auto
  qed
  show ?thesis
    by (auto simp: fdctl_mask_def bit_ucast_iff bit_and_iff bit_drop_bit_eq 15 simp del: bit_numeral_word_iff)
qed


lemma small_mask_bits: "(m :: u32) < 16 \<Longrightarrow> bit m i \<Longrightarrow> i < 4"
proof (rule ccontr)
  assume a: "m < 16" "bit m i" "\<not> i < 4"
  have "(16 :: nat) \<le> 2 ^ i" using a(3) power_increasing [of 4 i "2::nat"] by simp
  then have "unat m div 2 ^ i = 0" using a(1) by (simp add: word_less_nat_alt)
  then show False using a(2) by (simp add: bit_word_nat)
qed

lemma fdctl_mask_less: "fdctl_mask xs u < 16"
proof -
  have "fdctl_mask xs u = take_bit 4 (fdctl_mask xs u)"
    by (rule bit_word_eqI) (auto simp: bit_fdctl_mask bit_take_bit_iff)
  then have "unat (fdctl_mask xs u) < 2 ^ 4" by (metis unsigned_take_bit_eq take_bit_nat_less_exp)
  then show ?thesis by (simp add: word_less_nat_alt)
qed

lemma fdctl_mask_set:
  assumes u: "u div 16 < length xs" and old: "old = fdctl_mask xs u" and new: "new < 16"
  shows "fdctl_mask (fdctl_set u old new xs) v = (if v = u then new else fdctl_mask xs v)"
proof (rule bit_word_eqI)
  fix i :: nat
  assume i: "i < LENGTH(32)"
  let ?w = "xs ! (u div 16)" and ?x = "old XOR new"
  have xb: "bit ?x j \<Longrightarrow> j < 4" for j
    using small_mask_bits [OF new] small_mask_bits [OF fdctl_mask_less] by (auto simp: bit_xor_iff old)
  have sh: "bit (push_bit (u mod 16 * 4) (ucast ?x :: 64 word)) j \<longleftrightarrow>
      u mod 16 * 4 \<le> j \<and> j < 64 \<and> bit ?x (j - u mod 16 * 4)" for j
    using xb by (auto simp: bit_push_bit_iff bit_ucast_iff)
  show "bit (fdctl_mask (fdctl_set u old new xs) v) i = bit (if v = u then new else fdctl_mask xs v) i"
  proof (cases "v div 16 = u div 16")
    case False
    then show ?thesis by (auto simp: bit_fdctl_mask fdctl_set_def)
  next
    case True
    have lt: "v mod 16 * 4 + i < 64" if "i < 4" using that using mod_less_divisor [of 16 v] by linarith
    have "bit (fdctl_mask (fdctl_set u old new xs) v) i \<longleftrightarrow>
      i < 4 \<and> (bit ?w (v mod 16 * 4 + i) \<noteq> (u mod 16 * 4 \<le> v mod 16 * 4 + i \<and> bit ?x (v mod 16 * 4 + i - u mod 16 * 4)))"
      using True u lt by (auto simp: bit_fdctl_mask fdctl_set_def bit_xor_iff sh)
    also have "\<dots> \<longleftrightarrow> bit (if v = u then new else fdctl_mask xs v) i"
    proof (cases "v = u")
      case True
      then show ?thesis
        using u small_mask_bits [OF new] by (auto simp: bit_xor_iff old bit_fdctl_mask)
    next
      case False
      then have ne: "v mod 16 \<noteq> u mod 16" using True by (metis div_mult_mod_eq)
      have "\<not> (u mod 16 * 4 \<le> v mod 16 * 4 + i \<and> bit ?x (v mod 16 * 4 + i - u mod 16 * 4))" if "i < 4"
        using xb [of "v mod 16 * 4 + i - u mod 16 * 4"] ne that by linarith
      then show ?thesis using False True u by (auto simp: bit_fdctl_mask)
    qed
    finally show ?thesis .
  qed
qed

lemma fdctl_mask_resize [simp]: "fdctl_mask (fdctl_resize i xs) u = fdctl_mask xs u"
  by (auto simp: fdctl_mask_def fdctl_resize_def nth_append)

text \<open>
  What \<^verbatim>\<open>epoll\<close> has registered after a call: adding a descriptor that is there, or changing or
  removing one that is not, is refused.
\<close>

definition kernel_step :: "ctl_call \<Rightarrow> (int \<Rightarrow> u32 option) \<Rightarrow> (int \<Rightarrow> u32 option) option" where
  "kernel_step c k =
     (case ctl_op c of
        EPOLL_CTL_ADD \<Rightarrow> if k (ctl_fd c) = None then Some (k(ctl_fd c \<mapsto> ctl_events c)) else None
      | EPOLL_CTL_MOD \<Rightarrow> if k (ctl_fd c) \<noteq> None then Some (k(ctl_fd c \<mapsto> ctl_events c)) else None
      | EPOLL_CTL_DEL \<Rightarrow> if k (ctl_fd c) \<noteq> None then Some (k(ctl_fd c := None)) else None)"

definition kernel_run :: "ctl_call list \<Rightarrow> (int \<Rightarrow> u32 option) option" where
  "kernel_run cs = fold (\<lambda>c k. case k of None \<Rightarrow> None | Some k \<Rightarrow> kernel_step c k) cs (Some (\<lambda>_. None))"

definition registered :: "driver \<Rightarrow> nat set" where
  "registered dr = {u. fdctl_mask (fdctl dr) u \<noteq> 0}"

definition kernel_mirror :: "did \<Rightarrow> sys \<Rightarrow> bool" where
  "kernel_mirror d s \<longleftrightarrow> nfdctl (sy_drv s d) = of_nat (card (registered (sy_drv s d))) \<and>
     (\<exists>k. kernel_run (sy_ctl s d) = Some k \<and>
        (\<forall>u<2 ^ 31. k (int u) = (if u \<in> registered (sy_drv s d)
             then Some (mask_out (fdctl_mask (fdctl (sy_drv s d)) u)) else None)))"

lemma finite_registered: "finite (registered dr)"
proof (rule finite_subset)
  show "registered dr \<subseteq> {..<16 * length (fdctl dr)}"
    by (auto simp: registered_def fdctl_mask_def split: if_splits)
qed simp

lemma count_registered:
  assumes "finite R" "u \<in> R \<longleftrightarrow> old \<noteq> 0" "old \<noteq> new" "R' = (if new = 0 then R - {u} else insert u R)"
  shows "(of_nat (card R') :: u32) = (if old = 0 then of_nat (card R) + 1
    else if new = (0 :: fdmask) then of_nat (card R) - 1 else of_nat (card R))"
proof (cases "u \<in> R")
  case True
  then have "0 < card R" using assms(1) by (metis card_gt_0_iff empty_iff)
  then show ?thesis using True assms by (simp add: card_Diff_singleton insert_absorb of_nat_diff)
next
  case False
  then show ?thesis using assms by (auto split: if_splits)
qed

lemma kernel_run_snoc:
  "kernel_run (cs @ [c]) = (case kernel_run cs of None \<Rightarrow> None | Some k \<Rightarrow> kernel_step c k)"
  by (simp add: kernel_run_def)

lemma registered_resize [simp]: "registered (dr\<lparr>fdctl := fdctl_resize i (fdctl dr)\<rparr>) = registered dr"
  by (simp add: registered_def)

text \<open>
  C21: The kernel mirrors the driver. As long as no call fails, applying an update records the
  new mask for its descriptor and no other, the sequence of calls to the kernel stays one that
  the kernel accepts (no descriptor is added twice, changed or removed while absent), the
  kernel has exactly the recorded interests, and \<open>nfdctl_\<close> counts the descriptors with one.
\<close>

theorem apply_fd_update_mirror:
  assumes mi: "kernel_mirror d s" and ok: "\<forall>c. \<not> ctl_fails env c"
    and fd: "0 \<le> fu_fd fdu" "fu_fd fdu < 2 ^ 31" and m: "fu_mask fdu < 16"
  shows "\<exists>s'. apply_fd_update env d fdu s = Some s' \<and> kernel_mirror d s' \<and>
    (\<forall>u. fdctl_mask (fdctl (sy_drv s' d)) u =
       (if u = nat (fu_fd fdu) then fu_mask fdu else fdctl_mask (fdctl (sy_drv s d)) u))"
proof -
  define u where "u = nat (fu_fd fdu)"
  have u: "ufd_of (fu_fd fdu) = u" "fu_fd fdu = int u" "u < 2 ^ 31" using fd by (auto simp: ufd_of_def u_def)
  define xs where "xs = fdctl_resize (u div 16) (fdctl (sy_drv s d))"
  define old where "old = fdctl_mask xs u"
  have xs: "u div 16 < length xs" "fdctl_mask xs = fdctl_mask (fdctl (sy_drv s d))"
    by (auto simp: xs_def fdctl_resize_def fun_eq_iff fdctl_mask_resize [unfolded fdctl_resize_def])
  obtain k where n: "nfdctl (sy_drv s d) = of_nat (card (registered (sy_drv s d)))"
    and k: "kernel_run (sy_ctl s d) = Some k"
      "\<And>v. v < 2 ^ 31 \<Longrightarrow> k (int v) = (if v \<in> registered (sy_drv s d)
             then Some (mask_out (fdctl_mask (fdctl (sy_drv s d)) v)) else None)"
    using mi by (auto simp: kernel_mirror_def)
  show ?thesis
  proof (cases "old = fu_mask fdu")
    case True
    then have "apply_fd_update env d fdu s = Some (upd_drv d (\<lambda>dr. dr\<lparr>fdctl := fdctl_resize (u div 16) (fdctl dr)\<rparr>) s)"
      by (simp add: apply_fd_update_def Let_def u(1) upd_drv_def old_def xs_def)
    then show ?thesis using mi True xs(2)
      by (auto simp: kernel_mirror_def upd_drv_def old_def u_def)
  next
    case False
    define ys where "ys = fdctl_set u old (fu_mask fdu) xs"
    have ys: "fdctl_mask ys v = (if v = u then fu_mask fdu else fdctl_mask (fdctl (sy_drv s d)) v)" for v
      unfolding ys_def using fdctl_mask_set [OF xs(1) _ m, of old v] by (simp add: old_def xs(2))
    let ?c = "\<lparr>ctl_op = (if fu_mask fdu \<noteq> 0 then if old \<noteq> 0 then EPOLL_CTL_MOD else EPOLL_CTL_ADD else EPOLL_CTL_DEL),
       ctl_fd = fu_fd fdu, ctl_events = mask_out (fu_mask fdu), ctl_data = pack_data (fu_fd fdu) (fu_epoch fdu)\<rparr>"
    let ?n = "if old = 0 then nfdctl (sy_drv s d) + 1 else if fu_mask fdu = 0 then nfdctl (sy_drv s d) - 1 else nfdctl (sy_drv s d)"
    obtain s' where s': "apply_fd_update env d fdu s = Some s'" "sy_ctl s' d = sy_ctl s d @ [?c]"
      "fdctl (sy_drv s' d) = ys" "nfdctl (sy_drv s' d) = ?n"
      using False ok
      by (simp add: apply_fd_update_def batch_add_def Let_def u(1) upd_drv_def old_def xs_def ys_def)
    let ?R = "registered (sy_drv s d)" and ?R' = "registered (sy_drv s' d)"
    have R: "u \<in> ?R \<longleftrightarrow> old \<noteq> 0" by (simp add: registered_def old_def xs(2))
    have R': "?R' = (if fu_mask fdu = 0 then ?R - {u} else insert u ?R)"
      by (auto simp: registered_def s'(3) ys)
    have "nfdctl (sy_drv s' d) = of_nat (card ?R')"
      using count_registered [OF finite_registered R False R'] s'(4) n by simp
    moreover have "kernel_step ?c k = Some (k(int u := (if fu_mask fdu = 0 then None else Some (mask_out (fu_mask fdu)))))"
      using k(2) [OF u(3)] R False u(2) by (auto simp: kernel_step_def)
    then have "kernel_run (sy_ctl s' d) = Some (k(int u := (if fu_mask fdu = 0 then None else Some (mask_out (fu_mask fdu)))))"
      using k(1) by (simp add: s'(2) kernel_run_snoc)
    moreover have "(k(int u := (if fu_mask fdu = 0 then None else Some (mask_out (fu_mask fdu))))) (int v) =
        (if v \<in> ?R' then Some (mask_out (fdctl_mask (fdctl (sy_drv s' d)) v)) else None)" if "v < 2 ^ 31" for v
      using k(2) [OF that] R' by (auto simp: s'(3) ys)
    ultimately have "kernel_mirror d s'" by (auto simp: kernel_mirror_def)
    then show ?thesis using s'(1,3) ys u_def by auto
  qed
qed

text \<open>
  The data word and the masks survive the kernel. The descriptor and the epoch packed into
  the 64-bit word come back unchanged, and conditions that the kernel reports exactly as they
  were asked for include every condition asked for.
\<close>

theorem epoll_roundtrip:
  assumes "0 \<le> fd" "fd < 2 ^ 31"
  shows "unpack_data (pack_data fd epoch) = (fd, epoch) \<and> (m < 8 \<longrightarrow> mask_in (mask_out m) AND m = m)"
proof -
  have fb: "bit (word_of_int fd :: 64 word) i \<longleftrightarrow> i < 64 \<and> bit fd i" for i
    by (simp add: bit_word_of_int_iff)
  have hi: "\<not> bit fd i" if "31 \<le> i" for i
  proof -
    have "(2::int) ^ 31 \<le> 2 ^ i" using that by (rule power_increasing) simp
    then have "fd div 2 ^ i = 0" using assms by (intro div_pos_pos_trivial) auto
    then show ?thesis by (simp add: bit_iff_odd)
  qed
  have "pack_data fd epoch AND 4294967295 = word_of_int fd"
  proof (rule bit_word_eqI)
    fix i :: nat assume i: "i < LENGTH(64)"
    have "(4294967295 :: 64 word) = mask 32" by (simp add: mask_eq_exp_minus_1)
    then have "bit (4294967295 :: 64 word) i \<longleftrightarrow> i < 32" using i by (simp only: bit_mask_iff possible_bit_word) auto
    then show "bit (pack_data fd epoch AND 4294967295) i = bit (word_of_int fd :: 64 word) i"
      using hi [of i] i
      by (auto simp: pack_data_def bit_and_iff bit_or_iff bit_push_bit_iff fb simp del: bit_numeral_word_iff)
  qed
  moreover have "uint (word_of_int fd :: 64 word) = fd"
    using assms by (simp add: uint_word_of_int)
  moreover have "signed_take_bit 31 fd = fd"
    using assms by (simp add: signed_take_bit_int_eq_self)
  ultimately have 1: "fst (unpack_data (pack_data fd epoch)) = fd" by (simp add: unpack_data_def)
  have 2: "snd (unpack_data (pack_data fd epoch)) = epoch"
    unfolding unpack_data_def snd_conv
    by (rule bit_word_eqI)
       (auto simp: bit_ucast_iff bit_drop_bit_eq pack_data_def bit_or_iff bit_push_bit_iff fb hi)
  have "mask_in (mask_out m) AND m = m" if "m < 8"
  proof -
    have "unat m < 8" using that by (simp add: word_less_nat_alt)
    then have "unat m \<in> {0, 1, 2, 3, 4, 5, 6, 7}" by auto
    then have "of_nat (unat m) \<in> (of_nat ` {0, 1, 2, 3, 4, 5, 6, 7} :: u32 set)" by blast
    then have "m \<in> {0, 1, 2, 3, 4, 5, 6, 7}" by simp
    then show ?thesis
      by (auto simp: mask_out_def mask_in_def EPOLLIN_def EPOLLOUT_def EPOLLERR_def EPOLLHUP_def EPOLLRDHUP_def)
  qed
  then show ?thesis using 1 2 by (simp add: prod_eq_iff)
qed

theorem epoll_roundtrip_witness:
  "unpack_data (pack_data 9 3) = (9, 3) \<and> mask_in (mask_out 2) AND 2 = 2"
  using epoll_roundtrip [of 9 3 2] by simp


subsection \<open>Timeouts\<close>

text \<open>
  Timeouts reach the kernel unchanged up to rounding. The split into seconds and nanoseconds
  is exact; the number of milliseconds is the timeout rounded down as long as it fits an
  \<open>int\<close>, that is for less than \<open>2 ^ 31\<close> milliseconds.
\<close>

theorem timeout_conversion:
  assumes "0 < d"
  shows "(case duration_timespec d of (sec, nsec) \<Rightarrow> sec * 1000000000 + nsec = d \<and> 0 \<le> nsec \<and> nsec < 1000000000) \<and>
    (d < 2 ^ 31 * 1000000 \<longrightarrow> duration_milliseconds d * 1000000 \<le> d \<and> d < (duration_milliseconds d + 1) * 1000000)"
proof -
  have ts: "case duration_timespec d of (sec, nsec) \<Rightarrow> sec * 1000000000 + nsec = d \<and> 0 \<le> nsec \<and> nsec < 1000000000"
    using assms by (simp add: duration_timespec_def Let_def) (simp add: minus_div_mult_eq_mod)
  have "duration_milliseconds d = d div 1000000" if "d < 2 ^ 31 * 1000000"
    using assms that by (simp add: duration_milliseconds_def signed_take_bit_int_eq_self)
  then show ?thesis using ts by auto
qed

theorem timeout_conversion_witness: "duration_milliseconds 2500000 * 1000000 \<le> 2500000"
  using timeout_conversion [of 2500000] by simp

text \<open>Thirty days do not fit: the kernel is given a negative timeout, which means to wait forever.\<close>

theorem long_timeout_negative: "duration_milliseconds (30 * 24 * 3600 * 1000000000) = - 1702967296"
  by code_simp


subsection \<open>Sample systems\<close>

definition demo_env :: env where
  "demo_env = \<lparr>resume = (\<lambda>_ s. s), steady_clock = (\<lambda>_. 0), system_clock = (\<lambda>_. 0),
     epoll_wait = (\<lambda>_ _. Ready []), ctl_fails = (\<lambda>_. False), wakefd = 3\<rparr>"

definition demo_sys :: sys where
  "demo_sys = \<lparr>sy_io = \<lparr>io_world = world_init (\<lambda>_. 0) 0, io_bodies = (\<lambda>b. fd_body_new (int b)), io_closed = []\<rparr>,
     sy_drv = (\<lambda>_. driver_new False), sy_ctl = (\<lambda>_. [])\<rparr>"

theorem apply_fd_update_mirror_witness:
  "\<exists>s'. apply_fd_update demo_env 0 \<lparr>fu_fd = 5, fu_mask = 1, fu_epoch = 2\<rparr> demo_sys = Some s' \<and> kernel_mirror 0 s' \<and>
     fdctl_mask (fdctl (sy_drv s' 0)) 5 = 1"
proof -
  have "kernel_mirror 0 demo_sys"
    by (simp add: kernel_mirror_def demo_sys_def driver_new_def registered_def fdctl_mask_def kernel_run_def)
  moreover have "\<forall>c. \<not> ctl_fails demo_env c" by (simp add: demo_env_def)
  ultimately show ?thesis
    using apply_fd_update_mirror [of 0 demo_sys demo_env "\<lparr>fu_fd = 5, fu_mask = 1, fu_epoch = 2\<rparr>"] by auto
qed

subsection \<open>The loop and its quota\<close>

text \<open>Running an event that has triggered and has no listener only drops the handle.\<close>

definition spent :: "eid \<Rightarrow> nat \<Rightarrow> world \<Rightarrow> bool" where
  "spent e n w \<longleftrightarrow> ef_triggered (evs w e) \<and> ef_empty (evs w e) \<and> \<not> ef_quorum (evs w e) \<and> n < eb_refcount (evs w e)"

lemma run_handle_spent:
  assumes "spent e 1 (sy_world s)"
  shows "run_handle env st d e s = Some (upd_world (dec_ref e) s)"
proof -
  have "driver_trigger d e (sy_world s) = (None, sy_world s)"
    using assms by (simp add: spent_def driver_trigger_def Let_def)
  then have "run_coros env st d e s = Some (upd_world (\<lambda>_. sy_world s) s)"
    by (subst run_coros.simps) simp
  moreover have "upd_world (\<lambda>_. sy_world s) s = s" by (simp add: upd_world_def sy_world_def)
  moreover have "handle_dtor e w = dec_ref e w" if "spent e 1 w" for w
    using that by (simp add: spent_def handle_dtor_def Let_def)
  then have "upd_world (handle_dtor e) s = upd_world (dec_ref e) s"
    using assms by (simp add: upd_world_def sy_world_def)
  ultimately show ?thesis by (simp add: run_handle_def)
qed

text \<open>What running such an event and its queue entry leaves alone.\<close>

lemma run_asap_spent:
  assumes "asap_q (sy_world s) d = replicate k e @ r" "spent e k (sy_world s)"
  shows "\<exists>s'. run_asap k env d s = Some s' \<and> asap_q (sy_world s') d = r \<and> sy_drv s' = sy_drv s \<and>
    migrate_q (sy_world s') = migrate_q (sy_world s) \<and> (\<forall>x. x \<noteq> e \<longrightarrow> evs (sy_world s') x = evs (sy_world s) x)"
  using assms
proof (induction k arbitrary: s)
  case (Suc k)
  define t where "t = upd_world (dec_ref e) (upd_world (pop_asap d) s)"
  have sp: "spent e 1 (sy_world (upd_world (pop_asap d) s))"
    using Suc.prems(2) by (auto simp: spent_def upd_world_def sy_world_def pop_asap_def)
  have q: "asap_q (sy_world s) d = e # (replicate k e @ r)" using Suc.prems(1) by simp
  have step: "run_asap (Suc k) env d s = run_asap k env d t"
    by (simp add: q run_handle_spent [OF sp] t_def)
  have t: "asap_q (sy_world t) d = replicate k e @ r" "spent e k (sy_world t)" "sy_drv t = sy_drv s"
    "migrate_q (sy_world t) = migrate_q (sy_world s)" "\<And>x. x \<noteq> e \<Longrightarrow> evs (sy_world t) x = evs (sy_world s) x"
    using Suc.prems by (auto simp: t_def spent_def upd_world_def sy_world_def pop_asap_def dec_ref_def upd_def)
  obtain s' where "run_asap k env d t = Some s'" "asap_q (sy_world s') d = r" "sy_drv s' = sy_drv t"
    "migrate_q (sy_world s') = migrate_q (sy_world t)" "\<forall>x. x \<noteq> e \<longrightarrow> evs (sy_world s') x = evs (sy_world t) x"
    using Suc.IH [OF t(1,2)] by blast
  then show ?case using step t(3-5) by auto
qed simp

text \<open>An idle driver: nothing but its queue.\<close>

definition idle_driver :: "driver \<Rightarrow> bool" where
  "idle_driver dr \<longleftrightarrow> es (timed dr) = [] \<and> nfdctl dr = 0 \<and> guard_count dr = 0 \<and> keepalives dr = [] \<and>
     dr_migrate_fd dr = [] \<and> \<not> has_update (fds dr) \<and> \<not> dr_clearing dr"

lemma driver_loop_quota:
  assumes q: "asap_q (sy_world s) d = replicate asap_quota e @ r" and e: "spent e asap_quota (sy_world s)"
    and i: "idle_driver (sy_drv s d)" "migrate_q (sy_world s) d = []"
  shows "\<exists>s'. driver_loop env d polling s = Some (False, s') \<and> asap_q (sy_world s') d = r \<and>
    (\<forall>x. x \<noteq> e \<longrightarrow> evs (sy_world s') x = evs (sy_world s) x)"
proof -
  have ne: "\<not> driver_nonempty d s" using i by (simp add: driver_nonempty_def idle_driver_def)
  obtain t where t: "run_asap asap_quota env d s = Some t" "asap_q (sy_world t) d = r" "sy_drv t = sy_drv s"
    "migrate_q (sy_world t) = migrate_q (sy_world s)" "\<forall>x. x \<noteq> e \<longrightarrow> evs (sy_world t) x = evs (sy_world s) x"
    using run_asap_spent [OF q e] by blast
  have id: "upd_world (\<lambda>_. sy_world x) x = x" "upd_drv d (\<lambda>dr. dr\<lparr>keepalives := keepalives dr\<rparr>) x = x"
    "upd_drv d (\<lambda>dr. dr\<lparr>timed := timed (sy_drv x d)\<rparr>) x = x" for x
    by (simp_all add: upd_world_def sy_world_def upd_drv_def)
  have dk: "drop_keepalives d t = t"
  proof -
    have "(sy_drv t d)\<lparr>keepalives := []\<rparr> = sy_drv t d"
      using i t(3) by (intro driver.equality) (simp_all add: idle_driver_def)
    then have "upd_drv d (\<lambda>dr. dr\<lparr>keepalives := []\<rparr>) t = t" by (simp add: upd_drv_def)
    then show ?thesis using i t(3) by (simp add: drop_keepalives_def idle_driver_def id)
  qed
  have au: "apply_updates env d t = Some t"
    using i t(3) by (subst apply_updates.simps) (simp add: pop_update_def has_update_def idle_driver_def)
  have cu: "cull timer_emp handle_dtor (timed (sy_drv t d)) (sy_world t) = (timed (sy_drv t d), sy_world t)"
    using i t(3) by (subst cull.simps) (simp add: idle_driver_def)
  have "loop_prepare asap_quota env d s = Some t"
    using ne t(1) dk au cu i(1) t(3) id(3) [of t, unfolded t(3)] by (simp add: loop_prepare_def Let_def id idle_driver_def)
  moreover have "loop_done d t"
    using i t(3,4) by (simp add: loop_done_def idle_driver_def th_empty_def driver_nonempty_def)
  ultimately have "driver_loop env d polling s = Some (False, upd_drv d (\<lambda>dr. dr\<lparr>dr_clearing := False\<rparr>) t)"
    by (subst driver_loop.simps) simp
  moreover have "sy_world (upd_drv d (\<lambda>dr. dr\<lparr>dr_clearing := False\<rparr>) t) = sy_world t" by (simp add: upd_drv_def sy_world_def)
  ultimately show ?thesis using t(2,5) by auto
qed


text \<open>
  A driver with 4096 spent events in its queue and, behind them, an event that a coroutine
  waits for. The loop returns and reports that there is nothing to do, while the event is still
  in the queue and the coroutine has not run.
\<close>

definition demo_quota :: sys where
  "demo_quota = upd_world (\<lambda>w. w\<lparr>next_ev := 2,
     evs := (\<lambda>_. event_body_new)(0 := event_body_new\<lparr>eb_refcount := 5000, ef_triggered := True\<rparr>,
                                  1 := event_body_new\<lparr>eb_listeners := [Coro 0], ef_empty := False\<rparr>),
     asap_q := (asap_q w)(0 := replicate 4096 0 @ [1])\<rparr>) demo_sys"

theorem loop_leaves_asap:
  "\<exists>s'. driver_loop demo_env 0 False demo_quota = Some (False, s') \<and> asap_q (sy_world s') 0 = [1] \<and>
     \<not> ef_triggered (evs (sy_world s') 1) \<and> eb_listeners (evs (sy_world s') 1) = [Coro 0]"
proof -
  have q: "asap_q (sy_world demo_quota) 0 = replicate asap_quota 0 @ [1]"
    by (simp add: demo_quota_def asap_quota_def upd_world_def sy_world_def)
  have e: "spent 0 asap_quota (sy_world demo_quota)"
    by (simp add: demo_quota_def upd_world_def sy_world_def spent_def event_body_new_def asap_quota_def)
  have i: "idle_driver (sy_drv demo_quota 0)" "migrate_q (sy_world demo_quota) 0 = []"
    by (simp_all add: demo_quota_def upd_world_def sy_world_def demo_sys_def driver_new_def idle_driver_def
        timer_heap_new_def has_update_def fdset_new_def world_init_def)
  have "evs (sy_world demo_quota) 1 = event_body_new\<lparr>eb_listeners := [Coro 0], ef_empty := False\<rparr>"
    by (simp add: demo_quota_def upd_world_def sy_world_def)
  then show ?thesis
    using driver_loop_quota [OF q e i, of demo_env False] by (auto simp: event_body_new_def)
qed

text \<open>
  Virtual time. A timer is due at time 1; two coroutines that the loop runs before it move the
  clock to 2, and then the clock is set back to the timer's 1.
\<close>

definition demo_time :: sys where
  "demo_time = upd_drv 0 (\<lambda>dr. dr\<lparr>timed := timer_heap_new\<lparr>es := [\<lparr>e_when = 1, e_order = 1, e_value = 0\<rparr>]\<rparr>\<rparr>)
     (upd_world (\<lambda>w. w\<lparr>next_ev := 2, evs := (\<lambda>_. event_body_new\<lparr>eb_refcount := 2\<rparr>)
         (1 := event_body_new\<lparr>eb_refcount := 2, eb_listeners := [Coro 0, Coro 1], ef_empty := False\<rparr>),
        asap_q := (asap_q w)(0 := [1])\<rparr>) demo_sys)"

lemma run_asap_enough:
  "run_asap n env d s = Some t \<Longrightarrow> asap_q (sy_world t) d = [] \<Longrightarrow> n \<le> m \<Longrightarrow> run_asap m env d s = Some t"
proof (induction n arbitrary: m s)
  case 0
  then show ?case by (cases m) auto
next
  case (Suc n)
  then obtain k where m: "m = Suc k" by (cases m) auto
  show ?case using Suc m by (auto split: list.splits option.splits)
qed

lemma loop_prepare_enough:
  assumes "\<not> driver_nonempty d s" "run_asap n env d s = Some t" "asap_q (sy_world t) d = []" "n \<le> m"
  shows "loop_prepare m env d s = loop_prepare n env d s"
  using assms run_asap_enough [OF assms(2-4)] by (simp add: loop_prepare_def)

lemma demo_time_prepare: "loop_prepare asap_quota demo_env 0 demo_time = loop_prepare 2 demo_env 0 demo_time"
proof -
  have "case run_asap 2 demo_env 0 demo_time of None \<Rightarrow> False | Some t \<Rightarrow> asap_q (sy_world t) 0 = []" by code_simp
  then obtain t where "run_asap 2 demo_env 0 demo_time = Some t" "asap_q (sy_world t) 0 = []"
    by (auto split: option.splits)
  moreover have "\<not> driver_nonempty 0 demo_time" by code_simp
  ultimately show ?thesis using loop_prepare_enough [of 0 demo_time 2 demo_env t asap_quota] by (simp add: asap_quota_def)
qed

theorem virtual_time_backwards:
  "case loop_prepare asap_quota demo_env 0 demo_time of
     None \<Rightarrow> False
   | Some s \<Rightarrow> steady_now demo_env 0 s = 2 \<and> \<not> loop_done 0 s \<and>
       (case loop_wait demo_env 0 False s of None \<Rightarrow> False | Some s' \<Rightarrow> steady_now demo_env 0 s' = 1)"
  unfolding demo_time_prepare by code_simp


subsection \<open>When the loop ends\<close>

lemma loop_done_clearing: "loop_done d (upd_drv d (\<lambda>dr. dr\<lparr>dr_clearing := False\<rparr>) s) = loop_done d s"
  by (simp add: loop_done_def driver_nonempty_def upd_drv_def sy_world_def)

lemma driver_loop_result:
  assumes r: "driver_loop env d polling s = Some r"
  shows "if fst r then polling else loop_done d (snd r) \<and> \<not> dr_clearing (sy_drv (snd r) d)"
proof (rule driver_loop.raw_induct [OF _ r])
  fix loop env d polling s y
  assume IH: "\<And>env d polling s r. loop env d polling s = Some r \<Longrightarrow>
      if fst r then polling else loop_done d (snd r) \<and> \<not> dr_clearing (sy_drv (snd r) d)"
    and y: "(case loop_prepare asap_quota env d s of None \<Rightarrow> None
      | Some s \<Rightarrow> if loop_done d s then Some (False, upd_drv d (\<lambda>dr. dr\<lparr>dr_clearing := False\<rparr>) s)
          else case loop_wait env d polling s of None \<Rightarrow> None
            | Some s \<Rightarrow> if polling then Some (True, s) else loop env d polling s) = Some y"
  obtain t where t: "loop_prepare asap_quota env d s = Some t" using y by (auto split: option.splits)
  show "if fst y then polling else loop_done d (snd y) \<and> \<not> dr_clearing (sy_drv (snd y) d)"
  proof (cases "loop_done d t")
    case True
    then have "y = (False, upd_drv d (\<lambda>dr. dr\<lparr>dr_clearing := False\<rparr>) t)" using y t by simp
    then show ?thesis using True by (simp add: loop_done_clearing) (simp add: upd_drv_def)
  next
    case False
    then obtain u where u: "loop_wait env d polling t = Some u" using y t by (auto split: option.splits)
    show ?thesis
    proof (cases polling)
      case True
      then show ?thesis using y t False u by auto
    next
      case np: False
      then have "loop env d polling u = Some y" using y t False u by simp
      then show ?thesis using IH by blast
    qed
  qed
qed




end
