(* ===== verification/Tasks.thy ===== *)
theory Tasks
  imports EventReach
begin

text \<open>
  Tasks (\<^verbatim>\<open>cotamer_impl.hh\<close>, \<^verbatim>\<open>cotamer.cc\<close>): the promise of a coroutine, what happens when a
  coroutine awaits another one, reaches a resolution point or ends, resolution through chains
  of forwarded tasks, the \<^verbatim>\<open>task\<close> object, and the races \<^verbatim>\<open>attempt\<close>, \<^verbatim>\<open>first\<close>, \<^verbatim>\<open>race\<close>.

  Promises live in a store indexed by coroutine. What the body of a coroutine does between two
  suspension points is a parameter \<open>run\<close>, and what the destruction of its locals does is a
  parameter \<open>unwind\<close>. Walks along chains of awaiters, and the loop that drives a coroutine to its
  end, are partial: \<open>None\<close> means that they do not end.
\<close>

subsection \<open>State\<close>

datatype awaiter = No_awaiter | Task_awaiter cid | Event_awaiter eid

datatype cotamer_errc = Cross_driver_await | Detached_await | Unreachable

text \<open>\<^verbatim>\<open>result_\<close>: nothing yet, a value, or an exception.\<close>

datatype 'v outcome = No_result | Value 'v | Exn nat

record 'v promise =
  pr_detached :: bool
  pr_has_interest :: bool
  pr_resolving :: bool
  pr_forwarded :: bool
  pr_in_resolve :: bool
  pr_home :: did
  pr_resolution :: "eid option"
  pr_interest :: "eid option"
  pr_awaiter :: awaiter
  pr_forward :: "cid option"
  pr_done :: bool
  pr_destroyed :: bool
  pr_result :: "'v outcome"

record 'v tsys =
  t_world :: world
  t_pr :: "cid \<Rightarrow> 'v promise"

definition promise_new :: "did \<Rightarrow> 'v promise" where
  "promise_new here = \<lparr>pr_detached = False, pr_has_interest = False, pr_resolving = False,
     pr_forwarded = False, pr_in_resolve = False, pr_home = here, pr_resolution = None,
     pr_interest = None, pr_awaiter = No_awaiter, pr_forward = None, pr_done = False,
     pr_destroyed = False, pr_result = No_result\<rparr>"

definition upd_pr :: "cid \<Rightarrow> ('v promise \<Rightarrow> 'v promise) \<Rightarrow> 'v tsys \<Rightarrow> 'v tsys" where
  "upd_pr c f s = s\<lparr>t_pr := (t_pr s)(c := f (t_pr s c))\<rparr>"

definition upd_tw :: "(world \<Rightarrow> world) \<Rightarrow> 'v tsys \<Rightarrow> 'v tsys" where
  "upd_tw f s = s\<lparr>t_world := f (t_world s)\<rparr>"

text \<open>What runs next: control goes back to the event loop, or to a coroutine.\<close>

datatype next_coro = Noop | Run cid

subsection \<open>Promises\<close>

definition return_value :: "cid \<Rightarrow> 'v \<Rightarrow> 'v tsys \<Rightarrow> 'v tsys" where
  "return_value c v = upd_pr c (\<lambda>p. p\<lparr>pr_result := Value v\<rparr>)"

definition unhandled_exception :: "cid \<Rightarrow> nat \<Rightarrow> 'v tsys \<Rightarrow> 'v tsys" where
  "unhandled_exception c x = upd_pr c (\<lambda>p. p\<lparr>pr_result := Exn x\<rparr>)"

text \<open>\<open>Inl\<close> is the exception that is thrown again; \<^verbatim>\<open>std::get<1>\<close> of an empty result throws too.\<close>

datatype result_exn = Rethrown nat | Bad_variant_access

definition promise_result :: "cid \<Rightarrow> 'v tsys \<Rightarrow> result_exn + 'v" where
  "promise_result c s =
     (case pr_result (t_pr s c) of Exn x \<Rightarrow> Inl (Rethrown x) | Value v \<Rightarrow> Inr v | No_result \<Rightarrow> Inl Bad_variant_access)"

definition awaiter_task :: "'v promise \<Rightarrow> cid option" where
  "awaiter_task p = (case pr_awaiter p of Task_awaiter a \<Rightarrow> Some a | _ \<Rightarrow> None)"

definition awaiter_event :: "'v promise \<Rightarrow> eid option" where
  "awaiter_event p = (case pr_awaiter p of Event_awaiter e \<Rightarrow> Some e | _ \<Rightarrow> None)"

text \<open>The loop of \<^verbatim>\<open>active_awaiter\<close>: the first awaiter that does not itself forward.\<close>

partial_function (option) chase :: "(cid \<Rightarrow> 'v promise) \<Rightarrow> cid option \<Rightarrow> cid option option" where
  "chase pr a =
     (case a of
        None \<Rightarrow> Some None
      | Some c \<Rightarrow> if pr_forward (pr c) \<noteq> None then chase pr (awaiter_task (pr c)) else Some (Some c))"

definition active_awaiter :: "(cid \<Rightarrow> 'v promise) \<Rightarrow> cid \<Rightarrow> cid option option" where
  "active_awaiter pr c = chase pr (awaiter_task (pr c))"

text \<open>The interest event, made on demand; it is null once \<^verbatim>\<open>start\<close> has announced interest.\<close>

definition make_interest :: "cid \<Rightarrow> 'v tsys \<Rightarrow> eid option \<times> 'v tsys" where
  "make_interest c s =
     (if \<not> pr_has_interest (t_pr s c) then
        let (e, w) = new_event (t_world s)
        in (Some e, upd_pr c (\<lambda>p. p\<lparr>pr_interest := Some e, pr_has_interest := True\<rparr>) (upd_tw (\<lambda>_. w) s))
      else (pr_interest (t_pr s c), s))"

definition promise_resolution :: "cid \<Rightarrow> 'v tsys \<Rightarrow> eid option \<times> 'v tsys" where
  "promise_resolution c s =
     (let s = (if pr_resolution (t_pr s c) = None \<and> \<not> pr_resolving (t_pr s c) then
                 let (e, w) = new_event (t_world s)
                 in upd_pr c (\<lambda>p. p\<lparr>pr_resolution := Some e\<rparr>) (upd_tw (\<lambda>_. w) s)
               else s);
          h = pr_resolution (t_pr s c)
      in (h, upd_tw (copy_handle h) s))"

text \<open>Dropping the resolution event of a promise.\<close>

definition drop_resolution :: "cid \<Rightarrow> 'v tsys \<Rightarrow> 'v tsys" where
  "drop_resolution c s =
     upd_pr c (\<lambda>p. p\<lparr>pr_resolution := None\<rparr>) (upd_tw (handle_drop (pr_resolution (t_pr s c))) s)"

partial_function (option) resolution_point :: "cid \<Rightarrow> 'v tsys \<Rightarrow> 'v tsys option" where
  "resolution_point c s =
     (let s = upd_pr c (\<lambda>p. p\<lparr>pr_resolving := True\<rparr>) s;
          s = upd_tw (\<lambda>w. snd (event_trigger (pr_resolution (t_pr s c)) w)) s
      in case pr_awaiter (t_pr s c) of
           No_awaiter \<Rightarrow> Some s
         | Task_awaiter a \<Rightarrow> if pr_forward (t_pr s a) \<noteq> None then resolution_point a s else Some s
         | Event_awaiter e \<Rightarrow> Some (upd_tw (\<lambda>w. snd (trigger e w)) s))"

definition clear_awaiter :: "cid \<Rightarrow> 'v tsys \<Rightarrow> 'v tsys" where
  "clear_awaiter c s =
     (case awaiter_task (t_pr s c) of
        None \<Rightarrow> s
      | Some a \<Rightarrow>
          if pr_forward (t_pr s a) \<noteq> None then
            drop_resolution a (upd_pr a (\<lambda>p. p\<lparr>pr_forward := None, pr_resolving := False\<rparr>) s)
          else s)"

text \<open>
  \<^verbatim>\<open>prepare_awaiter\<close>: coroutine \<open>a\<close> awaits task \<open>c\<close>. The errors are checked before anything
  changes.
\<close>

definition prepare_checks :: "cid \<Rightarrow> cid \<Rightarrow> 'v tsys \<Rightarrow> cotamer_errc option" where
  "prepare_checks c a s =
     (if pr_home (t_pr s c) \<noteq> pr_home (t_pr s a) then Some Cross_driver_await
      else if pr_detached (t_pr s c) then Some Detached_await
      else None)"

definition record_awaiter :: "cid \<Rightarrow> cid \<Rightarrow> 'v tsys \<Rightarrow> 'v tsys" where
  "record_awaiter c a s =
     (let s = upd_tw (\<lambda>w. snd (event_trigger (pr_interest (t_pr s c)) w)) s;
          s = upd_pr c (\<lambda>p. p\<lparr>pr_awaiter := Task_awaiter a\<rparr>) s
      in if pr_forwarded (t_pr s c) then
           upd_pr a (\<lambda>p. p\<lparr>pr_forward := Some c\<rparr>) (upd_pr c (\<lambda>p. p\<lparr>pr_forwarded := False\<rparr>) s)
         else s)"

definition prepare_awaiter :: "cid \<Rightarrow> cid \<Rightarrow> 'v tsys \<Rightarrow> (cotamer_errc + next_coro \<times> 'v tsys) option" where
  "prepare_awaiter c a s =
     (case prepare_checks c a s of
        Some err \<Rightarrow> Some (Inl err)
      | None \<Rightarrow>
          let s = record_awaiter c a s in
          if pr_resolving (t_pr s c) then
            (case active_awaiter (t_pr s) c of
               None \<Rightarrow> None
             | Some (Some _) \<Rightarrow>
                 Some (Inr (Run c, drop_resolution c (upd_pr c (\<lambda>p. p\<lparr>pr_resolving := False\<rparr>) s)))
             | Some None \<Rightarrow>
                 (case resolution_point a s of None \<Rightarrow> None | Some s \<Rightarrow> Some (Inr (Noop, s))))
          else Some (Inr (Noop, s)))"

subsection \<open>Suspension and destruction\<close>

text \<open>Destroying a frame: the locals first, then the promise with its two event handles.\<close>

definition destroy_frame :: "(cid \<Rightarrow> 'v tsys \<Rightarrow> 'v tsys) \<Rightarrow> cid \<Rightarrow> 'v tsys \<Rightarrow> 'v tsys" where
  "destroy_frame unwind c s =
     (let s = unwind c s;
          s = upd_tw (\<lambda>w. handle_drop (pr_resolution (t_pr s c)) (handle_drop (pr_interest (t_pr s c)) w)) s
      in upd_pr c (\<lambda>p. p\<lparr>pr_resolution := None, pr_interest := None, pr_destroyed := True\<rparr>) s)"

text \<open>\<^verbatim>\<open>task_final_awaiter\<close>: the coroutine has completed.\<close>

definition final_suspend :: "(cid \<Rightarrow> 'v tsys \<Rightarrow> 'v tsys) \<Rightarrow> cid \<Rightarrow> 'v tsys \<Rightarrow> (next_coro \<times> 'v tsys) option" where
  "final_suspend unwind c s =
     (case resolution_point c s of
        None \<Rightarrow> None
      | Some s \<Rightarrow>
          Some (case awaiter_task (t_pr s c) of
             Some a \<Rightarrow>
               if \<not> pr_in_resolve (t_pr s c) then (Run a, s)
               else (Noop, if pr_detached (t_pr s c) then destroy_frame unwind c s else s)
           | None \<Rightarrow> (Noop, if pr_detached (t_pr s c) then destroy_frame unwind c s else s)))"

text \<open>\<^verbatim>\<open>task_resolution_awaiter\<close>: the coroutine has reached \<^verbatim>\<open>co_await resolve{}\<close>.\<close>

definition resolve_suspend :: "(cid \<Rightarrow> 'v tsys \<Rightarrow> 'v tsys) \<Rightarrow> cid \<Rightarrow> 'v tsys \<Rightarrow> (next_coro \<times> 'v tsys) option" where
  "resolve_suspend unwind c s =
     (case active_awaiter (t_pr s) c of
        None \<Rightarrow> None
      | Some (Some _) \<Rightarrow> Some (Run c, s)
      | Some None \<Rightarrow>
          (case resolution_point c s of
             None \<Rightarrow> None
           | Some s \<Rightarrow> Some (Noop, if pr_detached (t_pr s c) then destroy_frame unwind c s else s)))"

text \<open>\<^verbatim>\<open>task_promise_base::resolve\<close>: \<open>run\<close> resumes a coroutine until it suspends or completes.\<close>

partial_function (option) promise_resolve ::
    "(cid \<Rightarrow> 'v tsys \<Rightarrow> 'v tsys) \<Rightarrow> cid \<Rightarrow> 'v tsys \<Rightarrow> (cotamer_errc + bool \<times> 'v tsys) option" where
  "promise_resolve run c s =
     (if pr_done (t_pr s c) then Some (Inr (True, s))
      else if \<not> pr_resolving (t_pr s c) then Some (Inr (False, s))
      else if pr_forwarded (t_pr s c) then Some (Inr (False, s))
      else
        Option.bind
          (case pr_forward (t_pr s c) of
             None \<Rightarrow> Some (Inr (True, drop_resolution c (upd_pr c (\<lambda>p. p\<lparr>pr_resolving := False\<rparr>) s)))
           | Some f \<Rightarrow> promise_resolve run f (drop_resolution c (upd_pr c (\<lambda>p. p\<lparr>pr_resolving := False\<rparr>) s)))
          (\<lambda>r. case r of
             Inl err \<Rightarrow> Some (Inl err)
           | Inr (b, s) \<Rightarrow>
               if \<not> b then promise_resolve run c s
               else if pr_home (t_pr s c) \<noteq> current (t_world s) then Some (Inl Cross_driver_await)
               else promise_resolve run c
                      (upd_pr c (\<lambda>p. p\<lparr>pr_in_resolve := False\<rparr>)
                        (run c (upd_pr c (\<lambda>p. p\<lparr>pr_in_resolve := True\<rparr>) s)))))"

text \<open>\<^verbatim>\<open>task_awaiter\<close>.\<close>

definition task_await_ready :: "(cid \<Rightarrow> 'v tsys \<Rightarrow> 'v tsys) \<Rightarrow> cid \<Rightarrow> 'v tsys
    \<Rightarrow> (cotamer_errc + bool \<times> 'v tsys) option" where
  "task_await_ready run c s = (if pr_done (t_pr s c) then Some (Inr (True, s)) else promise_resolve run c s)"

definition task_await_resume :: "cid \<Rightarrow> 'v tsys \<Rightarrow> (result_exn + 'v) \<times> 'v tsys" where
  "task_await_resume c s = (let s = clear_awaiter c s in (promise_result c s, s))"

subsection \<open>Task objects\<close>

text \<open>A task object is a coroutine handle that may be null.\<close>

definition task_drop :: "(cid \<Rightarrow> 'v tsys \<Rightarrow> 'v tsys) \<Rightarrow> cid option \<Rightarrow> 'v tsys \<Rightarrow> 'v tsys" where
  "task_drop unwind h s = (case h of None \<Rightarrow> s | Some c \<Rightarrow> destroy_frame unwind c s)"

text \<open>Target and source; the two objects are different.\<close>

definition task_move_assign :: "(cid \<Rightarrow> 'v tsys \<Rightarrow> 'v tsys) \<Rightarrow> cid option \<Rightarrow> cid option \<Rightarrow> 'v tsys
    \<Rightarrow> (cid option \<times> cid option) \<times> 'v tsys" where
  "task_move_assign unwind t x s = ((x, None), task_drop unwind t s)"

definition task_done :: "cid option \<Rightarrow> 'v tsys \<Rightarrow> bool" where
  "task_done h s = (case h of None \<Rightarrow> False | Some c \<Rightarrow> pr_done (t_pr s c))"

definition task_resolvable :: "cid option \<Rightarrow> 'v tsys \<Rightarrow> bool" where
  "task_resolvable h s = (case h of None \<Rightarrow> False | Some c \<Rightarrow> pr_resolving (t_pr s c))"

definition task_resolve :: "(cid \<Rightarrow> 'v tsys \<Rightarrow> 'v tsys) \<Rightarrow> cid option \<Rightarrow> 'v tsys
    \<Rightarrow> (cotamer_errc + bool \<times> 'v tsys) option" where
  "task_resolve run h s =
     (case h of
        None \<Rightarrow> Some (Inr (False, s))
      | Some c \<Rightarrow> if pr_resolving (t_pr s c) then promise_resolve run c s
                   else Some (Inr (pr_done (t_pr s c), s)))"

definition task_resolution :: "cid option \<Rightarrow> 'v tsys \<Rightarrow> eid option \<times> 'v tsys" where
  "task_resolution h s =
     (case h of
        None \<Rightarrow> (let (e, w) = new_event (t_world s) in (Some e, upd_tw (\<lambda>_. w) s))
      | Some c \<Rightarrow> promise_resolution c s)"

definition task_start :: "cid option \<Rightarrow> 'v tsys \<Rightarrow> 'v tsys" where
  "task_start h s =
     (case h of
        None \<Rightarrow> s
      | Some c \<Rightarrow>
          if pr_done (t_pr s c) then s
          else if pr_interest (t_pr s c) \<noteq> None
            then upd_tw (\<lambda>w. snd (event_trigger (pr_interest (t_pr s c)) w)) s
            else upd_pr c (\<lambda>p. p\<lparr>pr_has_interest := True\<rparr>) s)"

definition task_detach :: "(cid \<Rightarrow> 'v tsys \<Rightarrow> 'v tsys) \<Rightarrow> cid option \<Rightarrow> 'v tsys \<Rightarrow> cid option \<times> 'v tsys" where
  "task_detach unwind h s =
     (case h of
        None \<Rightarrow> (None, s)
      | Some c \<Rightarrow>
          let s = upd_pr c (\<lambda>p. p\<lparr>pr_detached := True\<rparr>) s
          in (None, if pr_resolving (t_pr s c) then destroy_frame unwind c s else s))"

definition task_destroy :: "(cid \<Rightarrow> 'v tsys \<Rightarrow> 'v tsys) \<Rightarrow> cid option \<Rightarrow> 'v tsys \<Rightarrow> cid option \<times> 'v tsys" where
  "task_destroy unwind h s = (None, task_drop unwind h s)"

definition task_forward :: "cid option \<Rightarrow> 'v tsys \<Rightarrow> cid option \<times> 'v tsys" where
  "task_forward h s =
     (if task_done h s then (h, s)
      else (h, case h of None \<Rightarrow> s | Some c \<Rightarrow> upd_pr c (\<lambda>p. p\<lparr>pr_forwarded := True\<rparr>) s))"

subsection \<open>Races\<close>

text \<open>The arguments of a race: events, and tasks by handle.\<close>

datatype race_arg = Event_arg "eid option" | Task_arg "cid option"

text \<open>Taking an argument starts a task.\<close>

fun race_param :: "race_arg \<Rightarrow> 'v tsys \<Rightarrow> 'v tsys" where
  "race_param (Event_arg h) s = s"
| "race_param (Task_arg h) s = task_start h s"

fun race_add :: "eid \<Rightarrow> race_arg \<Rightarrow> 'v tsys \<Rightarrow> 'v tsys" where
  "race_add q (Event_arg h) s = upd_tw (\<lambda>w. add_member q h (copy_handle h w)) s"
| "race_add q (Task_arg h) s =
     (case h of None \<Rightarrow> s | Some c \<Rightarrow> upd_pr c (\<lambda>p. p\<lparr>pr_awaiter := Event_awaiter q\<rparr>) s)"

definition race_make_event :: "race_arg list \<Rightarrow> 'v tsys \<Rightarrow> eid \<times> 'v tsys" where
  "race_make_event args s =
     (let (q, w) = alloc (quorum_body_new 1) (t_world s);
          s = fold (race_add q) args (upd_tw (\<lambda>_. w) s)
      in (q, upd_tw (seal q) s))"

fun is_resolved :: "(cid \<Rightarrow> 'v tsys \<Rightarrow> 'v tsys) \<Rightarrow> race_arg \<Rightarrow> 'v tsys
    \<Rightarrow> (cotamer_errc + bool \<times> 'v tsys) option" where
  "is_resolved run (Event_arg h) s = Some (Inr (handle_triggered (t_world s) h, s))"
| "is_resolved run (Task_arg h) s = task_resolve run h s"

text \<open>The fold over the arguments stops at the first one that is resolved.\<close>

primrec find_resolved :: "(cid \<Rightarrow> 'v tsys \<Rightarrow> 'v tsys) \<Rightarrow> race_arg list \<Rightarrow> nat \<Rightarrow> 'v tsys
    \<Rightarrow> (cotamer_errc + nat \<times> 'v tsys) option" where
  "find_resolved run [] n s = Some (Inr (n, s))"
| "find_resolved run (a # as) n s =
     (case is_resolved run a s of
        None \<Rightarrow> None
      | Some (Inl err) \<Rightarrow> Some (Inl err)
      | Some (Inr (b, s)) \<Rightarrow> if b then Some (Inr (n, s)) else find_resolved run as (n + 1) s)"

text \<open>The value of an argument: an event has none.\<close>

fun arg_value :: "race_arg \<Rightarrow> 'v tsys \<Rightarrow> result_exn + 'v option" where
  "arg_value (Event_arg h) s = Inr None"
| "arg_value (Task_arg h) s =
     (case h of
        None \<Rightarrow> Inl Bad_variant_access
      | Some c \<Rightarrow> (case promise_result c s of Inl x \<Rightarrow> Inl x | Inr v \<Rightarrow> Inr (Some v)))"

text \<open>The last argument is selected when the index runs past the end.\<close>

fun select_arg :: "nat \<Rightarrow> race_arg list \<Rightarrow> race_arg option" where
  "select_arg i [] = None"
| "select_arg i [a] = Some a"
| "select_arg i (a # b # as) = (if i = 0 then Some a else select_arg (i - 1) (b # as))"

definition select_value :: "nat \<Rightarrow> race_arg list \<Rightarrow> 'v tsys \<Rightarrow> result_exn + 'v option" where
  "select_value i args s =
     (case select_arg i args of None \<Rightarrow> Inl Bad_variant_access | Some a \<Rightarrow> arg_value a s)"

fun clear_race_awaiter :: "race_arg \<Rightarrow> 'v tsys \<Rightarrow> 'v tsys" where
  "clear_race_awaiter (Event_arg h) s = s"
| "clear_race_awaiter (Task_arg h) s =
     (case h of None \<Rightarrow> s | Some c \<Rightarrow> upd_pr c (\<lambda>p. p\<lparr>pr_awaiter := No_awaiter\<rparr>) s)"

definition race_after_event :: "race_arg list \<Rightarrow> 'v tsys \<Rightarrow> 'v tsys" where
  "race_after_event args s = fold clear_race_awaiter args s"

text \<open>
  One round of the loops of \<^verbatim>\<open>attempt\<close>, \<^verbatim>\<open>first\<close> and \<^verbatim>\<open>race\<close>, from the resolution point to the
  next suspension: the coroutine returns, throws, or waits for an event.
\<close>

datatype 'v race_step = Returned "nat \<times> 'v option" | Cancelled | Threw result_exn | Failed cotamer_errc | Waiting eid

definition race_round :: "(cid \<Rightarrow> 'v tsys \<Rightarrow> 'v tsys) \<Rightarrow> race_arg list \<Rightarrow> 'v tsys
    \<Rightarrow> ('v race_step \<times> 'v tsys) option" where
  "race_round run args s =
     (case find_resolved run args 0 s of
        None \<Rightarrow> None
      | Some (Inl err) \<Rightarrow> Some (Failed err, s)
      | Some (Inr (i, s)) \<Rightarrow>
          if i \<noteq> length args then
            Some (case select_value i args s of Inl x \<Rightarrow> Threw x | Inr v \<Rightarrow> Returned (i, v), s)
          else let (q, s) = race_make_event args s in Some (Waiting q, s))"

definition attempt_round :: "(cid \<Rightarrow> 'v tsys \<Rightarrow> 'v tsys) \<Rightarrow> race_arg list \<Rightarrow> 'v tsys
    \<Rightarrow> ('v race_step \<times> 'v tsys) option" where
  "attempt_round run args s =
     (case find_resolved run args 0 s of
        None \<Rightarrow> None
      | Some (Inl err) \<Rightarrow> Some (Failed err, s)
      | Some (Inr (i, s)) \<Rightarrow>
          if i = 0 then Some (case select_value 0 args s of Inl x \<Rightarrow> Threw x | Inr v \<Rightarrow> Returned (0, v), s)
          else if i \<noteq> length args then Some (Cancelled, s)
          else let (q, s) = race_make_event args s in Some (Waiting q, s))"

text \<open>\<^verbatim>\<open>attempt\<close> on a lock request: what it does first, and its result after waiting.\<close>

definition attempt_lock_begin :: "eid option \<Rightarrow> quorum_arg list \<Rightarrow> world \<Rightarrow> eid option \<times> world" where
  "attempt_lock_begin h args w =
     (if handle_triggered w h then (None, w) else any_event (EventArg h # args) w)"

definition attempt_lock_end :: "eid option \<Rightarrow> world \<Rightarrow> bool" where
  "attempt_lock_end h w = handle_triggered w h"

lemmas task_unfold = chase.simps resolution_point.simps promise_resolve.simps

declare task_unfold [code]

end
