(* ===== verification/TaskInv.thy ===== *)
theory TaskInv
  imports Tasks EventFrame
begin

text \<open>
  Properties of tasks: a resolution point reaches everybody who waits through a chain of
  forwarding tasks, what the result of \<open>resolve\<close> means, and which argument a race selects.
\<close>

subsection \<open>Chains of forwarding awaiters\<close>

text \<open>\<open>fchain pr c cs\<close>: the coroutines from \<open>c\<close> up through awaiters that forward.\<close>

fun fchain :: "(cid \<Rightarrow> 'v promise) \<Rightarrow> cid \<Rightarrow> cid list \<Rightarrow> bool" where
  "fchain pr c [] = False"
| "fchain pr c (x # xs) \<longleftrightarrow> c = x \<and>
     (case awaiter_task (pr c) of
        None \<Rightarrow> xs = []
      | Some a \<Rightarrow> if pr_forward (pr a) \<noteq> None then fchain pr a xs else xs = [])"

lemma fchain_cong:
  "fchain pr c cs \<Longrightarrow> (\<And>x. pr_awaiter (pr' x) = pr_awaiter (pr x) \<and> pr_forward (pr' x) = pr_forward (pr x)) \<Longrightarrow>
   fchain pr' c cs"
  by (induction cs arbitrary: c) (auto simp: awaiter_task_def split: option.splits if_splits)

lemma fchain_hd: "fchain pr c cs \<Longrightarrow> cs \<noteq> [] \<and> hd cs = c"
  by (cases cs) auto

text \<open>On a finite chain the walk to the active awaiter ends: it is the awaiter of the last task.\<close>

lemma active_awaiter_chain: "fchain pr c cs \<Longrightarrow> active_awaiter pr c = Some (awaiter_task (pr (last cs)))"
proof (induction cs arbitrary: c)
  case (Cons x xs)
  show ?case
  proof (cases "awaiter_task (pr c)")
    case None
    then show ?thesis using Cons.prems by (auto simp: active_awaiter_def chase.simps)
  next
    case (Some a)
    show ?thesis
    proof (cases "pr_forward (pr a) = None")
      case True
      then show ?thesis using Cons.prems Some by (auto simp: active_awaiter_def chase.simps)
    next
      case False
      then have f: "fchain pr a xs" "c = x" using Cons.prems Some by auto
      have "active_awaiter pr c = chase pr (Some a)" using Some by (simp add: active_awaiter_def)
      also have "\<dots> = active_awaiter pr a" using False by (subst chase.simps) (simp add: active_awaiter_def)
      finally show ?thesis using Cons.IH [OF f(1)] fchain_hd [OF f(1)] by simp
    qed
  qed
qed simp

definition mark_resolving :: "cid set \<Rightarrow> (cid \<Rightarrow> 'v promise) \<Rightarrow> cid \<Rightarrow> 'v promise" where
  "mark_resolving A pr x = (if x \<in> A then (pr x)\<lparr>pr_resolving := True\<rparr> else pr x)"

lemma event_trigger_keeps:
  "ef_triggered (evs w x) \<Longrightarrow> ef_triggered (evs (snd (event_trigger h w)) x)"
  "ef_triggered (evs (snd (event_trigger (Some e) w)) e)"
  by (simp_all add: event_trigger_def trigger_keeps trigger_fires split: option.split)

text \<open>
  What a resolution point leaves behind on the chain \<open>cs\<close>: every task of it is resolving, its
  resolution event has triggered, and so has the event that waits for the last task.
\<close>

definition resolution_reached :: "cid list \<Rightarrow> 'v tsys \<Rightarrow> 'v tsys \<Rightarrow> bool" where
  "resolution_reached cs s s' \<longleftrightarrow> t_pr s' = mark_resolving (set cs) (t_pr s) \<and>
     fires_only (t_world s) (t_world s') \<and>
     (\<forall>x\<in>set cs. \<forall>e. pr_resolution (t_pr s x) = Some e \<longrightarrow> ef_triggered (evs (t_world s') e)) \<and>
     (\<forall>e. pr_awaiter (t_pr s (last cs)) = Event_awaiter e \<longrightarrow> ef_triggered (evs (t_world s') e))"

lemma resolution_point_spec:
  "fchain (t_pr s) c cs \<Longrightarrow> \<exists>s'. resolution_point c s = Some s' \<and> resolution_reached cs s s'"
proof (induction cs arbitrary: c s)
  case (Cons x xs)
  have cx: "c = x" using Cons.prems by simp
  define s1 where "s1 = upd_tw (\<lambda>w. snd (event_trigger (pr_resolution (t_pr s c)) w)) (upd_pr c (\<lambda>p. p\<lparr>pr_resolving := True\<rparr>) s)"
  have pr1: "t_pr s1 = mark_resolving {c} (t_pr s)"
    by (auto simp: s1_def upd_tw_def upd_pr_def mark_resolving_def fun_eq_iff)
  have w1: "fires_only (t_world s) (t_world s1)" "\<And>e. pr_resolution (t_pr s c) = Some e \<Longrightarrow> ef_triggered (evs (t_world s1) e)"
    by (auto simp: s1_def upd_tw_def upd_pr_def fires_only_def event_trigger_keeps)
  have rp: "resolution_point c s = (case pr_awaiter (t_pr s1 c) of No_awaiter \<Rightarrow> Some s1
         | Task_awaiter a \<Rightarrow> if pr_forward (t_pr s1 a) \<noteq> None then resolution_point a s1 else Some s1
         | Event_awaiter e \<Rightarrow> Some (upd_tw (\<lambda>w. snd (trigger e w)) s1))"
  proof -
    have e: "pr_resolution (t_pr (upd_pr c (\<lambda>p. p\<lparr>pr_resolving := True\<rparr>) s) c) = pr_resolution (t_pr s c)"
      by (simp add: upd_pr_def)
    show ?thesis by (subst resolution_point.simps) (simp only: Let_def s1_def e)
  qed
  have aw: "pr_awaiter (t_pr s1 y) = pr_awaiter (t_pr s y)" "pr_forward (t_pr s1 y) = pr_forward (t_pr s y)"
    "pr_resolution (t_pr s1 y) = pr_resolution (t_pr s y)" for y
    by (auto simp: pr1 mark_resolving_def)
  show ?case
  proof (cases "\<exists>a. pr_awaiter (t_pr s c) = Task_awaiter a \<and> pr_forward (t_pr s a) \<noteq> None")
    case True
    then obtain a where a: "pr_awaiter (t_pr s c) = Task_awaiter a" "pr_forward (t_pr s a) \<noteq> None" by blast
    then have ch: "fchain (t_pr s) a xs" using Cons.prems by (simp add: awaiter_task_def)
    then have "fchain (t_pr s1) a xs" by (rule fchain_cong) (simp add: aw)
    from Cons.IH [OF this] obtain s' where s': "resolution_point a s1 = Some s'" "resolution_reached xs s1 s'" by blast
    have xs: "xs \<noteq> []" using fchain_hd [OF ch] by simp
    have "t_pr s' = mark_resolving (set (x # xs)) (t_pr s)"
      using s'(2) pr1 cx by (auto simp: resolution_reached_def mark_resolving_def fun_eq_iff)
    then have "resolution_reached (x # xs) s s'"
      using s'(2) w1 aw xs cx by (auto simp: resolution_reached_def fires_only_def)
    then show ?thesis using rp a s'(1) aw by auto
  next
    case False
    then have xs: "xs = []" using Cons.prems by (auto simp: awaiter_task_def split: option.splits awaiter.splits if_splits)
    show ?thesis
    proof (cases "pr_awaiter (t_pr s c)")
      case (Event_awaiter e)
      let ?s' = "upd_tw (\<lambda>w. snd (trigger e w)) s1"
      have "resolution_reached [x] s ?s'"
        using w1 pr1 cx Event_awaiter
        by (auto simp: resolution_reached_def fires_only_def upd_tw_def trigger_keeps trigger_fires)
      then show ?thesis using rp aw Event_awaiter xs by auto
    qed (use False rp aw xs pr1 w1 cx in \<open>auto simp: resolution_reached_def\<close>)
  qed
qed simp

subsection \<open>Properties\<close>

text \<open>
  C14: A resolution point reaches its audience. When a task ends or reaches
  \<open>co_await resolve{}\<close> and the chain of awaiters that forward it is finite, \<open>resolution_point\<close> returns; every task of
  the chain is then resolving, the resolution event of each has triggered, so has the event of
  a race that waits for the last one, and no event has become untriggered.
\<close>

theorem resolution_point_reaches:
  assumes "fchain (t_pr s) c cs"
  shows "\<exists>s'. resolution_point c s = Some s' \<and>
    (\<forall>x. t_pr s' x = (if x \<in> set cs then (t_pr s x)\<lparr>pr_resolving := True\<rparr> else t_pr s x)) \<and>
    (\<forall>x\<in>set cs. \<forall>e. pr_resolution (t_pr s x) = Some e \<longrightarrow> ef_triggered (evs (t_world s') e)) \<and>
    (\<forall>e. pr_awaiter (t_pr s (last cs)) = Event_awaiter e \<longrightarrow> ef_triggered (evs (t_world s') e)) \<and>
    (\<forall>e. ef_triggered (evs (t_world s) e) \<longrightarrow> ef_triggered (evs (t_world s') e))"
  using resolution_point_spec [OF assms]
  unfolding resolution_reached_def mark_resolving_def fires_only_def fun_eq_iff by blast

text \<open>What the result of \<open>resolve\<close> means.\<close>

lemma promise_resolve_result:
  assumes r: "promise_resolve run c s = Some (Inr (b, s'))"
  shows "if b then pr_done (t_pr s' c) else \<not> pr_done (t_pr s' c) \<and> (\<not> pr_resolving (t_pr s' c) \<or> pr_forwarded (t_pr s' c))"
proof -
  let ?P = "\<lambda>c y. \<forall>b t. y = Inr (b, t) \<longrightarrow>
      (if b then pr_done (t_pr t c) else \<not> pr_done (t_pr t c) \<and> (\<not> pr_resolving (t_pr t c) \<or> pr_forwarded (t_pr t c)))"
  have "?P c (Inr (b, s') :: cotamer_errc + bool \<times> 'a tsys)"
  proof (rule promise_resolve.raw_induct [where P = "\<lambda>run c s y. ?P c y", OF _ r])
    fix res run c s and y :: "cotamer_errc + bool \<times> 'a tsys"
    assume IH: "\<And>run c s y. res run c s = Some y \<Longrightarrow> ?P c y"
      and y: "(if pr_done (t_pr s c) then Some (Inr (True, s))
      else if \<not> pr_resolving (t_pr s c) then Some (Inr (False, s))
      else if pr_forwarded (t_pr s c) then Some (Inr (False, s))
      else
        Option.bind
          (case pr_forward (t_pr s c) of
             None \<Rightarrow> Some (Inr (True, drop_resolution c (upd_pr c (\<lambda>p. p\<lparr>pr_resolving := False\<rparr>) s)))
           | Some f \<Rightarrow> res run f (drop_resolution c (upd_pr c (\<lambda>p. p\<lparr>pr_resolving := False\<rparr>) s)))
          (\<lambda>r. case r of
             Inl err \<Rightarrow> Some (Inl err)
           | Inr (b, s) \<Rightarrow>
               if \<not> b then res run c s
               else if pr_home (t_pr s c) \<noteq> current (t_world s) then Some (Inl Cross_driver_await)
               else res run c
                      (upd_pr c (\<lambda>p. p\<lparr>pr_in_resolve := False\<rparr>)
                        (run c (upd_pr c (\<lambda>p. p\<lparr>pr_in_resolve := True\<rparr>) s))))) = Some y"
    consider "y = Inr (True, s)" "pr_done (t_pr s c)"
      | "y = Inr (False, s)" "\<not> pr_done (t_pr s c)" "\<not> pr_resolving (t_pr s c) \<or> pr_forwarded (t_pr s c)"
      | err where "y = Inl err" | t where "res run c t = Some y"
    proof (cases "pr_done (t_pr s c) \<or> \<not> pr_resolving (t_pr s c) \<or> pr_forwarded (t_pr s c)")
      case True
      then show ?thesis using y that(1,2) by (auto split: if_splits)
    next
      case False
      then obtain r where r: "(case r of
             Inl err \<Rightarrow> Some (Inl err)
           | Inr (b, s) \<Rightarrow>
               if \<not> b then res run c s
               else if pr_home (t_pr s c) \<noteq> current (t_world s) then Some (Inl Cross_driver_await)
               else res run c
                      (upd_pr c (\<lambda>p. p\<lparr>pr_in_resolve := False\<rparr>)
                        (run c (upd_pr c (\<lambda>p. p\<lparr>pr_in_resolve := True\<rparr>) s)))) = Some y"
        using y by (auto elim!: bind_eq_Some_conv [THEN iffD1, THEN exE])
      then show ?thesis using that(3,4) by (cases r) (auto split: prod.splits if_splits)
    qed
    then show "?P c y"
    proof cases
      case (4 t)
      then show ?thesis by (rule IH)
    qed simp_all
  qed
  then show ?thesis by blast
qed

lemma drop_resolution_current: "current (t_world (drop_resolution c s)) = current (t_world s)"
proof -
  have "current (handle_drop h w) = current w" for h w
    using static_handle_dtor by (auto simp: handle_drop_def static_def split: option.split)
  then show ?thesis by (simp add: drop_resolution_def upd_pr_def upd_tw_def)
qed

lemma drop_resolution_fields [simp]:
  "pr_done (t_pr (drop_resolution c s) x) = pr_done (t_pr s x)"
  "pr_home (t_pr (drop_resolution c s) x) = pr_home (t_pr s x)"
  "pr_resolving (t_pr (drop_resolution c s) x) = pr_resolving (t_pr s x)"
  by (auto simp: drop_resolution_def upd_pr_def upd_tw_def)


text \<open>
  What \<open>resolve\<close> tells. If it returns true the task has completed; if it returns false the task
  has not completed and either has not reached a resolution point or waits to be forwarded. And
  when the task is at a resolution point on its own driver, forwards nothing, and completes when
  it is resumed, \<open>resolve\<close> returns true.
\<close>

theorem promise_resolve_meaning:
  "(promise_resolve run c s = Some (Inr (b, s')) \<longrightarrow>
     (if b then pr_done (t_pr s' c)
      else \<not> pr_done (t_pr s' c) \<and> (\<not> pr_resolving (t_pr s' c) \<or> pr_forwarded (t_pr s' c)))) \<and>
   (pr_resolving (t_pr s c) \<and> \<not> pr_forwarded (t_pr s c) \<and> pr_forward (t_pr s c) = None \<and>
    pr_home (t_pr s c) = current (t_world s) \<and> (\<forall>t. pr_done (t_pr (run c t) c)) \<longrightarrow>
     (\<exists>t. promise_resolve run c s = Some (Inr (True, t)) \<and> pr_done (t_pr t c)))"
proof (rule conjI)
  show "promise_resolve run c s = Some (Inr (b, s')) \<longrightarrow>
     (if b then pr_done (t_pr s' c)
      else \<not> pr_done (t_pr s' c) \<and> (\<not> pr_resolving (t_pr s' c) \<or> pr_forwarded (t_pr s' c)))"
    using promise_resolve_result by blast
next
  have fin: "promise_resolve run c t = Some (Inr (True, t))" if "pr_done (t_pr t c)" for t
    using that by (subst promise_resolve.simps) simp
  {
    assume a: "pr_resolving (t_pr s c)" "\<not> pr_forwarded (t_pr s c)" "pr_forward (t_pr s c) = None"
      "pr_home (t_pr s c) = current (t_world s)" "\<forall>t. pr_done (t_pr (run c t) c)"
    have "\<exists>t. promise_resolve run c s = Some (Inr (True, t)) \<and> pr_done (t_pr t c)"
    proof (cases "pr_done (t_pr s c)")
      case True
      then show ?thesis using fin by blast
    next
      case False
      define t where "t = upd_pr c (\<lambda>p. p\<lparr>pr_in_resolve := False\<rparr>)
        (run c (upd_pr c (\<lambda>p. p\<lparr>pr_in_resolve := True\<rparr>) (drop_resolution c (upd_pr c (\<lambda>p. p\<lparr>pr_resolving := False\<rparr>) s))))"
      have td: "pr_done (t_pr t c)" using a(5) by (simp add: t_def upd_pr_def)
      have "pr_home (t_pr (drop_resolution c (upd_pr c (\<lambda>p. p\<lparr>pr_resolving := False\<rparr>) s)) c) =
          current (t_world (drop_resolution c (upd_pr c (\<lambda>p. p\<lparr>pr_resolving := False\<rparr>) s)))"
        using a(4) by (simp add: drop_resolution_current) (simp add: upd_pr_def)
      then have "promise_resolve run c s = promise_resolve run c t"
        using False a(1-3) by (subst promise_resolve.simps) (simp add: t_def)
      then show ?thesis using fin [OF td] td by auto
    qed
  }
  then show "pr_resolving (t_pr s c) \<and> \<not> pr_forwarded (t_pr s c) \<and> pr_forward (t_pr s c) = None \<and>
    pr_home (t_pr s c) = current (t_world s) \<and> (\<forall>t. pr_done (t_pr (run c t) c)) \<longrightarrow>
     (\<exists>t. promise_resolve run c s = Some (Inr (True, t)) \<and> pr_done (t_pr t c))" by blast
qed


subsection \<open>Races\<close>

text \<open>An argument that is resolved as it stands, and one that \<open>resolve\<close> would have to run.\<close>

fun arg_resolved :: "race_arg \<Rightarrow> 'v tsys \<Rightarrow> bool" where
  "arg_resolved (Event_arg h) s = handle_triggered (t_world s) h"
| "arg_resolved (Task_arg h) s = task_done h s"

fun arg_resolvable :: "race_arg \<Rightarrow> 'v tsys \<Rightarrow> bool" where
  "arg_resolvable (Event_arg h) s = False"
| "arg_resolvable (Task_arg h) s = task_resolvable h s"

lemma is_resolved_settled:
  "\<not> arg_resolvable a s \<Longrightarrow> is_resolved run a s = Some (Inr (arg_resolved a s, s))"
  by (cases a) (auto simp: task_resolve_def task_done_def task_resolvable_def split: option.splits)

lemma find_resolved_settled:
  assumes "\<forall>a\<in>set args. \<not> arg_resolvable a s"
  shows "find_resolved run args n s = Some (Inr (n + length (takeWhile (\<lambda>a. \<not> arg_resolved a s) args), s))"
  using assms by (induction args arbitrary: n) (auto simp: is_resolved_settled)

lemma select_arg_nth: "i < length args \<Longrightarrow> select_arg i args = Some (args ! i)"
proof (induction i args rule: select_arg.induct)
  case (3 i a b as)
  then show ?case by (cases i) auto
qed auto


subsection \<open>Sample tasks\<close>

text \<open>Task 1 forwards task 0 and is awaited by a race with event 0; event 1 is the resolution event of task 0.\<close>

definition demo_tasks :: "nat tsys" where
  "demo_tasks = \<lparr>t_world = snd (new_event (snd (new_event (world_init (\<lambda>_. 0) 0)))),
     t_pr = (\<lambda>_. promise_new 0)
       (0 := (promise_new 0)\<lparr>pr_awaiter := Task_awaiter 1, pr_resolution := Some 1\<rparr>,
        1 := (promise_new 0)\<lparr>pr_awaiter := Event_awaiter 0, pr_forward := Some 0\<rparr>)\<rparr>"

theorem resolution_point_reaches_witness:
  "\<exists>s'. resolution_point 0 demo_tasks = Some s' \<and> pr_resolving (t_pr s' 1) \<and>
     ef_triggered (evs (t_world s') 0) \<and> ef_triggered (evs (t_world s') 1)"
proof -
  have "fchain (t_pr demo_tasks) 0 [0, 1]"
    by (simp add: demo_tasks_def awaiter_task_def promise_new_def)
  from resolution_point_reaches [OF this] show ?thesis
    by (auto simp: demo_tasks_def promise_new_def)
qed

theorem promise_resolve_meaning_witness:
  "\<exists>t. promise_resolve (\<lambda>c. upd_pr c (\<lambda>p. p\<lparr>pr_done := True\<rparr>)) 5 (upd_pr 5 (\<lambda>p. p\<lparr>pr_resolving := True\<rparr>) demo_tasks)
     = Some (Inr (True, t)) \<and> pr_done (t_pr t 5)"
  using promise_resolve_meaning [of "\<lambda>c. upd_pr c (\<lambda>p. p\<lparr>pr_done := True\<rparr>)" 5
      "upd_pr 5 (\<lambda>p. p\<lparr>pr_resolving := True\<rparr>) demo_tasks"]
  by (simp add: upd_pr_def demo_tasks_def promise_new_def new_event_def alloc_def world_init_def)


end
