(* ===== verification/HttpMessage.thy ===== *)
theory HttpMessage
  imports Prelude "HOL-Library.Char_ord"
begin

text \<open>
  HTTP messages (\<^verbatim>\<open>http.hh\<close>, \<^verbatim>\<open>http.cc\<close>): the string helpers of \<^verbatim>\<open>cotamer_impl.hh\<close>, the message
  object with its setters, the table of status messages, and the headers, which are kept as one
  string of header lines and a vector of offsets into it. Offsets are 32-bit, as in the code.

  The library llhttp is not part of the repository. Its error numbers and methods appear with the
  names the code uses; functions of it that the code calls are arguments.
\<close>

type_synonym u16 = "16 word"

text \<open>The bytes that quotes cannot write.\<close>

abbreviation (input) TAB :: char where "TAB \<equiv> CHR 0x09"
abbreviation (input) CRLF :: string where "CRLF \<equiv> [CHR 0x0D, CHR 0x0A]"

subsection \<open>String helpers\<close>

definition lower_ascii :: "char \<Rightarrow> char" where
  "lower_ascii c = (if CHR ''A'' \<le> c \<and> c \<le> CHR ''Z'' then char_of (of_char c + 32 :: nat) else c)"

fun ieq_count :: "string \<Rightarrow> string \<Rightarrow> nat \<Rightarrow> bool" where
  "ieq_count a b 0 = True"
| "ieq_count (x # a) (y # b) (Suc n) =
     (if lower_ascii x \<noteq> lower_ascii y then False else ieq_count a b n)"
| "ieq_count a b (Suc n) = False"

definition ieq :: "string \<Rightarrow> string \<Rightarrow> bool" where
  "ieq a b \<longleftrightarrow> length a = length b \<and> ieq_count a b (length a)"

definition is_hws :: "char \<Rightarrow> bool" where
  "is_hws c \<longleftrightarrow> c = CHR '' '' \<or> c = TAB"

fun trim_front :: "string \<Rightarrow> string" where
  "trim_front [] = []"
| "trim_front (c # s) = (if is_hws c then trim_front s else c # s)"

function trim_back :: "string \<Rightarrow> string" where
  "trim_back s = (if s \<noteq> [] \<and> is_hws (last s) then trim_back (butlast s) else s)"
  by pat_completeness auto
termination by (relation "measure length") auto

declare trim_back.simps [simp del]

definition trim_hws :: "string \<Rightarrow> string" where
  "trim_hws s = trim_back (trim_front s)"

text \<open>\<^verbatim>\<open>std::to_string\<close> and \<^verbatim>\<open>std::format("{}", n)\<close> of an unsigned number.\<close>

fun to_string :: "nat \<Rightarrow> string" where
  "to_string n = (if n < 10 then [char_of (48 + n)]
                  else to_string (n div 10) @ [char_of (48 + n mod 10)])"

declare to_string.simps [simp del]

text \<open>A \<^verbatim>\<open>string_view\<close> of the given position and length into a string.\<close>

definition view :: "string \<Rightarrow> nat \<Rightarrow> nat \<Rightarrow> string" where
  "view base i n = take n (drop i base)"

subsection \<open>Offsets and the header iterator\<close>

record http_kvoffsets =
  name1 :: u32
  name2 :: u32
  value1 :: u32
  value2 :: u32

text \<open>Offsets are computed as \<^verbatim>\<open>size_t\<close> and narrowed to \<^verbatim>\<open>unsigned\<close> when they are stored.\<close>

definition kvoffsets :: "nat \<Rightarrow> nat \<Rightarrow> nat \<Rightarrow> nat \<Rightarrow> http_kvoffsets" where
  "kvoffsets a b c d = \<lparr>name1 = of_nat a, name2 = of_nat b, value1 = of_nat c, value2 = of_nat d\<rparr>"

definition kv_name :: "string \<Rightarrow> http_kvoffsets \<Rightarrow> string" where
  "kv_name base kv = view base (unat (name1 kv)) (unat (name2 kv - name1 kv))"

definition kv_value :: "string \<Rightarrow> http_kvoffsets \<Rightarrow> string" where
  "kv_value base kv = view base (unat (value1 kv)) (unat (value2 kv - value1 kv))"

text \<open>The iterator's pointer \<^verbatim>\<open>pair_\<close> is an index into the vector it points into.\<close>

record http_header_iterator =
  it_base :: string
  it_vec :: "http_kvoffsets list"
  it_pair :: nat

definition it_name :: "http_header_iterator \<Rightarrow> string" where
  "it_name it = kv_name (it_base it) (it_vec it ! it_pair it)"

definition it_value :: "http_header_iterator \<Rightarrow> string" where
  "it_value it = kv_value (it_base it) (it_vec it ! it_pair it)"

definition name_eq :: "http_header_iterator \<Rightarrow> string \<Rightarrow> bool" where
  "name_eq it str \<longleftrightarrow> it_name it = str"

definition name_ieq :: "http_header_iterator \<Rightarrow> string \<Rightarrow> bool" where
  "name_ieq it str \<longleftrightarrow> ieq (it_name it) str"

definition it_deref :: "http_header_iterator \<Rightarrow> string \<times> string" where
  "it_deref it = (it_name it, it_value it)"

definition it_eq :: "http_header_iterator \<Rightarrow> http_header_iterator \<Rightarrow> bool" where
  "it_eq a b \<longleftrightarrow> it_pair a = it_pair b"

definition it_incr :: "http_header_iterator \<Rightarrow> http_header_iterator" where
  "it_incr it = it\<lparr>it_pair := it_pair it + 1\<rparr>"

definition it_decr :: "http_header_iterator \<Rightarrow> http_header_iterator" where
  "it_decr it = it\<lparr>it_pair := it_pair it - 1\<rparr>"

definition it_diff :: "http_header_iterator \<Rightarrow> http_header_iterator \<Rightarrow> int" where
  "it_diff a b = int (it_pair a) - int (it_pair b)"

subsection \<open>The message\<close>

text \<open>Methods and error numbers of llhttp, those that the code names and the others.\<close>

datatype llhttp_method = HTTP_DELETE | HTTP_GET | HTTP_POST | HTTP_PUT | HTTP_method nat

datatype llhttp_errno = HPE_OK | HPE_CLOSED_CONNECTION | HPE_PAUSED | HPE_PAUSED_UPGRADE
  | HPE_CB_METHOD_COMPLETE | HPE_errno nat

record info_type =
  i_flags :: u32
  i_f :: "(u32 \<times> u32) list"
  i_qurl :: string
  i_qpairs :: "http_kvoffsets list"

record http_message =
  major :: u8
  minor :: u8
  req_method :: llhttp_method
  error :: llhttp_errno
  status_code :: u16
  upgrade :: bool
  has_body :: bool
  url :: string
  status_message :: string
  headers :: string
  hpairs :: "http_kvoffsets list"
  body :: string
  info_ptr :: "info_type option"

definition info_url :: u32 where "info_url = 1"
definition info_params :: u32 where "info_params = 2"

definition info_type_new :: info_type where
  "info_type_new = \<lparr>i_flags = 0, i_f = [(0, 0), (0, 0), (0, 0)], i_qurl = [], i_qpairs = []\<rparr>"

definition http_message_new :: http_message where
  "http_message_new = \<lparr>major = 1, minor = 1, req_method = HTTP_GET, error = HPE_OK,
     status_code = 200, upgrade = False, has_body = False, url = [], status_message = [],
     headers = [], hpairs = [], body = [], info_ptr = None\<rparr>"

definition http_request_new :: "llhttp_method \<Rightarrow> string \<Rightarrow> http_message" where
  "http_request_new m u = \<lparr>major = 1, minor = 1, req_method = m, error = HPE_OK,
     status_code = 200, upgrade = False, has_body = False, url = u, status_message = [],
     headers = [], hpairs = [], body = [], info_ptr = None\<rparr>"

definition http_response_new :: "u32 \<Rightarrow> http_message" where
  "http_response_new code = \<lparr>major = 1, minor = 1, req_method = HTTP_GET, error = HPE_OK,
     status_code = ucast code, upgrade = False, has_body = False, url = [], status_message = [],
     headers = [], hpairs = [], body = [], info_ptr = None\<rparr>"

text \<open>The copy constructor copies the header lines and not their offsets.\<close>

definition http_message_copy :: "http_message \<Rightarrow> http_message" where
  "http_message_copy x = \<lparr>major = major x, minor = minor x, req_method = req_method x, error = error x,
     status_code = status_code x, upgrade = upgrade x, has_body = has_body x,
     url = url x, status_message = status_message x, headers = headers x, hpairs = [],
     body = body x, info_ptr = None\<rparr>"

definition reset_info :: "http_message \<Rightarrow> http_message" where
  "reset_info m = m\<lparr>info_ptr := map_option (\<lambda>i. i\<lparr>i_flags := 0\<rparr>) (info_ptr m)\<rparr>"

text \<open>Copy assignment between two distinct objects; a self-assignment changes nothing.\<close>

definition http_message_assign :: "http_message \<Rightarrow> http_message \<Rightarrow> http_message" where
  "http_message_assign this x = reset_info (this\<lparr>
     major := major x, minor := minor x, req_method := req_method x, error := error x,
     status_code := status_code x, upgrade := upgrade x, has_body := has_body x,
     url := url x, status_message := status_message x, headers := headers x,
     hpairs := hpairs x, body := body x\<rparr>)"

unbundle bit_operations_syntax

definition kill_info :: "u32 \<Rightarrow> http_message \<Rightarrow> http_message" where
  "kill_info fl m = m\<lparr>info_ptr := map_option (\<lambda>i. i\<lparr>i_flags := i_flags i AND NOT fl\<rparr>) (info_ptr m)\<rparr>"

definition ok :: "http_message \<Rightarrow> bool" where
  "ok m \<longleftrightarrow> error m = HPE_OK"

definition set_http_major :: "u32 \<Rightarrow> http_message \<Rightarrow> http_message" where
  "set_http_major v m = m\<lparr>major := ucast v\<rparr>"

definition set_http_minor :: "u32 \<Rightarrow> http_message \<Rightarrow> http_message" where
  "set_http_minor v m = m\<lparr>minor := ucast v\<rparr>"

definition set_error :: "llhttp_errno \<Rightarrow> http_message \<Rightarrow> http_message" where
  "set_error e m = m\<lparr>error := e\<rparr>"

definition set_status_code :: "u32 \<Rightarrow> http_message \<Rightarrow> http_message" where
  "set_status_code code m = m\<lparr>status_code := ucast code, status_message := []\<rparr>"

definition set_status :: "u32 \<Rightarrow> string \<Rightarrow> http_message \<Rightarrow> http_message" where
  "set_status code msg m = m\<lparr>status_code := ucast code, status_message := msg\<rparr>"

definition set_method :: "llhttp_method \<Rightarrow> http_message \<Rightarrow> http_message" where
  "set_method x m = m\<lparr>req_method := x\<rparr>"

definition set_url :: "string \<Rightarrow> http_message \<Rightarrow> http_message" where
  "set_url u m = kill_info (info_url OR info_params) (m\<lparr>url := u\<rparr>)"

definition set_body :: "string \<Rightarrow> http_message \<Rightarrow> http_message" where
  "set_body b m = m\<lparr>body := b, has_body := True\<rparr>"

definition append_body :: "string \<Rightarrow> http_message \<Rightarrow> http_message" where
  "append_body b m = m\<lparr>body := body m @ b, has_body := True\<rparr>"

definition do_clear :: "http_message \<Rightarrow> http_message" where
  "do_clear m = reset_info (m\<lparr>major := 1, minor := 1, status_code := 200, req_method := HTTP_GET,
     error := HPE_OK, upgrade := False, has_body := False, url := [], status_message := [],
     body := [], hpairs := []\<rparr>)"

subsection \<open>Headers\<close>

definition header_begin :: "http_message \<Rightarrow> http_header_iterator" where
  "header_begin m = \<lparr>it_base = headers m, it_vec = hpairs m, it_pair = 0\<rparr>"

definition header_end :: "http_message \<Rightarrow> http_header_iterator" where
  "header_end m = \<lparr>it_base = headers m, it_vec = hpairs m, it_pair = length (hpairs m)\<rparr>"

text \<open>
  The loops test \<^verbatim>\<open>it != last\<close>; the iterator starts at or before \<^verbatim>\<open>last\<close> and moves by one, so they
  stop there.
\<close>

function has_header_from :: "string \<Rightarrow> http_header_iterator \<Rightarrow> http_header_iterator \<Rightarrow> bool" where
  "has_header_from nm it last_it =
     (if it_pair last_it \<le> it_pair it then False
      else if name_ieq it nm then True
      else has_header_from nm (it_incr it) last_it)"
  by pat_completeness auto
termination
  by (relation "measure (\<lambda>(_, it, last_it). it_pair last_it - it_pair it)") (auto simp: it_incr_def)

definition has_header :: "string \<Rightarrow> http_message \<Rightarrow> bool" where
  "has_header nm m = has_header_from nm (header_begin m) (header_end m)"

function find_header_from ::
  "string \<Rightarrow> http_header_iterator \<Rightarrow> http_header_iterator \<Rightarrow> http_header_iterator" where
  "find_header_from nm it last_it =
     (if it_pair last_it \<le> it_pair it \<or> name_ieq it nm then it
      else find_header_from nm (it_incr it) last_it)"
  by pat_completeness auto
termination
  by (relation "measure (\<lambda>(_, it, last_it). it_pair last_it - it_pair it)") (auto simp: it_incr_def)

definition find_header :: "string \<Rightarrow> http_message \<Rightarrow> http_header_iterator" where
  "find_header nm m = find_header_from nm (header_begin m) (header_end m)"

function header_from ::
  "string \<Rightarrow> http_header_iterator \<Rightarrow> http_header_iterator \<Rightarrow> string \<Rightarrow> bool \<Rightarrow> string" where
  "header_from nm it last_it result any =
     (if it_pair last_it \<le> it_pair it then result
      else if name_ieq it nm
      then header_from nm (it_incr it) last_it
             (if any then result @ '', '' @ it_value it else it_value it) True
      else header_from nm (it_incr it) last_it result any)"
  by pat_completeness auto
termination
  by (relation "measure (\<lambda>(_, it, last_it, _, _). it_pair last_it - it_pair it)")
    (auto simp: it_incr_def)

declare has_header_from.simps [simp del] find_header_from.simps [simp del]
  header_from.simps [simp del]

definition header :: "string \<Rightarrow> http_message \<Rightarrow> string" where
  "header nm m = header_from nm (header_begin m) (header_end m) [] False"

definition add_header :: "string \<Rightarrow> string \<Rightarrow> http_message \<Rightarrow> http_message" where
  "add_header key val m =
     (let n1 = length (headers m); n2 = n1 + length key;
          hs = headers m @ key @ '': '' @ trim_hws val @ CRLF
      in m\<lparr>headers := hs, hpairs := hpairs m @ [kvoffsets n1 n2 (n2 + 2) (length hs - 2)]\<rparr>)"

definition add_header_num :: "string \<Rightarrow> nat \<Rightarrow> http_message \<Rightarrow> http_message" where
  "add_header_num key val m = add_header key (to_string val) m"

text \<open>\<^verbatim>\<open>body(json)\<close>; the printed JSON text is an argument.\<close>

definition set_body_json :: "string \<Rightarrow> http_message \<Rightarrow> http_message" where
  "set_body_json dump m =
     (let m' = if has_header ''Content-Type'' m then m
               else add_header ''Content-Type'' ''application/json'' m
      in m'\<lparr>body := dump, has_body := True\<rparr>)"

end
