(* ===== verification/HttpUrl.thy ===== *)
theory HttpUrl
  imports HttpMessage
begin

text \<open>
  The URL of a message (\<^verbatim>\<open>http.cc\<close>, \<^verbatim>\<open>make_info\<close> and its clients): the character table, the scan
  that finds path, search and hash, and the decoding of the search parameters. The offsets found
  are cached in the message's \<^verbatim>\<open>info_\<close>.
\<close>

subsection \<open>The character table\<close>

definition us_safe :: u8 where "us_safe = 1"
definition us_http_tchar :: u8 where "us_http_tchar = 2"
definition us_hex :: u8 where "us_hex = 4"

definition or_at :: "u8 \<Rightarrow> char \<Rightarrow> u8 list \<Rightarrow> u8 list" where
  "or_at b c ct = ct[of_char c := ct ! of_char c OR b]"

definition chartable :: "u8 list" where
  "chartable =
     (let ct = replicate 256 0;
          ct = fold (\<lambda>ch ct. ct[ch := us_safe OR us_http_tchar OR us_hex OR push_bit 4 (of_nat (ch - 48))])
                 [48..<58] ct;
          ct = fold (\<lambda>ch ct.
                 let v = us_safe OR us_http_tchar OR us_hex OR push_bit 4 (of_nat (ch - 65 + 10))
                 in ct[ch + 32 := v, ch := v]) [65..<71] ct;
          ct = fold (\<lambda>ch ct. ct[ch + 32 := us_safe OR us_http_tchar, ch := us_safe OR us_http_tchar])
                 [71..<91] ct;
          ct = fold (or_at us_http_tchar) (''!#$%&'' @ [CHR 0x27] @ ''*+-.^_`|~'') ct;
          ct = fold (or_at us_safe) (''!$%&'' @ [CHR 0x27] @ ''()*+,-./:;=@['' @ [CHR 0x5C] @ '']^_`{|}~'') ct
      in ct)"

text \<open>The table in full, which evaluation uses.\<close>

lemma chartable_eq [code]:
  "chartable =
    [0, 0, 0, 0, 0, 0, 0, 0, 0, 0, 0, 0, 0, 0, 0, 0, 0, 0, 0, 0, 0, 0, 0, 0, 0, 0, 0, 0, 0,
     0, 0, 0, 0, 3, 0, 2, 3, 3, 3, 3, 1, 1, 3, 3, 1, 3, 3, 1, 7, 23, 39, 55, 71, 87, 103,
     119, 135, 151, 1, 1, 0, 1, 0, 0, 1, 167, 183, 199, 215, 231, 247, 3, 3, 3, 3, 3, 3, 3,
     3, 3, 3, 3, 3, 3, 3, 3, 3, 3, 3, 3, 3, 1, 1, 1, 3, 3, 3, 167, 183, 199, 215, 231, 247,
     3, 3, 3, 3, 3, 3, 3, 3, 3, 3, 3, 3, 3, 3, 3, 3, 3, 3, 3, 3, 1, 3, 1, 3, 0, 0, 0, 0, 0,
     0, 0, 0, 0, 0, 0, 0, 0, 0, 0, 0, 0, 0, 0, 0, 0, 0, 0, 0, 0, 0, 0, 0, 0, 0, 0, 0, 0, 0,
     0, 0, 0, 0, 0, 0, 0, 0, 0, 0, 0, 0, 0, 0, 0, 0, 0, 0, 0, 0, 0, 0, 0, 0, 0, 0, 0, 0, 0,
     0, 0, 0, 0, 0, 0, 0, 0, 0, 0, 0, 0, 0, 0, 0, 0, 0, 0, 0, 0, 0, 0, 0, 0, 0, 0, 0, 0, 0,
     0, 0, 0, 0, 0, 0, 0, 0, 0, 0, 0, 0, 0, 0, 0, 0, 0, 0, 0, 0, 0, 0, 0, 0, 0, 0, 0, 0, 0,
     0, 0, 0, 0, 0, 0, 0, 0]"
  by code_simp

definition char_has :: "u8 \<Rightarrow> char \<Rightarrow> bool" where
  "char_has b c \<longleftrightarrow> chartable ! of_char c AND b \<noteq> 0"

definition xvalue :: "char \<Rightarrow> nat" where
  "xvalue c = unat (drop_bit 4 (chartable ! of_char c))"

subsection \<open>Finding path, search and hash\<close>

text \<open>
  \<^verbatim>\<open>while (fpos < lim) { f[fpos] = {fpos ? f[fpos-1].second : 0, s - s1}; ++fpos; }\<close>
\<close>

function fill_fields :: "nat \<Rightarrow> nat \<Rightarrow> nat \<Rightarrow> (u32 \<times> u32) list \<Rightarrow> (u32 \<times> u32) list" where
  "fill_fields lim fpos pos f =
     (if fpos < lim
      then fill_fields lim (fpos + 1) pos
             (f[fpos := (if fpos \<noteq> 0 then snd (f ! (fpos - 1)) else 0, of_nat pos)])
      else f)"
  by pat_completeness auto
termination by (relation "measure (\<lambda>(lim, fpos, _, _). lim - fpos)") auto

declare fill_fields.simps [simp del]

text \<open>The scan at position \<open>pos\<close>; \<open>None\<close> is the jump to \<^verbatim>\<open>fail\<close>.\<close>

fun scan_url ::
  "string \<Rightarrow> nat \<Rightarrow> nat \<Rightarrow> (u32 \<times> u32) list \<Rightarrow> (nat \<times> nat \<times> (u32 \<times> u32) list) option" where
  "scan_url [] pos fpos f = Some (pos, fpos, f)"
| "scan_url (c # s) pos fpos f =
     (if char_has us_safe c then scan_url s (pos + 1) fpos f
      else if c = CHR ''?'' then
        (if fpos = 0 then scan_url s (pos + 1) 1 (f[0 := (0, of_nat pos)])
         else scan_url s (pos + 1) fpos f)
      else if c = CHR ''#'' then
        scan_url s (pos + 1) (max fpos 2) (fill_fields 2 fpos pos f)
      else None)"

definition make_info_url :: "string \<Rightarrow> info_type \<Rightarrow> info_type" where
  "make_info_url u i =
     (case (if u = [] \<or> u ! 0 \<noteq> CHR ''/'' then None else scan_url u 0 0 (i_f i)) of
        Some (pos, fpos, f) \<Rightarrow> i\<lparr>i_f := fill_fields 3 fpos pos f\<rparr>
      | None \<Rightarrow> i\<lparr>i_f := fill_fields 3 0 0 (i_f i)\<rparr>)"

subsection \<open>Decoding the search parameters\<close>

text \<open>
  The locals of the loop: \<open>q_pend\<close> is the text between \<^verbatim>\<open>last\<close> and \<^verbatim>\<open>s\<close>, which is not yet in \<^verbatim>\<open>qurl\<close>.
\<close>

record query_state =
  q_url :: string
  q_pairs :: "http_kvoffsets list"
  q_pend :: string
  q_state :: nat
  nstart :: u32
  nend :: u32
  vstart :: u32
  vend :: u32

text \<open>\<^verbatim>\<open>inf.qurl.length() + s - last\<close>\<close>

definition q_here :: "query_state \<Rightarrow> u32" where
  "q_here q = of_nat (length (q_url q) + length (q_pend q))"

text \<open>The pair that ends here.\<close>

definition q_emit :: "u32 \<Rightarrow> query_state \<Rightarrow> query_state" where
  "q_emit ve q =
     (let q = q\<lparr>vend := ve\<rparr>;
          q = if q_state q = 1 then q\<lparr>nend := ve, vstart := ve\<rparr> else q
      in q\<lparr>q_pairs := q_pairs q @
             [\<lparr>name1 = nstart q, name2 = nend q, value1 = vstart q, value2 = vend q\<rparr>]\<rparr>)"

definition q_amp :: "query_state \<Rightarrow> query_state" where
  "q_amp q =
     (let q = if q_state q \<noteq> 0 then (q_emit (q_here q) q)\<lparr>q_state := 0\<rparr> else q;
          q = q\<lparr>q_pend := q_pend q @ ''&''\<rparr>
      in q\<lparr>nstart := q_here q, nend := q_here q\<rparr>)"

definition q_equals :: "query_state \<Rightarrow> query_state" where
  "q_equals q =
     (let q = q\<lparr>nend := q_here q\<rparr>
      in q\<lparr>vstart := nend q + 1, q_state := 2, q_pend := q_pend q @ ''=''\<rparr>)"

text \<open>\<^verbatim>\<open>qurl.append(last, s); qurl.push_back(c); last = s = s + n\<close>\<close>

definition q_push :: "char \<Rightarrow> query_state \<Rightarrow> query_state" where
  "q_push c q = q\<lparr>q_url := q_url q @ q_pend q @ [c], q_pend := []\<rparr>"

text \<open>
  The loop over the query. \<open>after\<close> is the character \<^verbatim>\<open>*s2\<close>, which the test for an escape reads
  when the query ends two characters after the percent sign: a hash or the terminating null.
\<close>

function query_loop :: "char \<Rightarrow> string \<Rightarrow> query_state \<Rightarrow> query_state" where
  "query_loop after [] q = q"
| "query_loop after (c # s) q =
     (if c = CHR ''&'' then query_loop after s (q_amp q)
      else if c = CHR ''='' \<and> q_state q \<le> 1 then query_loop after s (q_equals q)
      else let q = if q_state q = 0 then q\<lparr>q_state := 1\<rparr> else q
           in if c = CHR ''%'' \<and> length (c # s) \<ge> 2
                 \<and> char_has us_hex ((c # s @ [after]) ! 1) \<and> char_has us_hex ((c # s @ [after]) ! 2)
              then query_loop after (drop 2 s)
                     (q_push (char_of (xvalue ((c # s @ [after]) ! 1) * 16 + xvalue ((c # s @ [after]) ! 2))) q)
              else if c = CHR ''+'' then query_loop after s (q_push (CHR '' '') q)
              else query_loop after s (q\<lparr>q_pend := q_pend q @ [c]\<rparr>))"
  by pat_completeness auto
termination by (relation "measure (\<lambda>(_, s, _). length s)") auto

declare query_loop.simps [simp del]

definition query_init :: query_state where
  "query_init = \<lparr>q_url = [], q_pairs = [], q_pend = [], q_state = 0, nstart = 0, nend = 0,
     vstart = 0, vend = 0\<rparr>"

definition query_finish :: "query_state \<Rightarrow> query_state" where
  "query_finish q =
     (let q = if q_pend q \<noteq> [] then q\<lparr>q_url := q_url q @ q_pend q, q_pend := []\<rparr> else q
      in if q_state q \<noteq> 0 then q_emit (of_nat (length (q_url q))) q else q)"

definition make_info_params :: "string \<Rightarrow> info_type \<Rightarrow> info_type" where
  "make_info_params u i =
     (let i = i\<lparr>i_qurl := [], i_qpairs := []\<rparr>;
          (a, b) = i_f i ! 1;
          i = if a \<noteq> b
                then let q = query_finish (query_loop ((u @ [CHR 0x00]) ! unat b)
                               (view u (unat a + 1) (unat b - (unat a + 1))) query_init)
                     in i\<lparr>i_qurl := q_url q, i_qpairs := q_pairs q\<rparr>
                else i
      in i\<lparr>i_flags := i_flags i OR info_params\<rparr>)"

subsection \<open>The cache\<close>

definition make_info :: "u32 \<Rightarrow> http_message \<Rightarrow> http_message" where
  "make_info fl m =
     (let i = (case info_ptr m of Some j \<Rightarrow> j | None \<Rightarrow> info_type_new);
          i = if i_flags i AND info_url = 0 \<and> fl AND (info_url OR info_params) \<noteq> 0
                then make_info_url (url m) i else i;
          i = if i_flags i AND info_params = 0 \<and> fl AND info_params \<noteq> 0
                then make_info_params (url m) i else i
      in m\<lparr>info_ptr := Some i\<rparr>)"

text \<open>\<^verbatim>\<open>info(f)\<close>, with the message whose cache it may fill.\<close>

definition info :: "u32 \<Rightarrow> http_message \<Rightarrow> info_type \<times> http_message" where
  "info f m =
     (let m = (case info_ptr m of
                 None \<Rightarrow> make_info f m
               | Some i \<Rightarrow> if i_flags i AND f \<noteq> f then make_info f m else m)
      in (case info_ptr m of Some i \<Rightarrow> i | None \<Rightarrow> info_type_new, m))"

definition has_url_field :: "nat \<Rightarrow> http_message \<Rightarrow> bool \<times> http_message" where
  "has_url_field field m =
     (let (i, m) = info info_url m
      in (fst (i_f i ! field) \<noteq> snd (i_f i ! field), m))"

definition url_field :: "nat \<Rightarrow> http_message \<Rightarrow> string \<times> http_message" where
  "url_field field m =
     (let (i, m) = info info_url m; (a, b) = i_f i ! field
      in (if a \<noteq> b then view (url m) (unat a) (unat b - unat a) else [], m))"

definition has_valid_url :: "http_message \<Rightarrow> bool \<times> http_message" where
  "has_valid_url = has_url_field 0"

definition path :: "http_message \<Rightarrow> string \<times> http_message" where
  "path = url_field 0"

definition has_search :: "http_message \<Rightarrow> bool \<times> http_message" where
  "has_search = has_url_field 1"

definition search :: "http_message \<Rightarrow> string \<times> http_message" where
  "search = url_field 1"

definition has_hash :: "http_message \<Rightarrow> bool \<times> http_message" where
  "has_hash = has_url_field 2"

definition hash :: "http_message \<Rightarrow> string \<times> http_message" where
  "hash = url_field 2"

definition search_param_begin :: "http_message \<Rightarrow> http_header_iterator \<times> http_message" where
  "search_param_begin m =
     (let (i, m) = info info_params m
      in (\<lparr>it_base = i_qurl i, it_vec = i_qpairs i, it_pair = 0\<rparr>, m))"

definition search_param_end :: "http_message \<Rightarrow> http_header_iterator \<times> http_message" where
  "search_param_end m =
     (let (i, m) = info info_params m
      in (\<lparr>it_base = i_qurl i, it_vec = i_qpairs i, it_pair = length (i_qpairs i)\<rparr>, m))"

fun find_param :: "string \<Rightarrow> string \<Rightarrow> http_kvoffsets list \<Rightarrow> http_kvoffsets option" where
  "find_param base nm [] = None"
| "find_param base nm (kv # kvs) =
     (if kv_name base kv = nm then Some kv else find_param base nm kvs)"

definition has_search_param :: "string \<Rightarrow> http_message \<Rightarrow> bool \<times> http_message" where
  "has_search_param nm m =
     (let (i, m) = info info_params m
      in (find_param (i_qurl i) nm (i_qpairs i) \<noteq> None, m))"

definition search_param :: "string \<Rightarrow> http_message \<Rightarrow> string \<times> http_message" where
  "search_param nm m =
     (let (i, m) = info info_params m
      in (case find_param (i_qurl i) nm (i_qpairs i) of
            Some kv \<Rightarrow> kv_value (i_qurl i) kv
          | None \<Rightarrow> [], m))"

end
