(* ===== verification/HttpHeaders.thy ===== *)
theory HttpHeaders
  imports HttpMessage "HOL-Library.Sublist"
begin

text \<open>
  The headers of a message refine a list of name/value pairs, and the string of header lines is
  what a peer must see.
\<close>

subsection \<open>String helpers\<close>

lemma ieq_count_iff:
  "length a = length b \<Longrightarrow> ieq_count a b (length a) \<longleftrightarrow> map lower_ascii a = map lower_ascii b"
  by (induction a b rule: list_induct2) auto

lemma ieq_iff: "ieq a b \<longleftrightarrow> map lower_ascii a = map lower_ascii b"
  using ieq_count_iff [of a b] map_eq_imp_length_eq [of lower_ascii a lower_ascii b]
  by (auto simp: ieq_def)

lemma trim_front_dropWhile: "trim_front s = dropWhile is_hws s"
  by (induction s) auto

lemma trim_back_dropWhile: "trim_back s = rev (dropWhile is_hws (rev s))"
proof (induction s rule: rev_induct)
  case Nil
  then show ?case by (simp add: trim_back.simps)
next
  case (snoc c s)
  then show ?case by (subst trim_back.simps) simp
qed

lemma hd_dropWhile_not: "dropWhile P s \<noteq> [] \<Longrightarrow> \<not> P (List.hd (dropWhile P s))"
  by (induction s) auto

text \<open>The ends of a trimmed string are not white space.\<close>

lemma trim_hws_ends:
  assumes "trim_hws s \<noteq> []"
  shows "\<not> is_hws (List.hd (trim_hws s)) \<and> \<not> is_hws (last (trim_hws s))"
proof -
  let ?f = "dropWhile is_hws s"
  have t: "trim_hws s = rev (dropWhile is_hws (rev ?f))"
    by (simp add: trim_hws_def trim_front_dropWhile trim_back_dropWhile)
  have ne: "dropWhile is_hws (rev ?f) \<noteq> []" using assms t by auto
  obtain ws where ws: "rev ?f = ws @ dropWhile is_hws (rev ?f)"
    by (metis takeWhile_dropWhile_id)
  have f: "?f = trim_hws s @ rev ws"
    using arg_cong [OF ws, of rev] t by simp
  then have "List.hd (trim_hws s) = List.hd ?f" using assms by (simp add: hd_append)
  moreover have "?f \<noteq> []" using f assms by auto
  ultimately have "\<not> is_hws (List.hd (trim_hws s))" using hd_dropWhile_not [of is_hws s] by simp
  moreover have "\<not> is_hws (last (trim_hws s))"
    using hd_dropWhile_not [OF ne] t ne by (simp add: last_rev)
  ultimately show ?thesis ..
qed

text \<open>Trimming only removes white space at the two ends.\<close>

lemma trim_hws_context:
  "\<exists>a b. s = a @ trim_hws s @ b \<and> (\<forall>c \<in> set a \<union> set b. is_hws c)"
proof -
  let ?f = "dropWhile is_hws s"
  have t: "trim_hws s = rev (dropWhile is_hws (rev ?f))"
    by (simp add: trim_hws_def trim_front_dropWhile trim_back_dropWhile)
  have "?f = rev (takeWhile is_hws (rev ?f) @ dropWhile is_hws (rev ?f))"
    by (simp only: takeWhile_dropWhile_id rev_rev_ident)
  then have "?f = trim_hws s @ rev (takeWhile is_hws (rev ?f))" by (metis t rev_append)
  then have "s = takeWhile is_hws s @ trim_hws s @ rev (takeWhile is_hws (rev ?f))"
    by (metis takeWhile_dropWhile_id)
  moreover have "\<forall>c \<in> set (takeWhile is_hws s) \<union> set (rev (takeWhile is_hws (rev ?f))). is_hws c"
    by (auto dest: set_takeWhileD)
  ultimately show ?thesis by blast
qed

lemma trim_hws_id:
  assumes "s = [] \<or> \<not> is_hws (List.hd s) \<and> \<not> is_hws (last s)"
  shows "trim_hws s = s"
proof -
  have "dropWhile is_hws s = s" using assms by (cases s) auto
  moreover have "dropWhile is_hws (rev s) = rev s" using assms by (cases s rule: rev_cases) auto
  ultimately show ?thesis by (simp add: trim_hws_def trim_front_dropWhile trim_back_dropWhile)
qed

lemma trim_hws_idem [simp]: "trim_hws (trim_hws s) = trim_hws s"
  using trim_hws_ends [of s] by (intro trim_hws_id) auto

subsection \<open>The list of headers\<close>

definition header_list :: "http_message \<Rightarrow> (string \<times> string) list" where
  "header_list m = map (\<lambda>kv. (kv_name (headers m) kv, kv_value (headers m) kv)) (hpairs m)"

definition kv_within :: "nat \<Rightarrow> http_kvoffsets \<Rightarrow> bool" where
  "kv_within n kv \<longleftrightarrow> name1 kv \<le> name2 kv \<and> name2 kv \<le> value1 kv \<and> value1 kv \<le> value2 kv
     \<and> unat (value2 kv) \<le> n"

definition header_line :: "string \<times> string \<Rightarrow> string" where
  "header_line kv = fst kv @ '': '' @ snd kv @ CRLF"

definition hm_wf :: "http_message \<Rightarrow> bool" where
  "hm_wf m \<longleftrightarrow> (\<forall>kv \<in> set (hpairs m). kv_within (length (headers m)) kv)"

text \<open>The header string is the lines of the pairs, and no value begins or ends with white space.\<close>

definition wire_wf :: "http_message \<Rightarrow> bool" where
  "wire_wf m \<longleftrightarrow> hm_wf m \<and> headers m = concat (map header_line (header_list m))
     \<and> list_all (\<lambda>(_, v). trim_hws v = v) (header_list m)"

lemma view_append: "i + n \<le> length base \<Longrightarrow> view (base @ sfx) i n = view base i n"
  by (simp add: view_def)

lemma unat_of_nat_32: "n < 2 ^ 32 \<Longrightarrow> unat (of_nat n :: u32) = n"
  by (simp add: unat_of_nat take_bit_nat_eq_self)

lemma unat_diff_of_nat_32:
  assumes "a \<le> b" "b < 2 ^ 32"
  shows "unat (of_nat b - of_nat a :: u32) = b - a"
proof -
  have "(of_nat b - of_nat a :: u32) = of_nat (b - a)" using assms by (simp add: of_nat_diff)
  with assms show ?thesis using unat_of_nat_32 [of "b - a"] by simp
qed

text \<open>A pair keeps its meaning when the string behind it grows.\<close>

lemma kv_grow:
  assumes "kv_within (length base) kv"
  shows "kv_name (base @ sfx) kv = kv_name base kv" "kv_value (base @ sfx) kv = kv_value base kv"
proof -
  have le: "unat (name1 kv) \<le> unat (name2 kv)" "unat (name2 kv) \<le> unat (value1 kv)"
    "unat (value1 kv) \<le> unat (value2 kv)" "unat (value2 kv) \<le> length base"
    using assms by (auto simp: kv_within_def word_le_nat_alt)
  have "unat (name2 kv - name1 kv) = unat (name2 kv) - unat (name1 kv)"
    "unat (value2 kv - value1 kv) = unat (value2 kv) - unat (value1 kv)"
    using assms by (auto simp: kv_within_def unat_sub)
  then show "kv_name (base @ sfx) kv = kv_name base kv" "kv_value (base @ sfx) kv = kv_value base kv"
    using le by (auto simp: kv_name_def kv_value_def view_append)
qed

text \<open>Offsets below $2^{32}$ denote the text between them.\<close>

lemma kvoffsets_view:
  assumes "a \<le> b" "b \<le> c" "c \<le> d" "d \<le> length base" "length base < 2 ^ 32"
  shows "kv_name base (kvoffsets a b c d) = take (b - a) (drop a base)"
    and "kv_value base (kvoffsets a b c d) = take (d - c) (drop c base)"
    and "kv_within (length base) (kvoffsets a b c d)"
proof -
  have lt: "a < 2 ^ 32" "b < 2 ^ 32" "c < 2 ^ 32" "d < 2 ^ 32" using assms by auto
  note u = unat_of_nat_32 [OF lt(1)] unat_of_nat_32 [OF lt(2)] unat_of_nat_32 [OF lt(3)]
    unat_of_nat_32 [OF lt(4)]
  show "kv_name base (kvoffsets a b c d) = take (b - a) (drop a base)"
    using unat_diff_of_nat_32 [OF assms(1) lt(2)] u
    by (simp add: kv_name_def kvoffsets_def view_def)
  show "kv_value base (kvoffsets a b c d) = take (d - c) (drop c base)"
    using unat_diff_of_nat_32 [OF assms(3) lt(4)] u
    by (simp add: kv_value_def kvoffsets_def view_def)
  show "kv_within (length base) (kvoffsets a b c d)"
    using u assms by (simp add: kv_within_def kvoffsets_def word_le_nat_alt)
qed

lemma hm_wf_new [simp]: "hm_wf http_message_new" "hm_wf (http_request_new mt u)"
    "hm_wf (http_response_new c)"
  by (simp_all add: hm_wf_def http_message_new_def http_request_new_def http_response_new_def)

text \<open>
  Adding header text at the end, with its pair, appends one entry; \<^verbatim>\<open>add_header\<close> and the
  parser's callbacks both do this.
\<close>

lemma header_list_extend:
  assumes "hm_wf m" "hs = headers m @ sfx" "length hs < 2 ^ 32"
    and "a \<le> b" "b \<le> c" "c \<le> d" "d \<le> length hs"
    and "m' = m\<lparr>headers := hs, hpairs := hpairs m @ [kvoffsets a b c d]\<rparr>"
  shows "header_list m' = header_list m @ [(take (b - a) (drop a hs), take (d - c) (drop c hs))]"
    and "hm_wf m'"
proof -
  note new = kvoffsets_view [OF assms(4-7,3)]
  have old: "kv_name hs kv = kv_name (headers m) kv \<and> kv_value hs kv = kv_value (headers m) kv"
    if "kv \<in> set (hpairs m)" for kv
    using kv_grow [of "headers m" kv sfx] that assms(1,2) by (auto simp: hm_wf_def)
  show "header_list m' = header_list m @ [(take (b - a) (drop a hs), take (d - c) (drop c hs))]"
    using new(1,2) old by (simp add: assms(8) header_list_def)
  have "kv_within (length hs) kv" if "kv \<in> set (hpairs m)" for kv
    using that assms(1,2) by (auto simp: hm_wf_def kv_within_def)
  with new(3) show "hm_wf m'" by (auto simp: assms(8) hm_wf_def)
qed

lemma add_header_list:
  assumes "hm_wf m" "length (headers m) + length key + length v + 4 < 2 ^ 32"
  shows "header_list (add_header key v m) = header_list m @ [(key, trim_hws v)]"
    and "hm_wf (add_header key v m)"
    and "headers (add_header key v m) = headers m @ header_line (key, trim_hws v)"
proof -
  let ?n1 = "length (headers m)"
  let ?n2 = "?n1 + length key"
  let ?hs = "headers m @ key @ '': '' @ trim_hws v @ CRLF"
  let ?v2 = "?n2 + 2 + length (trim_hws v)"
  obtain a b where "v = a @ trim_hws v @ b" using trim_hws_context by blast
  then have "length v = length a + length (trim_hws v) + length b"
    by (metis add.assoc length_append)
  then have len: "length ?hs < 2 ^ 32" using assms(2) by simp
  have m': "add_header key v m =
      m\<lparr>headers := ?hs, hpairs := hpairs m @ [kvoffsets ?n1 ?n2 (?n2 + 2) ?v2]\<rparr>"
    by (simp add: add_header_def Let_def add.assoc)
  note ext = header_list_extend [OF assms(1) refl len _ _ _ _ m']
  have "header_list (add_header key v m) = header_list m @
      [(take (?n2 - ?n1) (drop ?n1 ?hs), take (?v2 - (?n2 + 2)) (drop (?n2 + 2) ?hs))]"
    by (rule ext) auto
  then show "header_list (add_header key v m) = header_list m @ [(key, trim_hws v)]" by simp
  show "hm_wf (add_header key v m)" by (rule ext) auto
  show "headers (add_header key v m) = headers m @ header_line (key, trim_hws v)"
    by (simp add: m' header_line_def)
qed

subsection \<open>Lookups\<close>

definition matching :: "string \<Rightarrow> (string \<times> string) list \<Rightarrow> string list" where
  "matching nm hs = map snd (filter (\<lambda>(k, _). ieq k nm) hs)"

fun join :: "string \<Rightarrow> string list \<Rightarrow> string" where
  "join sep [] = []"
| "join sep [s] = s"
| "join sep (s # t # ss) = s @ sep @ join sep (t # ss)"

definition it_at :: "http_message \<Rightarrow> nat \<Rightarrow> http_header_iterator" where
  "it_at m i = \<lparr>it_base = headers m, it_vec = hpairs m, it_pair = i\<rparr>"

lemma it_at_simps [simp]:
  "header_begin m = it_at m 0" "header_end m = it_at m (length (hpairs m))"
  "it_incr (it_at m i) = it_at m (Suc i)" "it_pair (it_at m i) = i"
  by (simp_all add: header_begin_def header_end_def it_at_def it_incr_def)

lemma length_header_list [simp]: "length (header_list m) = length (hpairs m)"
  by (simp add: header_list_def)

lemma it_deref_at: "i < length (hpairs m) \<Longrightarrow> it_deref (it_at m i) = header_list m ! i"
  by (simp add: it_deref_def it_name_def it_value_def it_at_def header_list_def)

lemma it_at_views:
  assumes "i < length (hpairs m)"
  shows "name_ieq (it_at m i) nm \<longleftrightarrow> ieq (fst (header_list m ! i)) nm"
    and "it_value (it_at m i) = snd (header_list m ! i)"
  using arg_cong [OF it_deref_at [OF assms], of fst] arg_cong [OF it_deref_at [OF assms], of snd]
  by (auto simp: name_ieq_def it_deref_def)

lemma drop_header_list: "i < length (hpairs m) \<Longrightarrow>
    drop i (header_list m) = header_list m ! i # drop (Suc i) (header_list m)"
  by (simp add: Cons_nth_drop_Suc)

lemma has_header_from_iff:
  "has_header_from nm (it_at m i) (it_at m (length (hpairs m))) \<longleftrightarrow>
     matching nm (drop i (header_list m)) \<noteq> []"
proof (induction "length (hpairs m) - i" arbitrary: i)
  case 0
  then show ?case by (subst has_header_from.simps) (simp add: matching_def)
next
  case (Suc n)
  then have i: "i < length (hpairs m)" by simp
  have "has_header_from nm (it_at m (Suc i)) (it_at m (length (hpairs m))) \<longleftrightarrow>
     matching nm (drop (Suc i) (header_list m)) \<noteq> []"
    using Suc by (intro Suc(1)) simp
  with i show ?case
    by (subst has_header_from.simps)
      (simp add: it_at_views [OF i] drop_header_list [OF i] matching_def split_beta)
qed

lemma join_snoc: "ss \<noteq> [] \<Longrightarrow> join sep (ss @ [t]) = join sep ss @ sep @ t"
  by (induction sep ss rule: join.induct) auto

lemma join_Cons: "join sep (s # ss) = s @ concat (map ((@) sep) ss)"
  by (induction ss arbitrary: s) auto

lemma header_from_join:
  "header_from nm (it_at m i) (it_at m (length (hpairs m))) r True =
     r @ concat (map ((@) '', '') (matching nm (drop i (header_list m))))"
proof (induction "length (hpairs m) - i" arbitrary: i r)
  case 0
  then show ?case by (subst header_from.simps) (simp add: matching_def)
next
  case (Suc n)
  then have i: "i < length (hpairs m)" by simp
  have ih: "header_from nm (it_at m (Suc i)) (it_at m (length (hpairs m))) r' True =
     r' @ concat (map ((@) '', '') (matching nm (drop (Suc i) (header_list m))))" for r'
    using Suc(2) by (intro Suc(1)) simp
  from i show ?case
    by (subst header_from.simps)
      (simp add: ih it_at_views [OF i] drop_header_list [OF i] matching_def split_beta)
qed

lemma header_from_first:
  "header_from nm (it_at m i) (it_at m (length (hpairs m))) [] False =
     join '', '' (matching nm (drop i (header_list m)))"
proof (induction "length (hpairs m) - i" arbitrary: i)
  case 0
  then show ?case by (subst header_from.simps) (simp add: matching_def)
next
  case (Suc n)
  then have i: "i < length (hpairs m)" by simp
  have ih: "header_from nm (it_at m (Suc i)) (it_at m (length (hpairs m))) [] False =
     join '', '' (matching nm (drop (Suc i) (header_list m)))"
    using Suc(2) by (intro Suc(1)) simp
  from i show ?case
    by (subst header_from.simps)
      (simp add: ih header_from_join join_Cons it_at_views [OF i] drop_header_list [OF i]
        matching_def split_beta)
qed

lemma header_lookup:
  "has_header nm m \<longleftrightarrow> matching nm (header_list m) \<noteq> []"
  "header nm m = join '', '' (matching nm (header_list m))"
  using has_header_from_iff [of nm m 0] header_from_first [of nm m 0]
  by (simp_all add: has_header_def header_def)

subsection \<open>Collecting headers, as an interface\<close>

text \<open>
  Anything that collects headers one after the other: \<open>add\<close> appends an entry, at a cost that counts
  against the $2^{32}$ bytes that offsets can address. A client adds whole lists.
\<close>

locale header_sink =
  fixes inv :: "'m \<Rightarrow> bool"
    and entries :: "'m \<Rightarrow> (string \<times> string) list"
    and used :: "'m \<Rightarrow> nat"
    and add :: "'h \<Rightarrow> 'm \<Rightarrow> 'm"
    and entry :: "'h \<Rightarrow> string \<times> string"
    and cost :: "'h \<Rightarrow> nat"
  assumes add_entry: "inv m \<Longrightarrow> used m + cost h < 2 ^ 32 \<Longrightarrow> entries (add h m) = entries m @ [entry h]"
    and add_inv: "inv m \<Longrightarrow> used m + cost h < 2 ^ 32 \<Longrightarrow> inv (add h m)"
    and add_used: "inv m \<Longrightarrow> used m + cost h < 2 ^ 32 \<Longrightarrow> used (add h m) \<le> used m + cost h"
begin

lemma add_all:
  "inv m \<Longrightarrow> used m + sum_list (map cost hs) < 2 ^ 32 \<Longrightarrow>
     entries (fold add hs m) = entries m @ map entry hs \<and> inv (fold add hs m)
     \<and> used (fold add hs m) \<le> used m + sum_list (map cost hs)"
proof (induction hs arbitrary: m)
  case Nil
  then show ?case by simp
next
  case (Cons h hs)
  have room: "used m + cost h < 2 ^ 32" using Cons(3) by simp
  note step = add_entry [OF Cons(2) room] add_inv [OF Cons(2) room] add_used [OF Cons(2) room]
  have "used (add h m) + sum_list (map cost hs) < 2 ^ 32" using step(3) Cons(3) by simp
  with Cons(1) [OF step(2)] step show ?case by simp
qed

end

lemma trim_hws_length: "length (trim_hws v) \<le> length v"
proof -
  obtain a b where "v = a @ trim_hws v @ b" using trim_hws_context by blast
  then show ?thesis by (metis le_add1 le_add2 length_append le_trans)
qed

lemma add_header_wire:
  assumes "wire_wf m" "length (headers m) + length key + length v + 4 < 2 ^ 32"
  shows "wire_wf (add_header key v m)"
  using assms add_header_list [OF _ assms(2)] by (simp add: wire_wf_def header_line_def)

interpretation api: header_sink wire_wf header_list "\<lambda>m. length (headers m)"
    "\<lambda>(k, v). add_header k v" "\<lambda>(k, v). (k, trim_hws v)" "\<lambda>(k, v). length k + length v + 4"
proof (unfold_locales, goal_cases)
  case (1 m h)
  then show ?case using add_header_list(1) [of m "fst h" "snd h"]
    by (simp add: wire_wf_def split_beta add.assoc)
next
  case (2 m h)
  then show ?case using add_header_wire [of m "fst h" "snd h"] by (simp add: split_beta add.assoc)
next
  case (3 m h)
  then show ?case
    using add_header_list(3) [of m "fst h" "snd h"] trim_hws_length [of "snd h"]
    by (simp add: wire_wf_def split_beta add.assoc header_line_def)
qed

lemma matching_append [simp]: "matching nm (xs @ ys) = matching nm xs @ matching nm ys"
  by (simp add: matching_def)

text \<open>
  C29: \<^verbatim>\<open>add_header\<close> appends one entry, its value trimmed, to the list that the offsets denote, and
  keeps the header string equal to the lines of the list; a lookup ignores the case of ASCII
  letters, finds the new entry and the old ones, and joins the values of one name in order.
\<close>

theorem add_header_refines:
  assumes "wire_wf m" "length (headers m) + length key + length v + 4 < 2 ^ 32"
  shows "header_list (add_header key v m) = header_list m @ [(key, trim_hws v)]
    \<and> wire_wf (add_header key v m)
    \<and> (has_header nm (add_header key v m) \<longleftrightarrow> has_header nm m \<or> ieq key nm)
    \<and> header nm (add_header key v m) =
        (if \<not> ieq key nm then header nm m
         else if has_header nm m then header nm m @ '', '' @ trim_hws v
         else trim_hws v)"
proof -
  have l: "header_list (add_header key v m) = header_list m @ [(key, trim_hws v)]"
    using assms by (intro add_header_list(1)) (simp_all add: wire_wf_def)
  have "matching nm (header_list m @ [(key, trim_hws v)]) =
      matching nm (header_list m) @ (if ieq key nm then [trim_hws v] else [])"
    by (simp add: matching_def)
  with l add_header_wire [OF assms] show ?thesis
    using join_snoc [of "matching nm (header_list m)" "'', ''" "trim_hws v"]
    by (simp add: header_lookup)
qed

lemma add_header_refines_witness:
  "header ''ACCEPT'' (add_header ''accept'' '' text/html '' http_message_new) = ''text/html''
    \<and> has_header ''Accept'' (add_header ''accept'' '' text/html '' http_message_new)"
proof -
  have wf: "wire_wf http_message_new"
    by (simp add: wire_wf_def header_list_def) (simp add: http_message_new_def)
  have len: "length (headers http_message_new) + length ''accept'' + length '' text/html '' + 4 < 2 ^ 32"
    by (simp add: http_message_new_def)
  have "\<not> has_header ''ACCEPT'' http_message_new" "ieq ''accept'' ''ACCEPT''" "ieq ''accept'' ''Accept''"
    "trim_hws '' text/html '' = ''text/html''" by code_simp+
  with add_header_refines [OF wf len, of "''ACCEPT''"] add_header_refines [OF wf len, of "''Accept''"]
  show ?thesis by simp
qed

end
