(* ===== verification/HttpUrlInv.thy ===== *)
theory HttpUrlInv
  imports HttpUrl HttpHeaders
begin

text \<open>
  The scan of the URL and the decoder of the search parameters compute what reference functions on
  strings say, and the cached offsets stay those of the current URL.
\<close>

subsection \<open>The character table\<close>

definition hex_digit :: "nat \<Rightarrow> nat option" where
  "hex_digit n =
     (if 48 \<le> n \<and> n \<le> 57 then Some (n - 48)
      else if 65 \<le> n \<and> n \<le> 70 then Some (n - 55)
      else if 97 \<le> n \<and> n \<le> 102 then Some (n - 87) else None)"

lemma chartable_hex:
  "map (\<lambda>w. if w AND us_hex = 0 then None else Some (unat (drop_bit 4 w))) chartable =
     map hex_digit [0..<256]"
  by code_simp

lemma char_hex:
  "char_has us_hex c \<longleftrightarrow> hex_digit (of_char c) \<noteq> None"
  "hex_digit (of_char c) = Some d \<Longrightarrow> xvalue c = d"
proof -
  let ?g = "\<lambda>w. if w AND us_hex = 0 then None else Some (unat (drop_bit 4 w))"
  have len: "length chartable = 256" using arg_cong [OF chartable_hex, of length] by simp
  have lt: "of_char c < (256 :: nat)" by (rule nat_of_char_less_256)
  have eq: "?g (chartable ! of_char c) = hex_digit (of_char c)"
    using arg_cong [OF chartable_hex, of "\<lambda>xs. xs ! of_char c"] lt len by simp
  from eq show "char_has us_hex c \<longleftrightarrow> hex_digit (of_char c) \<noteq> None"
    by (metis (mono_tags, lifting) char_has_def option.distinct(1))
  from eq show "hex_digit (of_char c) = Some d \<Longrightarrow> xvalue c = d"
    by (auto simp: xvalue_def split: if_splits)
qed

lemma not_safe: "\<not> char_has us_safe (CHR ''?'')" "\<not> char_has us_safe (CHR ''#'')"
  by code_simp+

lemma not_hex: "\<not> char_has us_hex (CHR ''&'')" "\<not> char_has us_hex (CHR ''='')"
  "\<not> char_has us_hex (CHR ''#'')" "\<not> char_has us_hex (CHR 0x00)"
  by (simp_all add: char_hex hex_digit_def)

subsection \<open>Path, search and hash\<close>

definition url_char :: "char \<Rightarrow> bool" where
  "url_char c \<longleftrightarrow> char_has us_safe c \<or> c = CHR ''?'' \<or> c = CHR ''#''"

lemma url_char_simps [simp]: "url_char (CHR ''?'')" "url_char (CHR ''#'')"
  by (simp_all add: url_char_def)

definition valid_url :: "string \<Rightarrow> bool" where
  "valid_url u \<longleftrightarrow> u \<noteq> [] \<and> u ! 0 = CHR ''/'' \<and> list_all url_char u"

definition url_path :: "string \<Rightarrow> string" where
  "url_path u = takeWhile (\<lambda>c. c \<noteq> CHR ''?'' \<and> c \<noteq> CHR ''#'') u"

definition url_search :: "string \<Rightarrow> string" where
  "url_search u = takeWhile (\<lambda>c. c \<noteq> CHR ''#'') (drop (length (url_path u)) u)"

definition url_hash :: "string \<Rightarrow> string" where
  "url_hash u = dropWhile (\<lambda>c. c \<noteq> CHR ''#'') u"

lemma fill_fields_3 [simp]:
  "fill_fields 3 2 n [x, y, z] = [x, y, (snd y, of_nat n)]"
  "fill_fields 3 (Suc 0) n [x, y, z] = [x, (snd x, of_nat n), (of_nat n, of_nat n)]"
  "fill_fields 3 0 n [x, y, z] = [(0, of_nat n), (of_nat n, of_nat n), (of_nat n, of_nat n)]"
  by (simp_all add: fill_fields.simps)

lemma fill_fields_2 [simp]:
  "fill_fields 2 2 n [x, y, z] = [x, y, z]"
  "fill_fields 2 (Suc 0) n [x, y, z] = [x, (snd x, of_nat n), z]"
  "fill_fields 2 0 n [x, y, z] = [(0, of_nat n), (of_nat n, of_nat n), z]"
  by (simp_all add: fill_fields.simps)

definition scan_fields :: "string \<Rightarrow> nat \<Rightarrow> nat \<Rightarrow> (u32 \<times> u32) list \<Rightarrow> (u32 \<times> u32) list option" where
  "scan_fields s pos fpos f = map_option (\<lambda>(n, k, f'). fill_fields 3 k n f') (scan_url s pos fpos f)"

lemma scan_fields_2:
  "scan_fields s pos 2 [x, y, z] =
     (if list_all url_char s then Some [x, y, (snd y, of_nat (pos + length s))] else None)"
proof (induction s arbitrary: pos)
  case Nil
  then show ?case by (simp add: scan_fields_def)
next
  case (Cons c s)
  have step: "scan_fields (c # s) pos 2 [x, y, z] =
    (if url_char c then scan_fields s (pos + 1) 2 [x, y, z] else None)"
    by (auto simp: scan_fields_def url_char_def)
  show ?case unfolding step by (auto simp: Cons)
qed

lemma scan_fields_1:
  "scan_fields s pos (Suc 0) [x, y, z] =
     (if list_all url_char s
      then let b = of_nat (pos + length (takeWhile (\<lambda>c. c \<noteq> CHR ''#'') s))
           in Some [x, (snd x, b), (b, of_nat (pos + length s))]
      else None)"
proof (induction s arbitrary: pos y)
  case Nil
  then show ?case by (simp add: scan_fields_def Let_def)
next
  case (Cons c s)
  have step: "scan_fields (c # s) pos (Suc 0) [x, y, z] =
    (if c = CHR ''#'' then scan_fields s (pos + 1) 2 [x, (snd x, of_nat pos), z]
     else if url_char c then scan_fields s (pos + 1) (Suc 0) [x, y, z] else None)"
    using not_safe by (auto simp: scan_fields_def url_char_def numeral_2_eq_2 [symmetric])
  show ?case
    unfolding step using not_safe
    by (auto simp: Cons scan_fields_2 Let_def add.commute add.left_commute)
qed

lemma scan_fields_0:
  "scan_fields s pos 0 [x, y, z] =
     (if list_all url_char s
      then let a = pos + length (url_path s); b = a + length (url_search s)
           in Some [(0, of_nat a), (of_nat a, of_nat b), (of_nat b, of_nat (pos + length s))]
      else None)"
proof (induction s arbitrary: pos x y)
  case Nil
  then show ?case by (simp add: scan_fields_def url_path_def url_search_def Let_def)
next
  case (Cons c s)
  have step: "scan_fields (c # s) pos 0 [x, y, z] =
    (if c = CHR ''#'' then scan_fields s (pos + 1) 2 [(0, of_nat pos), (of_nat pos, of_nat pos), z]
     else if c = CHR ''?'' then scan_fields s (pos + 1) (Suc 0) [(0, of_nat pos), y, z]
     else if url_char c then scan_fields s (pos + 1) 0 [x, y, z] else None)"
    using not_safe by (auto simp: scan_fields_def url_char_def numeral_2_eq_2 [symmetric])
  show ?case
    unfolding step using not_safe
    by (auto simp: Cons scan_fields_2 scan_fields_1 url_path_def url_search_def
        Let_def add.commute add.left_commute)
qed

lemma make_info_url_f:
  assumes "length (i_f i) = 3"
  shows "i_f (make_info_url u i) =
     (if valid_url u
      then let a = length (url_path u); b = a + length (url_search u)
           in [(0, of_nat a), (of_nat a, of_nat b), (of_nat b, of_nat (length u))]
      else [(0, 0), (0, 0), (0, 0)])"
proof -
  obtain x y z where f: "i_f i = [x, y, z]"
    using assms by (auto simp: numeral_3_eq_3 length_Suc_conv)
  show ?thesis
    using scan_fields_0 [of u 0 x y z]
    by (auto simp: make_info_url_def valid_url_def f scan_fields_def Let_def
        split: option.splits if_splits)
qed

lemma url_parts: "u = url_path u @ url_search u @ url_hash u"
proof -
  have "drop (length (url_path u)) u = dropWhile (\<lambda>c. c \<noteq> CHR ''?'' \<and> c \<noteq> CHR ''#'') u"
    by (simp add: url_path_def dropWhile_eq_drop)
  moreover have "dropWhile (\<lambda>c. c \<noteq> CHR ''#'') (dropWhile (\<lambda>c. c \<noteq> CHR ''?'' \<and> c \<noteq> CHR ''#'') u)
      = url_hash u"
    unfolding url_hash_def by (induction u) auto
  ultimately have "drop (length (url_path u)) u = url_search u @ url_hash u"
    using takeWhile_dropWhile_id [of "\<lambda>c. c \<noteq> CHR ''#''" "drop (length (url_path u)) u"]
    by (simp add: url_search_def)
  moreover have "take (length (url_path u)) u = url_path u"
    by (simp add: url_path_def takeWhile_eq_take [symmetric])
  ultimately show ?thesis by (metis append_take_drop_id [of "length (url_path u)" u])
qed

subsection \<open>Search parameters: the reference\<close>

fun percent_decode :: "string \<Rightarrow> string" where
  "percent_decode (c # a # b # s) =
     (if c = CHR ''%'' \<and> char_has us_hex a \<and> char_has us_hex b
      then char_of (xvalue a * 16 + xvalue b) # percent_decode s
      else (if c = CHR ''+'' then CHR '' '' else c) # percent_decode (a # b # s))"
| "percent_decode [] = []"
| "percent_decode [c] = [if c = CHR ''+'' then CHR '' '' else c]"
| "percent_decode [c, d] = map (\<lambda>c. if c = CHR ''+'' then CHR '' '' else c) [c, d]"

fun split_on :: "char \<Rightarrow> string \<Rightarrow> string list" where
  "split_on x [] = [[]]"
| "split_on x (c # s) =
     (if c = x then [] # split_on x s
      else case split_on x s of [] \<Rightarrow> [[c]] | t # ts \<Rightarrow> (c # t) # ts)"

definition parse_param :: "string \<Rightarrow> string \<times> string" where
  "parse_param seg = (percent_decode (takeWhile (\<lambda>c. c \<noteq> CHR ''='') seg),
     percent_decode (drop 1 (dropWhile (\<lambda>c. c \<noteq> CHR ''='') seg)))"

definition query_params :: "string \<Rightarrow> (string \<times> string) list" where
  "query_params q = map parse_param (filter (\<lambda>seg. seg \<noteq> []) (split_on (CHR ''&'') q))"

subsection \<open>A decoder on strings\<close>

text \<open>The loop with the name and value being collected in place of offsets.\<close>

record str_state =
  s_acc :: "(string \<times> string) list"
  s_st :: nat
  s_nm :: string
  s_val :: string

definition s_flush :: "str_state \<Rightarrow> str_state" where
  "s_flush t = (if s_st t = 0 then t
     else \<lparr>s_acc = s_acc t @ [(s_nm t, s_val t)], s_st = 0, s_nm = [], s_val = []\<rparr>)"

definition s_put :: "char \<Rightarrow> str_state \<Rightarrow> str_state" where
  "s_put c t = (if s_st t = 2 then t\<lparr>s_val := s_val t @ [c]\<rparr>
     else t\<lparr>s_st := 1, s_nm := s_nm t @ [c]\<rparr>)"

definition escaped :: "char \<Rightarrow> string \<Rightarrow> bool" where
  "escaped after s \<longleftrightarrow> length s \<ge> 2 \<and> s ! 0 = CHR ''%''
     \<and> char_has us_hex ((s @ [after]) ! 1) \<and> char_has us_hex ((s @ [after]) ! 2)"

definition escape_char :: "char \<Rightarrow> string \<Rightarrow> char" where
  "escape_char after s = char_of (xvalue ((s @ [after]) ! 1) * 16 + xvalue ((s @ [after]) ! 2))"

function str_loop :: "char \<Rightarrow> string \<Rightarrow> str_state \<Rightarrow> str_state" where
  "str_loop after [] t = t"
| "str_loop after (c # s) t =
     (if c = CHR ''&'' then str_loop after s (s_flush t)
      else if c = CHR ''='' \<and> s_st t \<le> 1 then str_loop after s (t\<lparr>s_st := 2\<rparr>)
      else if escaped after (c # s)
      then str_loop after (drop 2 s) (s_put (escape_char after (c # s)) t)
      else str_loop after s (s_put (if c = CHR ''+'' then CHR '' '' else c) t))"
  by pat_completeness auto
termination by (relation "measure (\<lambda>(_, s, _). length s)") auto

declare str_loop.simps [simp del]

definition str_init :: str_state where
  "str_init = \<lparr>s_acc = [], s_st = 0, s_nm = [], s_val = []\<rparr>"

subsection \<open>The decoder on strings meets the reference\<close>

text \<open>\<open>t\<close> starts a new segment: it is empty or begins with a character that is not a hex digit.\<close>

definition boundary :: "char \<Rightarrow> string \<Rightarrow> bool" where
  "boundary after t \<longleftrightarrow> \<not> char_has us_hex ((t @ [after]) ! 0)"

lemma boundary_simps [simp]:
  "boundary after [] \<longleftrightarrow> \<not> char_has us_hex after"
  "boundary after (c # t) \<longleftrightarrow> \<not> char_has us_hex c"
  by (simp_all add: boundary_def)

lemma s_put_fields:
  "s_st t = 2 \<Longrightarrow> s_put c t = t\<lparr>s_val := s_val t @ [c]\<rparr>"
  "s_st t < 2 \<Longrightarrow> s_put c t = t\<lparr>s_st := 1, s_nm := s_nm t @ [c]\<rparr>"
  by (simp_all add: s_put_def)

text \<open>
  Characters other than the separators, up to a boundary, are decoded in one go.
\<close>

lemma str_loop_text:
  assumes "boundary after t" "CHR ''&'' \<notin> set s" "s_st st = 2 \<or> CHR ''='' \<notin> set s"
  shows "str_loop after (s @ t) st = str_loop after t (fold s_put (percent_decode s) st)"
  using assms
proof (induction s arbitrary: st rule: percent_decode.induct)
  case (1 c a b s)
  have st2: "s_st (s_put x st) = 2 \<longleftrightarrow> s_st st = 2" for x by (simp add: s_put_def)
  show ?case
  proof (cases "c = CHR ''%'' \<and> char_has us_hex a \<and> char_has us_hex b")
    case True
    then have e: "escaped after (c # a # b # s @ t)" by (simp add: escaped_def nth_append)
    have x: "escape_char after (c # a # b # s @ t) = char_of (xvalue a * 16 + xvalue b)"
      by (simp add: escape_char_def nth_append)
    have ih: "str_loop after (s @ t) (s_put x st) =
        str_loop after t (fold s_put (percent_decode s) (s_put x st))" for x
      using 1 True st2 [of x] by auto
    show ?thesis using True e x ih by (simp add: str_loop.simps)
  next
    case False
    then have e: "\<not> escaped after (c # a # b # s @ t)" by (auto simp: escaped_def nth_append)
    have ih: "str_loop after ((a # b # s) @ t) (s_put x st) =
        str_loop after t (fold s_put (percent_decode (a # b # s)) (s_put x st))" for x
      using 1 False st2 [of x] by auto
    have "str_loop after ((c # a # b # s) @ t) st =
        str_loop after ((a # b # s) @ t) (s_put (if c = CHR ''+'' then CHR '' '' else c) st)"
      using e 1(4,5) by (auto simp: str_loop.simps(2) [of after c])
    moreover have "percent_decode (c # a # b # s) =
        (if c = CHR ''+'' then CHR '' '' else c) # percent_decode (a # b # s)"
      using False by auto
    ultimately show ?thesis using ih by simp
  qed
next
  case 2
  then show ?case by simp
next
  case (3 v)
  then have "\<not> escaped after (v # t)" by (auto simp: escaped_def nth_append boundary_def)
  with 3 show ?case by (auto simp: str_loop.simps(2) [of after v])
next
  case (4 v vb)
  then have e: "\<not> escaped after (v # vb # t)" "\<not> escaped after (vb # t)"
    by (auto simp: escaped_def nth_append boundary_def)
  with 4 show ?case
    by (auto simp: str_loop.simps(2) [of after v] str_loop.simps(2) [of after vb] s_put_def)
qed

lemma takeWhile_dropWhile_eq: "dropWhile P s = r \<Longrightarrow> s = takeWhile P s @ r"
  using takeWhile_dropWhile_id [of P s] by simp

lemma dropWhile_neq_hd: "dropWhile (\<lambda>c. c \<noteq> x) s = c # r \<Longrightarrow> c = x"
  by (induction s) (auto split: if_splits)

lemma fold_s_put:
  "fold s_put ds st =
     (if s_st st = 2 then st\<lparr>s_val := s_val st @ ds\<rparr>
      else if ds = [] then st else st\<lparr>s_st := 1, s_nm := s_nm st @ ds\<rparr>)"
  by (induction ds arbitrary: st) (auto simp: s_put_def)

lemma percent_decode_eq_Nil [simp]: "percent_decode s = [] \<longleftrightarrow> s = []"
  by (cases s rule: percent_decode.cases) auto

definition seg_start :: "(string \<times> string) list \<Rightarrow> str_state" where
  "seg_start acc = \<lparr>s_acc = acc, s_st = 0, s_nm = [], s_val = []\<rparr>"

text \<open>One segment, up to a separator or the end, adds its parameter.\<close>

lemma str_loop_segment:
  assumes "boundary after t" "CHR ''&'' \<notin> set seg"
  shows "\<exists>st. str_loop after (seg @ t) (seg_start acc) = str_loop after t st
    \<and> s_flush st = seg_start (acc @ (if seg = [] then [] else [parse_param seg]))"
proof (cases "CHR ''='' \<in> set seg")
  case False
  let ?st = "fold s_put (percent_decode seg) (seg_start acc)"
  have "str_loop after (seg @ t) (seg_start acc) = str_loop after t ?st"
    using False assms by (intro str_loop_text) auto
  moreover have "takeWhile (\<lambda>c. c \<noteq> CHR ''='') seg = seg" "dropWhile (\<lambda>c. c \<noteq> CHR ''='') seg = []"
    using False by (auto simp: takeWhile_eq_all_conv)
  then have "parse_param seg = (percent_decode seg, [])" 
    by (simp only: parse_param_def drop_Nil percent_decode.simps list.map)
  then have "s_flush ?st = seg_start (acc @ (if seg = [] then [] else [parse_param seg]))"
    by (simp add: fold_s_put seg_start_def s_flush_def)
  ultimately show ?thesis by blast
next
  case True
  define n where "n = takeWhile (\<lambda>c. c \<noteq> CHR ''='') seg"
  define v where "v = drop 1 (dropWhile (\<lambda>c. c \<noteq> CHR ''='') seg)"
  have "dropWhile (\<lambda>c. c \<noteq> CHR ''='') seg = CHR ''='' # v"
    using True unfolding v_def
    by (cases "dropWhile (\<lambda>c. c \<noteq> CHR ''='') seg") (auto dest: dropWhile_neq_hd)
  then have seg: "seg = n @ CHR ''='' # v"
    unfolding n_def by (rule takeWhile_dropWhile_eq)
  have n: "CHR ''='' \<notin> set n" unfolding n_def by (auto dest: set_takeWhileD)
  have amp: "CHR ''&'' \<notin> set n" "CHR ''&'' \<notin> set v" using assms(2) seg by auto
  let ?s1 = "fold s_put (percent_decode n) (seg_start acc)"
  let ?s2 = "?s1\<lparr>s_st := 2\<rparr>"
  let ?s3 = "fold s_put (percent_decode v) ?s2"
  have "str_loop after (seg @ t) (seg_start acc) = str_loop after (CHR ''='' # v @ t) ?s1"
    using str_loop_text [of after "CHR ''='' # v @ t" n "seg_start acc"] not_hex amp n
    by (simp add: seg)
  also have "\<dots> = str_loop after (v @ t) ?s2"
    by (simp add: str_loop.simps(2) [of after "CHR ''=''"] fold_s_put seg_start_def)
  also have "\<dots> = str_loop after t ?s3"
    using assms(1) amp by (intro str_loop_text) auto
  finally have "str_loop after (seg @ t) (seg_start acc) = str_loop after t ?s3" .
  moreover have "parse_param seg = (percent_decode n, percent_decode v)"
    by (simp add: parse_param_def n_def v_def)
  then have "s_flush ?s3 = seg_start (acc @ (if seg = [] then [] else [parse_param seg]))"
    using seg by (auto simp: fold_s_put seg_start_def s_flush_def)
  ultimately show ?thesis by blast
qed

lemma split_on_unfold:
  "split_on x s = takeWhile (\<lambda>c. c \<noteq> x) s #
     (case dropWhile (\<lambda>c. c \<noteq> x) s of [] \<Rightarrow> [] | _ # r \<Rightarrow> split_on x r)"
  by (induction s) auto

lemma query_params_unfold:
  "query_params s =
     (let seg = takeWhile (\<lambda>c. c \<noteq> CHR ''&'') s
      in (if seg = [] then [] else [parse_param seg]) @
         (case dropWhile (\<lambda>c. c \<noteq> CHR ''&'') s of [] \<Rightarrow> [] | _ # r \<Rightarrow> query_params r))"
proof -
  define d where "d = dropWhile (\<lambda>c. c \<noteq> CHR ''&'') s"
  have "split_on (CHR ''&'') s = takeWhile (\<lambda>c. c \<noteq> CHR ''&'') s #
     (case d of [] \<Rightarrow> [] | _ # r \<Rightarrow> split_on (CHR ''&'') r)"
    unfolding d_def by (rule split_on_unfold)
  then show ?thesis
    unfolding d_def [symmetric] query_params_def by (cases d) (simp_all add: Let_def)
qed

lemma str_loop_params:
  assumes "\<not> char_has us_hex after"
  shows "s_flush (str_loop after s (seg_start acc)) = seg_start (acc @ query_params s)"
proof (induction "length s" arbitrary: s acc rule: less_induct)
  case less
  define seg where "seg = takeWhile (\<lambda>c. c \<noteq> CHR ''&'') s"
  have seg: "CHR ''&'' \<notin> set seg" unfolding seg_def by (auto dest: set_takeWhileD)
  define new where "new = (if seg = [] then [] else [parse_param seg])"
  show ?case
  proof (cases "dropWhile (\<lambda>c. c \<noteq> CHR ''&'') s")
    case Nil
    then have s: "s = seg @ []" unfolding seg_def by (rule takeWhile_dropWhile_eq)
    have q: "query_params s = new"
      by (subst query_params_unfold) (simp add: Nil seg_def [symmetric] new_def Let_def)
    obtain st where "str_loop after (seg @ []) (seg_start acc) = str_loop after [] st"
        "s_flush st = seg_start (acc @ new)"
      using str_loop_segment [of after "[]" seg acc] seg assms by (auto simp: new_def)
    then show ?thesis using s q by (simp add: str_loop.simps)
  next
    case (Cons c r)
    then have c: "c = CHR ''&''" by (rule dropWhile_neq_hd)
    have s: "s = seg @ CHR ''&'' # r"
      unfolding seg_def by (rule takeWhile_dropWhile_eq) (simp add: Cons c)
    have q: "query_params s = new @ query_params r"
      by (subst query_params_unfold) (simp add: Cons seg_def [symmetric] new_def Let_def)
    obtain st where st: "str_loop after s (seg_start acc) = str_loop after (CHR ''&'' # r) st"
        "s_flush st = seg_start (acc @ new)"
      using str_loop_segment [of after "CHR ''&'' # r" seg acc] seg not_hex
      by (auto simp: s new_def)
    have "s_flush (str_loop after r (seg_start (acc @ new))) =
        seg_start ((acc @ new) @ query_params r)"
      by (rule less) (simp add: s)
    with st q show ?thesis by (simp add: str_loop.simps(2) [of after "CHR ''&''"])
  qed
qed

subsection \<open>The decoder on offsets simulates the decoder on strings\<close>

definition q_text :: "query_state \<Rightarrow> string" where
  "q_text q = q_url q @ q_pend q"

definition pair_texts :: "string \<Rightarrow> http_kvoffsets list \<Rightarrow> (string \<times> string) list" where
  "pair_texts base kvs = map (\<lambda>kv. (kv_name base kv, kv_value base kv)) kvs"

definition pairs_ok :: "string \<Rightarrow> http_kvoffsets list \<Rightarrow> (string \<times> string) list \<Rightarrow> bool" where
  "pairs_ok base kvs acc \<longleftrightarrow> (\<forall>kv \<in> set kvs. kv_within (length base) kv) \<and> pair_texts base kvs = acc"

lemma pairs_ok_grow: "pairs_ok base kvs acc \<Longrightarrow> pairs_ok (base @ sfx) kvs acc"
  using kv_grow [of base _ sfx] by (auto simp: pairs_ok_def pair_texts_def kv_within_def)

definition param_at :: "query_state \<Rightarrow> str_state \<Rightarrow> bool" where
  "param_at q t \<longleftrightarrow> (\<exists>p.
     nstart q = of_nat (length p) \<and>
     (if s_st t = 2
      then q_text q = p @ s_nm t @ ''='' @ s_val t
         \<and> nend q = of_nat (length p + length (s_nm t))
         \<and> vstart q = of_nat (length p + length (s_nm t) + 1)
      else q_text q = p @ s_nm t \<and> s_val t = [] \<and> (s_st t = 0 \<longrightarrow> s_nm t = [])))"

definition q_sim :: "query_state \<Rightarrow> str_state \<Rightarrow> bool" where
  "q_sim q t \<longleftrightarrow> q_state q = s_st t \<and> s_st t \<le> 2 \<and> pairs_ok (q_text q) (q_pairs q) (s_acc t) \<and> param_at q t"

text \<open>The emitted pair denotes the name and value collected so far.\<close>

lemma q_emit_pair:
  assumes "q_sim q t" "s_st t \<noteq> 0" "length (q_text q) < 2 ^ 32"
  shows "pairs_ok (q_text q) (q_pairs (q_emit (of_nat (length (q_text q))) q))
    (s_acc t @ [(s_nm t, s_val t)])"
proof -
  from assms(1) obtain p where p: "nstart q = of_nat (length p)"
    "if s_st t = 2
      then q_text q = p @ s_nm t @ ''='' @ s_val t
         \<and> nend q = of_nat (length p + length (s_nm t))
         \<and> vstart q = of_nat (length p + length (s_nm t) + 1)
      else q_text q = p @ s_nm t \<and> s_val t = [] \<and> (s_st t = 0 \<longrightarrow> s_nm t = [])"
    by (auto simp: q_sim_def param_at_def)
  have st: "q_state q = s_st t" "s_st t = 1 \<or> s_st t = 2"
    using assms(1,2) by (auto simp: q_sim_def)
  have old: "pairs_ok (q_text q) (q_pairs q) (s_acc t)" using assms(1) by (simp add: q_sim_def)
  have "\<exists>a b c d. q_pairs (q_emit (of_nat (length (q_text q))) q) = q_pairs q @ [kvoffsets a b c d]
      \<and> a \<le> b \<and> b \<le> c \<and> c \<le> d \<and> d \<le> length (q_text q)
      \<and> take (b - a) (drop a (q_text q)) = s_nm t \<and> take (d - c) (drop c (q_text q)) = s_val t"
    using st(2)
  proof
    assume 1: "s_st t = 1"
    let ?n = "length p + length (s_nm t)"
    show ?thesis
      using p st(1) 1
      by (intro exI [of _ "length p"] exI [of _ ?n]) (simp add: q_emit_def kvoffsets_def Let_def)
  next
    assume 2: "s_st t = 2"
    let ?n = "length p + length (s_nm t)"
    show ?thesis
      using p st(1) 2
      by (intro exI [of _ "length p"] exI [of _ ?n] exI [of _ "?n + 1"] exI [of _ "length (q_text q)"])
        (simp add: q_emit_def kvoffsets_def Let_def)
  qed
  then obtain a b c d where e: "q_pairs (q_emit (of_nat (length (q_text q))) q) = q_pairs q @ [kvoffsets a b c d]"
      and le: "a \<le> b" "b \<le> c" "c \<le> d" "d \<le> length (q_text q)"
      and tx: "take (b - a) (drop a (q_text q)) = s_nm t" "take (d - c) (drop c (q_text q)) = s_val t"
    by blast
  show ?thesis
    using kvoffsets_view [OF le assms(3)] old tx by (simp add: e pairs_ok_def pair_texts_def)
qed

lemma q_emit_fields [simp]:
  "q_url (q_emit n q) = q_url q" "q_pend (q_emit n q) = q_pend q" "q_state (q_emit n q) = q_state q"
  "q_text (q_emit n q) = q_text q"
  by (simp_all add: q_emit_def Let_def q_text_def)

lemma q_here_text: "q_here q = of_nat (length (q_text q))"
  by (simp add: q_here_def q_text_def)

lemma q_sim_amp:
  assumes "q_sim q t" "length (q_text q) + 1 < 2 ^ 32"
  shows "q_sim (q_amp q) (s_flush t)" "q_text (q_amp q) = q_text q @ ''&''"
proof -
  show tx: "q_text (q_amp q) = q_text q @ ''&''"
    by (simp add: q_amp_def q_text_def Let_def)
  have ns: "nstart (q_amp q) = of_nat (length (q_text (q_amp q)))"
    by (simp add: q_amp_def Let_def q_here_text q_text_def)
  have st0: "q_state (q_amp q) = 0" using assms(1) by (auto simp: q_amp_def Let_def q_sim_def)
  have pend: "param_at (q_amp q) (s_flush t)"
    unfolding param_at_def
    using assms(1) ns by (intro exI [of _ "q_text (q_amp q)"])
      (auto simp: s_flush_def q_sim_def param_at_def)
  have "pairs_ok (q_text q) (q_pairs (q_amp q)) (s_acc (s_flush t))"
  proof (cases "s_st t = 0")
    case True
    with assms(1) show ?thesis by (simp add: q_amp_def Let_def q_sim_def s_flush_def)
  next
    case False
    with assms q_emit_pair [OF assms(1) False] show ?thesis
      by (simp add: q_amp_def Let_def q_sim_def s_flush_def q_here_text)
  qed
  with pend st0 show "q_sim (q_amp q) (s_flush t)"
    using pairs_ok_grow tx by (auto simp: q_sim_def s_flush_def)
qed

lemma q_sim_equals:
  assumes "q_sim q t" "s_st t \<le> 1" "length (q_text q) + 1 < 2 ^ 32"
  shows "q_sim (q_equals q) (t\<lparr>s_st := 2\<rparr>)" "q_text (q_equals q) = q_text q @ ''=''"
proof -
  show tx: "q_text (q_equals q) = q_text q @ ''=''"
    by (simp add: q_equals_def q_text_def Let_def)
  from assms(1,2) obtain p where p: "nstart q = of_nat (length p)" "q_text q = p @ s_nm t" "s_val t = []"
    by (auto simp: q_sim_def param_at_def)
  have "param_at (q_equals q) (t\<lparr>s_st := 2\<rparr>)"
    unfolding param_at_def
    using p tx by (intro exI [of _ p]) (simp add: q_equals_def Let_def q_here_text)
  moreover have "pairs_ok (q_text (q_equals q)) (q_pairs (q_equals q)) (s_acc t)"
    unfolding tx using assms(1)
    by (intro pairs_ok_grow) (simp add: q_equals_def Let_def q_sim_def)
  ultimately show "q_sim (q_equals q) (t\<lparr>s_st := 2\<rparr>)"
    by (simp add: q_sim_def q_equals_def Let_def)
qed

lemma q_sim_put:
  assumes "q_sim q t" "q_text q' = q_text q @ [c]" "q_state q' = (if q_state q = 0 then 1 else q_state q)"
    and "q_pairs q' = q_pairs q" "nstart q' = nstart q" "nend q' = nend q" "vstart q' = vstart q"
  shows "q_sim q' (s_put c t)"
proof -
  from assms(1) obtain p where p: "nstart q = of_nat (length p)"
    "if s_st t = 2
      then q_text q = p @ s_nm t @ ''='' @ s_val t
         \<and> nend q = of_nat (length p + length (s_nm t))
         \<and> vstart q = of_nat (length p + length (s_nm t) + 1)
      else q_text q = p @ s_nm t \<and> s_val t = [] \<and> (s_st t = 0 \<longrightarrow> s_nm t = [])"
    by (auto simp: q_sim_def param_at_def)
  have "param_at q' (s_put c t)"
    unfolding param_at_def
    using p assms by (intro exI [of _ p]) (auto simp: s_put_def)
  moreover have "pairs_ok (q_text q') (q_pairs q') (s_acc (s_put c t))"
    using assms(1,2,4) pairs_ok_grow by (auto simp: q_sim_def s_put_def)
  moreover have "q_state q' = s_st (s_put c t)" "s_st (s_put c t) \<le> 2"
    using assms(1,3) by (auto simp: q_sim_def s_put_def)
  ultimately show ?thesis by (simp add: q_sim_def)
qed

text \<open>One turn of both loops, in the four cases of the character.\<close>

lemma query_loop_amp:
  "query_loop after (CHR ''&'' # s) q = query_loop after s (q_amp q)"
  "str_loop after (CHR ''&'' # s) t = str_loop after s (s_flush t)"
  by (simp_all add: query_loop.simps(2) [of after "CHR ''&''"] str_loop.simps(2) [of after "CHR ''&''"])

lemma query_loop_equals:
  "q_state q \<le> 1 \<Longrightarrow> query_loop after (CHR ''='' # s) q = query_loop after s (q_equals q)"
  "s_st t \<le> 1 \<Longrightarrow> str_loop after (CHR ''='' # s) t = str_loop after s (t\<lparr>s_st := 2\<rparr>)"
  by (simp_all add: query_loop.simps(2) [of after "CHR ''=''"] str_loop.simps(2) [of after "CHR ''=''"])

lemma query_loop_put:
  assumes "q_sim q t" "c \<noteq> CHR ''&''" "\<not> (c = CHR ''='' \<and> q_state q \<le> 1)"
  shows "\<exists>q' x r. length r \<le> length s
    \<and> query_loop after (c # s) q = query_loop after r q'
    \<and> str_loop after (c # s) t = str_loop after r (s_put x t)
    \<and> q_sim q' (s_put x t) \<and> q_text q' = q_text q @ [x]"
proof -
  have st: "q_state q = s_st t" using assms(1) by (simp add: q_sim_def)
  define q1 where "q1 = (if q_state q = 0 then q\<lparr>q_state := 1\<rparr> else q)"
  show ?thesis
  proof (cases "escaped after (c # s)")
    case True
    let ?x = "escape_char after (c # s)"
    have tx: "q_text (q_push ?x q1) = q_text q @ [?x]" by (simp add: q_push_def q_text_def q1_def)
    have "q_sim (q_push ?x q1) (s_put ?x t)"
      by (rule q_sim_put [OF assms(1) tx]) (simp_all add: q_push_def q1_def)
    moreover have "query_loop after (c # s) q = query_loop after (drop 2 s) (q_push ?x q1)"
      using assms True
      by (subst query_loop.simps(2)) (auto simp: escaped_def escape_char_def q1_def Let_def)
    moreover have "str_loop after (c # s) t = str_loop after (drop 2 s) (s_put ?x t)"
      using assms True st by (auto simp: str_loop.simps(2) [of after c])
    ultimately show ?thesis using tx
      by (intro exI [of _ "q_push ?x q1"] exI [of _ ?x] exI [of _ "drop 2 s"]) simp
  next
    case False
    let ?x = "if c = CHR ''+'' then CHR '' '' else c"
    let ?q' = "if c = CHR ''+'' then q_push (CHR '' '') q1 else q1\<lparr>q_pend := q_pend q1 @ [c]\<rparr>"
    have tx: "q_text ?q' = q_text q @ [?x]" by (simp add: q_push_def q_text_def q1_def)
    have "q_sim ?q' (s_put ?x t)"
      by (rule q_sim_put [OF assms(1) tx]) (simp_all add: q_push_def q1_def)
    moreover have "query_loop after (c # s) q = query_loop after s ?q'"
      using assms False by (subst query_loop.simps(2)) (auto simp: escaped_def q1_def Let_def)
    moreover have "str_loop after (c # s) t = str_loop after s (s_put ?x t)"
      using assms False st by (auto simp: str_loop.simps(2) [of after c])
    ultimately show ?thesis using tx
      by (intro exI [of _ ?q'] exI [of _ ?x] exI [of _ s]) simp
  qed
qed

lemma query_loop_sim:
  assumes "q_sim q t" "length (q_text q) + length s < 2 ^ 32"
  shows "q_sim (query_loop after s q) (str_loop after s t)
    \<and> length (q_text (query_loop after s q)) < 2 ^ 32"
  using assms
proof (induction "length s" arbitrary: s q t rule: less_induct)
  case less
  show ?case
  proof (cases s)
    case Nil
    with less(2,3) show ?thesis by (simp add: query_loop.simps str_loop.simps)
  next
    case (Cons c r)
    have st: "q_state q = s_st t" using less(2) by (simp add: q_sim_def)
    consider (amp) "c = CHR ''&''" | (eq) "c = CHR ''=''" "s_st t \<le> 1"
      | (put) "c \<noteq> CHR ''&''" "\<not> (c = CHR ''='' \<and> q_state q \<le> 1)"
      using st by auto
    then show ?thesis
    proof cases
      case amp
      have "length (q_text q) + 1 < 2 ^ 32" using less(3) Cons by simp
      note a = q_sim_amp [OF less(2) this]
      show ?thesis
        using less(1) [of r, OF _ a(1)] less(3) a(2) by (simp add: Cons amp query_loop_amp)
    next
      case eq
      have "length (q_text q) + 1 < 2 ^ 32" using less(3) Cons by simp
      note a = q_sim_equals [OF less(2) eq(2) this]
      show ?thesis
        using less(1) [of r, OF _ a(1)] less(3) a(2) st eq by (simp add: Cons query_loop_equals)
    next
      case put
      obtain q' x r' where r: "length r' \<le> length r"
        "query_loop after (c # r) q = query_loop after r' q'"
        "str_loop after (c # r) t = str_loop after r' (s_put x t)"
        "q_sim q' (s_put x t)" "q_text q' = q_text q @ [x]"
        using query_loop_put [OF less(2) put, of r after] by blast
      show ?thesis
        using less(1) [of r', OF _ r(4)] less(3) r by (simp add: Cons)
    qed
  qed
qed

lemma query_finish_params:
  assumes "length s < 2 ^ 32" "\<not> char_has us_hex after"
  defines "q \<equiv> query_finish (query_loop after s query_init)"
  shows "pair_texts (q_url q) (q_pairs q) = query_params s"
proof -
  let ?q = "query_loop after s query_init"
  let ?t = "str_loop after s (seg_start [])"
  have "q_sim query_init (seg_start [])"
    by (simp add: q_sim_def query_init_def seg_start_def param_at_def q_text_def pairs_ok_def
        pair_texts_def)
  then have sim: "q_sim ?q ?t" "length (q_text ?q) < 2 ^ 32"
    using query_loop_sim [of query_init "seg_start []" s after] assms(1)
    by (simp_all add: q_text_def query_init_def)
  have url: "q_url q = q_text ?q" by (simp add: q_def query_finish_def Let_def q_text_def)
  have params: "s_acc (s_flush ?t) = query_params s"
    using str_loop_params [OF assms(2), of s "[]"] by (simp add: seg_start_def)
  have "pairs_ok (q_text ?q) (q_pairs q) (s_acc (s_flush ?t))"
  proof (cases "s_st ?t = 0")
    case True
    with sim(1) show ?thesis by (simp add: q_def query_finish_def Let_def q_sim_def s_flush_def)
  next
    case False
    define q1 where "q1 = (if q_pend ?q \<noteq> [] then ?q\<lparr>q_url := q_url ?q @ q_pend ?q, q_pend := []\<rparr> else ?q)"
    have tx: "q_text q1 = q_text ?q" "q_url q1 = q_text ?q" "q_state q1 = q_state ?q"
      "q_pairs q1 = q_pairs ?q" "nstart q1 = nstart ?q" "nend q1 = nend ?q" "vstart q1 = vstart ?q"
      by (simp_all add: q_text_def q1_def)
    have "q = (if q_state q1 \<noteq> 0 then q_emit (of_nat (length (q_url q1))) q1 else q1)"
      by (simp add: q_def query_finish_def Let_def q1_def)
    moreover have "param_at q1 ?t" using sim(1) unfolding q_sim_def param_at_def tx by blast
    then have "q_sim q1 ?t" using sim(1) unfolding q_sim_def tx by blast
    from q_emit_pair [OF this False] have "pairs_ok (q_text ?q)
        (q_pairs (q_emit (of_nat (length (q_url q1))) q1)) (s_acc ?t @ [(s_nm ?t, s_val ?t)])"
      using sim(2) tx by simp
    ultimately show ?thesis using False sim(1) tx by (simp add: s_flush_def q_sim_def)
  qed
  then show ?thesis by (simp add: pairs_ok_def url params)
qed

subsection \<open>The cache\<close>

definition params_of :: "string \<Rightarrow> (string \<times> string) list" where
  "params_of u = (if valid_url u then query_params (drop 1 (url_search u)) else [])"

text \<open>The flag \<^verbatim>\<open>info_url\<close> is never set, so the URL is scanned again by every call.\<close>

definition info_ok :: "http_message \<Rightarrow> bool" where
  "info_ok m \<longleftrightarrow> (case info_ptr m of None \<Rightarrow> True
     | Some i \<Rightarrow> i_flags i AND info_url = 0 \<and> length (i_f i) = 3
         \<and> (i_flags i AND info_params \<noteq> 0 \<longrightarrow> pair_texts (i_qurl i) (i_qpairs i) = params_of (url m)))"

lemma url_lengths: "length u = length (url_path u) + length (url_search u) + length (url_hash u)"
  using arg_cong [OF url_parts [of u], of length] by simp

lemma url_hash_hd: "url_hash u \<noteq> [] \<Longrightarrow> url_hash u ! 0 = CHR ''#''"
  unfolding url_hash_def by (induction u) auto

lemma query_params_Nil [simp]: "query_params [] = []"
  by (simp add: query_params_def)

lemma make_info_params_texts:
  assumes "length (i_f i) = 3" "length u < 2 ^ 32"
  defines "i' \<equiv> make_info_params u (make_info_url u i)"
  shows "pair_texts (i_qurl i') (i_qpairs i') = params_of u"
proof -
  define a where "a = length (url_path u)"
  define b where "b = a + length (url_search u)"
  have le: "a \<le> b" "b \<le> length u" using url_lengths [of u] by (auto simp: a_def b_def)
  have unat: "unat (of_nat a :: u32) = a" "unat (of_nat b :: u32) = b"
    using le assms(2) by (auto intro!: unat_of_nat_32)
  let ?f = "i_f (make_info_url u i) ! 1"
  have f: "?f = (if valid_url u then (of_nat a, of_nat b) else (0, 0))"
    using make_info_url_f [OF assms(1), of u] by (simp add: a_def b_def Let_def)
  show ?thesis
  proof (cases "valid_url u \<and> url_search u \<noteq> []")
    case False
    have "fst ?f = snd ?f" using False f by (auto simp: b_def)
    moreover have "params_of u = []" using False by (auto simp: params_of_def)
    ultimately show ?thesis
      by (auto simp: i'_def make_info_params_def Let_def pair_texts_def split: prod.split)
  next
    case True
    let ?s = "drop 1 (url_search u)"
    let ?q = "query_finish (query_loop ((u @ [CHR 0x00]) ! b) ?s query_init)"
    have drp: "drop a u = url_search u @ url_hash u"
      using arg_cong [OF url_parts [of u], of "drop a"] by (simp add: a_def)
    have "drop (a + 1) u = ?s @ url_hash u"
      using arg_cong [OF drp, of "drop 1"] True by (cases "url_search u") (simp_all add: drop_drop)
    then have view: "view u (a + 1) (b - (a + 1)) = ?s"
      using True by (simp add: view_def b_def)
    have "(u @ [CHR 0x00]) ! b = (url_hash u @ [CHR 0x00]) ! 0"
      using url_parts [of u] by (metis a_def append.assoc b_def length_append nth_append_length_plus add_0_right)
    then have after: "\<not> char_has us_hex ((u @ [CHR 0x00]) ! b)"
      using not_hex url_hash_hd [of u] by (cases "url_hash u") (auto simp: nth_append)
    have ne: "(of_nat a :: u32) \<noteq> of_nat b" using unat True by (auto simp: b_def)
    have "length ?s < 2 ^ 32" using le assms(2) by (simp add: b_def)
    from query_finish_params [OF this after] show ?thesis
      using f True ne unat view by (simp add: i'_def make_info_params_def Let_def params_of_def)
  qed
qed

lemma make_info_url_keeps [simp]:
  "i_flags (make_info_url u i) = i_flags i" "i_qurl (make_info_url u i) = i_qurl i"
  "i_qpairs (make_info_url u i) = i_qpairs i"
  by (auto simp: make_info_url_def split: option.splits)

lemma make_info_params_keeps [simp]:
  "i_f (make_info_params u i) = i_f i" "i_flags (make_info_params u i) = i_flags i OR info_params"
  by (simp_all add: make_info_params_def Let_def split: prod.split)

lemma info_bits:
  "info_url AND (info_url OR info_params) = info_url" "info_params AND (info_url OR info_params) \<noteq> 0"
  "info_url AND info_params = 0" "info_params AND info_params = info_params"
  "info_url AND info_url = info_url" "info_url \<noteq> 0" "info_params \<noteq> 0" "info_params AND info_url = 0"
  by (simp_all add: info_url_def info_params_def)

lemma or_params: "(w OR info_params) AND info_url = w AND info_url"
    "(w OR info_params) AND info_params = info_params"
    "w AND info_params \<noteq> 0 \<Longrightarrow> w AND info_params = info_params"
proof -
  show "(w OR info_params) AND info_url = w AND info_url"
    by (simp add: info_url_def info_params_def bit.conj_disj_distrib2)
  show "(w OR info_params) AND info_params = info_params"
    unfolding info_params_def by (rule bit_word_eqI) (auto simp: bit_and_iff bit_or_iff)
  assume "w AND info_params \<noteq> 0"
  then have "bit w 1" using and_exp_eq_0_iff_not_bit [of w 1] by (simp add: info_params_def)
  then show "w AND info_params = info_params"
    unfolding info_params_def by (intro bit_word_eqI) (auto simp: bit_and_iff bit_2_iff)
qed

definition info_of :: "http_message \<Rightarrow> info_type" where
  "info_of m = (case info_ptr m of Some i \<Rightarrow> i | None \<Rightarrow> info_type_new)"

lemma info_of_ok: "info_ok m \<Longrightarrow> i_flags (info_of m) AND info_url = 0 \<and> length (i_f (info_of m)) = 3"
  by (auto simp: info_ok_def info_of_def info_type_new_def split: option.splits)

lemma make_info_of:
  assumes "info_ok m"
  shows "make_info info_url m = m\<lparr>info_ptr := Some (make_info_url (url m) (info_of m))\<rparr>"
    and "i_flags (info_of m) AND info_params = 0 \<Longrightarrow> make_info info_params m =
      m\<lparr>info_ptr := Some (make_info_params (url m) (make_info_url (url m) (info_of m)))\<rparr>"
  using info_of_ok [OF assms]
  by (simp_all add: make_info_def Let_def info_of_def [symmetric] info_bits)

lemma info_url_spec:
  assumes "info_ok m"
  shows "fst (info info_url m) = make_info_url (url m) (info_of m)"
    and "snd (info info_url m) = m\<lparr>info_ptr := Some (make_info_url (url m) (info_of m))\<rparr>"
    and "info_ok (snd (info info_url m))"
proof -
  have "i_f (make_info_url (url m) (info_of m)) \<noteq> [] \<and> length (i_f (make_info_url (url m) (info_of m))) = 3"
    using make_info_url_f [of "info_of m" "url m"] info_of_ok [OF assms] by (simp add: Let_def)
  moreover have "info info_url m = (let m = make_info info_url m
      in (case info_ptr m of Some i \<Rightarrow> i | None \<Rightarrow> info_type_new, m))"
    using assms by (auto simp: info_def info_ok_def info_bits split: option.splits)
  ultimately show "fst (info info_url m) = make_info_url (url m) (info_of m)"
    "snd (info info_url m) = m\<lparr>info_ptr := Some (make_info_url (url m) (info_of m))\<rparr>"
    "info_ok (snd (info info_url m))"
    using info_of_ok [OF assms] assms make_info_of(1) [OF assms]
    by (auto simp: info_ok_def info_of_def info_type_new_def Let_def split: option.splits)
qed

lemma info_params_spec:
  assumes "info_ok m" "length (url m) < 2 ^ 32"
  shows "pair_texts (i_qurl (fst (info info_params m))) (i_qpairs (fst (info info_params m)))
      = params_of (url m)"
    and "info_ok (snd (info info_params m))" and "url (snd (info info_params m)) = url m"
proof -
  have "pair_texts (i_qurl (fst (info info_params m))) (i_qpairs (fst (info info_params m)))
      = params_of (url m) \<and> info_ok (snd (info info_params m)) \<and> url (snd (info info_params m)) = url m"
  proof (cases "i_flags (info_of m) AND info_params = 0")
    case True
    let ?i = "make_info_params (url m) (make_info_url (url m) (info_of m))"
    have "info info_params m = (?i, m\<lparr>info_ptr := Some ?i\<rparr>)"
      using True make_info_of(2) [OF assms(1) True]
      by (auto simp: info_def info_of_def info_bits Let_def split: option.splits)
    moreover have "length (i_f ?i) = 3"
      using make_info_url_f [of "info_of m" "url m"] info_of_ok [OF assms(1)] by (simp add: Let_def)
    ultimately show ?thesis
      using make_info_params_texts [of "info_of m" "url m"] info_of_ok [OF assms(1)] assms(2)
      by (simp add: info_ok_def or_params)
  next
    case False
    then obtain i where i: "info_ptr m = Some i" "i_flags i AND info_params \<noteq> 0"
      by (auto simp: info_of_def info_type_new_def split: option.splits)
    have "info info_params m = (i, m)" using i or_params(3) [OF i(2)] by (simp add: info_def)
    with i assms(1) show ?thesis by (simp add: info_ok_def)
  qed
  then show "pair_texts (i_qurl (fst (info info_params m))) (i_qpairs (fst (info info_params m)))
      = params_of (url m)"
    "info_ok (snd (info info_params m))" "url (snd (info info_params m)) = url m" by auto
qed

lemma info_ok_new [simp]: "info_ok http_message_new" "info_ok (http_request_new mt u)"
    "info_ok (http_message_copy m)"
  by (simp_all add: info_ok_def http_message_new_def http_request_new_def http_message_copy_def)

lemma and_not_both: "w AND NOT (info_url OR info_params) AND info_url = 0"
    "w AND NOT (info_url OR info_params) AND info_params = 0"
  by (simp_all add: info_url_def info_params_def and.assoc)

lemma info_ok_set_url: "info_ok m \<Longrightarrow> info_ok (set_url u m)"
  using and_not_both
  by (auto simp: info_ok_def set_url_def kill_info_def and.assoc [symmetric] split: option.splits)

lemma info_ok_reset: "info_ok m \<Longrightarrow> url m' = u \<Longrightarrow> info_ok (reset_info (m\<lparr>url := u\<rparr>))"
  by (auto simp: info_ok_def reset_info_def split: option.splits)

lemma url_field_spec:
  assumes "info_ok m" "length (url m) < 2 ^ 32"
  shows "fst (url_field 0 m) = (if valid_url (url m) then url_path (url m) else [])"
    and "fst (url_field 1 m) = (if valid_url (url m) then url_search (url m) else [])"
    and "fst (url_field 2 m) = (if valid_url (url m) then url_hash (url m) else [])"
    and "info_ok (snd (url_field k m))"
    and "fst (has_url_field 0 m) \<longleftrightarrow> valid_url (url m)"
proof -
  let ?u = "url m"
  define a where "a = length (url_path ?u)"
  define b where "b = a + length (url_search ?u)"
  have le: "a \<le> b" "b \<le> length ?u" using url_lengths [of ?u] by (auto simp: a_def b_def)
  have unat: "unat (of_nat a :: u32) = a" "unat (of_nat b :: u32) = b"
      "unat (of_nat (length ?u) :: u32) = length ?u"
    using le assms(2) by (auto intro!: unat_of_nat_32)
  have eqs: "(of_nat x :: u32) = of_nat y \<longleftrightarrow> x = y" if "x \<le> length ?u" "y \<le> length ?u" for x y
    using that assms(2) unat_of_nat_32 by (metis le_less_trans)
  have f: "i_f (make_info_url ?u (info_of m)) =
     (if valid_url ?u
      then [(0, of_nat a), (of_nat a, of_nat b), (of_nat b, of_nat (length ?u))]
      else [(0, 0), (0, 0), (0, 0)])"
    using make_info_url_f [of "info_of m" ?u] info_of_ok [OF assms(1)]
    by (simp add: a_def b_def Let_def)
  note info = info_url_spec [OF assms(1)]
  have fld: "fst (url_field k m) =
      (let (x, y) = i_f (make_info_url ?u (info_of m)) ! k
       in if x \<noteq> y then view ?u (unat x) (unat y - unat x) else [])" for k
    using info by (auto simp: url_field_def split_beta Let_def)
  have parts: "take a ?u = url_path ?u" "drop a ?u = url_search ?u @ url_hash ?u"
      "drop b ?u = url_hash ?u"
    using url_parts [of ?u] by (metis a_def append_eq_conv_conj, metis a_def append_eq_conv_conj,
      metis a_def b_def append.assoc append_eq_conv_conj length_append)
  have ne: "valid_url ?u \<Longrightarrow> 0 < a"
    by (cases ?u) (auto simp: a_def valid_url_def url_path_def)
  show "fst (url_field 0 m) = (if valid_url ?u then url_path ?u else [])"
    using fld [of 0] f unat ne parts(1) eqs [of 0 a] le by (auto simp: view_def)
  show "fst (url_field 1 m) = (if valid_url ?u then url_search ?u else [])"
    using fld [of 1] f unat parts(2) eqs [of a b] le by (auto simp: view_def b_def)
  show "fst (url_field 2 m) = (if valid_url ?u then url_hash ?u else [])"
    using fld [of 2] f unat parts(3) eqs [of b "length ?u"] le
    by (auto simp: view_def dest: arg_cong [where f = length])
  show "info_ok (snd (url_field k m))"
    using info(3) by (simp add: url_field_def split_beta Let_def)
  show "fst (has_url_field 0 m) \<longleftrightarrow> valid_url ?u"
    using info(1) f ne eqs [of 0 a] le by (auto simp: has_url_field_def split_beta Let_def)
qed

text \<open>
  For a URL shorter than $2^{32}$, the path, search and hash that the message reports are the
  text before the first question or hash mark, from there to the first hash mark, and the rest;
  together they are the URL. A URL that does not begin with a slash or has a character that URLs
  cannot have is reported as invalid, with empty parts. Reading them keeps the cache coherent.
\<close>

theorem url_parts_correct:
  assumes "info_ok m" "length (url m) < 2 ^ 32"
  shows "(fst (has_valid_url m) \<longleftrightarrow> valid_url (url m))
    \<and> fst (path m) = (if valid_url (url m) then url_path (url m) else [])
    \<and> fst (search m) = (if valid_url (url m) then url_search (url m) else [])
    \<and> fst (hash m) = (if valid_url (url m) then url_hash (url m) else [])
    \<and> (valid_url (url m) \<longrightarrow> fst (path m) @ fst (search m) @ fst (hash m) = url m)
    \<and> info_ok (snd (path m)) \<and> info_ok (set_url u m)"
  using url_field_spec [OF assms] url_parts [of "url m"] info_ok_set_url [OF assms(1)]
  by (auto simp: has_valid_url_def path_def search_def hash_def)

lemma find_param_map_of:
  "map_option (kv_value base) (find_param base nm kvs) = map_of (pair_texts base kvs) nm"
  by (induction kvs) (auto simp: pair_texts_def)

text \<open>
  C24: on a URL shorter than $2^{32}$, the decoder's single pass with offsets finds the parameters
  that one gets by splitting the query at the ampersands, dropping empty segments, splitting each
  at its first equals sign and decoding escapes and plus signs in both halves;
  \<^verbatim>\<open>search_param\<close> returns the value of the first parameter of that name.
\<close>

theorem search_params_correct:
  assumes "info_ok m" "length (url m) < 2 ^ 32"
  shows "fst (search_param nm m) = (case map_of (params_of (url m)) nm of Some v \<Rightarrow> v | None \<Rightarrow> [])
    \<and> (fst (has_search_param nm m) \<longleftrightarrow> nm \<in> fst ` set (params_of (url m)))
    \<and> info_ok (snd (search_param nm m)) \<and> url (snd (search_param nm m)) = url m"
proof -
  note info = info_params_spec [OF assms]
  have find: "map_option (kv_value (i_qurl (fst (info info_params m))))
      (find_param (i_qurl (fst (info info_params m))) nm (i_qpairs (fst (info info_params m))))
      = map_of (params_of (url m)) nm"
    using find_param_map_of info(1) by metis
  then have "find_param (i_qurl (fst (info info_params m))) nm (i_qpairs (fst (info info_params m))) \<noteq> None
      \<longleftrightarrow> nm \<in> fst ` set (params_of (url m))"
    by (metis map_of_eq_None_iff option.map_disc_iff)
  with find info(2,3) show ?thesis
    by (auto simp: search_param_def has_search_param_def split_beta Let_def split: option.splits)
qed

definition sample_message :: http_message where
  "sample_message = http_request_new HTTP_GET ''/find?q=a%26b+c&&lang=en#top''"

lemma url_parts_correct_witness:
  "fst (path sample_message) = ''/find'' \<and> fst (search sample_message) = ''?q=a%26b+c&&lang=en''
    \<and> fst (hash sample_message) = ''#top''"
proof -
  have "info_ok sample_message" "length (url sample_message) < 2 ^ 32"
    by (simp_all add: sample_message_def http_request_new_def info_ok_def)
  from url_parts_correct [OF this, of "[]"] show ?thesis
  proof -
    have "valid_url (url sample_message)" by code_simp
    moreover have "url_path (url sample_message) = ''/find''"
      "url_search (url sample_message) = ''?q=a%26b+c&&lang=en''"
      "url_hash (url sample_message) = ''#top''" by code_simp+
    ultimately show ?thesis using url_parts_correct [OF \<open>info_ok sample_message\<close>
        \<open>length (url sample_message) < 2 ^ 32\<close>, of "[]"] by simp
  qed
qed

lemma search_params_correct_witness:
  "fst (search_param ''q'' sample_message) = ''a&b c'' \<and> fst (search_param ''lang'' sample_message) = ''en''
    \<and> \<not> fst (has_search_param ''x'' sample_message)"
proof -
  have ok: "info_ok sample_message" "length (url sample_message) < 2 ^ 32"
    by (simp_all add: sample_message_def http_request_new_def info_ok_def)
  have "params_of (url sample_message) = [(''q'', ''a&b c''), (''lang'', ''en'')]" by code_simp
  with search_params_correct [OF ok, of "''q''"] search_params_correct [OF ok, of "''lang''"]
    search_params_correct [OF ok, of "''x''"] show ?thesis by simp
qed

end
