(* ===== verification/HttpStatus.thy ===== *)
theory HttpStatus
  imports HttpMessage
begin

text \<open>
  The table of default status messages (\<^verbatim>\<open>http.cc\<close>) and its lookup by binary search. The name
  that llhttp gives to a code outside the table is an argument.
\<close>

type_synonym status_code_map = "u32 \<times> string"

definition default_status_codes :: "status_code_map list" where
  "default_status_codes =
    [(100, ''Continue''),
     (101, ''Switching Protocols''),
     (102, ''Processing''),
     (103, ''Early Hints''),
     (110, ''Early Hints''),
     (111, ''Early Hints''),
     (112, ''Early Hints''),
     (113, ''Early Hints''),
     (200, ''OK''),
     (201, ''Created''),
     (202, ''Accepted''),
     (203, ''Non-Authoritative Information''),
     (204, ''No Content''),
     (205, ''Reset Content''),
     (206, ''Partial Content''),
     (207, ''Multi-Status''),
     (208, ''Already Reported''),
     (226, ''IM Used''),
     (300, ''Multiple Choices''),
     (301, ''Moved Permanently''),
     (302, ''Found''),
     (303, ''See Other''),
     (304, ''Not Modified''),
     (305, ''Use Proxy''),
     (307, ''Temporary Redirect''),
     (308, ''Permanent Redirect''),
     (400, ''Bad Request''),
     (401, ''Unauthorized''),
     (402, ''Payment Required''),
     (403, ''Forbidden''),
     (404, ''Not Found''),
     (405, ''Method Not Allowed''),
     (406, ''Not Acceptable''),
     (407, ''Proxy Authentication Required''),
     (408, ''Request Timeout''),
     (409, ''Conflict''),
     (410, ''Gone''),
     (411, ''Length Required''),
     (412, ''Precondition Failed''),
     (413, ''Content Too Large''),
     (414, ''URI Too Long''),
     (415, ''Unsupported Media Type''),
     (416, ''Range Not Satisfiable''),
     (417, ''Expectation Failed''),
     (418, ''I'' @ [CHR 0x27] @ ''m a teapot''),
     (421, ''Misdirected Request''),
     (422, ''Unprocessable Content''),
     (423, ''Locked''),
     (424, ''Failed Dependency''),
     (425, ''Too Early''),
     (426, ''Upgrade Required''),
     (428, ''Precondition Required''),
     (429, ''Too Many Requests''),
     (431, ''Request Header Fields Too Large''),
     (451, ''Unavailable For Legal Reasons''),
     (500, ''Internal Server Error''),
     (501, ''Not Implemented''),
     (502, ''Bad Gateway''),
     (503, ''Service Unavailable''),
     (504, ''Gateway Timeout''),
     (505, ''HTTP Version Not Supported''),
     (506, ''Variant Also Negotiates''),
     (507, ''Insufficient Storage''),
     (508, ''Loop Detected''),
     (509, ''Bandwidth Limit Exceeded''),
     (510, ''Not Extended''),
     (511, ''Network Authentication Required'')]"

text \<open>\<^verbatim>\<open>status_code_map_comparator\<close>\<close>

definition code_before :: "status_code_map \<Rightarrow> u32 \<Rightarrow> bool" where
  "code_before a b \<longleftrightarrow> fst a < b"

text \<open>
  \<^verbatim>\<open>std::lower_bound(first, first + len, val, before)\<close>: the range of candidates is halved until it
  is empty.
\<close>

function lower_bound :: "('a \<Rightarrow> 'b \<Rightarrow> bool) \<Rightarrow> 'a list \<Rightarrow> nat \<Rightarrow> nat \<Rightarrow> 'b \<Rightarrow> nat" where
  "lower_bound before xs first len val =
     (if len = 0 then first
      else let half = len div 2; middle = first + half
           in if before (xs ! middle) val then lower_bound before xs (middle + 1) (len - half - 1) val
              else lower_bound before xs first half val)"
  by pat_completeness auto
termination
  by (relation "measure (\<lambda>(_, _, _, len, _). len)") auto

declare lower_bound.simps [simp del]

definition default_status_message :: "(u32 \<Rightarrow> string) \<Rightarrow> u32 \<Rightarrow> string" where
  "default_status_message llhttp_status_name code =
     (if code = 200 then ''OK''
      else let ncodes = length default_status_codes;
               m = lower_bound code_before default_status_codes 0 ncodes code
           in if m \<noteq> ncodes \<and> fst (default_status_codes ! m) = code
              then snd (default_status_codes ! m)
              else llhttp_status_name code)"

subsection \<open>Binary search\<close>

text \<open>
  On a range that the comparison partitions, the search returns the first position whose element
  does not come before the value.
\<close>

lemma lower_bound_spec:
  assumes "first + len \<le> length xs"
    and "\<forall>i j. i \<le> j \<longrightarrow> j < length xs \<longrightarrow> before (xs ! j) val \<longrightarrow> before (xs ! i) val"
  shows "first \<le> lower_bound before xs first len val
    \<and> lower_bound before xs first len val \<le> first + len
    \<and> (\<forall>i. first \<le> i \<and> i < lower_bound before xs first len val \<longrightarrow> before (xs ! i) val)
    \<and> (lower_bound before xs first len val < first + len \<longrightarrow>
         \<not> before (xs ! lower_bound before xs first len val) val)"
  using assms
proof (induction before xs first len val rule: lower_bound.induct)
  case (1 before xs first len val)
  show ?case
  proof (cases "len = 0")
    case True
    then show ?thesis by (auto simp: lower_bound.simps)
  next
    case False
    define half where "half = len div 2"
    have half: "half < len" using False by (simp add: half_def)
    show ?thesis
    proof (cases "before (xs ! (first + half)) val")
      case True
      have eq: "lower_bound before xs first len val =
          lower_bound before xs (first + half + 1) (len - half - 1) val"
        using False True by (subst lower_bound.simps) (simp add: half_def Let_def)
      have ih: "first + half + 1 \<le> lower_bound before xs first len val
        \<and> lower_bound before xs first len val \<le> first + half + 1 + (len - half - 1)
        \<and> (\<forall>i. first + half + 1 \<le> i \<and> i < lower_bound before xs first len val \<longrightarrow> before (xs ! i) val)
        \<and> (lower_bound before xs first len val < first + half + 1 + (len - half - 1) \<longrightarrow>
             \<not> before (xs ! lower_bound before xs first len val) val)"
        unfolding eq using 1(1) [OF False half_def refl True _ 1(4)] 1(3) half by simp
      have low: "before (xs ! i) val" if "i \<le> first + half" for i
        using 1(4) that True half 1(3) by (meson add_less_cancel_left less_le_trans)
      have "before (xs ! i) val" if "i < lower_bound before xs first len val" for i
        using ih low that by (metis Suc_eq_plus1 not_less_eq_eq)
      with ih half show ?thesis by auto
    next
      case nb: False
      have eq: "lower_bound before xs first len val = lower_bound before xs first half val"
        using False nb by (subst lower_bound.simps) (simp add: half_def Let_def)
      have ih: "first \<le> lower_bound before xs first len val
        \<and> lower_bound before xs first len val \<le> first + half
        \<and> (\<forall>i. first \<le> i \<and> i < lower_bound before xs first len val \<longrightarrow> before (xs ! i) val)
        \<and> (lower_bound before xs first len val < first + half \<longrightarrow>
             \<not> before (xs ! lower_bound before xs first len val) val)"
        unfolding eq using 1(2) [OF False half_def refl nb _ 1(4)] 1(3) half by simp
      show ?thesis
      proof (cases "lower_bound before xs first len val = first + half")
        case True
        with ih nb half show ?thesis by auto
      next
        case False
        with ih half show ?thesis by auto
      qed
    qed
  qed
qed

subsection \<open>The lookup in the table\<close>

lemma lower_bound_map_of:
  fixes xs :: "(u32 \<times> string) list"
  assumes "sorted_wrt (\<lambda>a b. fst a < fst b) xs"
    and "m = lower_bound code_before xs 0 (length xs) c"
  shows "map_of xs c = (if m \<noteq> length xs \<and> fst (xs ! m) = c then Some (snd (xs ! m)) else None)"
proof -
  have less: "fst (xs ! i) < fst (xs ! j)" if "i < j" "j < length xs" for i j
    using assms(1) that by (simp add: sorted_wrt_iff_nth_less)
  have part: "code_before (xs ! i) c" if "i \<le> j" "j < length xs" "code_before (xs ! j) c" for i j
    using that less [of i j] by (cases "i = j") (auto simp: code_before_def)
  have m: "m \<le> length xs" "\<And>i. i < m \<Longrightarrow> fst (xs ! i) < c" "m < length xs \<Longrightarrow> \<not> fst (xs ! m) < c"
    using lower_bound_spec [of 0 "length xs" xs code_before c] part assms(2)
    by (auto simp: code_before_def simp del: not_less)
  have dist: "distinct (map fst xs)"
    using less by (force simp: distinct_conv_nth linorder_neq_iff)
  have above: "c < fst (xs ! i)" if "m < i" "i < length xs" for i
    using less [OF that] m(3) that by (meson le_less_trans less_trans not_less)
  show ?thesis
  proof (cases "m \<noteq> length xs \<and> fst (xs ! m) = c")
    case True
    then have "(c, snd (xs ! m)) \<in> set xs"
      using m(1) by (metis nat_less_le nth_mem prod.collapse)
    with dist True show ?thesis by simp
  next
    case False
    have "fst (xs ! i) \<noteq> c" if "i < length xs" for i
      using m(2) [of i] above [of i] False that by (cases i m rule: linorder_cases) auto
    then have "c \<notin> fst ` set xs" by (metis (no_types, lifting) imageE in_set_conv_nth)
    then have "map_of xs c = None" by (simp add: map_of_eq_None_iff)
    with False show ?thesis by auto
  qed
qed

lemma default_status_codes_sorted: "sorted_wrt (\<lambda>a b. fst a < fst b) default_status_codes"
proof -
  have "successively (\<lambda>a b. fst a < fst b) default_status_codes" by code_simp
  then show ?thesis
    by (subst (asm) successively_conv_sorted_wrt) (auto intro: transpI)
qed

lemma default_status_codes_200: "map_of default_status_codes 200 = Some ''OK''"
  by code_simp

lemma default_status_message_map_of:
  "default_status_message nm c =
     (case map_of default_status_codes c of Some msg \<Rightarrow> msg | None \<Rightarrow> nm c)"
  using lower_bound_map_of [OF default_status_codes_sorted refl, of c] default_status_codes_200
  by (auto simp: default_status_message_def Let_def)

text \<open>
  The binary search gives the message that a linear scan of the table finds for every one of
  the $2^{32}$ codes, and llhttp's name for the codes outside the table; the shortcut for 200 agrees.
\<close>

theorem default_status_message_linear:
  "default_status_message llhttp_status_name code =
     (case find (\<lambda>m. fst m = code) default_status_codes of
        Some m \<Rightarrow> snd m | None \<Rightarrow> llhttp_status_name code)"
proof -
  have "map_of xs c = map_option snd (find (\<lambda>m. fst m = c) xs)" for xs :: "status_code_map list" and c
    by (induction xs) auto
  then show ?thesis
    by (simp add: default_status_message_map_of split: option.split)
qed

end
