(* ===== verification/HttpParser.thy ===== *)
theory HttpParser
  imports HttpStatus HttpUrl
begin

text \<open>
  The HTTP parser (\<^verbatim>\<open>http_parser\<close>, \<^verbatim>\<open>http.cc\<close>): the callbacks that collect a message while llhttp
  scans its bytes, the receive loop, and the bytes that the senders hand to the socket.

  llhttp is an argument: \<open>execute\<close> takes the parser's state and the bytes, and returns the
  callbacks it makes, each with the public fields of its state at that moment, its new state, the
  error it reports, and the position of the error. The results of \<^verbatim>\<open>recv\<close> are a list; the loop
  returns \<open>None\<close> while it waits for more. The senders and the receiver hold one of the parser's two
  mutexes while they run; the mutex is the one of theory \<open>Mutex\<close>.
\<close>

subsection \<open>State\<close>

datatype llhttp_flag = F_CONNECTION_KEEP_ALIVE | F_CONNECTION_CLOSE | F_other nat

datatype llhttp_type = HTTP_REQUEST | HTTP_RESPONSE

record 'h llhttp =
  hp_type :: llhttp_type
  hp_major :: u8
  hp_minor :: u8
  hp_status_code :: u16
  hp_method :: llhttp_method
  hp_error :: llhttp_errno
  hp_upgrade :: bool
  hp_flags :: "llhttp_flag list"
  hp_state :: 'h

datatype md_state = State_unknown | State_header_name | State_header_value | State_done

record message_data =
  md_hm :: http_message
  md_state :: md_state
  md_name1 :: u32
  md_name2 :: u32
  md_value1 :: u32

record 'h http_parser =
  p_hp :: "'h llhttp"
  p_receive_buffer :: string
  p_host :: string
  p_sent :: string

datatype parser_type = Client | Server

definition http_parser_new :: "(llhttp_type \<Rightarrow> 'h llhttp) \<Rightarrow> parser_type \<Rightarrow> string \<Rightarrow> 'h http_parser" where
  "http_parser_new llhttp_init direction h =
     \<lparr>p_hp = llhttp_init (if direction = Client then HTTP_RESPONSE else HTTP_REQUEST),
      p_receive_buffer = [], p_host = h, p_sent = []\<rparr>"

definition parser_clear :: "('h llhttp \<Rightarrow> 'h llhttp) \<Rightarrow> 'h http_parser \<Rightarrow> 'h http_parser" where
  "parser_clear llhttp_reset p = p\<lparr>p_hp := llhttp_reset (p_hp p), p_receive_buffer := []\<rparr>"

definition parser_ok :: "'h http_parser \<Rightarrow> bool" where
  "parser_ok p \<longleftrightarrow> hp_error (p_hp p) = HPE_OK"

definition set_host :: "string \<Rightarrow> 'h http_parser \<Rightarrow> 'h http_parser" where
  "set_host h p = p\<lparr>p_host := h\<rparr>"

definition clear_host :: "'h http_parser \<Rightarrow> 'h http_parser" where
  "clear_host p = p\<lparr>p_host := []\<rparr>"

definition clear_should_keep_alive :: "'h http_parser \<Rightarrow> 'h http_parser" where
  "clear_should_keep_alive p = p\<lparr>p_hp := (p_hp p)\<lparr>hp_flags :=
     F_CONNECTION_CLOSE # removeAll F_CONNECTION_KEEP_ALIVE (hp_flags (p_hp p))\<rparr>\<rparr>"

text \<open>
  \<^verbatim>\<open>parse_method\<close>: llhttp is run on the text and then on a space, and must stop when the method is
  complete, at the end of the text or at the space. \<open>None\<close> is the exception.
\<close>

definition parse_method ::
  "('h llhttp \<Rightarrow> string \<Rightarrow> 'h llhttp \<times> llhttp_errno \<times> nat) \<Rightarrow> 'h llhttp \<Rightarrow> string \<Rightarrow> llhttp_method option" where
  "parse_method execute hp0 s =
     (let (hp, err, pos) = execute hp0 s; at_end = (pos = length s);
          (hp, err, at_end) =
            (if err = HPE_OK then let (hp, err, pos) = execute hp '' '' in (hp, err, pos = 0)
             else (hp, err, at_end))
      in if err = HPE_CB_METHOD_COMPLETE \<and> at_end then Some (hp_method hp) else None)"

subsection \<open>Callbacks\<close>

definition copy_parser_status :: "'h llhttp \<Rightarrow> message_data \<Rightarrow> message_data" where
  "copy_parser_status hp md = md\<lparr>md_hm := (md_hm md)\<lparr>major := hp_major hp, minor := hp_minor hp,
     status_code := hp_status_code hp, req_method := hp_method hp, error := hp_error hp,
     upgrade := hp_upgrade hp\<rparr>\<rparr>"

definition on_message_begin :: "message_data \<Rightarrow> message_data" where
  "on_message_begin md = md\<lparr>md_hm := do_clear (md_hm md), md_state := State_unknown\<rparr>"

definition on_url :: "string \<Rightarrow> message_data \<Rightarrow> message_data" where
  "on_url s md = md\<lparr>md_hm := (md_hm md)\<lparr>url := url (md_hm md) @ s\<rparr>, md_state := State_unknown\<rparr>"

definition on_status :: "'h llhttp \<Rightarrow> string \<Rightarrow> message_data \<Rightarrow> message_data" where
  "on_status hp s md =
     (let md = (if major (md_hm md) = 0 then copy_parser_status hp md else md)
      in md\<lparr>md_hm := (md_hm md)\<lparr>status_message := status_message (md_hm md) @ s\<rparr>,
            md_state := State_unknown\<rparr>)"

definition append_headers :: "string \<Rightarrow> message_data \<Rightarrow> message_data" where
  "append_headers s md = md\<lparr>md_hm := (md_hm md)\<lparr>headers := headers (md_hm md) @ s\<rparr>\<rparr>"

definition headers_length :: "message_data \<Rightarrow> u32" where
  "headers_length md = of_nat (length (headers (md_hm md)))"

definition on_header_field :: "string \<Rightarrow> message_data \<Rightarrow> message_data" where
  "on_header_field s md =
     (let md = (if md_state md \<noteq> State_header_name
                then md\<lparr>md_name1 := headers_length md, md_state := State_header_name\<rparr> else md)
      in append_headers s md)"

definition on_header_field_complete :: "message_data \<Rightarrow> message_data" where
  "on_header_field_complete md =
     (let md = (if md_state md \<noteq> State_header_name then md\<lparr>md_name1 := headers_length md\<rparr> else md);
          md = md\<lparr>md_name2 := headers_length md\<rparr>;
          md = append_headers '': '' md
      in md\<lparr>md_value1 := md_name2 md + 2, md_state := State_header_value\<rparr>)"

definition on_header_value :: "string \<Rightarrow> message_data \<Rightarrow> message_data" where
  "on_header_value s md = append_headers s md"

text \<open>\<^verbatim>\<open>while (v2 > md->value1 && (s[v2 - 1] == ' ' || s[v2 - 1] == '\t')) --v2;\<close>\<close>

function strip_back :: "string \<Rightarrow> nat \<Rightarrow> nat \<Rightarrow> nat" where
  "strip_back s v1 v2 = (if v1 < v2 \<and> is_hws (s ! (v2 - 1)) then strip_back s v1 (v2 - 1) else v2)"
  by pat_completeness auto
termination by (relation "measure (\<lambda>(_, _, v2). v2)") auto

declare strip_back.simps [simp del]

definition on_header_value_complete :: "message_data \<Rightarrow> message_data" where
  "on_header_value_complete md =
     (let md = (if md_state md = State_header_value
                then let v2 = strip_back (headers (md_hm md)) (unat (md_value1 md)) (length (headers (md_hm md)))
                     in md\<lparr>md_hm := (md_hm md)\<lparr>hpairs := hpairs (md_hm md) @
                          [\<lparr>name1 = md_name1 md, name2 = md_name2 md, value1 = md_value1 md,
                            value2 = of_nat v2\<rparr>]\<rparr>\<rparr>
                else md);
          md = append_headers CRLF md
      in md\<lparr>md_state := State_unknown\<rparr>)"

text \<open>Both callbacks also reserve memory for the body.\<close>

definition on_headers_complete :: "'h llhttp \<Rightarrow> message_data \<Rightarrow> message_data" where
  "on_headers_complete hp md = copy_parser_status hp md"

definition on_chunk_header :: "message_data \<Rightarrow> message_data" where
  "on_chunk_header md = md"

definition on_body :: "string \<Rightarrow> message_data \<Rightarrow> message_data" where
  "on_body s md = md\<lparr>md_hm := (md_hm md)\<lparr>body := body (md_hm md) @ s\<rparr>\<rparr>"

definition on_message_complete :: "message_data \<Rightarrow> message_data" where
  "on_message_complete md = md\<lparr>md_state := State_done\<rparr>"

text \<open>\<^verbatim>\<open>settings\<close>: which function serves which callback.\<close>

datatype callback = Message_begin | Url string | Status string
  | Header_field string | Header_field_complete | Header_value string | Header_value_complete
  | Headers_complete | Chunk_header | Body string | Message_complete

fun settings :: "callback \<Rightarrow> 'h llhttp \<Rightarrow> message_data \<Rightarrow> message_data" where
  "settings Message_begin hp md = on_message_begin md"
| "settings (Url s) hp md = on_url s md"
| "settings (Status s) hp md = on_status hp s md"
| "settings (Header_field s) hp md = on_header_field s md"
| "settings Header_field_complete hp md = on_header_field_complete md"
| "settings (Header_value s) hp md = on_header_value s md"
| "settings Header_value_complete hp md = on_header_value_complete md"
| "settings Headers_complete hp md = on_headers_complete hp md"
| "settings Chunk_header hp md = on_chunk_header md"
| "settings (Body s) hp md = on_body s md"
| "settings Message_complete hp md = on_message_complete md"

definition run_callbacks :: "(callback \<times> 'h llhttp) list \<Rightarrow> message_data \<Rightarrow> message_data" where
  "run_callbacks cbs md = fold (\<lambda>(cb, hp). settings cb hp) cbs md"

subsection \<open>Receiving\<close>

record 'h llhttp_api =
  execute :: "'h llhttp \<Rightarrow> string \<Rightarrow> (callback \<times> 'h llhttp) list \<times> 'h llhttp \<times> llhttp_errno \<times> nat"
  resume :: "'h llhttp \<Rightarrow> 'h llhttp"
  resume_after_upgrade :: "'h llhttp \<Rightarrow> 'h llhttp"

text \<open>A result of \<^verbatim>\<open>recv\<close>: an error, or bytes; no bytes is the end of the stream.\<close>

datatype rx = Rx_error | Rx string

definition message_data_new :: message_data where
  "message_data_new = \<lparr>md_hm = set_status_code 0 http_message_new, md_state = State_unknown,
     md_name1 = 0, md_name2 = 0, md_value1 = 0\<rparr>"

text \<open>One turn of the loop on the bytes \<open>buf\<close>; the flag is its \<^verbatim>\<open>break\<close>.\<close>

definition receive_turn ::
  "'h llhttp_api \<Rightarrow> string \<Rightarrow> 'h http_parser \<times> message_data \<Rightarrow> bool \<times> 'h http_parser \<times> message_data" where
  "receive_turn api buf =
     (\<lambda>(p, md).
       let (cbs, hp, err, error_pos) = execute api (p_hp p) buf;
           md = run_callbacks cbs md;
           nr = length buf;
           consumed = (if err \<noteq> HPE_OK then error_pos else nr);
           p = p\<lparr>p_hp := hp, p_receive_buffer := (if consumed = nr then [] else drop consumed buf)\<rparr>;
           (p, md) =
             (if err = HPE_PAUSED_UPGRADE
              then (p\<lparr>p_hp := resume_after_upgrade api (p_hp p)\<rparr>, md\<lparr>md_state := State_done\<rparr>)
              else if err = HPE_PAUSED
              then (p\<lparr>p_hp := resume api (p_hp p)\<rparr>, md\<lparr>md_state := State_done\<rparr>)
              else (p, md))
       in if err \<noteq> HPE_OK \<or> md_state md = State_done
          then (True, p, copy_parser_status (p_hp p) md)
          else (False, p, md))"

lemma receive_turn_buffer:
  "receive_turn api buf (p, md) = (False, p', md') \<Longrightarrow> p_receive_buffer p' = []"
  by (auto simp: receive_turn_def Let_def split: prod.splits if_splits)

function receive_loop ::
  "'h llhttp_api \<Rightarrow> rx list \<Rightarrow> 'h http_parser \<Rightarrow> message_data \<Rightarrow>
     (rx list \<times> 'h http_parser \<times> message_data) option" where
  "receive_loop api rxs p md =
     (if p_receive_buffer p = []
      then (case rxs of
              [] \<Rightarrow> None
            | Rx_error # rxs \<Rightarrow> Some (rxs, p, md)
            | Rx b # rxs \<Rightarrow>
                if b = [] then Some (rxs, p, md)
                else (case receive_turn api b (p, md) of
                        (True, p', md') \<Rightarrow> Some (rxs, p', md')
                      | (False, p', md') \<Rightarrow> receive_loop api rxs p' md'))
      else (case receive_turn api (p_receive_buffer p) (p, md) of
              (True, p', md') \<Rightarrow> Some (rxs, p', md')
            | (False, p', md') \<Rightarrow> receive_loop api rxs p' md'))"
  by pat_completeness auto
termination
  by (relation "measure (\<lambda>(_, rxs, p, _). length rxs + (if p_receive_buffer p = [] then 0 else 1))")
    (auto dest!: sym [of _ "receive_turn _ _ _"] receive_turn_buffer)

declare receive_loop.simps [simp del]

definition receive ::
  "'h llhttp_api \<Rightarrow> rx list \<Rightarrow> 'h http_parser \<Rightarrow> (http_message \<times> rx list \<times> 'h http_parser) option" where
  "receive api rxs p =
     (case receive_loop api rxs p message_data_new of
        None \<Rightarrow> None
      | Some (rxs, p, md) \<Rightarrow>
          if md_state md \<noteq> State_done \<and> error (md_hm md) = HPE_OK
          then Some ((md_hm md)\<lparr>error := HPE_CLOSED_CONNECTION\<rparr>, rxs,
                     p\<lparr>p_hp := (p_hp p)\<lparr>hp_error := HPE_CLOSED_CONNECTION\<rparr>\<rparr>)
          else Some (md_hm md, rxs, p))"

subsection \<open>Sending\<close>

text \<open>\<^verbatim>\<open>sendv_all\<close> on the parser's socket, with the lock for writing held.\<close>

definition sendv_all :: "string list \<Rightarrow> 'h http_parser \<Rightarrow> 'h http_parser" where
  "sendv_all iov p = p\<lparr>p_sent := p_sent p @ concat iov\<rparr>"

definition add_content_length :: "http_message \<Rightarrow> http_message" where
  "add_content_length m =
     (if has_body m \<and> \<not> has_header ''content-length'' m \<and> \<not> has_header ''transfer-encoding'' m
      then add_header_num ''Content-Length'' (length (body m)) m else m)"

definition message_iov :: "string \<Rightarrow> http_message \<Rightarrow> string list" where
  "message_iov first_line m =
     [first_line, headers m] @ (if length (body m) \<noteq> 0 then [body m] else [])"

definition send_request ::
  "(llhttp_method \<Rightarrow> string) \<Rightarrow> http_message \<Rightarrow> 'h http_parser \<Rightarrow> 'h http_parser" where
  "send_request llhttp_method_name m p =
     (let urlline = llhttp_method_name (req_method m) @ '' '' @ url m @ '' HTTP/'' @
            to_string (unat (major m)) @ ''.'' @ to_string (unat (minor m)) @ CRLF;
          m = (if p_host p \<noteq> [] \<and> \<not> has_header ''host'' m
               then add_header ''Host'' (p_host p) m else m);
          m = add_content_length m;
          m = m\<lparr>headers := headers m @ CRLF\<rparr>
      in sendv_all (message_iov urlline m) p)"

definition send_response ::
  "('h llhttp \<Rightarrow> bool) \<Rightarrow> (u32 \<Rightarrow> string) \<Rightarrow> http_message \<Rightarrow> 'h http_parser \<Rightarrow> 'h http_parser" where
  "send_response should_keep_alive llhttp_status_name m p =
     (let hp = p_hp p;
          p = (if should_keep_alive hp \<and> ieq (header ''connection'' m) ''close''
               then (if hp_major hp > 0 \<and> hp_minor hp > 0
                     then p\<lparr>p_hp := hp\<lparr>hp_flags := F_CONNECTION_CLOSE # hp_flags hp\<rparr>\<rparr>
                     else p\<lparr>p_hp := hp\<lparr>hp_flags := removeAll F_CONNECTION_KEEP_ALIVE (hp_flags hp)\<rparr>\<rparr>)
               else p);
          msg = (if status_message m = [] then default_status_message llhttp_status_name (ucast (status_code m))
                 else status_message m);
          codeline = ''HTTP/'' @ to_string (unat (major m)) @ ''.'' @ to_string (unat (minor m)) @ '' '' @
            to_string (unat (status_code m)) @ '' '' @ msg @ CRLF;
          m = add_content_length m;
          m = m\<lparr>headers := headers m @ CRLF\<rparr>
      in sendv_all (message_iov codeline m) p)"

definition send ::
  "(llhttp_method \<Rightarrow> string) \<Rightarrow> ('h llhttp \<Rightarrow> bool) \<Rightarrow> (u32 \<Rightarrow> string) \<Rightarrow>
     http_message \<Rightarrow> 'h http_parser \<Rightarrow> 'h http_parser" where
  "send llhttp_method_name should_keep_alive llhttp_status_name m p =
     (if hp_type (p_hp p) = HTTP_RESPONSE then send_request llhttp_method_name m p
      else send_response should_keep_alive llhttp_status_name m p)"

text \<open>The length of a chunk is written in decimal.\<close>

definition send_response_chunk :: "string \<Rightarrow> 'h http_parser \<Rightarrow> 'h http_parser" where
  "send_response_chunk str p = sendv_all [to_string (length str) @ CRLF, str, CRLF] p"

definition send_response_end_chunk :: "'h http_parser \<Rightarrow> 'h http_parser" where
  "send_response_end_chunk p = p\<lparr>p_sent := p_sent p @ ''0'' @ CRLF @ CRLF\<rparr>"

end
