(* ===== verification/HttpParserInv.thy ===== *)
theory HttpParserInv
  imports HttpParser HttpHeaders
begin

text \<open>
  The parser's callbacks rebuild the headers that a sender wrote, however llhttp cuts them into
  fragments; what the senders write is the message on the wire; and the receive loop neither loses
  nor repeats a byte.
\<close>

subsection \<open>One header from the callbacks\<close>

type_synonym fragments = "string list \<times> string list"

definition header_events :: "fragments \<Rightarrow> callback list" where
  "header_events h = map Header_field (fst h) @ [Header_field_complete] @
     map Header_value (snd h) @ [Header_value_complete]"

definition parse_header :: "fragments \<Rightarrow> message_data \<Rightarrow> message_data" where
  "parse_header h md = on_header_value_complete (fold on_header_value (snd h)
     (on_header_field_complete (fold on_header_field (fst h) md)))"

lemma run_callbacks_simps [simp]:
  "run_callbacks [] md = md"
  "run_callbacks ((cb, hp) # cbs) md = run_callbacks cbs (settings cb hp md)"
  "run_callbacks (cbs @ cbs') md = run_callbacks cbs' (run_callbacks cbs md)"
  by (simp_all add: run_callbacks_def)

lemma run_map_events:
  fixes cbs :: "(callback \<times> 'h llhttp) list"
  assumes "\<And>s (hp :: 'h llhttp) md. settings (C s) hp md = f s md" "map fst cbs = map C ss"
  shows "run_callbacks cbs md = fold f ss md"
  using assms(2)
proof (induction ss arbitrary: cbs md)
  case Nil
  then show ?case by simp
next
  case (Cons s ss)
  then obtain hp cbs' where "cbs = (C s, hp) # cbs'" "map fst cbs' = map C ss"
    by (cases cbs) auto
  with Cons(1) assms(1) show ?case by simp
qed

lemma run_header_events:
  assumes "map fst cbs = header_events h"
  shows "run_callbacks cbs md = parse_header h md"
proof -
  from assms obtain fs c1 vs c2 where cbs: "cbs = fs @ c1 # vs @ [c2]"
      "map fst fs = map Header_field (fst h)" "fst c1 = Header_field_complete"
      "map fst vs = map Header_value (snd h)" "fst c2 = Header_value_complete"
    unfolding header_events_def by (auto simp: map_eq_append_conv map_eq_Cons_conv append_eq_map_conv
        Cons_eq_map_conv)
  have "run_callbacks fs md = fold on_header_field (fst h) md" for md
    by (rule run_map_events [OF _ cbs(2)]) simp
  moreover have "run_callbacks vs md = fold on_header_value (snd h) md" for md
    by (rule run_map_events [OF _ cbs(4)]) simp
  ultimately show ?thesis
    using cbs(3,5) by (cases c1; cases c2) (simp add: cbs(1) parse_header_def)
qed

lemma append_headers_simps [simp]:
  "headers (md_hm (append_headers s md)) = headers (md_hm md) @ s"
  "hpairs (md_hm (append_headers s md)) = hpairs (md_hm md)"
  "md_state (append_headers s md) = md_state md" "md_name1 (append_headers s md) = md_name1 md"
  "md_name2 (append_headers s md) = md_name2 md" "md_value1 (append_headers s md) = md_value1 md"
  by (simp_all add: append_headers_def)

lemma append_headers_append [simp]:
  "append_headers t (append_headers s md) = append_headers (s @ t) md"
  "append_headers [] md = md"
  by (simp_all add: append_headers_def)

lemma fold_on_header_value: "fold on_header_value vs md = append_headers (concat vs) md"
  by (induction vs arbitrary: md) (simp_all add: on_header_value_def)

lemma on_header_field_name:
  "md_state md = State_header_name \<Longrightarrow> on_header_field s md = append_headers s md"
  by (simp add: on_header_field_def)

lemma fold_on_header_field_name:
  "md_state md = State_header_name \<Longrightarrow> fold on_header_field fs md = append_headers (concat fs) md"
  by (induction fs arbitrary: md) (simp_all add: on_header_field_name)

text \<open>The name is complete: its offsets and the separator are in place.\<close>

lemma name_complete:
  fixes fs :: "string list"
  assumes "md_state md \<noteq> State_header_name"
  defines "n \<equiv> length (headers (md_hm md))" and "k \<equiv> concat fs"
  shows "on_header_field_complete (fold on_header_field fs md) =
    (append_headers (k @ '': '') md)\<lparr>md_name1 := of_nat n, md_name2 := of_nat (n + length k),
       md_value1 := of_nat (n + length k + 2), md_state := State_header_value\<rparr>"
proof (cases fs)
  case Nil
  then show ?thesis using assms(1)
    by (simp add: on_header_field_complete_def Let_def headers_length_def append_headers_def n_def k_def)
next
  case (Cons f fs')
  let ?md = "md\<lparr>md_name1 := headers_length md, md_state := State_header_name\<rparr>"
  have "fold on_header_field fs md = append_headers k ?md"
    using assms(1) fold_on_header_field_name [of "append_headers f ?md" fs']
    by (simp add: Cons on_header_field_def k_def Let_def)
  then show ?thesis
    by (simp add: on_header_field_complete_def Let_def headers_length_def append_headers_def n_def)
qed

lemma strip_back_trim:
  "n \<le> length s \<Longrightarrow> strip_back (p @ s) (length p) (length p + n) = length p + length (trim_back (take n s))"
proof (induction n)
  case 0
  then show ?case by (simp add: strip_back.simps trim_back.simps)
next
  case (Suc n)
  have t: "take (Suc n) s = take n s @ [s ! n]" using Suc(2) by (simp add: take_Suc_conv_app_nth)
  have u: "trim_back (take n s @ [s ! n]) = (if is_hws (s ! n) then trim_back (take n s) else take n s @ [s ! n])"
    by (subst trim_back.simps) simp
  show ?case
    using Suc by (subst strip_back.simps) (simp add: t u nth_append)
qed

text \<open>One header: its lines are appended as they came, and the pair leaves out trailing white space.\<close>

lemma parse_header_effect:
  fixes h :: fragments
  assumes "md_state md \<noteq> State_header_name" "length (headers (md_hm md)) + length (concat (fst h)) + 2 < 2 ^ 32"
  defines "n \<equiv> length (headers (md_hm md))" and "k \<equiv> concat (fst h)" and "v \<equiv> concat (snd h)"
  defines "hs \<equiv> headers (md_hm md) @ k @ '': '' @ v"
  shows "md_hm (parse_header h md) = (md_hm md)\<lparr>headers := hs @ CRLF, hpairs := hpairs (md_hm md) @
      [kvoffsets n (n + length k) (n + length k + 2) (n + length k + 2 + length (trim_back v))]\<rparr>"
    and "md_state (parse_header h md) = State_unknown"
proof -
  let ?n2 = "n + length k + 2"
  have u: "unat (of_nat ?n2 :: u32) = ?n2"
    using assms(2) by (intro unat_of_nat_32) (simp add: n_def k_def)
  have s: "strip_back hs ?n2 (length hs) = ?n2 + length (trim_back v)"
    using strip_back_trim [of "length v" v "headers (md_hm md) @ k @ '': ''"]
    by (simp add: hs_def n_def k_def add.assoc)
  show "md_hm (parse_header h md) = (md_hm md)\<lparr>headers := hs @ CRLF, hpairs := hpairs (md_hm md) @
      [kvoffsets n (n + length k) (n + length k + 2) (n + length k + 2 + length (trim_back v))]\<rparr>"
    using s u unfolding parse_header_def name_complete [OF assms(1)] fold_on_header_value
    by (simp add: on_header_value_complete_def Let_def append_headers_def hs_def n_def k_def v_def
        kvoffsets_def del: of_nat_add)
  show "md_state (parse_header h md) = State_unknown"
    by (simp add: parse_header_def on_header_value_complete_def Let_def)
qed

lemma trim_back_prefix: "take (length (trim_back v)) v = trim_back v"
proof -
  have "v = trim_back v @ rev (takeWhile is_hws (rev v))"
    by (metis rev_append rev_rev_ident takeWhile_dropWhile_id trim_back_dropWhile)
  then show ?thesis by (metis append_eq_conv_conj)
qed

definition collecting :: "message_data \<Rightarrow> bool" where
  "collecting md \<longleftrightarrow> hm_wf (md_hm md) \<and> md_state md \<noteq> State_header_name"

definition frag_entry :: "fragments \<Rightarrow> string \<times> string" where
  "frag_entry h = (concat (fst h), trim_back (concat (snd h)))"

definition frag_cost :: "fragments \<Rightarrow> nat" where
  "frag_cost h = length (concat (fst h)) + length (concat (snd h)) + 4"

lemma parse_header_sink:
  assumes "collecting md" "length (headers (md_hm md)) + frag_cost h < 2 ^ 32"
  shows "header_list (md_hm (parse_header h md)) = header_list (md_hm md) @ [frag_entry h]"
    and "collecting (parse_header h md)"
    and "length (headers (md_hm (parse_header h md))) = length (headers (md_hm md)) + frag_cost h"
proof -
  let ?n = "length (headers (md_hm md))"
  let ?k = "concat (fst h)"
  let ?v = "concat (snd h)"
  let ?t = "trim_back ?v"
  let ?hs = "headers (md_hm md) @ ?k @ '': '' @ ?v @ CRLF"
  have st: "md_state md \<noteq> State_header_name" using assms(1) by (simp add: collecting_def)
  have room: "?n + length ?k + 2 < 2 ^ 32" "length ?hs < 2 ^ 32"
    using assms(2) by (simp_all add: frag_cost_def)
  note eff = parse_header_effect [OF st room(1)]
  have len: "length ?t \<le> length ?v" by (metis trim_back_prefix length_take min.cobounded1)
  have m': "md_hm (parse_header h md) = (md_hm md)\<lparr>headers := ?hs, hpairs := hpairs (md_hm md) @
      [kvoffsets ?n (?n + length ?k) (?n + length ?k + 2) (?n + length ?k + 2 + length ?t)]\<rparr>"
    using eff(1) by simp
  have wf: "hm_wf (md_hm md)" using assms(1) by (simp add: collecting_def)
  note ext = header_list_extend [OF wf refl room(2) _ _ _ _ m']
  have "header_list (md_hm (parse_header h md)) = header_list (md_hm md) @
      [(take (?n + length ?k - ?n) (drop ?n ?hs),
        take (?n + length ?k + 2 + length ?t - (?n + length ?k + 2)) (drop (?n + length ?k + 2) ?hs))]"
    using len by (intro ext) auto
  then show "header_list (md_hm (parse_header h md)) = header_list (md_hm md) @ [frag_entry h]"
    using len trim_back_prefix [of ?v] by (simp add: frag_entry_def)
  have "hm_wf (md_hm (parse_header h md))" using len by (intro ext) auto
  then show "collecting (parse_header h md)" using eff(2) by (simp add: collecting_def)
  show "length (headers (md_hm (parse_header h md))) = ?n + frag_cost h"
    by (simp add: m' frag_cost_def)
qed

interpretation rx: header_sink collecting "\<lambda>md. header_list (md_hm md)"
    "\<lambda>md. length (headers (md_hm md))" parse_header frag_entry frag_cost
  using parse_header_sink by unfold_locales simp_all

subsection \<open>A whole message\<close>

definition message_events :: "string list \<Rightarrow> fragments list \<Rightarrow> string list \<Rightarrow> callback list" where
  "message_events us hs bs = [Message_begin] @ map Url us @ concat (map header_events hs) @
     [Headers_complete] @ map Body bs @ [Message_complete]"

lemma run_headers:
  "map fst cbs = concat (map header_events hs) \<Longrightarrow> run_callbacks cbs md = fold parse_header hs md"
proof (induction hs arbitrary: cbs md)
  case Nil
  then show ?case by simp
next
  case (Cons h hs)
  then obtain c1 c2 where "cbs = c1 @ c2" "map fst c1 = header_events h"
      "map fst c2 = concat (map header_events hs)"
    by (auto simp: map_eq_append_conv)
  with Cons(1) [of c2] run_header_events [of c1 h] show ?case by simp
qed

lemma parse_header_keeps:
  assumes "md_state md \<noteq> State_header_name" "length (headers (md_hm md)) + sum_list (map frag_cost hs) < 2 ^ 32"
    and "hm_wf (md_hm md)"
  shows "url (md_hm (fold parse_header hs md)) = url (md_hm md)
    \<and> body (md_hm (fold parse_header hs md)) = body (md_hm md)"
  using assms
proof (induction hs arbitrary: md)
  case Nil
  then show ?case by simp
next
  case (Cons h hs)
  have room: "length (headers (md_hm md)) + frag_cost h < 2 ^ 32" using Cons(3) by simp
  note eff = parse_header_effect [OF Cons(2), of h]
  have c: "collecting md" using Cons(2,4) by (simp add: collecting_def)
  note sink = parse_header_sink [OF c room]
  have "md_state (parse_header h md) \<noteq> State_header_name" "hm_wf (md_hm (parse_header h md))"
    using sink(2) by (simp_all add: collecting_def)
  with Cons(1) [of "parse_header h md"] Cons(3) sink(3) eff(1) room show ?case
    by (simp add: frag_cost_def)
qed

lemma fold_on_url: "fold on_url us md =
    (if us = [] then md
     else md\<lparr>md_hm := (md_hm md)\<lparr>url := url (md_hm md) @ concat us\<rparr>, md_state := State_unknown\<rparr>)"
  by (induction us arbitrary: md) (auto simp: on_url_def)

lemma fold_on_body: "fold on_body bs md = md\<lparr>md_hm := (md_hm md)\<lparr>body := body (md_hm md) @ concat bs\<rparr>\<rparr>"
  by (induction bs arbitrary: md) (auto simp: on_body_def)

lemma run_message:
  fixes cbs :: "(callback \<times> 'h llhttp) list"
  assumes "map fst cbs = message_events us hs bs" "headers (md_hm md) = []"
    and "sum_list (map frag_cost hs) < 2 ^ 32"
  shows "url (md_hm (run_callbacks cbs md)) = concat us
    \<and> header_list (md_hm (run_callbacks cbs md)) = map frag_entry hs
    \<and> body (md_hm (run_callbacks cbs md)) = concat bs
    \<and> md_state (run_callbacks cbs md) = State_done"
proof -
  from assms(1) obtain c0 cu ch c1 cb c2 where
      cbs: "cbs = c0 # cu @ ch @ c1 # cb @ [c2]" "fst c0 = Message_begin" "map fst cu = map Url us"
        "map fst ch = concat (map header_events hs)" "fst c1 = Headers_complete"
        "map fst cb = map Body bs" "fst c2 = Message_complete"
    unfolding message_events_def
    by (auto simp: map_eq_append_conv map_eq_Cons_conv append_eq_map_conv Cons_eq_map_conv)
  let ?m0 = "on_message_begin md"
  let ?m1 = "fold on_url us ?m0"
  let ?m2 = "fold parse_header hs ?m1"
  have u: "run_callbacks cu m = fold on_url us m" for m
    by (rule run_map_events [OF _ cbs(3)]) simp
  have b: "run_callbacks cb m = fold on_body bs m" for m
    by (rule run_map_events [OF _ cbs(6)]) simp
  have run: "run_callbacks cbs md =
      on_message_complete (fold on_body bs (on_headers_complete (snd c1) ?m2))"
    using cbs(2,5,7) u b run_headers [OF cbs(4)]
    by (cases c0; cases c1; cases c2) (simp add: cbs(1))
  have m0: "headers (md_hm ?m0) = []" "hpairs (md_hm ?m0) = []" "url (md_hm ?m0) = []"
      "body (md_hm ?m0) = []" "md_state ?m0 = State_unknown"
    using assms(2) by (simp_all add: on_message_begin_def do_clear_def reset_info_def)
  have m1: "headers (md_hm ?m1) = []" "hpairs (md_hm ?m1) = []" "url (md_hm ?m1) = concat us"
      "body (md_hm ?m1) = []" "md_state ?m1 = State_unknown"
    using m0 by (simp_all add: fold_on_url)
  have c1: "collecting ?m1" "header_list (md_hm ?m1) = []"
    using m1 by (simp_all add: collecting_def hm_wf_def header_list_def)
  have "header_list (md_hm ?m2) = map frag_entry hs"
    using rx.add_all [OF c1(1), of hs] assms(3) m1(1) c1(2) by simp
  moreover have "url (md_hm ?m2) = concat us \<and> body (md_hm ?m2) = []"
    using parse_header_keeps [of ?m1 hs] m1 assms(3) c1(1) by (simp add: collecting_def)
  ultimately show ?thesis
    by (simp add: run on_message_complete_def fold_on_body on_headers_complete_def
        copy_parser_status_def header_list_def)
qed

subsection \<open>What the senders write\<close>

text \<open>The headers that a request or response carries on the wire.\<close>

definition length_headers :: "http_message \<Rightarrow> (string \<times> string) list" where
  "length_headers m = (if has_body m \<and> \<not> has_header ''content-length'' m \<and> \<not> has_header ''transfer-encoding'' m
     then [(''Content-Length'', to_string (length (body m)))] else [])"

definition host_headers :: "string \<Rightarrow> http_message \<Rightarrow> (string \<times> string) list" where
  "host_headers host m = (if host \<noteq> [] \<and> \<not> has_header ''host'' m then [(''Host'', trim_hws host)] else [])"

definition sent_headers :: "string \<Rightarrow> http_message \<Rightarrow> (string \<times> string) list" where
  "sent_headers host m = header_list m @ host_headers host m @ length_headers m"

lemma to_string_digits: "to_string n \<noteq> [] \<and> (\<forall>c \<in> set (to_string n). \<not> is_hws c)"
proof (induction n rule: to_string.induct)
  case (1 n)
  have "list_all (\<lambda>d :: nat. \<not> is_hws (char_of (48 + d))) [0..<10]" by code_simp
  then have digit: "\<not> is_hws (char_of (48 + d))" if "d < 10" for d :: nat
    using that by (simp add: list_all_iff)
  show ?case
  proof (cases "n < 10")
    case True
    with digit show ?thesis by (subst (1 2) to_string.simps) simp
  next
    case False
    with 1 digit [of "n mod 10"] show ?thesis by (subst (1 2) to_string.simps) auto
  qed
qed

lemma trim_to_string [simp]: "trim_hws (to_string n) = to_string n"
  using to_string_digits [of n] by (intro trim_hws_id) auto

lemma header_list_more [simp]:
  "header_list (m\<lparr>body := b\<rparr>) = header_list m" by (simp add: header_list_def)

lemma ieq_names [simp]:
  "\<not> ieq ''Host'' ''content-length''" "\<not> ieq ''Host'' ''transfer-encoding''"
  by code_simp+

lemma add_host_headers:
  assumes "wire_wf m" "length (headers m) + length host + 8 < 2 ^ 32"
  defines "m' \<equiv> (if host \<noteq> [] \<and> \<not> has_header ''host'' m then add_header ''Host'' host m else m)"
  shows "header_list m' = header_list m @ host_headers host m" "wire_wf m'"
    and "length (headers m') \<le> length (headers m) + length host + 8"
    and "length_headers m' = length_headers m" and "body m' = body m"
proof -
  have wf: "hm_wf m" using assms(1) by (simp add: wire_wf_def)
  have room: "length (headers m) + length ''Host'' + length host + 4 < 2 ^ 32" using assms(2) by simp
  note add = add_header_list [OF wf room] add_header_wire [OF assms(1) room]
  show l: "header_list m' = header_list m @ host_headers host m"
    using add(1) by (simp add: m'_def host_headers_def)
  show "wire_wf m'" using add(4) assms(1) by (simp add: m'_def)
  show "length (headers m') \<le> length (headers m) + length host + 8"
    using add(3) trim_hws_length [of host] by (simp add: m'_def header_line_def)
  show b: "body m' = body m" by (simp add: m'_def add_header_def Let_def)
  have hb: "has_body m' = has_body m" by (simp add: m'_def add_header_def Let_def)
  have "matching nm (host_headers host m) = []" if "\<not> ieq ''Host'' nm" for nm
    using that by (simp add: host_headers_def matching_def)
  then show "length_headers m' = length_headers m"
    using l b hb by (simp add: length_headers_def header_lookup)
qed

lemma add_content_length_headers:
  assumes "wire_wf m" "length (headers m) + length (to_string (length (body m))) + 18 < 2 ^ 32"
  shows "header_list (add_content_length m) = header_list m @ length_headers m"
    and "headers (add_content_length m) = concat (map header_line (header_list m @ length_headers m))"
    and "body (add_content_length m) = body m"
proof -
  have wf: "hm_wf m" "headers m = concat (map header_line (header_list m))"
    using assms(1) by (simp_all add: wire_wf_def)
  have room: "length (headers m) + length ''Content-Length'' + length (to_string (length (body m))) + 4 < 2 ^ 32"
    using assms(2) by simp
  note add = add_header_list [OF wf(1) room]
  show "header_list (add_content_length m) = header_list m @ length_headers m"
    using add(1) by (simp add: add_content_length_def add_header_num_def length_headers_def)
  show "headers (add_content_length m) = concat (map header_line (header_list m @ length_headers m))"
    using add(3) wf(2) by (auto simp: add_content_length_def add_header_num_def length_headers_def)
  show "body (add_content_length m) = body m"
    by (simp add: add_content_length_def add_header_num_def add_header_def Let_def)
qed

lemma message_iov_bytes: "concat (message_iov l m) = l @ headers m @ body m"
  by (simp add: message_iov_def)

definition request_line :: "string \<Rightarrow> http_message \<Rightarrow> string" where
  "request_line method_text m = method_text @ '' '' @ url m @ '' HTTP/'' @
     to_string (unat (major m)) @ ''.'' @ to_string (unat (minor m)) @ CRLF"

lemma send_request_bytes:
  assumes "wire_wf m"
    and "length (headers m) + length (p_host p) + length (to_string (length (body m))) + 26 < 2 ^ 32"
  shows "p_sent (send_request nm m p) = p_sent p @ request_line (nm (req_method m)) m @
     concat (map header_line (sent_headers (p_host p) m)) @ CRLF @ body m"
proof -
  define m1 where "m1 = (if p_host p \<noteq> [] \<and> \<not> has_header ''host'' m
     then add_header ''Host'' (p_host p) m else m)"
  have room: "length (headers m) + length (p_host p) + 8 < 2 ^ 32" using assms(2) by simp
  note host = add_host_headers [OF assms(1) room, folded m1_def]
  have "length (headers m1) + length (to_string (length (body m1))) + 18 < 2 ^ 32"
    using host(3,5) assms(2) by simp
  note len = add_content_length_headers [OF host(2) this]
  show ?thesis
    using len host by (simp add: send_request_def m1_def [symmetric] Let_def sendv_all_def
        message_iov_bytes request_line_def sent_headers_def)
qed

lemma sent_headers_trimmed:
  assumes "wire_wf m" "(k, v) \<in> set (sent_headers host m)"
  shows "trim_back v = v"
proof -
  have "trim_hws v = v"
    using assms by (auto simp: sent_headers_def wire_wf_def list_all_iff host_headers_def
        length_headers_def split: if_splits)
  then show ?thesis
    using trim_hws_ends [of v] by (subst trim_back.simps) auto
qed

text \<open>
  C12: a request goes on the wire as its request line, one line per header, an empty line and the
  body, with \<^verbatim>\<open>Host\<close> and \<^verbatim>\<open>Content-Length\<close> added when they are missing. A receiver whose callbacks
  get the pieces of that text, cut into fragments in any way, ends with the same URL, the same
  list of headers and the same body, and in the state done.
\<close>

theorem request_roundtrip:
  fixes cbs :: "(callback \<times> 'h llhttp) list" and p :: "'g http_parser"
  assumes "wire_wf m"
    and "length (headers m) + length (p_host p) + length (to_string (length (body m))) + 26 < 2 ^ 32"
    and "map fst cbs = message_events us hs bs" "concat us = url m" "concat bs = body m"
    and "map (\<lambda>h. (concat (fst h), concat (snd h))) hs = sent_headers (p_host p) m"
    and "sum_list (map frag_cost hs) < 2 ^ 32"
  shows "p_sent (send_request nm m p) = p_sent p @ request_line (nm (req_method m)) m @
      concat (map header_line (map (\<lambda>h. (concat (fst h), concat (snd h))) hs)) @ CRLF @ body m
    \<and> url (md_hm (run_callbacks cbs message_data_new)) = url m
    \<and> header_list (md_hm (run_callbacks cbs message_data_new)) = sent_headers (p_host p) m
    \<and> body (md_hm (run_callbacks cbs message_data_new)) = body m
    \<and> md_state (run_callbacks cbs message_data_new) = State_done"
proof -
  have "headers (md_hm message_data_new) = []"
    by (simp add: message_data_new_def set_status_code_def http_message_new_def)
  note run = run_message [OF assms(3) this assms(7)]
  have "frag_entry h = (concat (fst h), concat (snd h))" if "h \<in> set hs" for h
  proof -
    have "(concat (fst h), concat (snd h)) \<in> set (sent_headers (p_host p) m)"
      unfolding assms(6) [symmetric] using that by auto
    from sent_headers_trimmed [OF assms(1) this] show ?thesis by (simp add: frag_entry_def)
  qed
  then have "map frag_entry hs = sent_headers (p_host p) m"
    unfolding assms(6) [symmetric] by simp
  with run send_request_bytes [OF assms(1,2)] assms(4-6) show ?thesis by simp
qed

definition sample_request :: http_message where
  "sample_request = set_body ''hi'' (http_request_new HTTP_POST ''/a'')"

definition sample_parser :: "nat http_parser" where
  "sample_parser = http_parser_new (\<lambda>t. \<lparr>hp_type = t, hp_major = 1, hp_minor = 1, hp_status_code = 0,
     hp_method = HTTP_GET, hp_error = HPE_OK, hp_upgrade = False, hp_flags = [], hp_state = 0\<rparr>) Client ''h''"

lemma request_roundtrip_witness:
  "p_sent (send_request (\<lambda>_. ''POST'') sample_request sample_parser) =
     ''POST /a HTTP/1.1'' @ CRLF @ ''Host: h'' @ CRLF @ ''Content-Length: 2'' @ CRLF @ CRLF @ ''hi''"
proof -
  let ?us = "[''/'', ''a'']"
  let ?hs = "[([''Ho'', ''st''], [''h'']), ([''Content-Length''], [''2''])]"
  let ?bs = "[''h'', ''i'']"
  let ?cbs = "map (\<lambda>cb. (cb, p_hp sample_parser)) (message_events ?us ?hs ?bs)"
  have wf: "wire_wf sample_request"
    by (simp add: wire_wf_def header_list_def hm_wf_def)
      (simp add: sample_request_def http_request_new_def set_body_def)
  have sent: "sent_headers (p_host sample_parser) sample_request = [(''Host'', ''h''), (''Content-Length'', ''2'')]"
    by code_simp
  have l: "to_string (length (body sample_request)) = ''2''" "headers sample_request = []"
      "p_host sample_parser = ''h''" "url sample_request = ''/a''" "body sample_request = ''hi''"
    by code_simp+
  have room: "length (headers sample_request) + length (p_host sample_parser)
      + length (to_string (length (body sample_request))) + 26 < 2 ^ 32"
    using l by (simp only:) simp
  have ev: "map fst ?cbs = message_events ?us ?hs ?bs" by (simp add: comp_def)
  have cost: "sum_list (map frag_cost ?hs) < 2 ^ 32" by (simp add: frag_cost_def)
  have line: "request_line ''POST'' sample_request = ''POST /a HTTP/1.1'' @ CRLF"
      "p_sent sample_parser = []"
    by code_simp+
  have "map (\<lambda>h. (concat (fst h), concat (snd h))) ?hs = sent_headers (p_host sample_parser) sample_request"
    unfolding sent by simp
  from request_roundtrip [OF wf room ev _ _ this cost, of "\<lambda>_. ''POST''"] line l show ?thesis
    by (simp add: header_line_def)
qed

subsection \<open>Receiving from the stream\<close>

fun rx_bytes :: "rx list \<Rightarrow> string" where
  "rx_bytes [] = []"
| "rx_bytes (Rx b # rxs) = b @ rx_bytes rxs"
| "rx_bytes (Rx_error # rxs) = rx_bytes rxs"

definition rx_end :: "rx \<Rightarrow> bool" where
  "rx_end r \<longleftrightarrow> r = Rx_error \<or> r = Rx []"

text \<open>
  llhttp consumes what it is given, up to the position of the error if it reports one. \<open>seen\<close> is the
  text that it has consumed so far.
\<close>

definition consumes :: "'h llhttp_api \<Rightarrow> ('h \<Rightarrow> string) \<Rightarrow> bool" where
  "consumes api seen \<longleftrightarrow>
     (\<forall>hp buf. let (cbs, hp', err, pos) = execute api hp buf
        in (err \<noteq> HPE_OK \<longrightarrow> pos \<le> length buf)
         \<and> seen (hp_state hp') = seen (hp_state hp) @ (if err = HPE_OK then buf else take pos buf))
     \<and> (\<forall>hp. seen (hp_state (resume api hp)) = seen (hp_state hp))
     \<and> (\<forall>hp. seen (hp_state (resume_after_upgrade api hp)) = seen (hp_state hp))"

lemma receive_turn_seen:
  assumes "consumes api seen" "receive_turn api buf (p, md) = (stop, p', md')"
  shows "seen (hp_state (p_hp p')) @ p_receive_buffer p' = seen (hp_state (p_hp p)) @ buf"
    and "\<not> stop \<Longrightarrow> p_receive_buffer p' = [] \<and> md_state md' \<noteq> State_done"
proof -
  obtain cbs hp err pos where e: "execute api (p_hp p) buf = (cbs, hp, err, pos)"
    by (metis prod_cases4)
  have "(err \<noteq> HPE_OK \<longrightarrow> pos \<le> length buf) \<and>
      seen (hp_state hp) = seen (hp_state (p_hp p)) @ (if err = HPE_OK then buf else take pos buf)"
  proof -
    have "let (cbs, hp', err, pos) = execute api (p_hp p) buf
        in (err \<noteq> HPE_OK \<longrightarrow> pos \<le> length buf)
         \<and> seen (hp_state hp') = seen (hp_state (p_hp p)) @ (if err = HPE_OK then buf else take pos buf)"
      using assms(1) unfolding consumes_def by blast
    with e show ?thesis by simp
  qed
  moreover have "seen (hp_state (resume api hp)) = seen (hp_state hp)"
      "seen (hp_state (resume_after_upgrade api hp)) = seen (hp_state hp)"
    using assms(1) by (simp_all add: consumes_def)
  ultimately show "seen (hp_state (p_hp p')) @ p_receive_buffer p' = seen (hp_state (p_hp p)) @ buf"
    using assms(2) e by (auto simp: receive_turn_def Let_def split: if_splits)
  show "\<not> stop \<Longrightarrow> p_receive_buffer p' = [] \<and> md_state md' \<noteq> State_done"
    using assms(2) e by (auto simp: receive_turn_def Let_def split: if_splits)
qed

lemma receive_loop_stream:
  assumes "consumes api seen" "\<exists>r \<in> set rxs. rx_end r" "md_state md \<noteq> State_done"
  shows "\<exists>taken rest p' md'. receive_loop api rxs p md = Some (rest, p', md') \<and> rxs = taken @ rest
    \<and> seen (hp_state (p_hp p')) @ p_receive_buffer p' =
        seen (hp_state (p_hp p)) @ p_receive_buffer p @ rx_bytes taken
    \<and> (taken \<noteq> [] \<and> rx_end (last taken) \<longrightarrow> md_state md' \<noteq> State_done)"
proof -
  have empty: "\<exists>taken rest p' md'. receive_loop api rxs p md = Some (rest, p', md') \<and> rxs = taken @ rest
    \<and> seen (hp_state (p_hp p')) @ p_receive_buffer p' = seen (hp_state (p_hp p)) @ rx_bytes taken
    \<and> (taken \<noteq> [] \<and> rx_end (last taken) \<longrightarrow> md_state md' \<noteq> State_done)"
    if "p_receive_buffer p = []" "\<exists>r \<in> set rxs. rx_end r" "md_state md \<noteq> State_done" for rxs p md
    using that
  proof (induction rxs arbitrary: p md)
    case Nil
    then show ?case by simp
  next
    case (Cons r rxs)
    show ?case
    proof (cases "rx_end r")
      case True
      then have "receive_loop api (r # rxs) p md = Some (rxs, p, md)"
        using Cons(2) by (subst receive_loop.simps) (auto simp: rx_end_def)
      moreover have "rx_bytes [r] = []" using True by (cases r) (auto simp: rx_end_def)
      ultimately show ?thesis using Cons(2,4) True by - (rule exI [of _ "[r]"], simp)
    next
      case False
      then obtain b where b: "r = Rx b" "b \<noteq> []" by (cases r) (auto simp: rx_end_def)
      obtain stop p1 md1 where t: "receive_turn api b (p, md) = (stop, p1, md1)" by (metis prod_cases3)
      note seen = receive_turn_seen [OF assms(1) t]
      have step: "receive_loop api (r # rxs) p md =
          (if stop then Some (rxs, p1, md1) else receive_loop api rxs p1 md1)"
        using Cons(2) b t by (subst receive_loop.simps) simp
      show ?thesis
      proof (cases stop)
        case True
        with step seen(1) b False show ?thesis by - (rule exI [of _ "[r]"], simp)
      next
        case nostop: False
        have "\<exists>r \<in> set rxs. rx_end r" using Cons(3) False by auto
        with Cons(1) [of p1 md1] seen(2) nostop obtain taken rest p' md' where
          ih: "receive_loop api rxs p1 md1 = Some (rest, p', md')" "rxs = taken @ rest"
            "seen (hp_state (p_hp p')) @ p_receive_buffer p' = seen (hp_state (p_hp p1)) @ rx_bytes taken"
            "taken \<noteq> [] \<and> rx_end (last taken) \<longrightarrow> md_state md' \<noteq> State_done"
          by blast
        with step seen nostop b False show ?thesis by - (rule exI [of _ "r # taken"], auto)
      qed
    qed
  qed
  show ?thesis
  proof (cases "p_receive_buffer p = []")
    case True
    with empty [OF True assms(2,3)] show ?thesis by simp
  next
    case False
    obtain stop p1 md1 where t: "receive_turn api (p_receive_buffer p) (p, md) = (stop, p1, md1)"
      by (metis prod_cases3)
    note seen = receive_turn_seen [OF assms(1) t]
    have step: "receive_loop api rxs p md =
        (if stop then Some (rxs, p1, md1) else receive_loop api rxs p1 md1)"
      using False t by (subst receive_loop.simps) simp
    show ?thesis
    proof (cases stop)
      case True
      with step seen(1) show ?thesis by - (rule exI [of _ "[]"], simp)
    next
      case nostop: False
      with empty [OF _ assms(2), of p1 md1] seen step show ?thesis by auto
    qed
  qed
qed

text \<open>
  C23: if the connection ends some time, \<^verbatim>\<open>receive\<close> returns. What llhttp has consumed, followed by
  what the parser keeps for the next call, is what it had consumed and kept before followed by the
  bytes read in between: nothing is lost, repeated or reordered between pipelined messages. A
  message cut short by the end of the connection carries an error.
\<close>

theorem receive_stream:
  assumes "consumes api seen" "\<exists>r \<in> set rxs. rx_end r"
  shows "\<exists>taken rest hm p'. receive api rxs p = Some (hm, rest, p') \<and> rxs = taken @ rest
    \<and> seen (hp_state (p_hp p')) @ p_receive_buffer p' =
        seen (hp_state (p_hp p)) @ p_receive_buffer p @ rx_bytes taken
    \<and> (taken \<noteq> [] \<and> rx_end (last taken) \<longrightarrow> \<not> ok hm)"
proof -
  have "md_state message_data_new \<noteq> State_done" by (simp add: message_data_new_def)
  from receive_loop_stream [OF assms this, of p] obtain taken rest p' md' where
    loop: "receive_loop api rxs p message_data_new = Some (rest, p', md')" "rxs = taken @ rest"
      "seen (hp_state (p_hp p')) @ p_receive_buffer p' =
        seen (hp_state (p_hp p)) @ p_receive_buffer p @ rx_bytes taken"
      "taken \<noteq> [] \<and> rx_end (last taken) \<longrightarrow> md_state md' \<noteq> State_done"
    by blast
  show ?thesis
    using loop by - (rule exI [of _ taken], rule exI [of _ rest], auto simp: receive_def ok_def)
qed

text \<open>A scanner of messages of one byte each.\<close>

definition byte_api :: "string llhttp_api" where
  "byte_api = \<lparr>execute = (\<lambda>hp buf. if buf = [] then ([], hp, HPE_OK, 0)
       else ([(Message_begin, hp), (Body (take 1 buf), hp), (Message_complete, hp)],
             hp\<lparr>hp_state := hp_state hp @ take 1 buf\<rparr>, HPE_PAUSED, 1)),
     resume = (\<lambda>hp. hp), resume_after_upgrade = (\<lambda>hp. hp)\<rparr>"

definition byte_parser :: "string http_parser" where
  "byte_parser = http_parser_new (\<lambda>t. \<lparr>hp_type = t, hp_major = 1, hp_minor = 1, hp_status_code = 0,
     hp_method = HTTP_GET, hp_error = HPE_OK, hp_upgrade = False, hp_flags = [], hp_state = []\<rparr>) Server []"

lemma receive_stream_witness:
  "\<exists>taken rest hm p'. receive byte_api [Rx ''ab'', Rx []] byte_parser = Some (hm, rest, p')
    \<and> [Rx ''ab'', Rx []] = taken @ rest
    \<and> hp_state (p_hp p') @ p_receive_buffer p' = rx_bytes taken"
proof -
  have c: "consumes byte_api (\<lambda>s. s)"
    by (auto simp: consumes_def byte_api_def Let_def Suc_le_eq)
  have e: "\<exists>r \<in> set [Rx ''ab'', Rx []]. rx_end r" by (simp add: rx_end_def)
  have "hp_state (p_hp byte_parser) = []" "p_receive_buffer byte_parser = []"
    by (simp_all add: byte_parser_def http_parser_new_def)
  with receive_stream [OF c e, of byte_parser] show ?thesis by (metis append_Nil)
qed

text \<open>The length that starts a chunk is decimal: sixteen bytes are announced as \<open>16\<close>, not \<open>10\<close>.\<close>

lemma chunk_length_decimal:
  "p_sent (send_response_chunk (replicate 16 (CHR ''x'')) p) =
     p_sent p @ ''16'' @ CRLF @ replicate 16 (CHR ''x'') @ CRLF"
proof -
  have "to_string 16 = ''16''" by code_simp
  then show ?thesis by (simp add: send_response_chunk_def sendv_all_def)
qed

text \<open>Clearing a message keeps its header lines, which the next request would send again.\<close>

lemma clear_keeps_header_lines: "headers (do_clear m) = headers m \<and> header_list (do_clear m) = []"
  by (simp add: do_clear_def reset_info_def header_list_def)

text \<open>A copied message has header lines and no header that a lookup finds.\<close>

lemma copy_loses_headers:
  "headers (http_message_copy m) = headers m \<and> \<not> has_header nm (http_message_copy m)"
  by (simp add: http_message_copy_def header_lookup header_list_def matching_def)

end
