(* ===== verification/IoLoops.thy ===== *)
theory IoLoops
  imports Prelude
begin

text \<open>
  The asynchronous system calls (\<^verbatim>\<open>io.hh\<close>, \<^verbatim>\<open>io.cc\<close>): reads and writes that suspend until the
  descriptor is ready and go on, the gathering and scattering of buffers with partial transfers,
  and the set-up of sockets from address strings.

  The results of the system calls are a list that the loops consume; a loop returns \<open>None\<close> while it
  is suspended with the list used up. A write is given the number of bytes that the kernel has room
  for and accepts no more than it was handed; a read is given the bytes that have arrived.
\<close>

subsection \<open>System calls and memory\<close>

datatype errno = EAGAIN | EWOULDBLOCK | EINTR | EINPROGRESS | EADDRNOTAVAIL | Errno nat

definition retry :: "errno \<Rightarrow> bool" where
  "retry e \<longleftrightarrow> e = EAGAIN \<or> e = EWOULDBLOCK \<or> e = EINTR"

type_synonym ioresult = "errno + nat"
type_synonym room = "errno + nat"
type_synonym arrival = "errno + string"
type_synonym mem = "nat \<Rightarrow> char"

definition load_bytes :: "mem \<Rightarrow> nat \<Rightarrow> nat \<Rightarrow> string" where
  "load_bytes m a n = map m [a..<a + n]"

fun store_bytes :: "nat \<Rightarrow> string \<Rightarrow> mem \<Rightarrow> mem" where
  "store_bytes a [] m = m"
| "store_bytes a (c # s) m = store_bytes (a + 1) s (m(a := c))"

subsection \<open>Single transfers\<close>

fun read_once :: "arrival list \<Rightarrow> nat \<Rightarrow> nat \<Rightarrow> mem \<Rightarrow> (ioresult \<times> mem \<times> arrival list) option" where
  "read_once [] p cnt m = None"
| "read_once (Inr bs # ss) p cnt m =
     Some (Inr (length (take cnt bs)), store_bytes p (take cnt bs) m, ss)"
| "read_once (Inl e # ss) p cnt m =
     (if retry e then read_once ss p cnt m else Some (Inl e, m, ss))"

fun write_once :: "room list \<Rightarrow> string \<Rightarrow> string \<Rightarrow> (ioresult \<times> string \<times> room list) option" where
  "write_once [] buf wire = None"
| "write_once (Inr k # ss) buf wire = Some (Inr (min k (length buf)), wire @ take k buf, ss)"
| "write_once (Inl e # ss) buf wire =
     (if retry e then write_once ss buf wire else Some (Inl e, wire, ss))"

subsection \<open>Whole buffers\<close>

text \<open>The loops test their condition at the end, also after a suspension.\<close>

fun read_loop ::
  "arrival list \<Rightarrow> nat \<Rightarrow> nat \<Rightarrow> nat \<Rightarrow> mem \<Rightarrow> (ioresult \<times> mem \<times> arrival list) option" where
  "read_loop [] p cnt nr m = None"
| "read_loop (Inr bs # ss) p cnt nr m =
     (let bs = take (cnt - nr) bs
      in if bs \<noteq> []
         then let nr' = nr + length bs; m' = store_bytes (p + nr) bs m
              in if nr' \<noteq> cnt then read_loop ss p cnt nr' m' else Some (Inr nr', m', ss)
         else Some (Inr nr, m, ss))"
| "read_loop (Inl e # ss) p cnt nr m =
     (if retry e then (if nr \<noteq> cnt then read_loop ss p cnt nr m else Some (Inr nr, m, ss))
      else if nr > 0 then Some (Inr nr, m, ss)
      else Some (Inl e, m, ss))"

definition read_all :: "arrival list \<Rightarrow> nat \<Rightarrow> nat \<Rightarrow> mem \<Rightarrow> (ioresult \<times> mem \<times> arrival list) option" where
  "read_all ss p cnt m = read_loop ss p cnt 0 m"

fun write_loop ::
  "room list \<Rightarrow> mem \<Rightarrow> nat \<Rightarrow> nat \<Rightarrow> nat \<Rightarrow> string \<Rightarrow> (ioresult \<times> string \<times> room list) option" where
  "write_loop [] m p cnt nw wire = None"
| "write_loop (Inr k # ss) m p cnt nw wire =
     (let r = min k (cnt - nw)
      in if r > 0
         then let nw' = nw + r; wire' = wire @ load_bytes m (p + nw) r
              in if nw' \<noteq> cnt then write_loop ss m p cnt nw' wire' else Some (Inr nw', wire', ss)
         else Some (Inr nw, wire, ss))"
| "write_loop (Inl e # ss) m p cnt nw wire =
     (if retry e then (if nw \<noteq> cnt then write_loop ss m p cnt nw wire else Some (Inr nw, wire, ss))
      else if nw > 0 then Some (Inr nw, wire, ss)
      else Some (Inl e, wire, ss))"

definition write_all :: "room list \<Rightarrow> mem \<Rightarrow> nat \<Rightarrow> nat \<Rightarrow> string \<Rightarrow> (ioresult \<times> string \<times> room list) option" where
  "write_all ss m p cnt wire = write_loop ss m p cnt 0 wire"

subsection \<open>Vectors of buffers\<close>

record iovec =
  iov_base :: nat
  iov_len :: nat

text \<open>
  The caller's array and the copy that the loop may make are two objects; the pointer \<^verbatim>\<open>iov\<close> points
  into one of them.
\<close>

datatype iov_ref = In_caller nat | In_copy nat

record iov_state =
  iov_caller :: "iovec list"
  iov_copy :: "iovec list"
  iov_ptr :: iov_ref
  iov_cnt :: nat

fun ref_index :: "iov_ref \<Rightarrow> nat" where
  "ref_index (In_caller i) = i"
| "ref_index (In_copy i) = i"

fun ref_next :: "iov_ref \<Rightarrow> iov_ref" where
  "ref_next (In_caller i) = In_caller (i + 1)"
| "ref_next (In_copy i) = In_copy (i + 1)"

definition iov_array :: "iov_state \<Rightarrow> iovec list" where
  "iov_array st = (case iov_ptr st of In_caller _ \<Rightarrow> iov_caller st | In_copy _ \<Rightarrow> iov_copy st)"

text \<open>The vectors from the pointer on that are still to be transferred.\<close>

definition iov_view :: "iov_state \<Rightarrow> iovec list" where
  "iov_view st = take (iov_cnt st) (drop (ref_index (iov_ptr st)) (iov_array st))"

definition iov_deref :: "iov_state \<Rightarrow> iovec" where
  "iov_deref st = iov_array st ! ref_index (iov_ptr st)"

text \<open>Assignment through the pointer.\<close>

definition iov_write :: "iovec \<Rightarrow> iov_state \<Rightarrow> iov_state" where
  "iov_write v st = (case iov_ptr st of
       In_caller i \<Rightarrow> st\<lparr>iov_caller := (iov_caller st)[i := v]\<rparr>
     | In_copy i \<Rightarrow> st\<lparr>iov_copy := (iov_copy st)[i := v]\<rparr>)"

text \<open>\<^verbatim>\<open>while (iovcnt > 0 && r >= iov->iov_len) { r -= iov->iov_len; ++iov; --iovcnt; }\<close>\<close>

function iov_skip :: "nat \<Rightarrow> iov_state \<Rightarrow> nat \<times> iov_state" where
  "iov_skip r st =
     (if iov_cnt st > 0 \<and> r \<ge> iov_len (iov_deref st)
      then iov_skip (r - iov_len (iov_deref st))
             (st\<lparr>iov_ptr := ref_next (iov_ptr st), iov_cnt := iov_cnt st - 1\<rparr>)
      else (r, st))"
  by pat_completeness auto
termination by (relation "measure (\<lambda>(_, st). iov_cnt st)") auto

declare iov_skip.simps [simp del]

definition update_iovec :: "nat \<Rightarrow> iov_state \<Rightarrow> iov_state" where
  "update_iovec r st =
     (let (r, st) = iov_skip r st
      in if r \<noteq> 0
         then let st = (if iov_copy st = []
                        then st\<lparr>iov_copy := iov_view st, iov_ptr := In_copy 0\<rparr> else st);
                  v = iov_deref st
              in iov_write (v\<lparr>iov_base := iov_base v + r, iov_len := iov_len v - r\<rparr>) st
         else st)"

definition msghdr_done :: "iov_state \<Rightarrow> nat \<Rightarrow> bool" where
  "msghdr_done st r \<longleftrightarrow> iov_cnt (snd (iov_skip r st)) = 0"

definition iov_start :: "iovec list \<Rightarrow> nat \<Rightarrow> iov_state" where
  "iov_start vs n = \<lparr>iov_caller = vs, iov_copy = [], iov_ptr = In_caller 0, iov_cnt = n\<rparr>"

text \<open>The bytes that a vector gathers, and the memory after bytes are scattered over it.\<close>

definition gather :: "mem \<Rightarrow> iovec list \<Rightarrow> string" where
  "gather m vs = concat (map (\<lambda>v. load_bytes m (iov_base v) (iov_len v)) vs)"

fun scatter :: "iovec list \<Rightarrow> string \<Rightarrow> mem \<Rightarrow> mem" where
  "scatter [] bs m = m"
| "scatter (v # vs) bs m = scatter vs (drop (iov_len v) bs) (store_bytes (iov_base v) (take (iov_len v) bs) m)"

definition iov_total :: "iovec list \<Rightarrow> nat" where
  "iov_total vs = sum_list (map iov_len vs)"

fun writev_loop ::
  "room list \<Rightarrow> mem \<Rightarrow> iov_state \<Rightarrow> nat \<Rightarrow> string \<Rightarrow> (ioresult \<times> string \<times> iov_state \<times> room list) option" where
  "writev_loop [] m st nw wire = None"
| "writev_loop (Inr k # ss) m st nw wire =
     (let r = min k (iov_total (iov_view st))
      in if r > 0
         then let wire' = wire @ take r (gather m (iov_view st)); st' = update_iovec r st
              in if iov_cnt st' \<noteq> 0 then writev_loop ss m st' (nw + r) wire'
                 else Some (Inr (nw + r), wire', st', ss)
         else Some (Inr nw, wire, st, ss))"
| "writev_loop (Inl e # ss) m st nw wire =
     (if retry e then (if iov_cnt st \<noteq> 0 then writev_loop ss m st nw wire else Some (Inr nw, wire, st, ss))
      else if nw > 0 then Some (Inr nw, wire, st, ss)
      else Some (Inl e, wire, st, ss))"

definition writev :: "room list \<Rightarrow> mem \<Rightarrow> iovec list \<Rightarrow> nat \<Rightarrow> string \<Rightarrow>
    (ioresult \<times> string \<times> iov_state \<times> room list) option" where
  "writev ss m vs n wire = writev_loop ss m (iov_start vs n) 0 wire"

text \<open>
  \<^verbatim>\<open>sendmsg\<close> and \<^verbatim>\<open>recvmsg\<close>. The flag is \<^verbatim>\<open>MSG_WAITALL\<close>; the first transfer uses the caller's header
  and the later ones a local header without an address, over the same vectors.
\<close>

fun sendmsg_loop ::
  "bool \<Rightarrow> room list \<Rightarrow> mem \<Rightarrow> iov_state \<Rightarrow> nat \<Rightarrow> string \<Rightarrow>
     (ioresult \<times> string \<times> iov_state \<times> room list) option" where
  "sendmsg_loop waitall [] m st nw wire = None"
| "sendmsg_loop waitall (Inr k # ss) m st nw wire =
     (let r = min k (iov_total (iov_view st));
          nw' = nw + r; wire' = wire @ take r (gather m (iov_view st))
      in if r = 0 \<or> \<not> waitall \<or> msghdr_done st r then Some (Inr nw', wire', st, ss)
         else let st' = update_iovec r st
              in if iov_cnt st' > 0 then sendmsg_loop waitall ss m st' nw' wire'
                 else Some (Inr nw', wire', st', ss))"
| "sendmsg_loop waitall (Inl e # ss) m st nw wire =
     (if retry e then (if iov_cnt st > 0 then sendmsg_loop waitall ss m st nw wire
                       else Some (Inr nw, wire, st, ss))
      else if nw > 0 then Some (Inr nw, wire, st, ss)
      else Some (Inl e, wire, st, ss))"

definition sendmsg :: "bool \<Rightarrow> room list \<Rightarrow> mem \<Rightarrow> iovec list \<Rightarrow> nat \<Rightarrow> string \<Rightarrow>
    (ioresult \<times> string \<times> iov_state \<times> room list) option" where
  "sendmsg waitall ss m vs n wire = sendmsg_loop waitall ss m (iov_start vs n) 0 wire"

fun recvmsg_loop ::
  "bool \<Rightarrow> arrival list \<Rightarrow> iov_state \<Rightarrow> nat \<Rightarrow> mem \<Rightarrow>
     (ioresult \<times> mem \<times> iov_state \<times> arrival list) option" where
  "recvmsg_loop waitall [] st nr m = None"
| "recvmsg_loop waitall (Inr bs # ss) st nr m =
     (let bs = take (iov_total (iov_view st)) bs; r = length bs;
          nr' = nr + r; m' = scatter (iov_view st) bs m
      in if r = 0 \<or> \<not> waitall \<or> msghdr_done st r then Some (Inr nr', m', st, ss)
         else let st' = update_iovec r st
              in if iov_cnt st' > 0 then recvmsg_loop waitall ss st' nr' m'
                 else Some (Inr nr', m', st', ss))"
| "recvmsg_loop waitall (Inl e # ss) st nr m =
     (if retry e then (if iov_cnt st > 0 then recvmsg_loop waitall ss st nr m
                       else Some (Inr nr, m, st, ss))
      else if nr > 0 then Some (Inr nr, m, st, ss)
      else Some (Inl e, m, st, ss))"

definition recvmsg :: "bool \<Rightarrow> arrival list \<Rightarrow> iovec list \<Rightarrow> nat \<Rightarrow> mem \<Rightarrow>
    (ioresult \<times> mem \<times> iov_state \<times> arrival list) option" where
  "recvmsg waitall ss vs n m = recvmsg_loop waitall ss (iov_start vs n) 0 m"

definition recv :: "bool \<Rightarrow> arrival list \<Rightarrow> nat \<Rightarrow> nat \<Rightarrow> mem \<Rightarrow>
    (ioresult \<times> mem \<times> iov_state \<times> arrival list) option" where
  "recv waitall ss buf cnt m = recvmsg waitall ss [\<lparr>iov_base = buf, iov_len = cnt\<rparr>] 1 m"

definition send_buf :: "bool \<Rightarrow> room list \<Rightarrow> mem \<Rightarrow> nat \<Rightarrow> nat \<Rightarrow> string \<Rightarrow>
    (ioresult \<times> string \<times> iov_state \<times> room list) option" where
  "send_buf waitall ss m buf cnt wire = sendmsg waitall ss m [\<lparr>iov_base = buf, iov_len = cnt\<rparr>] 1 wire"

definition sendv :: "bool \<Rightarrow> room list \<Rightarrow> mem \<Rightarrow> iovec list \<Rightarrow> nat \<Rightarrow> string \<Rightarrow>
    (ioresult \<times> string \<times> iov_state \<times> room list) option" where
  "sendv waitall ss m vs n wire = sendmsg waitall ss m vs n wire"

definition send_all :: "room list \<Rightarrow> mem \<Rightarrow> nat \<Rightarrow> nat \<Rightarrow> string \<Rightarrow>
    (ioresult \<times> string \<times> iov_state \<times> room list) option" where
  "send_all ss m buf cnt wire = send_buf True ss m buf cnt wire"

definition io_sendv_all :: "room list \<Rightarrow> mem \<Rightarrow> iovec list \<Rightarrow> nat \<Rightarrow> string \<Rightarrow>
    (ioresult \<times> string \<times> iov_state \<times> room list) option" where
  "io_sendv_all ss m vs n wire = sendv True ss m vs n wire"

text \<open>
  \<^verbatim>\<open>recvfrom\<close> and \<^verbatim>\<open>sendto\<close>: the address goes with the caller's header, so with the first transfer. An
  arrival carries the sender's address; the address is cut to the capacity, its length is not.
\<close>

fun first_sender :: "(errno + string \<times> string) list \<Rightarrow> string option" where
  "first_sender [] = None"
| "first_sender (Inr (bs, addr) # ss) = Some addr"
| "first_sender (Inl e # ss) = (if retry e then first_sender ss else None)"

definition recvfrom :: "bool \<Rightarrow> (errno + string \<times> string) list \<Rightarrow> nat \<Rightarrow> nat \<Rightarrow> nat \<Rightarrow> mem \<Rightarrow>
    (ioresult \<times> mem \<times> string \<times> nat) option" where
  "recvfrom waitall ss buf cnt capacity m =
     (case recvmsg waitall (map (map_sum id fst) ss) [\<lparr>iov_base = buf, iov_len = cnt\<rparr>] 1 m of
        None \<Rightarrow> None
      | Some (r, m, st, rest) \<Rightarrow>
          Some (r, m, (case first_sender ss of Some addr \<Rightarrow> (take capacity addr, length addr) | None \<Rightarrow> ([], capacity))))"

fun first_accepted :: "room list \<Rightarrow> bool" where
  "first_accepted [] = False"
| "first_accepted (Inr k # ss) = True"
| "first_accepted (Inl e # ss) = (retry e \<and> first_accepted ss)"

definition sendto :: "bool \<Rightarrow> room list \<Rightarrow> mem \<Rightarrow> nat \<Rightarrow> nat \<Rightarrow> string \<Rightarrow> string \<Rightarrow>
    (ioresult \<times> string \<times> string option) option" where
  "sendto waitall ss m buf cnt addr wire =
     (case send_buf waitall ss m buf cnt wire of
        None \<Rightarrow> None
      | Some (r, wire, st, rest) \<Rightarrow> Some (r, wire, if first_accepted ss then Some addr else None))"

end
