(* ===== verification/IoInv.thy ===== *)
theory IoInv
  imports IoLoops
begin

text \<open>
  Partial transfers over vectors of buffers: every byte goes over the wire once and in order, and
  the caller's array of vectors is not touched.
\<close>

subsection \<open>Gathering\<close>

lemma load_bytes_0 [simp]: "load_bytes m a 0 = []"
  by (simp add: load_bytes_def)

lemma length_load_bytes [simp]: "length (load_bytes m a n) = n"
  by (simp add: load_bytes_def)

lemma drop_load_bytes: "drop k (load_bytes m a n) = load_bytes m (a + k) (n - k)"
  by (cases "k \<le> n") (simp_all add: load_bytes_def drop_map)

lemma length_gather [simp]: "length (gather m vs) = iov_total vs"
  by (induction vs) (simp_all add: gather_def iov_total_def)

lemma gather_simps [simp]:
  "gather m [] = []" "gather m (v # vs) = load_bytes m (iov_base v) (iov_len v) @ gather m vs"
  by (simp_all add: gather_def)

lemma iov_total_simps [simp]: "iov_total [] = 0" "iov_total (v # vs) = iov_len v + iov_total vs"
  by (simp_all add: iov_total_def)

lemma take_load_bytes: "k \<le> n \<Longrightarrow> take k (load_bytes m a n) = load_bytes m a k"
  by (simp add: load_bytes_def take_map)

text \<open>What is left of a vector after \<open>r\<close> bytes: empty vectors at the front go too.\<close>

fun advance :: "nat \<Rightarrow> iovec list \<Rightarrow> iovec list" where
  "advance r [] = []"
| "advance r (v # vs) =
     (if r \<ge> iov_len v then advance (r - iov_len v) vs
      else if r = 0 then v # vs
      else v\<lparr>iov_base := iov_base v + r, iov_len := iov_len v - r\<rparr> # vs)"

lemma gather_advance: "gather m (advance r vs) = drop r (gather m vs)"
  by (induction r vs rule: advance.induct) (auto simp: drop_load_bytes)

lemma advance_Nil: "advance r vs = [] \<longleftrightarrow> iov_total vs \<le> r"
  by (induction r vs rule: advance.induct) auto

lemma iov_total_advance: "iov_total (advance r vs) = iov_total vs - r"
  using arg_cong [OF gather_advance [of undefined r vs], of length] by simp

subsection \<open>The pointer into the vectors\<close>

text \<open>Once a copy exists, the pointer is in it, so an assignment through it spares the caller's array.\<close>

definition iov_ok :: "iov_state \<Rightarrow> bool" where
  "iov_ok st \<longleftrightarrow> ref_index (iov_ptr st) + iov_cnt st \<le> length (iov_array st)
     \<and> (iov_copy st \<noteq> [] \<longrightarrow> (\<exists>i. iov_ptr st = In_copy i))
     \<and> (iov_copy st = [] \<longrightarrow> (\<exists>i. iov_ptr st = In_caller i))"

lemma length_iov_view: "iov_ok st \<Longrightarrow> length (iov_view st) = iov_cnt st"
  by (auto simp: iov_ok_def iov_view_def)

lemma ref_index_next [simp]: "ref_index (ref_next p) = Suc (ref_index p)"
  by (cases p) auto

lemma iov_view_Cons:
  assumes "iov_ok st" "iov_cnt st > 0"
  shows "iov_view st = iov_deref st #
    iov_view (st\<lparr>iov_ptr := ref_next (iov_ptr st), iov_cnt := iov_cnt st - 1\<rparr>)"
proof -
  let ?i = "ref_index (iov_ptr st)"
  have "?i < length (iov_array st)" using assms by (simp add: iov_ok_def)
  then have "drop ?i (iov_array st) = iov_array st ! ?i # drop (Suc ?i) (iov_array st)"
    by (simp add: Cons_nth_drop_Suc)
  moreover have "iov_array (st\<lparr>iov_ptr := ref_next (iov_ptr st), iov_cnt := iov_cnt st - 1\<rparr>) = iov_array st"
    by (cases "iov_ptr st") (simp_all add: iov_array_def)
  ultimately show ?thesis
    using assms(2) by (cases "iov_cnt st") (simp_all add: iov_view_def iov_deref_def)
qed

lemma iov_ok_next:
  assumes "iov_ok st" "iov_cnt st > 0"
  shows "iov_ok (st\<lparr>iov_ptr := ref_next (iov_ptr st), iov_cnt := iov_cnt st - 1\<rparr>)"
  using assms by (cases "iov_ptr st") (auto simp: iov_ok_def iov_array_def)

lemma iov_skip_spec:
  assumes "iov_ok st" "iov_skip r st = (r', st')"
  shows "iov_ok st' \<and> iov_caller st' = iov_caller st
    \<and> (iov_cnt st' > 0 \<longrightarrow> r' < iov_len (iov_deref st'))
    \<and> advance r (iov_view st) = advance r' (iov_view st')
    \<and> (r \<le> iov_total (iov_view st) \<longrightarrow> r' \<le> iov_total (iov_view st'))"
  using assms
proof (induction r st rule: iov_skip.induct)
  case (1 r st)
  show ?case
  proof (cases "iov_cnt st > 0 \<and> r \<ge> iov_len (iov_deref st)")
    case True
    with 1 iov_ok_next [OF 1(2)] iov_view_Cons [OF 1(2)] show ?thesis
      by (simp add: iov_skip.simps [of r st])
  next
    case False
    with 1 show ?thesis by (auto simp: iov_skip.simps [of r st])
  qed
qed

lemma update_iovec_spec:
  assumes "iov_ok st" "r \<le> iov_total (iov_view st)"
  shows "iov_ok (update_iovec r st)" "iov_caller (update_iovec r st) = iov_caller st"
    "iov_view (update_iovec r st) = advance r (iov_view st)"
proof -
  obtain r' st' where skip: "iov_skip r st = (r', st')" by (metis surj_pair)
  note s = iov_skip_spec [OF assms(1) skip]
  have "iov_ok (update_iovec r st) \<and> iov_caller (update_iovec r st) = iov_caller st
      \<and> iov_view (update_iovec r st) = advance r (iov_view st)"
  proof (cases "r' = 0")
    case True
    have "advance 0 (iov_view st') = iov_view st'"
      using s iov_view_Cons [of st'] length_iov_view [of st'] True by (cases "iov_cnt st' > 0") auto
    with True s skip show ?thesis by (simp add: update_iovec_def)
  next
    case False
    have cnt: "iov_cnt st' > 0"
    proof (rule ccontr)
      assume "\<not> iov_cnt st' > 0"
      then have "iov_view st' = []" using length_iov_view [of st'] s by simp
      with s assms(2) False show False by simp
    qed
    define st1 where "st1 = (if iov_copy st' = []
      then st'\<lparr>iov_copy := iov_view st', iov_ptr := In_copy 0\<rparr> else st')"
    have view: "iov_view st' = iov_deref st' # tl (iov_view st')"
      using iov_view_Cons [of st'] s cnt by simp
    have len: "length (iov_view st') = iov_cnt st'" using length_iov_view s by blast
    obtain i where i: "iov_ptr st1 = In_copy i" "i + iov_cnt st' \<le> length (iov_copy st1)"
      using s len cnt by (auto simp: st1_def iov_ok_def iov_array_def)
    have st1: "iov_view st1 = iov_view st'" "iov_caller st1 = iov_caller st'" "iov_cnt st1 = iov_cnt st'"
      using len by (auto simp: st1_def iov_view_def iov_array_def)
    have drp: "drop i (iov_copy st1) = iov_copy st1 ! i # drop (Suc i) (iov_copy st1)"
      using i cnt by (simp add: Cons_nth_drop_Suc)
    have "iov_ok st1" using i cnt st1(3) by (auto simp: iov_ok_def iov_array_def)
    from iov_view_Cons [OF this] have deref: "iov_deref st1 = iov_deref st'"
      using view st1(1,3) cnt by (metis list.inject)
    define v where "v = (iov_deref st')\<lparr>iov_base := iov_base (iov_deref st') + r', iov_len := iov_len (iov_deref st') - r'\<rparr>"
    have u: "update_iovec r st = st1\<lparr>iov_copy := (iov_copy st1)[i := v]\<rparr>"
      using False skip deref i(1)
      by (simp add: update_iovec_def iov_write_def v_def Let_def st1_def [symmetric])
    have "iov_view (update_iovec r st) = v # tl (iov_view st')"
      unfolding st1(1) [symmetric]
      using i drp cnt st1(3) by (cases "iov_cnt st'")
        (auto simp: u iov_view_def iov_array_def drop_update_swap)
    moreover have "advance r' (iov_view st') = v # tl (iov_view st')"
      using s cnt False by (subst (1) view) (simp add: v_def)
    moreover have "iov_ok (update_iovec r st)"
      using i cnt st1(3) by (auto simp: u iov_ok_def iov_array_def)
    ultimately show ?thesis using s st1(2) by (simp add: u)
  qed
  then show "iov_ok (update_iovec r st)" "iov_caller (update_iovec r st) = iov_caller st"
    "iov_view (update_iovec r st) = advance r (iov_view st)" by auto
qed

lemma update_iovec_cnt:
  assumes "iov_ok st" "r \<le> iov_total (iov_view st)"
  shows "iov_cnt (update_iovec r st) = 0 \<longleftrightarrow> iov_total (iov_view st) \<le> r"
proof -
  note u = update_iovec_spec [OF assms]
  have "iov_cnt (update_iovec r st) = 0 \<longleftrightarrow> iov_view (update_iovec r st) = []"
    using length_iov_view [OF u(1)] by (metis length_0_conv)
  then show ?thesis using u(3) advance_Nil by simp
qed

lemma msghdr_done_iff:
  assumes "iov_ok st" "r \<le> iov_total (iov_view st)"
  shows "msghdr_done st r \<longleftrightarrow> iov_total (iov_view st) \<le> r"
proof -
  obtain r' st' where skip: "iov_skip r st = (r', st')" by (metis surj_pair)
  note s = iov_skip_spec [OF assms(1) skip]
  have "iov_cnt st' = 0 \<longleftrightarrow> iov_view st' = []"
    using length_iov_view [of st'] s by (metis length_0_conv)
  moreover have "iov_view st' = [] \<longleftrightarrow> advance r' (iov_view st') = []"
    using s iov_view_Cons [of st'] calculation by (cases "iov_cnt st' = 0") auto
  ultimately show ?thesis
    using s advance_Nil [of r "iov_view st"] advance_Nil [of r' "iov_view st'"]
    by (simp only: msghdr_done_def skip snd_conv)
qed

lemma iov_start_ok: "n \<le> length vs \<Longrightarrow> iov_ok (iov_start vs n) \<and> iov_view (iov_start vs n) = take n vs"
  by (simp add: iov_ok_def iov_start_def iov_array_def iov_view_def)

subsection \<open>Sending\<close>

text \<open>
  What any of the senders has done when it returns: it put a prefix of the gathered bytes on the
  wire, as many as it reports, and left the caller's vectors alone. An error is reported only if
  nothing was sent.
\<close>

definition sent_prefix :: "mem \<Rightarrow> iov_state \<Rightarrow> nat \<Rightarrow> string \<Rightarrow> ioresult \<times> string \<times> iov_state \<times> room list \<Rightarrow> bool" where
  "sent_prefix m st nw wire res =
     (case res of (r, wire', st', _) \<Rightarrow>
        (\<exists>n \<le> iov_total (iov_view st). wire' = wire @ take n (gather m (iov_view st))
           \<and> iov_caller st' = iov_caller st
           \<and> (case r of Inr tot \<Rightarrow> tot = nw + n | Inl _ \<Rightarrow> nw + n = 0)))"

lemma sent_prefix_step:
  assumes "iov_ok st" "r \<le> iov_total (iov_view st)"
    and "sent_prefix m (update_iovec r st) (nw + r) (wire @ take r (gather m (iov_view st))) res"
  shows "sent_prefix m st nw wire res"
proof -
  note u = update_iovec_spec [OF assms(1,2)]
  obtain r' wire' st' ss' where res: "res = (r', wire', st', ss')" by (metis prod_cases4)
  from assms(3) obtain n where n: "n \<le> iov_total (iov_view st) - r"
    "wire' = wire @ take r (gather m (iov_view st)) @ take n (drop r (gather m (iov_view st)))"
    "iov_caller st' = iov_caller st"
    "case r' of Inr tot \<Rightarrow> tot = nw + r + n | Inl _ \<Rightarrow> nw + r + n = 0"
    by (auto simp: sent_prefix_def res u iov_total_advance gather_advance)
  then show ?thesis
    using assms(2) by (auto simp: sent_prefix_def res take_add [symmetric] add.assoc split: sum.splits
        intro!: exI [of _ "r + n"])
qed

lemma sent_prefix_now: "iov_caller st' = iov_caller st \<Longrightarrow> r \<le> iov_total (iov_view st) \<Longrightarrow>
    sent_prefix m st nw wire (Inr (nw + r), wire @ take r (gather m (iov_view st)), st', ss)"
  by (auto simp: sent_prefix_def)

lemma sent_prefix_stop: "sent_prefix m st nw wire (Inr nw, wire, st, ss)"
  using sent_prefix_now [of st st 0 m nw wire ss] by simp

lemma sent_prefix_error: "sent_prefix m st 0 wire (Inl e, wire, st, ss)"
  by (auto simp: sent_prefix_def intro: exI [of _ 0])

lemma sendmsg_loop_prefix:
  assumes "iov_ok st" "sendmsg_loop waitall ss m st nw wire = Some res"
  shows "sent_prefix m st nw wire res"
  using assms
proof (induction waitall ss m st nw wire rule: sendmsg_loop.induct)
  case (1 waitall m st nw wire)
  then show ?case by simp
next
  case (2 waitall k ss m st nw wire)
  let ?r = "min k (iov_total (iov_view st))"
  have r: "?r \<le> iov_total (iov_view st)" by simp
  note u = update_iovec_spec [OF 2(2) r]
  show ?case
  proof (cases "?r = 0 \<or> \<not> waitall \<or> msghdr_done st ?r")
    case True
    have "sendmsg_loop waitall (Inr k # ss) m st nw wire = Some (Inr (nw + ?r),
        wire @ take ?r (gather m (iov_view st)), st, ss)"
      by (simp only: sendmsg_loop.simps Let_def True if_True)
    with 2(3) sent_prefix_now [OF refl r] show ?thesis by auto
  next
    case False
    show ?thesis
    proof (rule sent_prefix_step [OF 2(2) r])
      show "sent_prefix m (update_iovec ?r st) (nw + ?r) (wire @ take ?r (gather m (iov_view st))) res"
      proof (cases "iov_cnt (update_iovec ?r st) > 0")
        case True
        have "sendmsg_loop waitall (Inr k # ss) m st nw wire = sendmsg_loop waitall ss m
            (update_iovec ?r st) (nw + ?r) (wire @ take ?r (gather m (iov_view st)))"
          by (simp only: sendmsg_loop.simps Let_def False True if_False if_True)
        with 2(1) [OF refl refl refl False refl True u(1)] 2(3) show ?thesis by simp
      next
        case nocnt: False
        have "sendmsg_loop waitall (Inr k # ss) m st nw wire = Some (Inr (nw + ?r),
            wire @ take ?r (gather m (iov_view st)), update_iovec ?r st, ss)"
          by (simp only: sendmsg_loop.simps Let_def False nocnt if_False)
        with 2(3) sent_prefix_stop show ?thesis by auto
      qed
    qed
  qed
next
  case (3 waitall e ss m st nw wire)
  then show ?case
    by (auto split: if_splits intro: sent_prefix_stop sent_prefix_error)
qed

lemma writev_loop_prefix:
  assumes "iov_ok st" "writev_loop ss m st nw wire = Some res"
  shows "sent_prefix m st nw wire res"
  using assms
proof (induction ss m st nw wire rule: writev_loop.induct)
  case (1 m st nw wire)
  then show ?case by simp
next
  case (2 k ss m st nw wire)
  let ?r = "min k (iov_total (iov_view st))"
  have r: "?r \<le> iov_total (iov_view st)" by simp
  note u = update_iovec_spec [OF 2(2) r]
  show ?case
  proof (cases "?r > 0")
    case False
    with 2(3) sent_prefix_stop show ?thesis by (auto simp: Let_def)
  next
    case True
    show ?thesis
    proof (rule sent_prefix_step [OF 2(2) r])
      show "sent_prefix m (update_iovec ?r st) (nw + ?r) (wire @ take ?r (gather m (iov_view st))) res"
      proof (cases "iov_cnt (update_iovec ?r st) \<noteq> 0")
        case cnt: True
        have "writev_loop (Inr k # ss) m st nw wire = writev_loop ss m
            (update_iovec ?r st) (nw + ?r) (wire @ take ?r (gather m (iov_view st)))"
          using cnt by (simp only: writev_loop.simps Let_def True if_True) simp
        with 2(1) [OF refl True refl refl cnt u(1)] 2(3) show ?thesis by simp
      next
        case False
        then have "writev_loop (Inr k # ss) m st nw wire = Some (Inr (nw + ?r),
            wire @ take ?r (gather m (iov_view st)), update_iovec ?r st, ss)"
          by (simp only: writev_loop.simps Let_def True if_True if_False simp_thms)
        with 2(3) sent_prefix_stop show ?thesis by auto
      qed
    qed
  qed
next
  case (3 e ss m st nw wire)
  then show ?case
    by (auto split: if_splits intro: sent_prefix_stop sent_prefix_error)
qed

text \<open>With the kernel always making room in the end, everything is sent.\<close>

lemma sendmsg_loop_all:
  assumes "iov_ok st" "\<forall>s \<in> set ss. case s of Inr k \<Rightarrow> k > 0 | Inl e \<Rightarrow> retry e"
    and "length (filter (\<lambda>s. \<exists>k. s = Inr k) ss) \<ge> iov_total (iov_view st)" "iov_total (iov_view st) > 0"
  shows "\<exists>wire' st' ss'. sendmsg_loop True ss m st nw wire = Some (Inr (nw + iov_total (iov_view st)), wire', st', ss')"
  using assms
proof (induction ss arbitrary: st nw wire)
  case Nil
  then show ?case by simp
next
  case (Cons s ss)
  show ?case
  proof (cases s)
    case (Inl e)
    have "iov_cnt st > 0" using Cons(5) length_iov_view [OF Cons(2)] by (cases "iov_view st") auto
    with Cons Inl show ?thesis by simp
  next
    case (Inr k)
    let ?r = "min k (iov_total (iov_view st))"
    have r: "?r \<le> iov_total (iov_view st)" "?r > 0" using Cons(3,5) Inr by auto
    note u = update_iovec_spec [OF Cons(2) r(1)] update_iovec_cnt [OF Cons(2) r(1)]
      msghdr_done_iff [OF Cons(2) r(1)]
    have tot: "iov_total (iov_view (update_iovec ?r st)) = iov_total (iov_view st) - ?r"
      by (simp add: u iov_total_advance)
    show ?thesis
    proof (cases "iov_total (iov_view st) \<le> ?r")
      case True
      with Inr r u show ?thesis by (simp add: Let_def)
    next
      case False
      have "\<exists>wire' st' ss'. sendmsg_loop True ss m (update_iovec ?r st) (nw + ?r)
          (wire @ take ?r (gather m (iov_view st))) =
          Some (Inr (nw + ?r + iov_total (iov_view (update_iovec ?r st))), wire', st', ss')"
        using Cons(3,4) Inr tot r False u(1) by (intro Cons(1)) auto
      with False Inr r u tot show ?thesis by (simp add: Let_def)
    qed
  qed
qed

subsection \<open>Datagrams\<close>

text \<open>A datagram, after any number of interruptions, with the address it came from.\<close>

lemma recvmsg_datagram:
  assumes "\<forall>s \<in> set es. \<exists>e. s = Inl e \<and> retry e"
  shows "recvmsg_loop False (es @ Inr bs # ss) (iov_start [\<lparr>iov_base = buf, iov_len = cnt\<rparr>] 1) 0 m
     = Some (Inr (min cnt (length bs)), store_bytes buf (take cnt bs) m, iov_start [\<lparr>iov_base = buf, iov_len = cnt\<rparr>] 1, ss)"
  using assms
  by (induction es) (auto simp: iov_start_def iov_array_def iov_view_def iov_total_def Let_def)

lemma recvfrom_datagram:
  assumes "\<forall>s \<in> set es. retry s"
  shows "recvfrom False (map Inl es @ Inr (bs, addr) # ss) buf cnt capacity m
     = Some (Inr (min cnt (length bs)), store_bytes buf (take cnt bs) m, take capacity addr, length addr)"
proof -
  have "first_sender (map Inl es @ Inr (bs, addr) # ss) = Some addr"
    using assms by (induction es) simp_all
  moreover have "recvmsg_loop False (map Inl es @ Inr bs # map (map_sum id fst) ss) (iov_start [\<lparr>iov_base = buf, iov_len = cnt\<rparr>] 1) 0 m
     = Some (Inr (min cnt (length bs)), store_bytes buf (take cnt bs) m, iov_start [\<lparr>iov_base = buf, iov_len = cnt\<rparr>] 1,
         map (map_sum id fst) ss)"
    using assms by (intro recvmsg_datagram) auto
  ultimately show ?thesis by (simp add: recvfrom_def recvmsg_def comp_def)
qed

text \<open>
  C16: \<^verbatim>\<open>sendmsg\<close> puts a prefix of the gathered buffers on the wire, each byte once and in order
  however the kernel cuts the transfer, reports its length, and leaves the caller's vectors as they
  were; an error is reported only when nothing was sent. With \<^verbatim>\<open>MSG_WAITALL\<close>, if the calls are
  interrupted or find room every time, and find room often enough, everything is sent.
\<close>

theorem sendmsg_delivers:
  assumes "n \<le> length vs"
  shows "(sendmsg waitall ss m vs n wire = Some (r, wire', st', ss') \<longrightarrow>
      (\<exists>k \<le> iov_total (take n vs). wire' = wire @ take k (gather m (take n vs)) \<and> iov_caller st' = vs
         \<and> (case r of Inr t \<Rightarrow> t = k | Inl _ \<Rightarrow> k = 0)))
    \<and> ((\<forall>s \<in> set ss. case s of Inr k \<Rightarrow> k > 0 | Inl e \<Rightarrow> retry e)
         \<and> iov_total (take n vs) \<le> length (filter (\<lambda>s. \<exists>k. s = Inr k) ss) \<and> iov_total (take n vs) > 0 \<longrightarrow>
       (\<exists>st' ss'. sendmsg True ss m vs n wire =
          Some (Inr (iov_total (take n vs)), wire @ gather m (take n vs), st', ss')))"
proof -
  let ?st = "iov_start vs n"
  have st: "iov_ok ?st" "iov_view ?st = take n vs" "iov_caller ?st = vs"
    using iov_start_ok [OF assms] by (simp_all add: iov_start_def)
  have prefix: "\<exists>k \<le> iov_total (take n vs). wire' = wire @ take k (gather m (take n vs)) \<and> iov_caller st' = vs
         \<and> (case r of Inr t \<Rightarrow> t = k | Inl _ \<Rightarrow> k = 0)"
    if "sendmsg w ss m vs n wire = Some (r, wire', st', ss')" for w r wire' st' ss'
    using sendmsg_loop_prefix [OF st(1), of w ss m 0 wire "(r, wire', st', ss')"] that st
    by (cases r) (auto simp: sendmsg_def sent_prefix_def)
  have all: "\<exists>st' ss'. sendmsg True ss m vs n wire =
          Some (Inr (iov_total (take n vs)), wire @ gather m (take n vs), st', ss')"
    if room: "\<forall>s \<in> set ss. case s of Inr k \<Rightarrow> k > 0 | Inl e \<Rightarrow> retry e"
      "iov_total (take n vs) \<le> length (filter (\<lambda>s. \<exists>k. s = Inr k) ss)" "iov_total (take n vs) > 0"
  proof -
    obtain wire' st' ss' where s: "sendmsg True ss m vs n wire = Some (Inr (iov_total (take n vs)), wire', st', ss')"
      using sendmsg_loop_all [OF st(1) room(1), of m 0 wire] room(2,3) st(2) by (auto simp: sendmsg_def)
    from prefix [OF s] have "wire' = wire @ gather m (take n vs)"
      by auto
    with s show ?thesis by blast
  qed
  show ?thesis using prefix all by blast
qed

lemma sendmsg_delivers_witness:
  "\<exists>st' ss'. sendmsg True [Inl EAGAIN, Inr 2, Inl EINTR, Inr 1, Inr 9, Inr 1, Inr 1] (\<lambda>a. char_of (a + 97))
     [\<lparr>iov_base = 0, iov_len = 3\<rparr>, \<lparr>iov_base = 10, iov_len = 2\<rparr>] 2 [] = Some (Inr 5, ''abckl'', st', ss')"
proof -
  let ?vs = "[\<lparr>iov_base = 0, iov_len = 3\<rparr>, \<lparr>iov_base = 10, iov_len = 2\<rparr>]"
  let ?ss = "[Inl EAGAIN, Inr 2, Inl EINTR, Inr 1, Inr 9, Inr 1, Inr 1] :: room list"
  have len: "2 \<le> length ?vs" by simp
  have g: "gather (\<lambda>a. char_of (a + 97)) (take 2 ?vs) = ''abckl''" "iov_total (take 2 ?vs) = 5"
    by code_simp+
  have room: "\<forall>s \<in> set ?ss. case s of Inr k \<Rightarrow> k > 0 | Inl e \<Rightarrow> retry e"
      "length (filter (\<lambda>s. \<exists>k. s = Inr k) ?ss) = 5"
    by (simp_all add: retry_def)
  from sendmsg_delivers [OF len, of True ?ss "\<lambda>a. char_of (a + 97)" "[]"] g room show ?thesis
    by simp
qed

subsection \<open>Receiving\<close>

lemma store_bytes_append: "store_bytes a (s @ t) m = store_bytes (a + length s) t (store_bytes a s m)"
  by (induction s arbitrary: a m) simp_all

lemma scatter_Nil [simp]: "scatter vs [] m = m"
  by (induction vs) auto

text \<open>Scattering in two parts is scattering at once.\<close>

lemma scatter_append:
  "scatter vs (s @ t) m = scatter (advance (length s) vs) t (scatter vs s m)"
proof (induction vs arbitrary: s t m)
  case Nil
  then show ?case by simp
next
  case (Cons v vs)
  show ?case
  proof (cases "iov_len v \<le> length s")
    case True
    with Cons [of "drop (iov_len v) s"] show ?thesis by simp
  next
    case False
    then show ?thesis
      by (cases "s = []") (simp_all add: store_bytes_append)
  qed
qed

lemma recvmsg_loop_scatter:
  assumes "iov_ok st" "recvmsg_loop waitall ss st nr m = Some (r, m', st', ss')"
  shows "\<exists>bs. length bs \<le> iov_total (iov_view st) \<and> m' = scatter (iov_view st) bs m
    \<and> iov_caller st' = iov_caller st
    \<and> (case r of Inr t \<Rightarrow> t = nr + length bs | Inl _ \<Rightarrow> nr + length bs = 0)"
  using assms
proof (induction waitall ss st nr m rule: recvmsg_loop.induct)
  case (1 waitall st nr m)
  then show ?case by simp
next
  case (2 waitall bs ss st nr m)
  let ?bs = "take (iov_total (iov_view st)) bs"
  let ?r = "length ?bs"
  have r: "?r \<le> iov_total (iov_view st)" by simp
  note u = update_iovec_spec [OF 2(2) r]
  show ?case
  proof (cases "?r = 0 \<or> \<not> waitall \<or> msghdr_done st ?r")
    case True
    have "recvmsg_loop waitall (Inr bs # ss) st nr m = Some (Inr (nr + ?r), scatter (iov_view st) ?bs m, st, ss)"
      by (simp only: recvmsg_loop.simps Let_def True if_True)
    with 2(3) r show ?thesis by (intro exI [of _ ?bs]) simp
  next
    case False
    show ?thesis
    proof (cases "iov_cnt (update_iovec ?r st) > 0")
      case True
      have "recvmsg_loop waitall (Inr bs # ss) st nr m =
          recvmsg_loop waitall ss (update_iovec ?r st) (nr + ?r) (scatter (iov_view st) ?bs m)"
        by (simp only: recvmsg_loop.simps Let_def False True if_False if_True)
      with 2(3) have "recvmsg_loop waitall ss (update_iovec ?r st) (nr + ?r) (scatter (iov_view st) ?bs m) =
          Some (r, m', st', ss')" by simp
      from 2(1) [OF refl refl refl refl False refl True u(1) this] obtain cs where
        cs: "length cs \<le> iov_total (iov_view (update_iovec ?r st))"
          "m' = scatter (iov_view (update_iovec ?r st)) cs (scatter (iov_view st) ?bs m)"
          "iov_caller st' = iov_caller (update_iovec ?r st)"
          "case r of Inr t \<Rightarrow> t = nr + ?r + length cs | Inl _ \<Rightarrow> nr + ?r + length cs = 0"
        by blast
      have "length cs + ?r \<le> iov_total (iov_view st)" using cs(1) r unfolding u(3) iov_total_advance by simp
      moreover have "m' = scatter (iov_view st) (?bs @ cs) m"
        using cs(2) unfolding u(3) scatter_append by simp
      ultimately show ?thesis using cs(3,4) unfolding u(2)
        by (intro exI [of _ "?bs @ cs"]) (cases r, simp_all)
    next
      case nocnt: False
      have "recvmsg_loop waitall (Inr bs # ss) st nr m =
          Some (Inr (nr + ?r), scatter (iov_view st) ?bs m, update_iovec ?r st, ss)"
        by (simp only: recvmsg_loop.simps Let_def False nocnt if_False)
      with 2(3) r u(2) show ?thesis by (intro exI [of _ ?bs]) auto
    qed
  qed
next
  case (3 waitall e ss st nr m)
  then show ?case
    by (auto split: if_splits intro: exI [of _ "[]"])
qed

end
