(* ===== verification/IoSockets.thy ===== *)
theory IoSockets
  imports IoLoops
begin

text \<open>
  Setting up sockets (\<^verbatim>\<open>io.hh\<close>, \<^verbatim>\<open>io.cc\<close>): accepting and connecting, address strings, and the loops
  over the addresses that the resolver returns. What each system call returns for each address is
  an argument; the theorems say that no descriptor is lost.
\<close>

subsection \<open>Accepting and connecting\<close>

text \<open>Exceptions are the left side of a result.\<close>

fun accept :: "(errno + nat) list \<Rightarrow> ((errno + nat) \<times> (errno + nat) list) option" where
  "accept [] = None"
| "accept (Inr fileno # ss) = Some (Inr fileno, ss)"
| "accept (Inl e # ss) =
     (if e \<noteq> EAGAIN \<and> e \<noteq> EWOULDBLOCK \<and> e \<noteq> EINTR then Some (Inl e, ss) else accept ss)"

text \<open>\<^verbatim>\<open>tcp_accept\<close> also sets an option on the new socket, which is logged.\<close>

definition tcp_accept ::
  "(errno + nat) list \<Rightarrow> nat list \<Rightarrow> ((errno + nat) \<times> nat list \<times> (errno + nat) list) option" where
  "tcp_accept ss nodelay =
     (case accept ss of
        None \<Rightarrow> None
      | Some (Inl e, ss) \<Rightarrow> Some (Inl e, nodelay, ss)
      | Some (Inr f, ss) \<Rightarrow> Some (Inr f, nodelay @ [f], ss))"

text \<open>
  \<open>sys\<close> is the result of the call, \<open>sockopt\<close> that of reading the socket's error once it is
  writable; \<open>None\<close> stands for the number zero.
\<close>

definition connect :: "errno option \<Rightarrow> errno + errno option \<Rightarrow> errno option" where
  "connect sys sockopt =
     (case sys of
        None \<Rightarrow> None
      | Some e \<Rightarrow>
          if e \<noteq> EINPROGRESS then Some e
          else (case sockopt of Inl e' \<Rightarrow> Some e' | Inr err \<Rightarrow> err))"

subsection \<open>Addresses\<close>

fun rfind :: "char \<Rightarrow> string \<Rightarrow> nat option" where
  "rfind x [] = None"
| "rfind x (c # s) = (case rfind x s of Some i \<Rightarrow> Some (i + 1) | None \<Rightarrow> if c = x then Some 0 else None)"

fun find_char :: "char \<Rightarrow> string \<Rightarrow> nat option" where
  "find_char x [] = None"
| "find_char x (c # s) = (if c = x then Some 0 else map_option Suc (find_char x s))"

datatype ai_family = AF_UNSPEC | AF_INET | AF_INET6

record getaddrinfo_request =
  address_any :: bool
  family :: ai_family
  lookup :: "(string option \<times> string) option"

text \<open>
  The lookup that is asked of the resolver: host, or none if it is empty, and port. There is no
  lookup if the address has no colon, which is reported as an unknown name.
\<close>

definition getaddrinfo_thread :: "ai_family \<Rightarrow> string \<Rightarrow> getaddrinfo_request" where
  "getaddrinfo_thread fam address =
     (case rfind (CHR '':'') address of
        None \<Rightarrow> \<lparr>address_any = True, family = fam, lookup = None\<rparr>
      | Some colon \<Rightarrow>
          let host = take colon address;
              bracketed = (host \<noteq> [] \<and> host ! 0 = CHR ''['' \<and> last host = CHR '']''
                           \<and> find_char (CHR '']'') host = Some (length host - 1));
              fam = (if bracketed \<and> fam = AF_UNSPEC then AF_INET6 else fam);
              host = (if bracketed then take (length host - 2) (drop 1 host) else host);
              port = drop (colon + 1) address
          in \<lparr>address_any = (colon = 0), family = fam,
              lookup = Some (if host = [] then None else Some host, port)\<rparr>)"

subsection \<open>Listening\<close>

text \<open>What the system does with one of the addresses.\<close>

record addrinfo =
  ai_inet6 :: bool
  ai_socket :: "errno + nat"
  ai_bind :: "errno option"
  ai_listen :: "errno option"
  ai_connect :: "errno option"

record listen_state =
  ls_result :: "nat list"
  ls_closed :: "nat list"
  ls_v6only :: "(nat \<times> bool) list"
  ls_last_errno :: errno

definition listen_start :: listen_state where
  "listen_start = \<lparr>ls_result = [], ls_closed = [], ls_v6only = [], ls_last_errno = EADDRNOTAVAIL\<rparr>"

text \<open>The loop; \<open>ok\<close> tells whether an address could be bound, and listened on.\<close>

fun listen_loop ::
  "(addrinfo \<Rightarrow> errno option) \<Rightarrow> bool \<Rightarrow> nat \<Rightarrow> addrinfo list \<Rightarrow> listen_state \<Rightarrow> listen_state" where
  "listen_loop attempt any max_n [] st = st"
| "listen_loop attempt any max_n (ai # ais) st =
     (case ai_socket ai of
        Inl e \<Rightarrow> listen_loop attempt any max_n ais (st\<lparr>ls_last_errno := e\<rparr>)
      | Inr fileno \<Rightarrow>
          let st = (if ai_inet6 ai then st\<lparr>ls_v6only := ls_v6only st @ [(fileno, \<not> any)]\<rparr> else st)
          in (case attempt ai of
                None \<Rightarrow>
                  let st = st\<lparr>ls_result := ls_result st @ [fileno]\<rparr>
                  in if max_n \<noteq> 0 \<and> length (ls_result st) = max_n then st
                     else listen_loop attempt any max_n ais st
              | Some e \<Rightarrow>
                  listen_loop attempt any max_n ais
                    (st\<lparr>ls_last_errno := e, ls_closed := ls_closed st @ [fileno]\<rparr>)))"

text \<open>\<^verbatim>\<open>bind(...) == 0 && listen(...) == 0\<close>\<close>

definition bind_and_listen :: "addrinfo \<Rightarrow> errno option" where
  "bind_and_listen ai = (case ai_bind ai of Some e \<Rightarrow> Some e | None \<Rightarrow> ai_listen ai)"

definition listen_end :: "listen_state \<Rightarrow> errno + nat list" where
  "listen_end st = (if ls_result st = [] then Inl (ls_last_errno st) else Inr (ls_result st))"

text \<open>\<open>gai\<close> is what the resolver answers: an error of its own, or addresses.\<close>

datatype net_error = Gai_error nat | Sys_error errno

definition tcp_listen_all ::
  "(getaddrinfo_request \<Rightarrow> nat + addrinfo list) \<Rightarrow> string \<Rightarrow> nat \<Rightarrow> (net_error + nat list) \<times> listen_state" where
  "tcp_listen_all gai address max_n =
     (let req = getaddrinfo_thread AF_UNSPEC address
      in case gai req of
           Inl e \<Rightarrow> (Inl (Gai_error e), listen_start)
         | Inr ais \<Rightarrow>
             let st = listen_loop bind_and_listen (address_any req) max_n ais listen_start
             in (case listen_end st of Inl e \<Rightarrow> (Inl (Sys_error e), st) | Inr fds \<Rightarrow> (Inr fds, st)))"

definition tcp_listen ::
  "(getaddrinfo_request \<Rightarrow> nat + addrinfo list) \<Rightarrow> string \<Rightarrow> (net_error + nat) \<times> listen_state" where
  "tcp_listen gai address =
     (case tcp_listen_all gai address 1 of
        (Inl e, st) \<Rightarrow> (Inl e, st)
      | (Inr fds, st) \<Rightarrow> (Inr (fds ! 0), st))"

definition udp_listen_all ::
  "(getaddrinfo_request \<Rightarrow> nat + addrinfo list) \<Rightarrow> string \<Rightarrow> nat \<Rightarrow> (net_error + nat list) \<times> listen_state" where
  "udp_listen_all gai address max_n =
     (let req = getaddrinfo_thread AF_UNSPEC address
      in case gai req of
           Inl e \<Rightarrow> (Inl (Gai_error e), listen_start)
         | Inr ais \<Rightarrow>
             let st = listen_loop ai_bind (address_any req) max_n ais listen_start
             in (case listen_end st of Inl e \<Rightarrow> (Inl (Sys_error e), st) | Inr fds \<Rightarrow> (Inr fds, st)))"

definition udp_listen ::
  "(getaddrinfo_request \<Rightarrow> nat + addrinfo list) \<Rightarrow> string \<Rightarrow> (net_error + nat) \<times> listen_state" where
  "udp_listen gai address =
     (case udp_listen_all gai address 1 of
        (Inl e, st) \<Rightarrow> (Inl e, st)
      | (Inr fds, st) \<Rightarrow> (Inr (fds ! 0), st))"

subsection \<open>Connecting to an address\<close>

text \<open>
  The addresses are tried in turn; a socket whose connection fails is closed with its descriptor
  object. With no address at all there is no exception to rethrow: \<open>Inl None\<close>.
\<close>

fun connect_loop :: "addrinfo list \<Rightarrow> errno option \<Rightarrow> nat list \<Rightarrow> (errno option + nat) \<times> nat list" where
  "connect_loop [] last_err closed = (Inl last_err, closed)"
| "connect_loop (ai # ais) last_err closed =
     (case ai_socket ai of
        Inl e \<Rightarrow> connect_loop ais (Some e) closed
      | Inr fileno \<Rightarrow>
          (case ai_connect ai of
             None \<Rightarrow> (Inr fileno, closed)
           | Some e \<Rightarrow> connect_loop ais (Some e) (closed @ [fileno])))"

definition tcp_connect ::
  "(getaddrinfo_request \<Rightarrow> nat + addrinfo list) \<Rightarrow> string \<Rightarrow> (net_error option + nat) \<times> nat list" where
  "tcp_connect gai address =
     (case gai (getaddrinfo_thread AF_UNSPEC address) of
        Inl e \<Rightarrow> (Inl (Some (Gai_error e)), [])
      | Inr ais \<Rightarrow>
          (case connect_loop ais None [] of
             (Inl e, closed) \<Rightarrow> (Inl (map_option Sys_error e), closed)
           | (Inr f, closed) \<Rightarrow> (Inr f, closed)))"

definition udp_connect ::
  "(getaddrinfo_request \<Rightarrow> nat + addrinfo list) \<Rightarrow> string \<Rightarrow> (net_error option + nat) \<times> nat list" where
  "udp_connect gai address =
     (case gai (getaddrinfo_thread AF_UNSPEC address) of
        Inl e \<Rightarrow> (Inl (Some (Gai_error e)), [])
      | Inr ais \<Rightarrow>
          (case connect_loop ais None [] of
             (Inl e, closed) \<Rightarrow> (Inl (map_option Sys_error e), closed)
           | (Inr f, closed) \<Rightarrow> (Inr f, closed)))"

subsection \<open>No descriptor is lost\<close>

text \<open>The sockets that a list of addresses opens, in order.\<close>

fun opened :: "addrinfo list \<Rightarrow> nat list" where
  "opened [] = []"
| "opened (ai # ais) = (case ai_socket ai of Inl _ \<Rightarrow> opened ais | Inr f \<Rightarrow> f # opened ais)"

lemma listen_loop_fds:
  "\<exists>pre suf. ais = pre @ suf
     \<and> mset (ls_result (listen_loop attempt any max_n ais st)) + mset (ls_closed (listen_loop attempt any max_n ais st))
        = mset (ls_result st) + mset (ls_closed st) + mset (opened pre)
     \<and> (max_n = 0 \<longrightarrow> suf = [])"
proof (induction attempt any max_n ais st rule: listen_loop.induct)
  case (1 attempt any max_n st)
  then show ?case by simp
next
  case (2 attempt any max_n ai ais st)
  show ?case
  proof (cases "ai_socket ai")
    case (Inl e)
    from 2(1) [OF Inl] obtain pre suf where ih: "ais = pre @ suf"
      "mset (ls_result (listen_loop attempt any max_n ais (st\<lparr>ls_last_errno := e\<rparr>)))
        + mset (ls_closed (listen_loop attempt any max_n ais (st\<lparr>ls_last_errno := e\<rparr>)))
        = mset (ls_result st) + mset (ls_closed st) + mset (opened pre)" "max_n = 0 \<longrightarrow> suf = []"
      by auto
    then show ?thesis using Inl by - (rule exI [of _ "ai # pre"], rule exI [of _ suf], simp)
  next
    case (Inr f)
    let ?st = "if ai_inet6 ai then st\<lparr>ls_v6only := ls_v6only st @ [(f, \<not> any)]\<rparr> else st"
    show ?thesis
    proof (cases "attempt ai")
      case None
      let ?st2 = "?st\<lparr>ls_result := ls_result ?st @ [f]\<rparr>"
      show ?thesis
      proof (cases "max_n \<noteq> 0 \<and> length (ls_result ?st2) = max_n")
        case True
        then show ?thesis using Inr None
          by - (rule exI [of _ "[ai]"], rule exI [of _ ais], simp add: Let_def)
      next
        case False
        from 2(2) [OF Inr refl None refl False] obtain pre suf where ih: "ais = pre @ suf"
          "mset (ls_result (listen_loop attempt any max_n ais ?st2))
            + mset (ls_closed (listen_loop attempt any max_n ais ?st2))
            = mset (ls_result ?st2) + mset (ls_closed ?st2) + mset (opened pre)" "max_n = 0 \<longrightarrow> suf = []"
          by blast
        have "listen_loop attempt any max_n (ai # ais) st = listen_loop attempt any max_n ais ?st2"
          using False by (simp only: listen_loop.simps Inr None Let_def sum.case option.case if_False)
        then show ?thesis using ih Inr
          by - (rule exI [of _ "ai # pre"], rule exI [of _ suf], simp)
      qed
    next
      case (Some e)
      let ?st2 = "?st\<lparr>ls_last_errno := e, ls_closed := ls_closed ?st @ [f]\<rparr>"
      from 2(3) [OF Inr refl Some] obtain pre suf where ih: "ais = pre @ suf"
        "mset (ls_result (listen_loop attempt any max_n ais ?st2))
          + mset (ls_closed (listen_loop attempt any max_n ais ?st2))
          = mset (ls_result ?st2) + mset (ls_closed ?st2) + mset (opened pre)" "max_n = 0 \<longrightarrow> suf = []"
        by blast
      have "listen_loop attempt any max_n (ai # ais) st = listen_loop attempt any max_n ais ?st2"
        by (simp only: listen_loop.simps Inr Some Let_def sum.case option.case)
      then show ?thesis using ih Inr
        by - (rule exI [of _ "ai # pre"], rule exI [of _ suf], simp)
    qed
  qed
qed

lemma listen_loop_max:
  "max_n \<noteq> 0 \<Longrightarrow> length (ls_result st) < max_n \<Longrightarrow>
     length (ls_result (listen_loop attempt any max_n ais st)) \<le> max_n"
  by (induction attempt any max_n ais st rule: listen_loop.induct)
    (auto simp: Let_def split: sum.split option.split)

lemma connect_loop_fds:
  "\<exists>pre suf. ais = pre @ suf \<and>
     (case connect_loop ais le closed of
        (Inr f, closed') \<Rightarrow> closed' @ [f] = closed @ opened pre
      | (Inl _, closed') \<Rightarrow> closed' = closed @ opened ais)"
proof (induction ais le closed rule: connect_loop.induct)
  case (1 le closed)
  then show ?case by simp
next
  case (2 ai ais le closed)
  show ?case
  proof (cases "ai_socket ai")
    case (Inl e)
    from 2(1) [OF Inl] obtain pre suf where "ais = pre @ suf"
        "case connect_loop ais (Some e) closed of
           (Inr f, closed') \<Rightarrow> closed' @ [f] = closed @ opened pre
         | (Inl _, closed') \<Rightarrow> closed' = closed @ opened ais"
      by (elim exE conjE) (rule that)
    with Inl show ?thesis
      by - (rule exI [of _ "ai # pre"], rule exI [of _ suf], simp split: prod.splits sum.splits)
  next
    case (Inr f)
    show ?thesis
    proof (cases "ai_connect ai")
      case None
      with Inr show ?thesis by - (rule exI [of _ "[ai]"], rule exI [of _ ais], simp)
    next
      case (Some e)
      from 2(2) [OF Inr Some] obtain pre suf where "ais = pre @ suf"
          "case connect_loop ais (Some e) (closed @ [f]) of
             (Inr g, closed') \<Rightarrow> closed' @ [g] = (closed @ [f]) @ opened pre
           | (Inl _, closed') \<Rightarrow> closed' = (closed @ [f]) @ opened ais"
        by (elim exE conjE) (rule that)
      with Inr Some show ?thesis
        by - (rule exI [of _ "ai # pre"], rule exI [of _ suf], simp split: prod.splits sum.splits)
    qed
  qed
qed



end
