(* ===== verification/NetSim.thy ===== *)
theory NetSim
  imports Prelude
begin

text \<open>
  The network simulator (\<^verbatim>\<open>examples/netsim.hh\<close>): channels between servers, the message queues of
  their ports, and the network that makes both on demand.

  A message that was sent is in flight, with the time at which it is due, until its detached
  coroutine puts it in the queue of the destination port. Times are integers, in microseconds.
  A port's \<^verbatim>\<open>receiver_event_\<close> is its state: armed while a receiver waits on it, triggered otherwise.
  Coroutines that move messages are split at their suspension points. \<open>net_log\<close> is the transcript
  that a verbose network prints of what was sent; no operation reads it.
\<close>

type_synonym id_type = int

subsection \<open>State\<close>

record 'm in_flight =
  fl_due :: int
  fl_from :: id_type
  fl_to :: id_type
  fl_msg :: 'm

record 'm port =
  messageq :: "('m \<times> id_type) list"
  receiver_armed :: bool
  port_verbose :: bool

record channel =
  link_delay :: int
  send_delay :: int
  chan_verbose :: bool

record 'm network =
  links :: "id_type \<times> id_type \<Rightarrow> channel option"
  inputs :: "id_type \<Rightarrow> 'm port option"
  net_verbose :: bool
  flight :: "'m in_flight list"
  now :: int
  net_log :: "(id_type \<times> id_type \<times> 'm) list"

definition network_new :: "'m network" where
  "network_new = \<lparr>links = (\<lambda>_. None), inputs = (\<lambda>_. None), net_verbose = False, flight = [], now = 0, net_log = []\<rparr>"

definition port_new :: "'m network \<Rightarrow> 'm port" where
  "port_new net = \<lparr>messageq = [], receiver_armed = False, port_verbose = net_verbose net\<rparr>"

definition channel_new :: "'m network \<Rightarrow> channel" where
  "channel_new net = \<lparr>link_delay = 20000, send_delay = 1000, chan_verbose = net_verbose net\<rparr>"

subsection \<open>Looking up ports and channels\<close>

definition input :: "id_type \<Rightarrow> 'm network \<Rightarrow> 'm network" where
  "input i net = (case inputs net i of
       None \<Rightarrow> net\<lparr>inputs := (inputs net)(i \<mapsto> port_new net)\<rparr>
     | Some _ \<Rightarrow> net)"

definition link :: "id_type \<Rightarrow> id_type \<Rightarrow> 'm network \<Rightarrow> 'm network" where
  "link src dst net = (case links net (src, dst) of
       None \<Rightarrow> let net = input dst net in net\<lparr>links := (links net)((src, dst) \<mapsto> channel_new net)\<rparr>
     | Some _ \<Rightarrow> net)"

definition the_port :: "id_type \<Rightarrow> 'm network \<Rightarrow> 'm port" where
  "the_port i net = (case inputs net i of Some p \<Rightarrow> p | None \<Rightarrow> port_new net)"

definition the_channel :: "id_type \<Rightarrow> id_type \<Rightarrow> 'm network \<Rightarrow> channel" where
  "the_channel src dst net = (case links net (src, dst) of Some c \<Rightarrow> c | None \<Rightarrow> channel_new net)"

definition set_port :: "id_type \<Rightarrow> 'm port \<Rightarrow> 'm network \<Rightarrow> 'm network" where
  "set_port i p net = net\<lparr>inputs := (inputs net)(i \<mapsto> p)\<rparr>"

definition net_clear :: "'m network \<Rightarrow> 'm network" where
  "net_clear net = net\<lparr>links := (\<lambda>_. None), inputs := (\<lambda>_. None)\<rparr>"

subsection \<open>Sending\<close>

text \<open>\<^verbatim>\<open>net.link(src, dst).send(m)\<close>, up to its wait: the sender may go on at the returned time.\<close>

definition send_msg :: "id_type \<Rightarrow> id_type \<Rightarrow> 'm \<Rightarrow> 'm network \<Rightarrow> int \<times> 'm network" where
  "send_msg src dst m net =
     (let net = link src dst net; ch = the_channel src dst net
      in (now net + send_delay ch,
          net\<lparr>flight := flight net @ [\<lparr>fl_due = now net + link_delay ch, fl_from = src, fl_to = dst, fl_msg = m\<rparr>],
              net_log := net_log net @ [(src, dst, m)]\<rparr>))"

text \<open>The rest of \<^verbatim>\<open>send_after\<close>, for the message at position \<open>k\<close> in flight; it also wakes the receiver.\<close>

definition deliver :: "nat \<Rightarrow> 'm network \<Rightarrow> 'm network" where
  "deliver k net =
     (let f = flight net ! k; net = input (fl_to f) net; p = the_port (fl_to f) net
      in set_port (fl_to f) (p\<lparr>messageq := messageq p @ [(fl_msg f, fl_from f)], receiver_armed := False\<rparr>)
           (net\<lparr>flight := take k (flight net) @ drop (k + 1) (flight net)\<rparr>))"

subsection \<open>Receiving\<close>

text \<open>
  \<^verbatim>\<open>receive_with_id\<close> runs to its next suspension. It waits on the re-armed event while the queue is
  empty, then reaches its resolution point, where the message is still in the queue: a receiver
  that is dropped there loses nothing. When it goes on and the queue is not empty it takes the
  first message, else it starts over.
\<close>

datatype receive_point = Receive_start | Receive_armed | Receive_resolve

datatype 'm receive_step = Suspended receive_point | Received "'m \<times> id_type"

definition receive_wait :: "id_type \<Rightarrow> 'm network \<Rightarrow> 'm receive_step \<times> 'm network" where
  "receive_wait i net =
     (let p = the_port i net
      in if messageq p = [] then (Suspended Receive_armed, set_port i (p\<lparr>receiver_armed := True\<rparr>) net)
         else (Suspended Receive_resolve, net))"

definition receive_with_id :: "id_type \<Rightarrow> receive_point \<Rightarrow> 'm network \<Rightarrow> 'm receive_step \<times> 'm network" where
  "receive_with_id i pt net =
     (case pt of
        Receive_resolve \<Rightarrow>
          (let p = the_port i net
           in (case messageq p of
                 [] \<Rightarrow> receive_wait i net
               | m # q \<Rightarrow> (Received m, set_port i (p\<lparr>messageq := q\<rparr>) net)))
      | _ \<Rightarrow> receive_wait i net)"

definition receive_msg :: "'m receive_step \<Rightarrow> 'm option" where
  "receive_msg s = (case s of Received (m, _) \<Rightarrow> Some m | Suspended _ \<Rightarrow> None)"

text \<open>A receiver waits on an event that a delivery has triggered, or is at its resolution point.\<close>

definition receiver_runnable :: "id_type \<Rightarrow> receive_point \<Rightarrow> 'm network \<Rightarrow> bool" where
  "receiver_runnable i pt net \<longleftrightarrow> (pt = Receive_armed \<longrightarrow> \<not> receiver_armed (the_port i net))"

subsection \<open>Randomness\<close>

text \<open>
  \<^verbatim>\<open>coin_flip(p)\<close> compares 53 random bits with the probability scaled to them, and a choice from
  a list draws an index; the drawn numbers are arguments.
\<close>

definition coin_flip :: "nat \<Rightarrow> bool" where
  "coin_flip draw \<longleftrightarrow> draw \<noteq> 0"

definition coin_flip_p :: "nat \<Rightarrow> nat \<Rightarrow> bool" where
  "coin_flip_p threshold val \<longleftrightarrow> val < threshold"

definition uniform_list :: "nat \<Rightarrow> 'a list \<Rightarrow> 'a" where
  "uniform_list idx xs = xs ! idx"

definition normal_duration :: "int \<Rightarrow> int" where
  "normal_duration draw = max draw 0"

subsection \<open>What is in the network\<close>

text \<open>All messages on their way: in flight, or in the queue of a port.\<close>

definition pending :: "id_type \<Rightarrow> 'm network \<Rightarrow> 'm multiset" where
  "pending i net = mset (map fl_msg (filter (\<lambda>f. fl_to f = i) (flight net)))
     + mset (map fst (messageq (the_port i net)))"

lemma port_new_upd [simp]:
  "port_new (net\<lparr>inputs := a\<rparr>) = port_new net" "port_new (net\<lparr>links := b\<rparr>) = port_new net"
  "port_new (net\<lparr>flight := c\<rparr>) = port_new net" "port_new (input i net) = port_new net"
  "port_new (net\<lparr>net_log := d\<rparr>) = port_new net" "port_new (net\<lparr>now := t\<rparr>) = port_new net"
  by (simp_all add: port_new_def input_def split: option.split)

lemma the_port_links [simp]: "the_port j (net\<lparr>links := x\<rparr>) = the_port j net"
  by (simp add: the_port_def cong: option.case_cong)

lemma the_port_input [simp]: "the_port j (input i net) = the_port j net"
  by (auto simp: the_port_def input_def split: option.split)

lemma the_port_link [simp]: "the_port j (link s d net) = the_port j net"
  by (simp add: link_def Let_def split: option.split)

lemma input_simps [simp]: "flight (input i net) = flight net" "now (input i net) = now net"
    "net_log (input i net) = net_log net"
  by (auto simp: input_def split: option.split)

lemma link_simps [simp]: "flight (link s d net) = flight net" "now (link s d net) = now net"
    "net_log (link s d net) = net_log net"
  by (auto simp: link_def Let_def split: option.split)

lemma the_port_set [simp]: "the_port j (set_port i p net) = (if j = i then p else the_port j net)"
  by (simp add: the_port_def set_port_def cong: option.case_cong)

lemma set_port_simps [simp]: "flight (set_port i p net) = flight net" "now (set_port i p net) = now net"
    "net_log (set_port i p net) = net_log net"
  by (simp_all add: set_port_def)

lemma the_port_fields [simp]:
  "the_port j (net\<lparr>flight := x\<rparr>) = the_port j net" "the_port j (net\<lparr>net_log := y\<rparr>) = the_port j net"
  "the_port j (net\<lparr>now := t\<rparr>) = the_port j net"
  by (simp_all add: the_port_def cong: option.case_cong)

lemma pending_send: "pending i (snd (send_msg s d m net)) = pending i net + (if i = d then {#m#} else {#})"
  by (simp add: pending_def send_msg_def Let_def)

lemma pending_deliver:
  assumes "k < length (flight net)"
  shows "pending i (deliver k net) = pending i net"
proof -
  let ?f = "flight net ! k"
  have split: "flight net = take k (flight net) @ ?f # drop (k + 1) (flight net)"
    using assms by (simp add: id_take_nth_drop)
  have "mset (map fl_msg (filter P (flight net))) =
      mset (map fl_msg (filter P (take k (flight net) @ drop (k + 1) (flight net))))
      + (if P ?f then {#fl_msg ?f#} else {#})" for P
    by (subst (1) split) simp
  then show ?thesis
    by (auto simp: pending_def deliver_def Let_def)
qed

lemma pending_receive:
  "receive_with_id i pt net = (r, net') \<Longrightarrow>
     pending j net = pending j net' + (case r of Received (m, _) \<Rightarrow> (if j = i then {#m#} else {#}) | _ \<Rightarrow> {#})"
  by (auto simp: receive_with_id_def receive_wait_def Let_def pending_def
      split: receive_point.splits list.splits if_splits)

lemma log_send: "net_log (snd (send_msg s d m net)) = net_log net @ [(s, d, m)]"
  by (simp add: send_msg_def Let_def)

lemma log_deliver [simp]: "net_log (deliver k net) = net_log net"
  by (simp add: deliver_def Let_def)

lemma log_receive: "receive_with_id i pt net = (r, net') \<Longrightarrow> net_log net' = net_log net"
  by (auto simp: receive_with_id_def receive_wait_def Let_def
      split: receive_point.splits list.splits if_splits)

lemma pending_now [simp]: "pending i (net\<lparr>now := t\<rparr>) = pending i net"
  by (simp add: pending_def)

end
