(* ===== verification/Consensus.thy ===== *)
theory Consensus
  imports NetSim
begin

text \<open>
  Chandra-Toueg consensus over the simulated network (\<^verbatim>\<open>examples/ctconsensus.cc\<close>,
  \<^verbatim>\<open>ctconsensus_msgs.hh\<close>): the servers, the observer Nancy, and the program that runs them.

  The coroutine \<^verbatim>\<open>consensus\<close> is a state machine whose program points are the tests of its loops and
  its suspension points. A step runs one server to its next point, delivers a message that is due,
  lets Nancy take one, fires a failure detector, or lets time pass. In the program a coroutine runs
  on to its next suspension, so the interleavings of the model include those of the program.
  Rounds are natural numbers: a round takes at least ten milliseconds, so 64 bits do not run out.
\<close>

subsection \<open>Messages\<close>

datatype message_type = M_prepare | M_propose | M_ack | M_decide

record message =
  m_type :: message_type
  m_round :: nat
  m_color :: string
  m_color_round :: nat
  m_ack :: bool

definition prepare_message :: "nat \<Rightarrow> string \<Rightarrow> nat \<Rightarrow> message" where
  "prepare_message r c cr = \<lparr>m_type = M_prepare, m_round = r, m_color = c, m_color_round = cr, m_ack = False\<rparr>"

definition propose_message :: "nat \<Rightarrow> string \<Rightarrow> message" where
  "propose_message r c = \<lparr>m_type = M_propose, m_round = r, m_color = c, m_color_round = 0, m_ack = False\<rparr>"

definition ack_message :: "nat \<Rightarrow> bool \<Rightarrow> message" where
  "ack_message r a = \<lparr>m_type = M_ack, m_round = r, m_color = [], m_color_round = 0, m_ack = a\<rparr>"

definition decide_message :: "string \<Rightarrow> message" where
  "decide_message c = \<lparr>m_type = M_decide, m_round = 0, m_color = c, m_color_round = 0, m_ack = False\<rparr>"

definition nancy_id :: id_type where "nancy_id = -1"

subsection \<open>Servers\<close>

text \<open>The program points of \<^verbatim>\<open>server::consensus\<close>, with the locals that are live there.\<close>

datatype point =
    At_loop
  | Sent_prepare
  | Prepare_loop nat
  | Prepare_receive nat
  | Propose_loop nat message
  | Sent_propose nat message
  | Propose_receive
  | Proposed "message option"
  | Sent_ack
  | Ack_loop nat nat
  | Ack_receive nat nat
  | Next_round
  | Decided
  | Sent_nancy message
  | Decide_loop nat message
  | Sent_decide nat message
  | Finished

record server =
  sv_color :: string
  sv_round :: nat
  sv_color_round :: nat
  sv_stash :: "message list"
  sv_decided :: bool
  sv_point :: point
  sv_wake :: int
  sv_timeout :: int
  sv_stash_size :: nat
  sv_receive :: "receive_point option"

definition server_new :: "string \<Rightarrow> server" where
  "server_new c = \<lparr>sv_color = c, sv_round = 1, sv_color_round = 0, sv_stash = [], sv_decided = False,
     sv_point = At_loop, sv_wake = 0, sv_timeout = 0, sv_stash_size = 0, sv_receive = None\<rparr>"

definition leader :: "nat \<Rightarrow> server \<Rightarrow> nat" where
  "leader n sv = sv_round sv mod n"

subsection \<open>Receiving a message of a round\<close>

datatype receive_result = Again | Return message

text \<open>What \<^verbatim>\<open>receive\<close> returns once the server has decided.\<close>

definition fake_message :: "message_type \<Rightarrow> server \<Rightarrow> message" where
  "fake_message mt sv = \<lparr>m_type = mt, m_round = sv_round sv, m_color = sv_color sv,
     m_color_round = sv_color_round sv, m_ack = True\<rparr>"

definition consider_message :: "message_type \<Rightarrow> message \<Rightarrow> server \<Rightarrow> receive_result \<times> server" where
  "consider_message mt m sv =
     (if m_type m = M_decide
      then let sv = sv\<lparr>sv_color := m_color m, sv_decided := True\<rparr> in (Return (fake_message mt sv), sv)
      else if m_type m \<noteq> mt \<or> m_round m \<noteq> sv_round sv
      then (Again, if m_round m \<ge> sv_round sv then sv\<lparr>sv_stash := sv_stash sv @ [m]\<rparr> else sv)
      else (Return m, sv))"

definition pop_stash :: "server \<Rightarrow> message \<times> server" where
  "pop_stash sv = (hd (sv_stash sv), sv\<lparr>sv_stash := tl (sv_stash sv)\<rparr>)"

text \<open>The call of \<^verbatim>\<open>receive\<close>: it notes the size of the stash.\<close>

definition receive_begin :: "server \<Rightarrow> server" where
  "receive_begin sv = sv\<lparr>sv_stash_size := length (sv_stash sv), sv_receive := None\<rparr>"

text \<open>
  One turn of its loop; \<open>None\<close> while the port's coroutine waits for a delivery.
\<close>

definition server_receive ::
  "nat \<Rightarrow> message_type \<Rightarrow> server \<Rightarrow> message network \<Rightarrow> (receive_result \<times> server \<times> message network) option" where
  "server_receive i mt sv net =
     (case sv_receive sv of
        None \<Rightarrow>
          if sv_decided sv then Some (Return (fake_message mt sv), sv, net)
          else if sv_stash_size sv > 0
          then (let (m, sv) = pop_stash (sv\<lparr>sv_stash_size := sv_stash_size sv - 1\<rparr>);
                    (r, sv) = consider_message mt m sv
                in Some (r, sv, net))
          else (case receive_with_id (int i) Receive_start net of
                  (Suspended pt, net) \<Rightarrow> Some (Again, sv\<lparr>sv_receive := Some pt\<rparr>, net)
                | (Received (m, _), net) \<Rightarrow>
                    (let (r, sv) = consider_message mt m sv in Some (r, sv, net)))
      | Some pt \<Rightarrow>
          if \<not> receiver_runnable (int i) pt net then None
          else (case receive_with_id (int i) pt net of
                  (Suspended pt, net) \<Rightarrow> Some (Again, sv\<lparr>sv_receive := Some pt\<rparr>, net)
                | (Received (m, _), net) \<Rightarrow>
                    (let (r, sv) = consider_message mt m (sv\<lparr>sv_receive := None\<rparr>) in Some (r, sv, net))))"

subsection \<open>The algorithm\<close>

text \<open>\<^verbatim>\<open>co_await net_.link(id_, to).send(m)\<close>, then the given point.\<close>

definition send_to :: "nat \<Rightarrow> id_type \<Rightarrow> message \<Rightarrow> point \<Rightarrow> server \<Rightarrow> message network \<Rightarrow> server \<times> message network" where
  "send_to i dst m pt sv net =
     (let (wake, net) = send_msg (int i) dst m net in (sv\<lparr>sv_point := pt, sv_wake := wake\<rparr>, net))"

definition goto :: "point \<Rightarrow> server \<Rightarrow> server" where
  "goto pt sv = sv\<lparr>sv_point := pt\<rparr>"

text \<open>Phases one to three.\<close>

definition at_loop :: "nat \<Rightarrow> nat \<Rightarrow> server \<Rightarrow> message network \<Rightarrow> server \<times> message network" where
  "at_loop n i sv net =
     (if \<not> sv_decided sv
      then send_to i (int (leader n sv))
             (prepare_message (sv_round sv) (sv_color sv) (sv_color_round sv)) Sent_prepare sv net
      else (goto Decided sv, net))"

definition sent_prepare :: "nat \<Rightarrow> nat \<Rightarrow> server \<Rightarrow> server" where
  "sent_prepare n i sv =
     (if i = leader n sv then goto (Prepare_loop 0) sv
      else goto Propose_receive (receive_begin sv))"

text \<open>A server whose coroutine reaches phase four also starts its failure detector.\<close>

definition begin_propose :: "message network \<Rightarrow> server \<Rightarrow> server" where
  "begin_propose net sv = (if sv_point sv = Propose_receive then sv\<lparr>sv_timeout := now net + 1500000\<rparr> else sv)"

definition prepare_loop :: "nat \<Rightarrow> nat \<Rightarrow> server \<Rightarrow> server" where
  "prepare_loop n received sv =
     (if received \<le> n div 2 then goto (Prepare_receive received) (receive_begin sv)
      else if sv_decided sv then goto Decided sv
      else goto (Propose_loop 0 (propose_message (sv_round sv) (sv_color sv))) sv)"

definition prepare_received :: "nat \<Rightarrow> message \<Rightarrow> server \<Rightarrow> server" where
  "prepare_received received m sv =
     goto (Prepare_loop (received + 1))
       (if m_color_round m > sv_color_round sv
        then sv\<lparr>sv_color := m_color m, sv_color_round := m_color_round m\<rparr> else sv)"

definition propose_loop :: "nat \<Rightarrow> nat \<Rightarrow> nat \<Rightarrow> message \<Rightarrow> server \<Rightarrow> message network \<Rightarrow> server \<times> message network" where
  "propose_loop n i j m sv net =
     (if j \<noteq> n then send_to i (int j) m (Sent_propose j m) sv net
      else (begin_propose net (goto Propose_receive (receive_begin sv)), net))"

text \<open>Phase four: \<open>None\<close> if the failure detector won.\<close>

definition proposed :: "nat \<Rightarrow> nat \<Rightarrow> message option \<Rightarrow> server \<Rightarrow> message network \<Rightarrow> server \<times> message network" where
  "proposed n i maybe_propose sv net =
     (if sv_decided sv then (goto Decided sv, net)
      else let sv = (case maybe_propose of
                       Some m \<Rightarrow> sv\<lparr>sv_color := m_color m, sv_color_round := sv_round sv\<rparr>
                     | None \<Rightarrow> sv)
           in send_to i (int (leader n sv)) (ack_message (sv_round sv) (maybe_propose \<noteq> None)) Sent_ack sv net)"

text \<open>Phases five and six.\<close>

definition sent_ack :: "nat \<Rightarrow> nat \<Rightarrow> server \<Rightarrow> message network \<Rightarrow> server" where
  "sent_ack n i sv net =
     (if i = leader n sv then goto (Ack_loop 0 0) sv
      else goto Next_round (sv\<lparr>sv_round := sv_round sv + 1, sv_wake := now net + 10000\<rparr>))"

definition ack_loop :: "nat \<Rightarrow> nat \<Rightarrow> nat \<Rightarrow> server \<Rightarrow> message network \<Rightarrow> server" where
  "ack_loop n success tot sv net =
     (if tot \<le> n div 2 then goto (Ack_receive success tot) (receive_begin sv)
      else if sv_decided sv then goto Decided sv
      else if success > n div 2 then goto Decided (sv\<lparr>sv_decided := True\<rparr>)
      else goto Next_round (sv\<lparr>sv_round := sv_round sv + 1, sv_wake := now net + 10000\<rparr>))"

definition ack_received :: "nat \<Rightarrow> nat \<Rightarrow> message \<Rightarrow> server \<Rightarrow> server" where
  "ack_received success tot m sv =
     goto (Ack_loop (if m_ack m then success + 1 else success) (tot + 1)) sv"

text \<open>The end: the decision goes to Nancy and to everybody else.\<close>

definition decided :: "nat \<Rightarrow> server \<Rightarrow> message network \<Rightarrow> server \<times> message network" where
  "decided i sv net =
     (let m = decide_message (sv_color sv) in send_to i nancy_id m (Sent_nancy m) sv net)"

definition decide_loop :: "nat \<Rightarrow> nat \<Rightarrow> nat \<Rightarrow> message \<Rightarrow> server \<Rightarrow> message network \<Rightarrow> server \<times> message network" where
  "decide_loop n i j m sv net =
     (if j \<noteq> n
      then (if j \<noteq> i then send_to i (int j) m (Sent_decide j m) sv net
            else (goto (Decide_loop (j + 1) m) sv, net))
      else (goto Finished sv, net))"

text \<open>One step of a server from its point; \<open>None\<close> if it is waiting.\<close>

definition awake :: "server \<Rightarrow> message network \<Rightarrow> bool" where
  "awake sv net \<longleftrightarrow> sv_wake sv \<le> now net"

definition receive_then ::
  "nat \<Rightarrow> message_type \<Rightarrow> (message \<Rightarrow> server \<Rightarrow> server) \<Rightarrow> server \<Rightarrow> message network \<Rightarrow> (server \<times> message network) option" where
  "receive_then i mt k sv net =
     (case server_receive i mt sv net of
        None \<Rightarrow> None
      | Some (Again, sv, net) \<Rightarrow> Some (sv, net)
      | Some (Return m, sv, net) \<Rightarrow> Some (k m sv, net))"

definition server_step :: "nat \<Rightarrow> nat \<Rightarrow> server \<Rightarrow> message network \<Rightarrow> (server \<times> message network) option" where
  "server_step n i sv net =
     (case sv_point sv of
        At_loop \<Rightarrow> Some (at_loop n i sv net)
      | Sent_prepare \<Rightarrow> if awake sv net then Some (begin_propose net (sent_prepare n i sv), net) else None
      | Prepare_loop k \<Rightarrow> Some (prepare_loop n k sv, net)
      | Prepare_receive k \<Rightarrow> receive_then i M_prepare (prepare_received k) sv net
      | Propose_loop j m \<Rightarrow> Some (propose_loop n i j m sv net)
      | Sent_propose j m \<Rightarrow> if awake sv net then Some (goto (Propose_loop (j + 1) m) sv, net) else None
      | Propose_receive \<Rightarrow> receive_then i M_propose (\<lambda>m. goto (Proposed (Some m))) sv net
      | Proposed mp \<Rightarrow> Some (proposed n i mp sv net)
      | Sent_ack \<Rightarrow> if awake sv net then Some (sent_ack n i sv net, net) else None
      | Ack_loop s t \<Rightarrow> Some (ack_loop n s t sv net, net)
      | Ack_receive s t \<Rightarrow> receive_then i M_ack (ack_received s t) sv net
      | Next_round \<Rightarrow> if awake sv net then Some (goto At_loop sv, net) else None
      | Decided \<Rightarrow> Some (decided i sv net)
      | Sent_nancy m \<Rightarrow> if awake sv net then Some (goto (Decide_loop 0 m) sv, net) else None
      | Decide_loop j m \<Rightarrow> Some (decide_loop n i j m sv net)
      | Sent_decide j m \<Rightarrow> if awake sv net then Some (goto (Decide_loop (j + 1) m) sv, net) else None
      | Finished \<Rightarrow> None)"

text \<open>The failure detector fires: the receiving task is dropped.\<close>

definition server_timeout :: "server \<Rightarrow> message network \<Rightarrow> server option" where
  "server_timeout sv net =
     (if sv_point sv = Propose_receive \<and> sv_timeout sv \<le> now net
      then Some (goto (Proposed None) (sv\<lparr>sv_receive := None\<rparr>)) else None)"

subsection \<open>Nancy\<close>

datatype verdict = Watching | Unexpected_message | Consensus_error | Too_few | Achieved | Impatient

record nancy =
  nc_received :: nat
  nc_consensus :: string
  nc_stopper :: "int option"
  nc_verdict :: verdict
  nc_receive :: "receive_point option"

definition nancy_new :: nancy where
  "nancy_new = \<lparr>nc_received = 0, nc_consensus = [], nc_stopper = None, nc_verdict = Watching,
     nc_receive = None\<rparr>"

definition nancy_message :: "nat \<Rightarrow> string \<Rightarrow> message \<Rightarrow> int \<Rightarrow> nancy \<Rightarrow> nancy" where
  "nancy_message n required m t nc =
     (if m_type m \<noteq> M_decide \<or> (m_color m \<noteq> ''red'' \<and> m_color m \<noteq> ''blue'')
      then nc\<lparr>nc_verdict := Unexpected_message\<rparr>
      else if (required \<noteq> [] \<and> m_color m \<noteq> required) \<or> (nc_consensus nc \<noteq> [] \<and> m_color m \<noteq> nc_consensus nc)
      then nc\<lparr>nc_verdict := Consensus_error\<rparr>
      else let nc = nc\<lparr>nc_consensus := m_color m, nc_received := nc_received nc + 1\<rparr>
           in if nc_received nc > n div 2 \<and> nc_stopper nc = None
              then nc\<lparr>nc_stopper := Some (t + 10000000)\<rparr> else nc)"

text \<open>The loop ends when the stopper has gone off.\<close>

definition nancy_stop :: "nat \<Rightarrow> nancy \<Rightarrow> nancy" where
  "nancy_stop n nc = nc\<lparr>nc_verdict := (if nc_received nc \<le> n div 2 then Too_few else Achieved)\<rparr>"

definition nancy_step :: "nat \<Rightarrow> string \<Rightarrow> nancy \<Rightarrow> message network \<Rightarrow> (nancy \<times> message network) option" where
  "nancy_step n required nc net =
     (if nc_verdict nc \<noteq> Watching then None
      else if (case nc_stopper nc of Some t \<Rightarrow> t \<le> now net | None \<Rightarrow> False) then Some (nancy_stop n nc, net)
      else let pt = (case nc_receive nc of None \<Rightarrow> Receive_start | Some pt \<Rightarrow> pt)
           in if \<not> receiver_runnable nancy_id pt net then None
              else (case receive_with_id nancy_id pt net of
                      (Suspended pt, net) \<Rightarrow> Some (nc\<lparr>nc_receive := Some pt\<rparr>, net)
                    | (Received (m, _), net) \<Rightarrow>
                        Some (nancy_message n required m (now net) (nc\<lparr>nc_receive := None\<rparr>), net)))"

text \<open>\<^verbatim>\<open>nancy_is_impatient\<close>: no consensus in fifteen minutes.\<close>

definition nancy_is_impatient :: "nancy \<Rightarrow> message network \<Rightarrow> nancy option" where
  "nancy_is_impatient nc net =
     (if nc_verdict nc = Watching \<and> now net \<ge> 900000000 then Some (nc\<lparr>nc_verdict := Impatient\<rparr>) else None)"

subsection \<open>The program\<close>

record ct_state =
  ct_servers :: "nat \<Rightarrow> server"
  ct_net :: "message network"
  ct_nancy :: nancy

text \<open>\<^verbatim>\<open>try_one_seed\<close>: the servers' colors, and the color required of the outcome.\<close>

fun required_consensus :: "string list \<Rightarrow> string" where
  "required_consensus [] = []"
| "required_consensus (c # cs) = (if list_all (\<lambda>d. d = c) cs then c else [])"

definition ct_init :: "string list \<Rightarrow> ct_state" where
  "ct_init colors = \<lparr>ct_servers = (\<lambda>i. server_new (if i < length colors then colors ! i else [])),
     ct_net = network_new, ct_nancy = nancy_new\<rparr>"

datatype ct_choice = Deliver nat | Run nat | Timeout nat | Nancy | Impatience | Wait int

definition ct_step :: "string list \<Rightarrow> ct_choice \<Rightarrow> ct_state \<Rightarrow> ct_state option" where
  "ct_step colors ch st =
     (let n = length colors; net = ct_net st
      in case ch of
        Deliver k \<Rightarrow>
          if k < length (flight net) \<and> fl_due (flight net ! k) \<le> now net
          then Some (st\<lparr>ct_net := deliver k net\<rparr>) else None
      | Run i \<Rightarrow>
          if i < n then map_option (\<lambda>(sv, net). st\<lparr>ct_servers := (ct_servers st)(i := sv), ct_net := net\<rparr>)
                          (server_step n i (ct_servers st i) net)
          else None
      | Timeout i \<Rightarrow>
          if i < n then map_option (\<lambda>sv. st\<lparr>ct_servers := (ct_servers st)(i := sv)\<rparr>)
                          (server_timeout (ct_servers st i) net)
          else None
      | Nancy \<Rightarrow> map_option (\<lambda>(nc, net). st\<lparr>ct_nancy := nc, ct_net := net\<rparr>)
                   (nancy_step n (required_consensus colors) (ct_nancy st) net)
      | Impatience \<Rightarrow> map_option (\<lambda>nc. st\<lparr>ct_nancy := nc\<rparr>) (nancy_is_impatient (ct_nancy st) net)
      | Wait t \<Rightarrow> if t > 0 then Some (st\<lparr>ct_net := net\<lparr>now := now net + t\<rparr>\<rparr>) else None)"

inductive ct_reach :: "string list \<Rightarrow> ct_state \<Rightarrow> bool" for colors where
  ct_start: "ct_reach colors (ct_init colors)"
| ct_next: "ct_reach colors st \<Longrightarrow> ct_step colors ch st = Some st' \<Longrightarrow> ct_reach colors st'"

fun ct_run :: "string list \<Rightarrow> ct_choice list \<Rightarrow> ct_state \<Rightarrow> ct_state option" where
  "ct_run colors [] st = Some st"
| "ct_run colors (ch # chs) st =
     (case ct_step colors ch st of None \<Rightarrow> None | Some st \<Rightarrow> ct_run colors chs st)"

lemma ct_run_reach: "ct_reach colors st \<Longrightarrow> ct_run colors chs st = Some st' \<Longrightarrow> ct_reach colors st'"
  by (induction chs arbitrary: st) (auto split: option.splits intro: ct_next)

end
