(* ===== verification/ConsensusLog.thy ===== *)
theory ConsensusLog
  imports Consensus
begin

text \<open>
  Agreement, as a property of the log of messages alone: if the log obeys the rules that the
  servers keep, two chosen colors are equal. The rules are the fields of \<open>log_inv\<close>; that every
  step keeps them is shown in \<open>ConsensusInv\<close>.
\<close>

type_synonym log = "(id_type \<times> id_type \<times> message) list"

definition says :: "log \<Rightarrow> nat \<Rightarrow> message \<Rightarrow> bool" where
  "says L i m \<longleftrightarrow> (\<exists>d. (int i, d, m) \<in> set L)"

definition proposed_in :: "log \<Rightarrow> nat \<Rightarrow> string \<Rightarrow> bool" where
  "proposed_in L r c \<longleftrightarrow> (\<exists>i m. says L i m \<and> m_type m = M_propose \<and> m_round m = r \<and> m_color m = c)"

definition acked_in :: "log \<Rightarrow> nat \<Rightarrow> nat \<Rightarrow> bool" where
  "acked_in L r i \<longleftrightarrow> (\<exists>m. says L i m \<and> m_type m = M_ack \<and> m_round m = r \<and> m_ack m)"

text \<open>A majority acknowledged the proposal of a round.\<close>

definition chosen :: "nat \<Rightarrow> log \<Rightarrow> string \<Rightarrow> bool" where
  "chosen n L c \<longleftrightarrow> (\<exists>r. proposed_in L r c \<and> (\<exists>A \<subseteq> {..<n}. card A > n div 2 \<and> (\<forall>i \<in> A. acked_in L r i)))"

text \<open>
  Why a color could be proposed in a round: a majority reported its estimates for that round, none
  newer than \<open>cr\<close>, and the color was proposed in round \<open>cr\<close>, or \<open>cr\<close> is zero.
\<close>

definition evidence :: "nat \<Rightarrow> log \<Rightarrow> nat \<Rightarrow> string \<Rightarrow> bool" where
  "evidence n L r c \<longleftrightarrow> (\<exists>Q cr. Q \<subseteq> {..<n} \<and> card Q > n div 2
     \<and> (\<forall>i \<in> Q. \<exists>m. says L i m \<and> m_type m = M_prepare \<and> m_round m = r \<and> m_color_round m \<le> cr)
     \<and> (cr = 0 \<or> cr < r \<and> proposed_in L cr c))"

definition entry_of :: "nat \<Rightarrow> message_type \<Rightarrow> nat \<Rightarrow> id_type \<times> id_type \<times> message \<Rightarrow> bool" where
  "entry_of i t r = (\<lambda>(f, d, m). f = int i \<and> m_type m = t \<and> m_round m = r)"

definition log_inv :: "string set \<Rightarrow> nat \<Rightarrow> log \<Rightarrow> bool" where
  "log_inv C n L \<longleftrightarrow>
     (\<forall>i t r. t = M_prepare \<or> t = M_ack \<longrightarrow> length (filter (entry_of i t r) L) \<le> 1)
   \<and> (\<forall>f d m. (f, d, m) \<in> set L \<longrightarrow> (\<exists>i < n. f = int i))
   \<and> (\<forall>i m. says L i m \<and> m_type m = M_propose \<longrightarrow> i = m_round m mod n \<and> evidence n L (m_round m) (m_color m))
   \<and> (\<forall>i m m'. says L i m \<and> says L i m' \<and> m_type m = M_propose \<and> m_type m' = M_propose
        \<and> m_round m = m_round m' \<longrightarrow> m_color m = m_color m')
   \<and> (\<forall>i a p. says L i a \<and> says L i p \<and> m_type a = M_ack \<and> m_ack a \<and> m_type p = M_prepare
        \<and> m_round a < m_round p \<longrightarrow> m_round a \<le> m_color_round p)
   \<and> (\<forall>i m. says L i m \<and> m_type m = M_ack \<longrightarrow> m_round m > 0)
   \<and> (\<forall>i m. says L i m \<and> m_type m = M_prepare \<longrightarrow>
        m_color_round m < m_round m \<and> (m_color_round m = 0 \<or> proposed_in L (m_color_round m) (m_color m)))
   \<and> (\<forall>i m. says L i m \<and> m_type m = M_decide \<longrightarrow> chosen n L (m_color m))
   \<and> (\<forall>i m. says L i m \<and> m_type m \<noteq> M_ack \<longrightarrow> m_color m \<in> C)"

lemma log_invD:
  assumes "log_inv C n L"
  shows "t = M_prepare \<or> t = M_ack \<Longrightarrow> length (filter (entry_of i t r) L) \<le> 1"
    and "(f, d, m) \<in> set L \<Longrightarrow> \<exists>i < n. f = int i"
    and "says L i m \<Longrightarrow> m_type m = M_propose \<Longrightarrow> i = m_round m mod n \<and> evidence n L (m_round m) (m_color m)"
    and "says L i m \<Longrightarrow> says L i m' \<Longrightarrow> m_type m = M_propose \<Longrightarrow> m_type m' = M_propose \<Longrightarrow>
        m_round m = m_round m' \<Longrightarrow> m_color m = m_color m'"
    and "says L i a \<Longrightarrow> says L i p \<Longrightarrow> m_type a = M_ack \<Longrightarrow> m_ack a \<Longrightarrow> m_type p = M_prepare \<Longrightarrow>
        m_round a < m_round p \<Longrightarrow> m_round a \<le> m_color_round p"
    and "says L i m \<Longrightarrow> m_type m = M_ack \<Longrightarrow> m_round m > 0"
    and "says L i m \<Longrightarrow> m_type m = M_prepare \<Longrightarrow>
        m_color_round m < m_round m \<and> (m_color_round m = 0 \<or> proposed_in L (m_color_round m) (m_color m))"
    and "says L i m \<Longrightarrow> m_type m = M_decide \<Longrightarrow> chosen n L (m_color m)"
    and "says L i m \<Longrightarrow> m_type m \<noteq> M_ack \<Longrightarrow> m_color m \<in> C"
proof -
  note a1 = assms [unfolded log_inv_def]
  note a2 = conjunct2 [OF a1] note a3 = conjunct2 [OF a2] note a4 = conjunct2 [OF a3]
  note a5 = conjunct2 [OF a4] note a6 = conjunct2 [OF a5] note a7 = conjunct2 [OF a6]
  note a8 = conjunct2 [OF a7] note a9 = conjunct2 [OF a8]
  show "t = M_prepare \<or> t = M_ack \<Longrightarrow> length (filter (entry_of i t r) L) \<le> 1"
    using conjunct1 [OF a1] by blast
  show "(f, d, m) \<in> set L \<Longrightarrow> \<exists>i < n. f = int i"
    using conjunct1 [OF a2] by blast
  show "says L i m \<Longrightarrow> m_type m = M_propose \<Longrightarrow> i = m_round m mod n \<and> evidence n L (m_round m) (m_color m)"
    using conjunct1 [OF a3] by blast
  show "says L i m \<Longrightarrow> says L i m' \<Longrightarrow> m_type m = M_propose \<Longrightarrow> m_type m' = M_propose \<Longrightarrow>
        m_round m = m_round m' \<Longrightarrow> m_color m = m_color m'"
    using conjunct1 [OF a4] by blast
  show "says L i a \<Longrightarrow> says L i p \<Longrightarrow> m_type a = M_ack \<Longrightarrow> m_ack a \<Longrightarrow> m_type p = M_prepare \<Longrightarrow>
        m_round a < m_round p \<Longrightarrow> m_round a \<le> m_color_round p"
    using conjunct1 [OF a5] by blast
  show "says L i m \<Longrightarrow> m_type m = M_ack \<Longrightarrow> m_round m > 0"
    using conjunct1 [OF a6] by blast
  show "says L i m \<Longrightarrow> m_type m = M_prepare \<Longrightarrow>
        m_color_round m < m_round m \<and> (m_color_round m = 0 \<or> proposed_in L (m_color_round m) (m_color m))"
    using conjunct1 [OF a7] by blast
  show "says L i m \<Longrightarrow> m_type m = M_decide \<Longrightarrow> chosen n L (m_color m)"
    using conjunct1 [OF a8] by blast
  show "says L i m \<Longrightarrow> m_type m \<noteq> M_ack \<Longrightarrow> m_color m \<in> C"
    using a9 by blast
qed

subsection \<open>A longer log\<close>

lemma says_append [simp]: "says (L @ [(f, d, m)]) i x \<longleftrightarrow> says L i x \<or> (f = int i \<and> x = m)"
  by (auto simp: says_def)

lemma says_mono: "says L i m \<Longrightarrow> says (L @ [e]) i m"
  by (auto simp: says_def)

lemma proposed_in_append: "proposed_in L r c \<Longrightarrow> proposed_in (L @ [e]) r c"
  by (cases e) (auto simp: proposed_in_def)

lemma acked_in_append: "acked_in L r i \<Longrightarrow> acked_in (L @ [e]) r i"
  by (cases e) (auto simp: acked_in_def)

lemma chosen_append: "chosen n L c \<Longrightarrow> chosen n (L @ [e]) c"
proof -
  assume "chosen n L c"
  then obtain r A where "proposed_in L r c" "A \<subseteq> {..<n}" "card A > n div 2" "\<forall>i \<in> A. acked_in L r i"
    by (auto simp: chosen_def)
  moreover from this have "proposed_in (L @ [e]) r c" "\<forall>i \<in> A. acked_in (L @ [e]) r i"
    using proposed_in_append acked_in_append by simp_all
  ultimately show ?thesis unfolding chosen_def by metis
qed

lemma evidence_append: "evidence n L r c \<Longrightarrow> evidence n (L @ [e]) r c"
proof -
  assume "evidence n L r c"
  then obtain Q cr where Q: "Q \<subseteq> {..<n}" "card Q > n div 2"
    "\<forall>i \<in> Q. \<exists>m. says L i m \<and> m_type m = M_prepare \<and> m_round m = r \<and> m_color_round m \<le> cr"
    "cr = 0 \<or> cr < r \<and> proposed_in L cr c"
    by (auto simp: evidence_def)
  have "\<forall>i \<in> Q. \<exists>m. says (L @ [e]) i m \<and> m_type m = M_prepare \<and> m_round m = r \<and> m_color_round m \<le> cr"
    using Q(3) says_mono by blast
  moreover have "cr = 0 \<or> cr < r \<and> proposed_in (L @ [e]) cr c"
    using Q(4) proposed_in_append by blast
  ultimately show ?thesis using Q(1,2) unfolding evidence_def by blast
qed

subsection \<open>Agreement\<close>

lemma majorities_meet:
  assumes "A \<subseteq> {..<n}" "Q \<subseteq> {..<n}" "card A > n div 2" "card Q > n div 2"
  shows "\<exists>i. i \<in> A \<and> i \<in> Q"
proof (rule ccontr)
  assume "\<not> (\<exists>i. i \<in> A \<and> i \<in> Q)"
  then have "card (A \<union> Q) = card A + card Q"
    using assms(1,2) by (intro card_Un_disjoint) (auto intro: finite_subset)
  moreover have "card (A \<union> Q) \<le> n"
    using assms(1,2) card_mono [of "{..<n}" "A \<union> Q"] by simp
  ultimately show False using assms(3,4) by linarith
qed

lemma chosen_color:
  assumes "log_inv C n L" "chosen n L c"
  shows "c \<in> C"
proof -
  obtain r i m where "says L i m" "m_type m = M_propose" "m_color m = c"
    using assms(2) by (auto simp: chosen_def proposed_in_def)
  then show ?thesis using log_invD(9) [OF assms(1), of i m] by simp
qed

text \<open>Once a majority has acknowledged a round, later rounds can only propose its color.\<close>

lemma locked:
  assumes "log_inv C n L" "proposed_in L r c" "A \<subseteq> {..<n}" "card A > n div 2" "\<forall>i \<in> A. acked_in L r i"
  shows "proposed_in L r' c' \<Longrightarrow> r \<le> r' \<Longrightarrow> c' = c"
proof (induction r' rule: less_induct)
  case (less r')
  obtain i m where m: "says L i m" "m_type m = M_propose" "m_round m = r'" "m_color m = c'"
    using less(2) by (auto simp: proposed_in_def)
  show ?case
  proof (cases "r = r'")
    case True
    obtain i' m' where m': "says L i' m'" "m_type m' = M_propose" "m_round m' = r" "m_color m' = c"
      using assms(2) by (auto simp: proposed_in_def)
    have "i' = i" using log_invD(3) [OF assms(1) m(1,2)] log_invD(3) [OF assms(1) m'(1,2)] m(3) m'(3) True
      by simp
    with log_invD(4) [OF assms(1) m(1) _ m(2) m'(2)] m m' True show ?thesis by simp
  next
    case False
    then have lt: "r < r'" using less(3) by simp
    obtain Q cr where Q: "Q \<subseteq> {..<n}" "card Q > n div 2"
      "\<forall>i \<in> Q. \<exists>m. says L i m \<and> m_type m = M_prepare \<and> m_round m = r' \<and> m_color_round m \<le> cr"
      "cr = 0 \<or> cr < r' \<and> proposed_in L cr c'"
      using log_invD(3) [OF assms(1) m(1,2)] m(3,4) by (auto simp: evidence_def)
    obtain j where j: "j \<in> A" "j \<in> Q" using majorities_meet [OF assms(3) Q(1) assms(4) Q(2)] by blast
    obtain a where a: "says L j a" "m_type a = M_ack" "m_round a = r" "m_ack a"
      using assms(5) j(1) by (auto simp: acked_in_def)
    obtain p where p: "says L j p" "m_type p = M_prepare" "m_round p = r'" "m_color_round p \<le> cr"
      using Q(3) j(2) by blast
    have "r \<le> cr" using log_invD(5) [OF assms(1) a(1) p(1) a(2,4) p(2)] a(3) p(3,4) lt by simp
    moreover have "r > 0" using log_invD(6) [OF assms(1) a(1,2)] a(3) by simp
    ultimately show ?thesis using Q(4) less(1) [of cr] by auto
  qed
qed

lemma chosen_agree:
  assumes "log_inv C n L" "chosen n L c" "chosen n L c'"
  shows "c = c'"
proof -
  obtain r A where r: "proposed_in L r c" "A \<subseteq> {..<n}" "card A > n div 2" "\<forall>i \<in> A. acked_in L r i"
    using assms(2) by (auto simp: chosen_def)
  obtain r' A' where r': "proposed_in L r' c'" "A' \<subseteq> {..<n}" "card A' > n div 2" "\<forall>i \<in> A'. acked_in L r' i"
    using assms(3) by (auto simp: chosen_def)
  show ?thesis
  proof (cases "r \<le> r'")
    case True
    with locked [OF assms(1) r r'(1)] show ?thesis by simp
  next
    case False
    with locked [OF assms(1) r' r(1)] show ?thesis by simp
  qed
qed

subsection \<open>Messages that keep the rules\<close>

lemma log_inv_append:
  assumes "log_inv C n L" "i < n" "m_type m \<noteq> M_ack \<Longrightarrow> m_color m \<in> C"
    and "m_type m = M_prepare \<or> m_type m = M_ack \<Longrightarrow> filter (entry_of i (m_type m) (m_round m)) L = []"
    and "m_type m = M_propose \<Longrightarrow> i = m_round m mod n \<and> evidence n L (m_round m) (m_color m)
          \<and> (\<forall>m'. says L i m' \<and> m_type m' = M_propose \<and> m_round m' = m_round m \<longrightarrow> m_color m' = m_color m)"
    and "m_type m = M_ack \<Longrightarrow> m_round m > 0
          \<and> (\<forall>p. says L i p \<and> m_type p = M_prepare \<longrightarrow> m_round p \<le> m_round m)"
    and "m_type m = M_prepare \<Longrightarrow> m_color_round m < m_round m
          \<and> (m_color_round m = 0 \<or> proposed_in L (m_color_round m) (m_color m))
          \<and> (\<forall>a. says L i a \<and> m_type a = M_ack \<and> m_ack a \<and> m_round a < m_round m \<longrightarrow> m_round a \<le> m_color_round m)"
    and "m_type m = M_decide \<Longrightarrow> chosen n L (m_color m)"
  shows "log_inv C n (L @ [(int i, d, m)])"
  unfolding log_inv_def
proof (intro conjI allI impI; (elim conjE)?)
  fix j t r
  assume t: "t = M_prepare \<or> t = M_ack"
  have old: "length (filter (entry_of j t r) L) \<le> 1" using log_invD(1) [OF assms(1) t] .
  show "length (filter (entry_of j t r) (L @ [(int i, d, m)])) \<le> 1"
  proof (cases "entry_of j t r (int i, d, m)")
    case True
    then have "j = i" "t = m_type m" "r = m_round m" by (auto simp: entry_of_def)
    then show ?thesis using assms(4) t by auto
  next
    case False
    then show ?thesis using old by simp
  qed
next
  fix f e x
  assume "(f, e, x) \<in> set (L @ [(int i, d, m)])"
  then show "\<exists>k<n. f = int k" using log_invD(2) [OF assms(1), of f e x] assms(2) by auto
next
  fix j x
  assume "says (L @ [(int i, d, m)]) j x" "m_type x = M_propose"
  then show "j = m_round x mod n" using log_invD(3) [OF assms(1), of j x] assms(5) by auto
next
  fix j x
  assume "says (L @ [(int i, d, m)]) j x" "m_type x = M_propose"
  then show "evidence n (L @ [(int i, d, m)]) (m_round x) (m_color x)"
    using log_invD(3) [OF assms(1), of j x] assms(5) by (auto intro!: evidence_append)
next
  fix j x y
  assume "says (L @ [(int i, d, m)]) j x" "says (L @ [(int i, d, m)]) j y" "m_type x = M_propose"
    "m_type y = M_propose" "m_round x = m_round y"
  note xy = this
  have "says L j x \<or> j = i \<and> x = m" "says L j y \<or> j = i \<and> y = m" using xy(1,2) by auto
  moreover have "m_color z = m_color m" if "says L i z" "m_type z = M_propose" "m_round z = m_round m"
    "m_type m = M_propose" for z using assms(5) that by blast
  ultimately show "m_color x = m_color y"
    using log_invD(4) [OF assms(1), of j x y] xy(3-5) by metis
next
  fix j a p
  assume "says (L @ [(int i, d, m)]) j a" "says (L @ [(int i, d, m)]) j p" "m_type a = M_ack" "m_ack a"
    "m_type p = M_prepare" "m_round a < m_round p"
  then show "m_round a \<le> m_color_round p"
    using log_invD(5) [OF assms(1), of j a p] assms(6,7) by fastforce
next
  fix j x
  assume "says (L @ [(int i, d, m)]) j x" "m_type x = M_ack"
  then show "0 < m_round x" using log_invD(6) [OF assms(1), of j x] assms(6) by auto
next
  fix j x
  assume "says (L @ [(int i, d, m)]) j x" "m_type x = M_prepare"
  then show "m_color_round x < m_round x" using log_invD(7) [OF assms(1), of j x] assms(7) by auto
next
  fix j x
  assume "says (L @ [(int i, d, m)]) j x" "m_type x = M_prepare"
  then show "m_color_round x = 0 \<or> proposed_in (L @ [(int i, d, m)]) (m_color_round x) (m_color x)"
    using log_invD(7) [OF assms(1), of j x] assms(7) by (auto intro!: proposed_in_append)
next
  fix j x
  assume "says (L @ [(int i, d, m)]) j x" "m_type x = M_decide"
  then show "chosen n (L @ [(int i, d, m)]) (m_color x)"
    using log_invD(8) [OF assms(1), of j x] assms(8) by (auto intro!: chosen_append)
next
  fix j x
  assume "says (L @ [(int i, d, m)]) j x" "m_type x \<noteq> M_ack"
  then show "m_color x \<in> C" using log_invD(9) [OF assms(1), of j x] assms(3) by auto
qed

text \<open>A server that says nothing of a type and round has no such entry.\<close>

lemma no_entry:
  assumes "\<And>x. says L i x \<Longrightarrow> m_type x = t \<Longrightarrow> m_round x \<noteq> r"
  shows "filter (entry_of i t r) L = []"
  using assms by (fastforce simp: filter_empty_conv entry_of_def says_def)

subsection \<open>Counting messages counts servers\<close>

definition msgs_to :: "id_type \<Rightarrow> log \<Rightarrow> message multiset" where
  "msgs_to j L = mset (map (\<lambda>(f, d, m). m) (filter (\<lambda>(f, d, m). d = j) L))"

lemma msgs_to_append [simp]: "msgs_to j (L @ [(f, d, m)]) = msgs_to j L + (if d = j then {#m#} else {#})"
  by (simp add: msgs_to_def)

lemma in_msgs_to: "m \<in># msgs_to j L \<Longrightarrow> \<exists>f. (f, j, m) \<in> set L"
  by (auto simp: msgs_to_def)

lemma sub_image_mset: "R \<subseteq># image_mset g M \<Longrightarrow> \<exists>M'. M' \<subseteq># M \<and> R = image_mset g M'"
proof (induction R arbitrary: M)
  case empty
  then show ?case by (intro exI [of _ "{#}"]) simp
next
  case (add x R)
  then obtain y where y: "y \<in># M" "g y = x" by (metis imageE insert_subset_eq_iff set_image_mset)
  have "R \<subseteq># image_mset g (M - {#y#})"
    using add(2) y by (simp add: image_mset_Diff insert_subset_eq_iff)
  from add(1) [OF this] obtain M' where M': "M' \<subseteq># M - {#y#}" "R = image_mset g M'" by blast
  have "add_mset y M' \<subseteq># M" using M'(1) y(1) by (simp add: insert_subset_eq_iff)
  with M'(2) y(2) show ?case by (intro exI [of _ "add_mset y M'"]) simp
qed

text \<open>A multiset with no two elements of the same key has as many elements as keys.\<close>

lemma distinct_keys:
  assumes one: "\<And>k. size {#e \<in># M. g e = k#} \<le> 1"
  shows "card (g ` set_mset M) = size M"
proof -
  have inj: "inj_on g (set_mset M)"
  proof (rule inj_onI, rule ccontr)
    fix x y
    assume xy: "x \<in># M" "y \<in># M" "g x = g y" "x \<noteq> y"
    then have "{#x, y#} \<subseteq># {#e \<in># M. g e = g x#}" by (simp add: insert_subset_eq_iff in_diff_count)
    from size_mset_mono [OF this] one [of "g x"] show False by simp
  qed
  have cnt: "count M e = 1" if "e \<in># M" for e
  proof -
    have "count M e = count {#x \<in># M. g x = g e#} e" by simp
    also have "\<dots> \<le> size {#x \<in># M. g x = g e#}" by (rule count_le_size)
    finally have "count M e \<le> 1" using one [of "g e"] by simp
    then show ?thesis using that by (metis count_eq_zero_iff le_antisym less_one not_less)
  qed
  have "M = mset_set (set_mset M)"
  proof (rule multiset_eqI)
    fix e
    show "count M e = count (mset_set (set_mset M)) e"
      using cnt [of e] by (cases "e \<in># M") (simp_all add: count_eq_zero_iff)
  qed
  then have "size M = card (set_mset M)" by (metis finite_set_mset size_mset_set)
  then show ?thesis using card_image [OF inj] by simp
qed

text \<open>
  Messages of one type and round, as many as were received, come from as many servers.
\<close>

lemma senders:
  assumes "log_inv C n L" "R \<subseteq># msgs_to j L" "t = M_prepare \<or> t = M_ack"
    and "\<forall>m \<in># R. m_type m = t \<and> m_round m = r"
  shows "\<exists>Q \<subseteq> {..<n}. card Q = size R \<and> (\<forall>i \<in> Q. \<exists>m. says L i m \<and> m \<in># R)"
proof -
  let ?g = "\<lambda>(f, d, m). m :: message" and ?from = "\<lambda>e :: id_type \<times> id_type \<times> message. nat (fst e)"
  have "R \<subseteq># image_mset ?g (mset L)"
    using assms(2) unfolding msgs_to_def mset_map
    by (metis (no_types, lifting) image_mset_subseteq_mono mset_filter multiset_filter_subset subset_mset.order_trans)
  then obtain M where M: "M \<subseteq># mset L" "R = image_mset ?g M" using sub_image_mset by blast
  have in_log: "e \<in> set L" if "e \<in># M" for e using that M(1) by (auto dest: mset_subset_eqD)
  have in_R: "m \<in># R" if "(f, d, m) \<in># M" for f d m using that M(2) by force
  have ent: "entry_of (?from e) t r e" if e0: "e \<in># M" for e
  proof -
    obtain f d m where e: "e = (f, d, m)" by (metis prod_cases3)
    obtain i where "f = int i" using log_invD(2) [OF assms(1)] in_log [OF e0] e by blast
    then show ?thesis using assms(4) e in_R e0 by (simp add: entry_of_def)
  qed
  have "size {#e \<in># M. ?from e = i#} \<le> 1" for i
  proof -
    have key: "?from e = i \<longleftrightarrow> entry_of i t r e" if "e \<in># M" for e
    proof
      show "entry_of i t r e" if "?from e = i" using ent [OF \<open>e \<in># M\<close>] that by simp
      show "?from e = i" if "entry_of i t r e" using that by (cases e) (simp add: entry_of_def)
    qed
    have "{#e \<in># M. ?from e = i#} = {#e \<in># M. entry_of i t r e#}"
      by (rule filter_mset_cong [OF refl]) (rule key)
    also have "\<dots> \<subseteq># mset (filter (entry_of i t r) L)" using multiset_filter_mono [OF M(1)] by simp
    finally have "size {#e \<in># M. ?from e = i#} \<le> length (filter (entry_of i t r) L)"
      using size_mset_mono by (metis size_mset)
    with log_invD(1) [OF assms(1,3)] show ?thesis by (meson le_trans)
  qed
  from distinct_keys [OF this] have "card (?from ` set_mset M) = size R" by (simp add: M(2))
  moreover have "(\<exists>m. says L i m \<and> m \<in># R) \<and> i < n" if i: "i \<in> ?from ` set_mset M" for i
  proof -
    obtain f d m where e: "(f, d, m) \<in># M" "i = nat f" using i by auto
    then show ?thesis using log_invD(2) [OF assms(1) in_log [OF e(1)]] in_R [OF e(1)] in_log [OF e(1)]
      by (auto simp: says_def)
  qed
  ultimately show ?thesis by (intro exI [of _ "?from ` set_mset M"]) auto
qed

end
