(* ===== verification/ConsensusInv.thy ===== *)
theory ConsensusInv
  imports ConsensusLog
begin

text \<open>
  Every step of the servers keeps the rules of the log, so in every reachable state all decisions
  agree; the colors are colors that some server started with; and Nancy sees no error.
\<close>

subsection \<open>What a server knows at each program point\<close>

fun asked :: "point \<Rightarrow> bool" where
  "asked At_loop = False"
| "asked Next_round = False"
| "asked _ = True"

text \<open>The points at which a proposal for the current round may have been sent.\<close>

fun offered :: "point \<Rightarrow> bool" where
  "offered At_loop = False"
| "offered Next_round = False"
| "offered Sent_prepare = False"
| "offered (Prepare_loop _) = False"
| "offered (Prepare_receive _) = False"
| "offered _ = True"

text \<open>The points at which the current round was answered.\<close>

fun answered :: "point \<Rightarrow> bool" where
  "answered At_loop = False"
| "answered Next_round = False"
| "answered Sent_prepare = False"
| "answered (Prepare_loop _) = False"
| "answered (Prepare_receive _) = False"
| "answered (Propose_loop _ _) = False"
| "answered (Sent_propose _ _) = False"
| "answered Propose_receive = False"
| "answered (Proposed _) = False"
| "answered _ = True"

text \<open>The points at which the server may have adopted the proposal of the current round.\<close>

fun voting :: "point \<Rightarrow> bool" where
  "voting (Proposed _) = True"
| "voting pt = answered pt"

fun leading :: "point \<Rightarrow> bool" where
  "leading (Prepare_loop _) = True"
| "leading (Prepare_receive _) = True"
| "leading (Propose_loop _ _) = True"
| "leading (Sent_propose _ _) = True"
| "leading (Ack_loop _ _) = True"
| "leading (Ack_receive _ _) = True"
| "leading _ = False"

text \<open>The points at which the leader has sent its proposal to everybody.\<close>

fun after_offer :: "point \<Rightarrow> bool" where
  "after_offer Propose_receive = True"
| "after_offer (Proposed _) = True"
| "after_offer Sent_ack = True"
| "after_offer (Ack_loop _ _) = True"
| "after_offer (Ack_receive _ _) = True"
| "after_offer _ = False"

text \<open>The points at which \<open>receive\<close> runs.\<close>

fun receiving :: "point \<Rightarrow> bool" where
  "receiving (Prepare_receive _) = True"
| "receiving Propose_receive = True"
| "receiving (Ack_receive _ _) = True"
| "receiving _ = False"

text \<open>What the messages received in this phase were.\<close>

definition counted_ok :: "point \<Rightarrow> server \<Rightarrow> message multiset \<Rightarrow> bool" where
  "counted_ok pt sv R \<longleftrightarrow>
     (case pt of
        Prepare_loop k \<Rightarrow> size R = k \<and> (\<forall>m \<in># R. m_type m = M_prepare \<and> m_round m = sv_round sv
          \<and> m_color_round m \<le> sv_color_round sv)
      | Prepare_receive k \<Rightarrow> size R = k \<and> (\<forall>m \<in># R. m_type m = M_prepare \<and> m_round m = sv_round sv
          \<and> m_color_round m \<le> sv_color_round sv)
      | Ack_loop s t \<Rightarrow> size R = s \<and> (\<forall>m \<in># R. m_type m = M_ack \<and> m_round m = sv_round sv \<and> m_ack m)
      | Ack_receive s t \<Rightarrow> size R = s \<and> (\<forall>m \<in># R. m_type m = M_ack \<and> m_round m = sv_round sv \<and> m_ack m)
      | _ \<Rightarrow> R = {#})"

definition point_ok :: "nat \<Rightarrow> log \<Rightarrow> server \<Rightarrow> bool" where
  "point_ok n L sv \<longleftrightarrow>
     (case sv_point sv of
        Propose_loop j m \<Rightarrow> \<not> sv_decided sv \<and> m = propose_message (sv_round sv) (sv_color sv)
          \<and> evidence n L (sv_round sv) (sv_color sv) \<and> (j > 0 \<longrightarrow> proposed_in L (sv_round sv) (sv_color sv))
      | Sent_propose j m \<Rightarrow> \<not> sv_decided sv \<and> m = propose_message (sv_round sv) (sv_color sv)
          \<and> evidence n L (sv_round sv) (sv_color sv) \<and> proposed_in L (sv_round sv) (sv_color sv)
      | Proposed (Some m) \<Rightarrow> sv_decided sv \<or> proposed_in L (sv_round sv) (m_color m)
      | Decided \<Rightarrow> sv_decided sv
      | Sent_nancy m \<Rightarrow> sv_decided sv \<and> m = decide_message (sv_color sv)
      | Decide_loop j m \<Rightarrow> sv_decided sv \<and> m = decide_message (sv_color sv)
      | Sent_decide j m \<Rightarrow> sv_decided sv \<and> m = decide_message (sv_color sv)
      | Finished \<Rightarrow> sv_decided sv
      | _ \<Rightarrow> True)"

text \<open>\<open>P\<close> is what is pending at the server's port.\<close>

definition sent_ok :: "log \<Rightarrow> nat \<Rightarrow> server \<Rightarrow> bool" where
  "sent_ok L i sv \<longleftrightarrow>
     (\<forall>m. says L i m \<longrightarrow> m_type m = M_prepare \<longrightarrow>
        m_round m \<le> sv_round sv \<and> (m_round m = sv_round sv \<longrightarrow> asked (sv_point sv)))
   \<and> (\<forall>m. says L i m \<longrightarrow> m_type m = M_ack \<longrightarrow>
        m_round m \<le> sv_round sv \<and> (m_round m = sv_round sv \<longrightarrow> answered (sv_point sv))
        \<and> (m_ack m \<longrightarrow> sv_decided sv \<or> m_round m \<le> sv_color_round sv))
   \<and> (\<forall>m. says L i m \<longrightarrow> m_type m = M_propose \<longrightarrow>
        m_round m \<le> sv_round sv \<and> (m_round m = sv_round sv \<longrightarrow> offered (sv_point sv)
          \<and> (\<not> sv_decided sv \<and> \<not> after_offer (sv_point sv) \<longrightarrow> m_color m = sv_color sv)))"

definition color_ok :: "nat \<Rightarrow> log \<Rightarrow> nat \<Rightarrow> server \<Rightarrow> bool" where
  "color_ok n L i sv \<longleftrightarrow>
     (\<not> sv_decided sv \<longrightarrow>
        (sv_color_round sv = 0 \<or> proposed_in L (sv_color_round sv) (sv_color sv))
        \<and> (sv_color_round sv < sv_round sv \<or> sv_color_round sv = sv_round sv \<and> voting (sv_point sv))
        \<and> (after_offer (sv_point sv) \<and> i = sv_round sv mod n \<longrightarrow> proposed_in L (sv_round sv) (sv_color sv)))
   \<and> (sv_decided sv \<longrightarrow> chosen n L (sv_color sv))"

definition idle_ok :: "server \<Rightarrow> bool" where
  "idle_ok sv \<longleftrightarrow> sv_stash_size sv \<le> length (sv_stash sv)
     \<and> (sv_receive sv \<noteq> None \<longrightarrow> \<not> sv_decided sv \<and> receiving (sv_point sv))"

definition inbox_ok :: "log \<Rightarrow> message multiset \<Rightarrow> nat \<Rightarrow> server \<Rightarrow> bool" where
  "inbox_ok L P i sv \<longleftrightarrow> idle_ok sv
     \<and> (\<exists>R. P + mset (sv_stash sv) + R \<subseteq># msgs_to (int i) L \<and> (sv_decided sv \<or> counted_ok (sv_point sv) sv R))"

definition sv_inv :: "string set \<Rightarrow> nat \<Rightarrow> log \<Rightarrow> message multiset \<Rightarrow> nat \<Rightarrow> server \<Rightarrow> bool" where
  "sv_inv C n L P i sv \<longleftrightarrow> sv_round sv > 0 \<and> sv_color sv \<in> C
     \<and> (leading (sv_point sv) \<longrightarrow> i = sv_round sv mod n)
     \<and> sent_ok L i sv \<and> color_ok n L i sv \<and> point_ok n L sv \<and> inbox_ok L P i sv"

lemma sent_okD:
  assumes "sent_ok L i sv" "says L i m"
  shows "m_type m = M_prepare \<Longrightarrow>
        m_round m \<le> sv_round sv \<and> (m_round m = sv_round sv \<longrightarrow> asked (sv_point sv))"
    and "m_type m = M_ack \<Longrightarrow>
        m_round m \<le> sv_round sv \<and> (m_round m = sv_round sv \<longrightarrow> answered (sv_point sv))
        \<and> (m_ack m \<longrightarrow> sv_decided sv \<or> m_round m \<le> sv_color_round sv)"
    and "m_type m = M_propose \<Longrightarrow>
        m_round m \<le> sv_round sv \<and> (m_round m = sv_round sv \<longrightarrow> offered (sv_point sv)
          \<and> (\<not> sv_decided sv \<and> \<not> after_offer (sv_point sv) \<longrightarrow> m_color m = sv_color sv))"
  using assms unfolding sent_ok_def by simp_all

subsection \<open>Messages of other servers\<close>

text \<open>A server's knowledge survives messages of others and losses at its own port.\<close>

lemma point_ok_append:
  assumes "point_ok n L sv"
  shows "point_ok n (L @ [e]) sv"
  using assms evidence_append [of n L "sv_round sv" "sv_color sv" e]
    proposed_in_append [of L "sv_round sv" "sv_color sv" e]
    proposed_in_append [of L "sv_round sv" _ e]
  unfolding point_ok_def by (cases "sv_point sv") (auto split: option.splits)

lemma color_ok_append:
  assumes "color_ok n L i sv"
  shows "color_ok n (L @ [e]) i sv"
  using assms proposed_in_append [of L "sv_round sv" "sv_color sv" e]
    proposed_in_append [of L "sv_color_round sv" "sv_color sv" e] chosen_append [of n L "sv_color sv" e]
  unfolding color_ok_def by blast

text \<open>The inbox grows with the log.\<close>

lemma inbox_ok_append:
  assumes "inbox_ok L P i sv"
  shows "inbox_ok (L @ [(f, d, m)]) (P + (if d = int i then {#m#} else {#})) i sv"
proof -
  obtain R where R: "P + mset (sv_stash sv) + R \<subseteq># msgs_to (int i) L" "sv_decided sv \<or> counted_ok (sv_point sv) sv R"
    using assms by (auto simp: inbox_ok_def)
  have "(P + (if d = int i then {#m#} else {#})) + mset (sv_stash sv) + R \<subseteq># msgs_to (int i) (L @ [(f, d, m)])"
    using R(1) by (simp add: add.assoc)
  with R(2) assms show ?thesis unfolding inbox_ok_def by blast
qed

text \<open>
  The inbox shrinks when messages are lost, kept or counted; what counts is decided by the caller.
\<close>

lemma inbox_okI:
  assumes "P' + mset (sv_stash sv') + R \<subseteq># msgs_to (int i) L" "idle_ok sv'"
    and "sv_decided sv' \<or> counted_ok (sv_point sv') sv' R"
  shows "inbox_ok L P' i sv'"
  using assms by (auto simp: inbox_ok_def)

lemma inbox_drop:
  assumes "inbox_ok L P i sv" "P' + mset (sv_stash sv') \<subseteq># P + mset (sv_stash sv)"
    and "idle_ok sv'" "sv_decided sv' \<or> counted_ok (sv_point sv') sv' {#}"
  shows "inbox_ok L P' i sv'"
proof -
  obtain R where "P + mset (sv_stash sv) + R \<subseteq># msgs_to (int i) L" using assms(1) by (auto simp: inbox_ok_def)
  then have "P + mset (sv_stash sv) \<subseteq># msgs_to (int i) L" by (rule mset_subset_eq_add_left [THEN subset_mset.order_trans])
  from subset_mset.order_trans [OF assms(2) this] show ?thesis using assms(3,4) by (intro inbox_okI [of _ _ "{#}"]) simp_all
qed

lemma sv_inv_other:
  assumes "sv_inv C n L P i sv" "f \<noteq> int i"
  shows "sv_inv C n (L @ [(f, d, m)]) (P + (if d = int i then {#m#} else {#})) i sv"
proof -
  have "sent_ok (L @ [(f, d, m)]) i sv \<longleftrightarrow> sent_ok L i sv" using assms(2) by (simp add: sent_ok_def)
  with assms(1) show ?thesis unfolding sv_inv_def
    using color_ok_append point_ok_append inbox_ok_append by blast
qed

subsection \<open>Receiving\<close>

text \<open>
  One turn of \<open>receive\<close>: \<open>P\<close> and \<open>P'\<close> are what is pending at the port and in the stash. Nothing
  comes out of it that was not there; a message that is returned has the wanted type and round,
  unless the server has decided.
\<close>

definition same_place :: "server \<Rightarrow> server \<Rightarrow> bool" where
  "same_place sv sv' \<longleftrightarrow> sv_point sv' = sv_point sv \<and> sv_round sv' = sv_round sv \<and> sv_color_round sv' = sv_color_round sv"

definition received_ok ::
  "message_type \<Rightarrow> server \<Rightarrow> message multiset \<Rightarrow> receive_result \<Rightarrow> server \<Rightarrow> message multiset \<Rightarrow> bool" where
  "received_ok mt sv P r sv' P' \<longleftrightarrow> same_place sv sv' \<and> sv_stash_size sv' \<le> length (sv_stash sv')
     \<and> (sv_receive sv' \<noteq> None \<longrightarrow> r = Again \<and> \<not> sv_decided sv')
     \<and> (case r of
          Again \<Rightarrow> sv_color sv' = sv_color sv \<and> sv_decided sv' = sv_decided sv
            \<and> P' + mset (sv_stash sv') \<subseteq># P + mset (sv_stash sv)
        | Return m \<Rightarrow>
            sv_decided sv' \<and> m = fake_message mt sv' \<and> P' + mset (sv_stash sv') \<subseteq># P + mset (sv_stash sv)
              \<and> (sv_decided sv \<and> sv_color sv' = sv_color sv
                 \<or> (\<exists>d. d \<in># P + mset (sv_stash sv) \<and> m_type d = M_decide \<and> sv_color sv' = m_color d))
          \<or> sv_color sv' = sv_color sv \<and> \<not> sv_decided sv \<and> \<not> sv_decided sv' \<and> m_type m = mt \<and> m_round m = sv_round sv
              \<and> add_mset m (P' + mset (sv_stash sv')) = P + mset (sv_stash sv))"

lemma consider_message_ok:
  assumes "consider_message mt m sv = (r, sv')" "sv_stash_size sv \<le> length (sv_stash sv)"
    "sv_receive sv = None" "\<not> sv_decided sv"
  shows "received_ok mt sv (add_mset m P) r sv' P"
  using assms by (auto simp: consider_message_def received_ok_def same_place_def Let_def split: if_splits)

lemma received_ok_cong:
  assumes "received_ok mt sv P r sv' P'" "same_place sv0 sv" "sv_color sv = sv_color sv0"
    "sv_decided sv = sv_decided sv0" "P + mset (sv_stash sv) = P0 + mset (sv_stash sv0)"
  shows "received_ok mt sv0 P0 r sv' P'"
  using assms unfolding received_ok_def same_place_def by (simp split: receive_result.splits)

lemma server_receive_ok:
  assumes "server_receive i mt sv net = Some (r, sv', net')" "idle_ok sv"
  shows "received_ok mt sv (pending (int i) net) r sv' (pending (int i) net')
    \<and> net_log net' = net_log net \<and> (\<forall>j. j \<noteq> int i \<longrightarrow> pending j net' = pending j net)"
proof -
  have st: "sv_stash_size sv \<le> length (sv_stash sv)" using assms(2) by (simp add: idle_ok_def)
  have rx: "received_ok mt sv (pending (int i) net) r sv' (pending (int i) net')
      \<and> net_log net' = net_log net \<and> (\<forall>j. j \<noteq> int i \<longrightarrow> pending j net' = pending j net)"
    if und: "\<not> sv_decided sv" and q: "receive_with_id (int i) pt net = (q, net1)"
      and q': "(case q of Suspended pt' \<Rightarrow> r = Again \<and> sv' = sv\<lparr>sv_receive := Some pt'\<rparr> \<and> net' = net1
         | Received (m, _) \<Rightarrow> consider_message mt m (sv\<lparr>sv_receive := None\<rparr>) = (r, sv') \<and> net' = net1)" for pt q net1
  proof (cases q)
    case (Suspended pt')
    then show ?thesis using pending_receive [OF q] log_receive [OF q] q' st und
      by (simp add: received_ok_def same_place_def)
  next
    case (Received mi)
    obtain m f where mi: "mi = (m, f)" by (cases mi)
    have c: "consider_message mt m (sv\<lparr>sv_receive := None\<rparr>) = (r, sv')" "net' = net1" using q' Received mi by simp_all
    have "received_ok mt (sv\<lparr>sv_receive := None\<rparr>) (add_mset m (pending (int i) net')) r sv' (pending (int i) net')"
      using consider_message_ok [OF c(1)] st und by simp
    then have "received_ok mt sv (pending (int i) net) r sv' (pending (int i) net')"
      by (rule received_ok_cong) (simp_all add: same_place_def pending_receive [OF q] Received mi c(2))
    then show ?thesis using pending_receive [OF q] log_receive [OF q] Received mi c(2) by simp
  qed
  show ?thesis
  proof (cases "sv_receive sv")
    case None
    then have sv0: "sv\<lparr>sv_receive := None\<rparr> = sv" by simp
    consider (decided) "sv_decided sv" | (stash) "\<not> sv_decided sv" "sv_stash_size sv > 0"
      | (net) "\<not> sv_decided sv" "sv_stash_size sv = 0" by blast
    then show ?thesis
    proof cases
      case decided
      then show ?thesis using assms(1) st None by (auto simp: server_receive_def received_ok_def same_place_def)
    next
      case stash
      let ?sv = "sv\<lparr>sv_stash_size := sv_stash_size sv - 1, sv_stash := tl (sv_stash sv)\<rparr>"
      have ne: "sv_stash sv \<noteq> []" using stash(2) st by auto
      have "consider_message mt (hd (sv_stash sv)) ?sv = (r, sv')" "net' = net"
        using assms(1) None stash by (auto simp: server_receive_def pop_stash_def Let_def split: prod.splits)
      moreover have "sv_stash_size ?sv \<le> length (sv_stash ?sv)" "sv_receive ?sv = None" "\<not> sv_decided ?sv"
        using st None stash(1) by simp_all
      ultimately have "received_ok mt ?sv (add_mset (hd (sv_stash sv)) (pending (int i) net)) r sv' (pending (int i) net)"
        by (metis consider_message_ok)
      then have "received_ok mt sv (pending (int i) net) r sv' (pending (int i) net)"
        by (rule received_ok_cong) (use ne in \<open>simp_all add: same_place_def flip: mset.simps(2)\<close>)
      then show ?thesis using \<open>net' = net\<close> by simp
    next
      case net
      obtain q net1 where q: "receive_with_id (int i) Receive_start net = (q, net1)" by fastforce
      show ?thesis
        by (rule rx [OF _ q]) (use assms(1) None net q in \<open>auto simp: sv0 server_receive_def split: receive_step.splits prod.splits\<close>)
    qed
  next
    case (Some pt)
    have und: "\<not> sv_decided sv" using assms(2) Some by (simp add: idle_ok_def)
    obtain q net1 where q: "receive_with_id (int i) pt net = (q, net1)" by fastforce
    show ?thesis
      by (rule rx [OF _ q]) (use assms(1) Some q und in \<open>auto simp: server_receive_def split: receive_step.splits prod.splits if_splits\<close>)
  qed
qed

end
