(* ===== verification/ConsensusSteps.thy ===== *)
theory ConsensusSteps
  imports ConsensusInv
begin

text \<open>
  Each step of a server keeps what it knows, and each message it sends keeps the rules of the log.
\<close>

subsection \<open>Steps that send nothing\<close>

text \<open>A step that neither receives nor sends only has to give its new point what that needs.\<close>

definition same_colors :: "server \<Rightarrow> server \<Rightarrow> bool" where
  "same_colors sv sv' \<longleftrightarrow> sv_color sv' = sv_color sv \<and> sv_color_round sv' = sv_color_round sv
     \<and> sv_decided sv' = sv_decided sv \<and> sv_stash sv' = sv_stash sv"

lemma answered_voting: "answered pt \<Longrightarrow> voting pt"
  by (cases pt) simp_all

lemma sv_inv_goto:
  assumes "sv_inv C n L P i sv" "same_colors sv sv'" "sv_round sv' = sv_round sv"
    and "leading (sv_point sv') \<Longrightarrow> i = sv_round sv mod n"
    and "asked (sv_point sv) \<Longrightarrow> asked (sv_point sv')" "answered (sv_point sv) \<Longrightarrow> answered (sv_point sv')"
    and "offered (sv_point sv) \<Longrightarrow> offered (sv_point sv')"
    and "offered (sv_point sv) \<Longrightarrow> after_offer (sv_point sv) \<Longrightarrow> \<not> after_offer (sv_point sv') \<Longrightarrow> sv_decided sv"
    and "\<not> sv_decided sv \<Longrightarrow> after_offer (sv_point sv') \<Longrightarrow> i = sv_round sv mod n \<Longrightarrow>
          after_offer (sv_point sv) \<or> proposed_in L (sv_round sv) (sv_color sv)"
    and "point_ok n L sv'" "inbox_ok L P' i sv'" "voting (sv_point sv) \<Longrightarrow> voting (sv_point sv')"
  shows "sv_inv C n L P' i sv'"
  unfolding sv_inv_def
proof (intro conjI)
  note inv = assms(1) [unfolded sv_inv_def]
  note same = assms(2) [unfolded same_colors_def]
  show "sv_round sv' > 0" "sv_color sv' \<in> C" using inv same assms(3) by simp_all
  show "leading (sv_point sv') \<longrightarrow> i = sv_round sv' mod n" using assms(3,4) by simp
  show "point_ok n L sv'" "inbox_ok L P' i sv'" by fact+
  show "sent_ok L i sv'" using inv same assms(3,5,6,7,8) unfolding sent_ok_def by (simp, blast)
  show "color_ok n L i sv'" using inv same assms(3,9,12) unfolding color_ok_def by auto
qed

lemma sv_inv_move:
  assumes "sv_inv C n L P i sv" "same_colors sv sv'" "sv_round sv' = sv_round sv"
    and "idle_ok sv'"
    and "leading (sv_point sv') \<Longrightarrow> i = sv_round sv mod n"
    and "asked (sv_point sv) \<Longrightarrow> asked (sv_point sv')" "answered (sv_point sv) \<Longrightarrow> answered (sv_point sv')"
    and "offered (sv_point sv) \<Longrightarrow> offered (sv_point sv')"
    and "offered (sv_point sv) \<Longrightarrow> after_offer (sv_point sv) \<Longrightarrow> \<not> after_offer (sv_point sv') \<Longrightarrow> sv_decided sv"
    and "\<not> sv_decided sv \<Longrightarrow> after_offer (sv_point sv') \<Longrightarrow> i = sv_round sv mod n \<Longrightarrow>
          after_offer (sv_point sv) \<or> proposed_in L (sv_round sv) (sv_color sv)"
    and "point_ok n L sv'"
    and "\<And>R. counted_ok (sv_point sv) sv R \<Longrightarrow> \<not> sv_decided sv \<Longrightarrow> \<exists>R'. R' \<subseteq># R \<and> counted_ok (sv_point sv') sv' R'"
    and "voting (sv_point sv) \<Longrightarrow> voting (sv_point sv')"
  shows "sv_inv C n L P i sv'"
  using assms(1-3) assms(5-11) _ assms(13)
proof (rule sv_inv_goto)
  note inv = assms(1) [unfolded sv_inv_def]
  note same = assms(2) [unfolded same_colors_def]
  obtain R where R: "P + mset (sv_stash sv) + R \<subseteq># msgs_to (int i) L" "sv_decided sv \<or> counted_ok (sv_point sv) sv R"
    using inv by (auto simp: inbox_ok_def)
  obtain R' where R': "R' \<subseteq># R" "sv_decided sv' \<or> counted_ok (sv_point sv') sv' R'"
    using R(2) assms(12) same by (metis subset_mset.order_refl)
  have "P + mset (sv_stash sv') + R' \<subseteq># P + mset (sv_stash sv) + R"
    using R'(1) same by (simp add: subset_mset.add_left_mono)
  with R(1) R'(2) assms(4) show "inbox_ok L P i sv'"
    by (metis inbox_okI subset_mset.order_trans)
qed

lemma sv_inv_idle: "sv_inv C n L P i sv \<Longrightarrow> idle_ok sv"
  by (simp add: sv_inv_def inbox_ok_def)

lemmas move_simps = same_colors_def goto_def receive_begin_def begin_propose_def point_ok_def counted_ok_def idle_ok_def

lemma sent_prepare_ok:
  assumes "sv_inv C n L P i sv" "sv_point sv = Sent_prepare"
  shows "sv_inv C n L P i (begin_propose net (sent_prepare n i sv))"
  using assms(1) by (rule sv_inv_move)
    (use assms(2) sv_inv_idle [OF assms(1)] in \<open>auto simp: sent_prepare_def leader_def move_simps split: if_splits\<close>)

lemma sent_propose_ok:
  assumes "sv_inv C n L P i sv" "sv_point sv = Sent_propose j m"
  shows "sv_inv C n L P i (goto (Propose_loop (j + 1) m) sv)"
  using assms(1) by (rule sv_inv_move)
    (use assms sv_inv_idle [OF assms(1)] in \<open>auto simp: sv_inv_def move_simps\<close>)

lemma propose_loop_end_ok:
  assumes "sv_inv C n L P i sv" "sv_point sv = Propose_loop j m" "j = n" "n > 0"
  shows "sv_inv C n L P i (begin_propose net (goto Propose_receive (receive_begin sv)))"
  using assms(1)
proof (rule sv_inv_move)
  have "point_ok n L sv" using assms(1) by (simp add: sv_inv_def)
  then show "after_offer (sv_point sv) \<or> proposed_in L (sv_round sv) (sv_color sv)"
    using assms(2,3,4) by (simp add: point_ok_def)
qed (use assms(2) sv_inv_idle [OF assms(1)] in \<open>auto simp: move_simps split: if_splits\<close>)

lemma next_round_ok:
  assumes "sv_inv C n L P i sv" "sv_point sv = Next_round"
  shows "sv_inv C n L P i (goto At_loop sv)"
  using assms(1) by (rule sv_inv_move) (use assms(2) sv_inv_idle [OF assms(1)] in \<open>auto simp: move_simps\<close>)

text \<open>After the decision.\<close>

lemma sv_inv_decided:
  assumes "sv_inv C n L P i sv" "sv_decided sv" "same_colors sv sv'" "sv_round sv' = sv_round sv"
    "idle_ok sv'" "\<not> leading (sv_point sv')"
    "asked (sv_point sv')" "answered (sv_point sv')" "offered (sv_point sv')" "\<not> after_offer (sv_point sv')"
    "point_ok n L sv'"
  shows "sv_inv C n L P i sv'"
  using assms(1) by (rule sv_inv_move) (use assms answered_voting in simp_all)

text \<open>The round advances.\<close>

lemma sv_inv_advance:
  assumes "sv_inv C n L P i sv" "answered (sv_point sv)" "\<not> receiving (sv_point sv)"
  shows "sv_inv C n L P i (goto Next_round (sv\<lparr>sv_round := sv_round sv + 1, sv_wake := t\<rparr>))"
proof -
  note inv = assms(1) [unfolded sv_inv_def]
  let ?sv = "goto Next_round (sv\<lparr>sv_round := sv_round sv + 1, sv_wake := t\<rparr>)"
  have "sent_ok L i ?sv" using inv unfolding sent_ok_def goto_def by (simp add: le_Suc_eq) (metis Suc_n_not_le_n)
  moreover have "color_ok n L i ?sv" using inv unfolding color_ok_def goto_def by auto
  moreover have "inbox_ok L P i sv" using inv by simp
  then have "inbox_ok L P i ?sv" by (rule inbox_drop) (use assms(2,3) sv_inv_idle [OF assms(1)] in \<open>auto simp: goto_def counted_ok_def idle_ok_def\<close>)
  ultimately show ?thesis using inv by (simp add: sv_inv_def goto_def point_ok_def)
qed

lemma sent_ack_ok:
  assumes "sv_inv C n L P i sv" "sv_point sv = Sent_ack"
  shows "sv_inv C n L P i (sent_ack n i sv net)"
proof (cases "i = leader n sv")
  case True
  have "sv_inv C n L P i (goto (Ack_loop 0 0) sv)"
    using assms(1) by (rule sv_inv_move)
      (use assms(2) True sv_inv_idle [OF assms(1)] in \<open>auto simp: leader_def move_simps\<close>)
  then show ?thesis using True by (simp add: sent_ack_def)
next
  case False
  then show ?thesis using sv_inv_advance [OF assms(1)] assms(2) by (simp add: sent_ack_def)
qed

subsection \<open>The end of a phase: a majority was heard\<close>

lemma prepare_loop_ok:
  assumes "sv_inv C n L P i sv" "log_inv C n L" "sv_point sv = Prepare_loop k"
  shows "sv_inv C n L P i (prepare_loop n k sv)"
proof -
  note inv = assms(1) [unfolded sv_inv_def]
  note st = sv_inv_idle [OF assms(1)]
  consider (more) "k \<le> n div 2" | (dec) "k > n div 2" "sv_decided sv" | (offering) "k > n div 2" "\<not> sv_decided sv"
    by fastforce
  then show ?thesis
  proof cases
    case more
    have "sv_inv C n L P i (goto (Prepare_receive k) (receive_begin sv))"
      using assms(1) by (rule sv_inv_move) (use assms(3) inv st in \<open>auto simp: move_simps\<close>)
    with more show ?thesis by (simp add: prepare_loop_def)
  next
    case dec
    have "sv_inv C n L P i (goto Decided sv)"
      using assms(1) dec(2) by (rule sv_inv_decided) (use assms(3) st dec in \<open>simp_all add: move_simps\<close>)
    with dec show ?thesis by (simp add: prepare_loop_def)
  next
    case offering
    let ?m = "propose_message (sv_round sv) (sv_color sv)"
    obtain R where R: "P + mset (sv_stash sv) + R \<subseteq># msgs_to (int i) L" "counted_ok (sv_point sv) sv R"
      using inv offering(2) by (auto simp: inbox_ok_def)
    have sub: "R \<subseteq># msgs_to (int i) L" by (rule subset_mset.order_trans [OF _ R(1)]) simp
    have cnt: "size R = k" "\<forall>m \<in># R. m_type m = M_prepare \<and> m_round m = sv_round sv"
        "\<forall>m \<in># R. m_color_round m \<le> sv_color_round sv"
      using R(2) assms(3) by (simp_all add: counted_ok_def)
    obtain Q where Q: "Q \<subseteq> {..<n}" "card Q = size R" "\<forall>i \<in> Q. \<exists>m. says L i m \<and> m \<in># R"
      using senders [OF assms(2) sub _ cnt(2)] by auto
    have hist: "sv_color_round sv = 0 \<or> sv_color_round sv < sv_round sv \<and> proposed_in L (sv_color_round sv) (sv_color sv)"
      using inv offering(2) assms(3) by (auto simp: color_ok_def)
    have maj: "card Q > n div 2" using Q(2) cnt(1) offering(1) by simp
    have rep: "\<forall>i \<in> Q. \<exists>m. says L i m \<and> m_type m = M_prepare \<and> m_round m = sv_round sv \<and> m_color_round m \<le> sv_color_round sv"
      using Q(3) cnt(2,3) by fastforce
    have ev: "evidence n L (sv_round sv) (sv_color sv)"
      unfolding evidence_def using Q(1) maj rep hist by blast
    have "sv_inv C n L P i (goto (Propose_loop 0 ?m) sv)"
      using assms(1) by (rule sv_inv_move) (use assms(3) inv offering ev st in \<open>auto simp: move_simps\<close>)
    with offering show ?thesis by (simp add: prepare_loop_def)
  qed
qed

lemma ack_loop_ok:
  assumes "sv_inv C n L P i sv" "log_inv C n L" "sv_point sv = Ack_loop s t"
  shows "sv_inv C n L P i (ack_loop n s t sv net)"
proof -
  note inv = assms(1) [unfolded sv_inv_def]
  note st = sv_inv_idle [OF assms(1)]
  consider (more) "t \<le> n div 2" | (dec) "t > n div 2" "sv_decided sv"
    | (won) "t > n div 2" "\<not> sv_decided sv" "s > n div 2" | (lost) "t > n div 2" "\<not> sv_decided sv" "s \<le> n div 2"
    by fastforce
  then show ?thesis
  proof cases
    case more
    have "sv_inv C n L P i (goto (Ack_receive s t) (receive_begin sv))"
      using assms(1) by (rule sv_inv_move) (use assms(3) inv st in \<open>auto simp: move_simps\<close>)
    with more show ?thesis by (simp add: ack_loop_def)
  next
    case dec
    have "sv_inv C n L P i (goto Decided sv)"
      using assms(1) dec(2) by (rule sv_inv_decided) (use assms(3) st dec in \<open>simp_all add: move_simps\<close>)
    with dec show ?thesis by (simp add: ack_loop_def)
  next
    case won
    obtain R where R: "P + mset (sv_stash sv) + R \<subseteq># msgs_to (int i) L" "counted_ok (sv_point sv) sv R"
      using inv won(2) by (auto simp: inbox_ok_def)
    have sub: "R \<subseteq># msgs_to (int i) L" by (rule subset_mset.order_trans [OF _ R(1)]) simp
    have cnt: "size R = s" "\<forall>m \<in># R. m_type m = M_ack \<and> m_round m = sv_round sv" "\<forall>m \<in># R. m_ack m"
      using R(2) assms(3) by (simp_all add: counted_ok_def)
    obtain Q where Q: "Q \<subseteq> {..<n}" "card Q = size R" "\<forall>i \<in> Q. \<exists>m. says L i m \<and> m \<in># R"
      using senders [OF assms(2) sub _ cnt(2)] by auto
    have "proposed_in L (sv_round sv) (sv_color sv)"
      using inv won(2) assms(3) by (auto simp: color_ok_def)
    moreover have "\<forall>i \<in> Q. acked_in L (sv_round sv) i" using Q(3) cnt by (fastforce simp: acked_in_def)
    moreover have "card Q > n div 2" using Q(2) cnt(1) won(3) by simp
    ultimately have ch: "chosen n L (sv_color sv)" using Q(1) unfolding chosen_def by blast
    let ?sv = "goto Decided (sv\<lparr>sv_decided := True\<rparr>)"
    have "sent_ok L i ?sv" using inv assms(3) unfolding sent_ok_def goto_def by simp
    moreover have "inbox_ok L P i sv" using inv by simp
    then have "inbox_ok L P i ?sv" by (rule inbox_drop) (use assms(3) st in \<open>simp_all add: goto_def idle_ok_def\<close>)
    ultimately have "sv_inv C n L P i ?sv"
      using inv ch by (simp add: sv_inv_def color_ok_def goto_def point_ok_def)
    with won show ?thesis by (simp add: ack_loop_def)
  next
    case lost
    with sv_inv_advance [OF assms(1)] assms(3) show ?thesis by (simp add: ack_loop_def)
  qed
qed

subsection \<open>Receiving\<close>

text \<open>While it receives a server stays where it is; when a decision arrives it goes on with that.\<close>

lemma in_inbox_logged:
  assumes "sv_inv C n L P i sv" "m \<in># P + mset (sv_stash sv)"
    and "log_inv C n L"
  shows "\<exists>j. says L j m"
proof -
  obtain R where "P + mset (sv_stash sv) + R \<subseteq># msgs_to (int i) L"
    using assms(1) by (auto simp: sv_inv_def inbox_ok_def)
  then have "m \<in># msgs_to (int i) L" using assms(2) by (meson mset_subset_eqD union_iff)
  then obtain f where "(f, int i, m) \<in> set L" using in_msgs_to by blast
  then show ?thesis using log_invD(2) [OF assms(3)] unfolding says_def by blast
qed

lemma received_again:
  assumes "sv_inv C n L P i sv" "received_ok mt sv P Again sv' P'" "receiving (sv_point sv)"
  shows "sv_inv C n L P' i sv'"
proof -
  note inv = assms(1) [unfolded sv_inv_def]
  have same: "same_place sv sv'" "sv_color sv' = sv_color sv" "sv_decided sv' = sv_decided sv"
      "P' + mset (sv_stash sv') \<subseteq># P + mset (sv_stash sv)" "idle_ok sv'"
    using assms(2,3) by (auto simp: received_ok_def idle_ok_def same_place_def)
  note pl = same(1) [unfolded same_place_def]
  obtain R where R: "P + mset (sv_stash sv) + R \<subseteq># msgs_to (int i) L" "sv_decided sv \<or> counted_ok (sv_point sv) sv R"
    using inv by (auto simp: inbox_ok_def)
  have "P' + mset (sv_stash sv') + R \<subseteq># msgs_to (int i) L"
    by (rule subset_mset.order_trans [OF subset_mset.add_right_mono [OF same(4)] R(1)])
  moreover have "counted_ok (sv_point sv) sv' R = counted_ok (sv_point sv) sv R"
    using pl by (simp add: counted_ok_def split: point.splits)
  ultimately have "inbox_ok L P' i sv'"
    using R(2) same pl by (intro inbox_okI [of _ _ R]) simp_all
  then show ?thesis using inv same pl
    by (simp add: sv_inv_def sent_ok_def color_ok_def point_ok_def cong: point.case_cong option.case_cong)
qed

text \<open>A message of a decision; \<open>sv''\<close> is the server at its next point.\<close>

lemma received_decided:
  assumes "sv_inv C n L P i sv" "log_inv C n L" "received_ok mt sv P (Return m) sv' P'" "sv_decided sv'"
    and "same_colors sv' sv''" "sv_round sv'' = sv_round sv'" "sv_stash_size sv'' = sv_stash_size sv'"
    "sv_receive sv'' = sv_receive sv'"
    and "leading (sv_point sv'') \<Longrightarrow> leading (sv_point sv)" "asked (sv_point sv'')"
    "answered (sv_point sv) \<Longrightarrow> answered (sv_point sv'')" "offered (sv_point sv) \<Longrightarrow> offered (sv_point sv'')"
    "point_ok n L sv''"
  shows "sv_inv C n L P' i sv''"
proof -
  note inv = assms(1) [unfolded sv_inv_def]
  have pl: "sv_point sv' = sv_point sv" "sv_round sv' = sv_round sv" "sv_color_round sv' = sv_color_round sv"
    using assms(3) by (simp_all add: received_ok_def same_place_def)
  have sub: "P' + mset (sv_stash sv') \<subseteq># P + mset (sv_stash sv)"
    using assms(3,4) by (auto simp: received_ok_def)
  have "chosen n L (sv_color sv')"
  proof (cases "sv_decided sv \<and> sv_color sv' = sv_color sv")
    case True
    then show ?thesis using inv by (simp add: color_ok_def)
  next
    case False
    then obtain d where d: "d \<in># P + mset (sv_stash sv)" "m_type d = M_decide" "sv_color sv' = m_color d"
      using assms(3,4) by (auto simp: received_ok_def)
    obtain j where "says L j d" using in_inbox_logged [OF assms(1) d(1) assms(2)] by blast
    then show ?thesis using log_invD(8) [OF assms(2) _ d(2)] d(3) by simp
  qed
  note ch = this chosen_color [OF assms(2) this]
  have "sent_ok L i sv''" using inv pl assms(4-6,9-12) by (simp add: sent_ok_def same_colors_def)
  moreover have "inbox_ok L P i sv" using inv by simp
  then have "inbox_ok L P' i sv''"
    by (rule inbox_drop) (use sub assms(3-8) in \<open>auto simp: same_colors_def received_ok_def idle_ok_def\<close>)
  moreover have "color_ok n L i sv''" using ch(1) assms(4,5) by (simp add: color_ok_def same_colors_def)
  ultimately show ?thesis
    using inv ch(2) pl assms(4-6,9,13) by (simp add: sv_inv_def same_colors_def)
qed

text \<open>The message that was waited for: without it the inbox holds, and with what was counted before.\<close>

lemma received_wanted:
  assumes "sv_inv C n L P i sv" "log_inv C n L" "received_ok mt sv P (Return m) sv' P'" "\<not> sv_decided sv'"
    and "receiving (sv_point sv)"
  shows "sv_inv C n L P' i sv'" "m_type m = mt \<and> m_round m = sv_round sv'" "\<exists>j. says L j m"
    and "\<exists>R. P' + mset (sv_stash sv') + add_mset m R \<subseteq># msgs_to (int i) L \<and> counted_ok (sv_point sv') sv' R"
    and "sv_receive sv' = None" "sv_point sv' = sv_point sv"
proof -
  note rx = assms(3) [unfolded received_ok_def same_place_def]
  have eq: "add_mset m (P' + mset (sv_stash sv')) = P + mset (sv_stash sv)" using rx assms(4) by auto
  then have "P' + mset (sv_stash sv') \<subseteq># P + mset (sv_stash sv)" by (metis add_mset_add_single mset_subset_eq_add_left)
  then have "received_ok mt sv P Again sv' P'"
    using rx assms(4) by (auto simp: received_ok_def same_place_def)
  from received_again [OF assms(1) this assms(5)] show "sv_inv C n L P' i sv'" .
  show "m_type m = mt \<and> m_round m = sv_round sv'" "sv_receive sv' = None" "sv_point sv' = sv_point sv"
    using rx assms(4) by auto
  have "m \<in># P + mset (sv_stash sv)" by (simp flip: eq)
  then show "\<exists>j. says L j m" using in_inbox_logged [OF assms(1) _ assms(2)] by blast
  have nd: "\<not> sv_decided sv" using rx assms(4) by auto
  obtain R where R: "P + mset (sv_stash sv) + R \<subseteq># msgs_to (int i) L" "counted_ok (sv_point sv) sv R"
    using assms(1) nd by (auto simp: sv_inv_def inbox_ok_def)
  have "counted_ok (sv_point sv') sv' R"
    using R(2) rx by (simp add: counted_ok_def split: point.splits)
  moreover have "P' + mset (sv_stash sv') + add_mset m R = P + mset (sv_stash sv) + R" by (simp flip: eq)
  ultimately show "\<exists>R. P' + mset (sv_stash sv') + add_mset m R \<subseteq># msgs_to (int i) L \<and> counted_ok (sv_point sv') sv' R"
    using R(1) by metis
qed

lemma prepare_received_ok:
  assumes "sv_inv C n L P i sv" "log_inv C n L" "sv_point sv = Prepare_receive k"
    and "received_ok M_prepare sv P (Return m) sv' P'"
  shows "sv_inv C n L P' i (prepare_received k m sv')"
proof (cases "sv_decided sv'")
  case True
  then have "m = fake_message M_prepare sv'" using assms(4) by (auto simp: received_ok_def)
  then have "prepare_received k m sv' = goto (Prepare_loop (k + 1)) sv'" by (simp add: prepare_received_def fake_message_def)
  moreover have "sv_inv C n L P' i (goto (Prepare_loop (k + 1)) sv')"
    using assms(1,2,4) True by (rule received_decided) (use assms(3) in \<open>simp_all add: move_simps\<close>)
  ultimately show ?thesis by simp
next
  case False
  have rc: "receiving (sv_point sv)" using assms(3) by simp
  note w = received_wanted [OF assms(1,2,4) False rc]
  note inv = w(1) [unfolded sv_inv_def]
  let ?sv = "prepare_received k m sv'"
  obtain R where R: "P' + mset (sv_stash sv') + add_mset m R \<subseteq># msgs_to (int i) L" "counted_ok (sv_point sv') sv' R"
    using w(4) by blast
  have f: "sv_round ?sv = sv_round sv'" "sv_decided ?sv = sv_decided sv'" "sv_point ?sv = Prepare_loop (k + 1)"
    "sv_stash ?sv = sv_stash sv'" "sv_stash_size ?sv = sv_stash_size sv'" "sv_receive ?sv = sv_receive sv'"
    "sv_color_round sv' \<le> sv_color_round ?sv" "m_color_round m \<le> sv_color_round ?sv"
    by (simp_all add: prepare_received_def goto_def)
  obtain j where j: "says L j m" using w(3) by blast
  have m: "m_color_round m < sv_round sv' \<and> (m_color_round m = 0 \<or> proposed_in L (m_color_round m) (m_color m))" "m_color m \<in> C"
    using log_invD(7) [OF assms(2) j] log_invD(9) [OF assms(2) j] w(2) by simp_all
  have "sent_ok L i ?sv" using inv f assms(3) w(6) False unfolding sent_ok_def by (fastforce intro: le_trans)
  moreover have "color_ok n L i ?sv"
    using inv m False w(6) assms(3) by (auto simp: color_ok_def prepare_received_def goto_def)
  moreover have "inbox_ok L P' i ?sv"
    by (rule inbox_okI [of _ _ "add_mset m R"])
      (use R f w(2,6) assms(3) sv_inv_idle [OF w(1)] w(5) in \<open>auto simp: counted_ok_def idle_ok_def intro: le_trans\<close>)
  moreover have "sv_color ?sv \<in> C" using inv m(2) by (simp add: prepare_received_def goto_def)
  ultimately show ?thesis using inv f w(6) assms(3) by (simp add: sv_inv_def point_ok_def)
qed

lemma propose_received_ok:
  assumes "sv_inv C n L P i sv" "log_inv C n L" "sv_point sv = Propose_receive"
    and "received_ok M_propose sv P (Return m) sv' P'"
  shows "sv_inv C n L P' i (goto (Proposed (Some m)) sv')"
proof (cases "sv_decided sv'")
  case True
  show ?thesis
    using assms(1,2,4) True by (rule received_decided) (use assms(3) True in \<open>simp_all add: move_simps\<close>)
next
  case False
  have rc: "receiving (sv_point sv)" using assms(3) by simp
  note w = received_wanted [OF assms(1,2,4) False rc]
  obtain j where "says L j m" using w(3) by blast
  then have "proposed_in L (sv_round sv') (m_color m)" using w(2) by (auto simp: proposed_in_def)
  then show ?thesis
    using w(1) by - (rule sv_inv_move, use w(5,6) assms(3) sv_inv_idle [OF w(1)] in \<open>auto simp: move_simps\<close>)
qed

lemma ack_received_ok:
  assumes "sv_inv C n L P i sv" "log_inv C n L" "sv_point sv = Ack_receive s t"
    and "received_ok M_ack sv P (Return m) sv' P'"
  shows "sv_inv C n L P' i (ack_received s t m sv')"
proof (cases "sv_decided sv'")
  case True
  show ?thesis
    using assms(1,2,4) True by (rule received_decided) (use assms(3) True in \<open>simp_all add: ack_received_def move_simps\<close>)
next
  case False
  have rc: "receiving (sv_point sv)" using assms(3) by simp
  note w = received_wanted [OF assms(1,2,4) False rc]
  obtain R where R: "P' + mset (sv_stash sv') + add_mset m R \<subseteq># msgs_to (int i) L" "counted_ok (sv_point sv') sv' R"
    using w(4) by blast
  let ?sv = "ack_received s t m sv'"
  have idle: "idle_ok ?sv" using sv_inv_idle [OF w(1)] w(5) by (simp add: ack_received_def goto_def idle_ok_def)
  have "inbox_ok L P' i ?sv"
  proof (cases "m_ack m")
    case True
    show ?thesis
      by (rule inbox_okI [of _ _ "add_mset m R"])
        (use R w(2,6) assms(3) True idle in \<open>simp_all add: ack_received_def goto_def counted_ok_def\<close>)
  next
    case no: False
    have "P' + mset (sv_stash sv') + R \<subseteq># P' + mset (sv_stash sv') + add_mset m R" by simp
    from subset_mset.order_trans [OF this R(1)] show ?thesis
      by (intro inbox_okI [of _ _ R])
        (use R(2) w(6) assms(3) no idle in \<open>simp_all add: ack_received_def goto_def counted_ok_def\<close>)
  qed
  with w(1) show ?thesis
    by - (rule sv_inv_goto, use w(1,6) assms(3) in \<open>auto simp: ack_received_def move_simps sv_inv_def\<close>)
qed

subsection \<open>Steps that send\<close>

lemma send_to_simps:
  assumes "send_to i dst m pt sv net = (sv', net')"
  shows "\<exists>t. sv' = sv\<lparr>sv_point := pt, sv_wake := t\<rparr>"
    and "net_log net' = net_log net @ [(int i, dst, m)]"
    and "pending j net' = pending j net + (if dst = j then {#m#} else {#})"
  using assms log_send [of "int i" dst m net] pending_send [of j "int i" dst m net]
  by (auto simp: send_to_def split: prod.splits)

lemma sv_inv_say:
  assumes "sv_inv C n L P i sv" "\<not> receiving (sv_point sv)"
    and "leading pt \<Longrightarrow> i = sv_round sv mod n"
    and "m_type m = M_prepare \<Longrightarrow> m_round m = sv_round sv"
    and "m_type m = M_ack \<Longrightarrow> m_round m = sv_round sv \<and> answered pt \<and> (m_ack m \<longrightarrow> sv_decided sv \<or> sv_round sv \<le> sv_color_round sv)"
    and "m_type m = M_propose \<Longrightarrow> m_round m = sv_round sv \<and> offered pt \<and> m_color m = sv_color sv"
    and "asked pt" "answered (sv_point sv) \<Longrightarrow> answered pt" "offered (sv_point sv) \<Longrightarrow> offered pt"
    and "offered (sv_point sv) \<Longrightarrow> after_offer (sv_point sv) \<Longrightarrow> \<not> after_offer pt \<Longrightarrow> sv_decided sv"
    and "after_offer pt \<Longrightarrow> \<not> sv_decided sv \<Longrightarrow> after_offer (sv_point sv)"
    and "voting (sv_point sv) \<Longrightarrow> voting pt"
    and "point_ok n (L @ [(int i, dst, m)]) (sv\<lparr>sv_point := pt, sv_wake := t\<rparr>)" "counted_ok pt sv {#}"
  shows "sv_inv C n (L @ [(int i, dst, m)]) (P + (if dst = int i then {#m#} else {#})) i (sv\<lparr>sv_point := pt, sv_wake := t\<rparr>)"
    (is "sv_inv C n ?L ?P i ?sv")
proof -
  note inv = assms(1) [unfolded sv_inv_def]
  have so: "sent_ok L i sv" using inv by simp
  have a: "m_round x \<le> sv_round sv \<and> (m_round x = sv_round sv \<longrightarrow> asked pt)"
    if "says ?L i x" "m_type x = M_prepare" for x
    using that assms(4,7) sent_okD(1) [OF so, of x] by auto
  have b: "m_round x \<le> sv_round sv \<and> (m_round x = sv_round sv \<longrightarrow> answered pt)
      \<and> (m_ack x \<longrightarrow> sv_decided sv \<or> m_round x \<le> sv_color_round sv)"
    if "says ?L i x" "m_type x = M_ack" for x
    using that assms(5,8) sent_okD(2) [OF so, of x] by auto
  have c: "m_round x \<le> sv_round sv \<and> (m_round x = sv_round sv \<longrightarrow> offered pt
      \<and> (\<not> sv_decided sv \<and> \<not> after_offer pt \<longrightarrow> m_color x = sv_color sv))"
    if "says ?L i x" "m_type x = M_propose" for x
    using that assms(6,9,10) sent_okD(3) [OF so, of x] by auto
  have "sent_ok ?L i ?sv" unfolding sent_ok_def using a b c by simp
  moreover have "color_ok n L i ?sv" using inv assms(11,12) by (auto simp: color_ok_def)
  then have "color_ok n ?L i ?sv" by (rule color_ok_append)
  moreover have "inbox_ok ?L ?P i sv" using inv inbox_ok_append by blast
  then have "inbox_ok ?L ?P i ?sv"
  proof (rule inbox_drop)
    show "idle_ok ?sv" using sv_inv_idle [OF assms(1)] assms(2) by (auto simp: idle_ok_def)
    have "counted_ok pt ?sv {#} = counted_ok pt sv {#}" by (simp add: counted_ok_def split: point.splits)
    then show "sv_decided ?sv \<or> counted_ok (sv_point ?sv) ?sv {#}" using assms(14) by simp
  qed simp
  ultimately show ?thesis using inv assms(3,13) by (simp add: sv_inv_def)
qed

lemma say_prepare:
  assumes "sv_inv C n L P i sv" "log_inv C n L" "i < n" "sv_point sv = At_loop" "\<not> sv_decided sv"
    and m: "m = prepare_message (sv_round sv) (sv_color sv) (sv_color_round sv)"
  shows "log_inv C n (L @ [(int i, d, m)])"
    and "sv_inv C n (L @ [(int i, d, m)]) (P + (if d = int i then {#m#} else {#})) i (sv\<lparr>sv_point := Sent_prepare, sv_wake := t\<rparr>)"
proof -
  note inv = assms(1) [unfolded sv_inv_def]
  have so: "sent_ok L i sv" using inv by simp
  have f: "m_type m = M_prepare" "m_round m = sv_round sv" "m_color m = sv_color sv" "m_color_round m = sv_color_round sv"
    by (simp_all add: m prepare_message_def)
  show "log_inv C n (L @ [(int i, d, m)])"
    using assms(2,3)
  proof (rule log_inv_append)
    show "filter (entry_of i (m_type m) (m_round m)) L = []"
      using sent_okD(1) [OF so] assms(4) f by (intro no_entry) fastforce
    show "m_color_round m < m_round m \<and> (m_color_round m = 0 \<or> proposed_in L (m_color_round m) (m_color m))
        \<and> (\<forall>a. says L i a \<and> m_type a = M_ack \<and> m_ack a \<and> m_round a < m_round m \<longrightarrow> m_round a \<le> m_color_round m)"
      using inv assms(4,5) f sent_okD(2) [OF so] by (auto simp: color_ok_def)
  qed (use f inv in simp_all)
  show "sv_inv C n (L @ [(int i, d, m)]) (P + (if d = int i then {#m#} else {#})) i (sv\<lparr>sv_point := Sent_prepare, sv_wake := t\<rparr>)"
    using assms(1) by (rule sv_inv_say) (use f assms(4) in \<open>simp_all add: point_ok_def counted_ok_def\<close>)
qed

lemma say_propose:
  assumes "sv_inv C n L P i sv" "log_inv C n L" "i < n" "sv_point sv = Propose_loop j m"
  shows "log_inv C n (L @ [(int i, d, m)])"
    and "sv_inv C n (L @ [(int i, d, m)]) (P + (if d = int i then {#m#} else {#})) i (sv\<lparr>sv_point := Sent_propose j m, sv_wake := t\<rparr>)"
proof -
  note inv = assms(1) [unfolded sv_inv_def]
  have so: "sent_ok L i sv" using inv by simp
  have pt: "\<not> sv_decided sv" "m = propose_message (sv_round sv) (sv_color sv)" "evidence n L (sv_round sv) (sv_color sv)"
    using inv assms(4) by (simp_all add: point_ok_def)
  have f: "m_type m = M_propose" "m_round m = sv_round sv" "m_color m = sv_color sv"
    by (simp_all add: pt(2) propose_message_def)
  show "log_inv C n (L @ [(int i, d, m)])"
    using assms(2,3)
  proof (rule log_inv_append)
    show "i = m_round m mod n \<and> evidence n L (m_round m) (m_color m)
        \<and> (\<forall>m'. says L i m' \<and> m_type m' = M_propose \<and> m_round m' = m_round m \<longrightarrow> m_color m' = m_color m)"
      using inv assms(4) pt f sent_okD(3) [OF so] by auto
  qed (use f inv in simp_all)
  have "proposed_in (L @ [(int i, d, m)]) (sv_round sv) (sv_color sv)" using f by (auto simp: proposed_in_def)
  then show "sv_inv C n (L @ [(int i, d, m)]) (P + (if d = int i then {#m#} else {#})) i (sv\<lparr>sv_point := Sent_propose j m, sv_wake := t\<rparr>)"
    using assms(1) by - (rule sv_inv_say, use f pt inv assms(4) in \<open>simp_all add: point_ok_def counted_ok_def evidence_append\<close>)
qed

text \<open>The adoption of the proposal, before the acknowledgement is sent.\<close>

definition adopt :: "message option \<Rightarrow> server \<Rightarrow> server" where
  "adopt mp sv = (case mp of Some m \<Rightarrow> sv\<lparr>sv_color := m_color m, sv_color_round := sv_round sv\<rparr> | None \<Rightarrow> sv)"

lemma adopt_simps [simp]:
  "sv_round (adopt mp sv) = sv_round sv" "sv_point (adopt mp sv) = sv_point sv" "sv_decided (adopt mp sv) = sv_decided sv"
  "sv_stash (adopt mp sv) = sv_stash sv" "sv_stash_size (adopt mp sv) = sv_stash_size sv"
  "sv_receive (adopt mp sv) = sv_receive sv"
  by (simp_all add: adopt_def split: option.split)

lemma adopt_ok:
  assumes "sv_inv C n L P i sv" "log_inv C n L" "sv_point sv = Proposed mp" "\<not> sv_decided sv"
  shows "sv_inv C n L P i (adopt mp sv)"
proof (cases mp)
  case None
  then show ?thesis using assms(1) by (simp add: adopt_def)
next
  case (Some m)
  note inv = assms(1) [unfolded sv_inv_def]
  have so: "sent_ok L i sv" using inv by simp
  have p: "proposed_in L (sv_round sv) (m_color m)" using inv Some assms(3,4) by (simp add: point_ok_def)
  then obtain j x where "says L j x" "m_type x = M_propose" "m_color x = m_color m" by (auto simp: proposed_in_def)
  then have "m_color m \<in> C" using log_invD(9) [OF assms(2), of j x] by simp
  moreover have "color_ok n L i (adopt mp sv)" using p Some assms(3,4) by (simp add: color_ok_def adopt_def)
  moreover have "sent_ok L i (adopt mp sv)"
    using so assms(3,4) Some unfolding sent_ok_def adopt_def by simp
  moreover have "inbox_ok L P i sv" using inv by simp
  then have "inbox_ok L P i (adopt mp sv)"
    by (rule inbox_drop) (use sv_inv_idle [OF assms(1)] assms(3) in \<open>simp_all add: idle_ok_def counted_ok_def\<close>)
  ultimately show ?thesis using inv p assms(3) Some by (simp add: sv_inv_def point_ok_def adopt_def)
qed

lemma say_ack:
  assumes "sv_inv C n L P i sv" "log_inv C n L" "i < n" "sv_point sv = Proposed mp" "\<not> sv_decided sv"
    and m: "m = ack_message (sv_round sv) (mp \<noteq> None)"
  shows "log_inv C n (L @ [(int i, d, m)])"
    and "sv_inv C n (L @ [(int i, d, m)]) (P + (if d = int i then {#m#} else {#})) i ((adopt mp sv)\<lparr>sv_point := Sent_ack, sv_wake := t\<rparr>)"
proof -
  note inv = assms(1) [unfolded sv_inv_def]
  have so: "sent_ok L i sv" using inv by simp
  have f: "m_type m = M_ack" "m_round m = sv_round sv" "m_ack m \<longleftrightarrow> mp \<noteq> None"
    by (simp_all add: m ack_message_def)
  show "log_inv C n (L @ [(int i, d, m)])"
    using assms(2,3)
  proof (rule log_inv_append)
    show "filter (entry_of i (m_type m) (m_round m)) L = []"
      using sent_okD(2) [OF so] assms(4) f by (intro no_entry) fastforce
    show "m_round m > 0 \<and> (\<forall>p. says L i p \<and> m_type p = M_prepare \<longrightarrow> m_round p \<le> m_round m)"
      using inv f sent_okD(1) [OF so] by auto
  qed (use f in simp_all)
  have "mp \<noteq> None \<longrightarrow> sv_color_round (adopt mp sv) = sv_round sv" by (auto simp: adopt_def)
  then show "sv_inv C n (L @ [(int i, d, m)]) (P + (if d = int i then {#m#} else {#})) i ((adopt mp sv)\<lparr>sv_point := Sent_ack, sv_wake := t\<rparr>)"
    using adopt_ok [OF assms(1,2,4,5)]
    by - (rule sv_inv_say, use f assms(4,5) in \<open>simp_all add: point_ok_def counted_ok_def\<close>)
qed

lemma say_decide:
  assumes "sv_inv C n L P i sv" "log_inv C n L" "i < n" "sv_decided sv" "\<not> receiving (sv_point sv)"
    and m: "m = decide_message (sv_color sv)" and pt: "pt = Sent_nancy m \<or> pt = Sent_decide j m"
  shows "log_inv C n (L @ [(int i, d, m)])"
    and "sv_inv C n (L @ [(int i, d, m)]) (P + (if d = int i then {#m#} else {#})) i (sv\<lparr>sv_point := pt, sv_wake := t\<rparr>)"
proof -
  note inv = assms(1) [unfolded sv_inv_def]
  have f: "m_type m = M_decide" "m_color m = sv_color sv" by (simp_all add: m decide_message_def)
  show "log_inv C n (L @ [(int i, d, m)])"
    using assms(2,3) by (rule log_inv_append) (use f inv assms(4) in \<open>simp_all add: color_ok_def\<close>)
  show "sv_inv C n (L @ [(int i, d, m)]) (P + (if d = int i then {#m#} else {#})) i (sv\<lparr>sv_point := pt, sv_wake := t\<rparr>)"
    using assms(1,5) by (rule sv_inv_say) (use f assms(4) pt m in \<open>auto simp: point_ok_def counted_ok_def\<close>)
qed

end
