(* ===== verification/ConsensusReach.thy ===== *)
theory ConsensusReach
  imports ConsensusSteps
begin

text \<open>
  The whole program: every step of the servers, of the network and of Nancy keeps the invariant.
\<close>

subsection \<open>One step of a server\<close>

text \<open>What the others see of a step: nothing, or one message in the log and on its way.\<close>

definition only_says :: "nat \<Rightarrow> message network \<Rightarrow> message network \<Rightarrow> bool" where
  "only_says i net net' \<longleftrightarrow>
     net_log net' = net_log net \<and> (\<forall>j. j \<noteq> int i \<longrightarrow> pending j net' = pending j net)
   \<or> (\<exists>d m. net_log net' = net_log net @ [(int i, d, m)] \<and> (d = nancy_id \<longrightarrow> m_type m = M_decide)
        \<and> (\<forall>j. j \<noteq> int i \<longrightarrow> pending j net' = pending j net + (if d = j then {#m#} else {#})))"

definition step_ok :: "string set \<Rightarrow> nat \<Rightarrow> nat \<Rightarrow> message network \<Rightarrow> server \<Rightarrow> message network \<Rightarrow> bool" where
  "step_ok C n i net sv' net' \<longleftrightarrow> log_inv C n (net_log net')
     \<and> sv_inv C n (net_log net') (pending (int i) net') i sv' \<and> only_says i net net'"

lemma step_ok_same:
  assumes "log_inv C n (net_log net)" "sv_inv C n (net_log net) (pending (int i) net) i sv'"
  shows "step_ok C n i net sv' net"
  using assms by (simp add: step_ok_def only_says_def)

lemma step_ok_send:
  assumes "send_to i d m pt sv net = (sv', net')" "log_inv C n (net_log net @ [(int i, d, m)])"
    and "\<And>t. sv_inv C n (net_log net @ [(int i, d, m)]) (pending (int i) net + (if d = int i then {#m#} else {#})) i
            (sv\<lparr>sv_point := pt, sv_wake := t\<rparr>)"
    and "d = nancy_id \<Longrightarrow> m_type m = M_decide"
  shows "step_ok C n i net sv' net'"
  using assms send_to_simps [OF assms(1)] by (auto simp: step_ok_def only_says_def)

lemma step_ok_receive:
  assumes "receive_then i mt k sv net = Some (sv', net')" "log_inv C n (net_log net)"
    and "sv_inv C n (net_log net) (pending (int i) net) i sv" "receiving (sv_point sv)"
    and "\<And>m sv1 P1. received_ok mt sv (pending (int i) net) (Return m) sv1 P1 \<Longrightarrow> sv_inv C n (net_log net) P1 i (k m sv1)"
  shows "step_ok C n i net sv' net'"
proof -
  obtain r sv1 where r: "server_receive i mt sv net = Some (r, sv1, net')"
      "sv' = (case r of Again \<Rightarrow> sv1 | Return m \<Rightarrow> k m sv1)"
    using assms(1) by (auto simp: receive_then_def split: option.splits receive_result.splits)
  have ok: "received_ok mt sv (pending (int i) net) r sv1 (pending (int i) net')"
      "net_log net' = net_log net" "\<forall>j. j \<noteq> int i \<longrightarrow> pending j net' = pending j net"
    using server_receive_ok [OF r(1) sv_inv_idle [OF assms(3)]] by simp_all
  have "sv_inv C n (net_log net) (pending (int i) net') i sv'"
    using r(2) ok(1) assms(5) received_again [OF assms(3) _ assms(4)] by (cases r) auto
  then show ?thesis using ok assms(2) by (simp add: step_ok_def only_says_def)
qed

lemma server_step_ok:
  assumes "server_step n i sv net = Some (sv', net')" "i < n"
    and inv: "sv_inv C n (net_log net) (pending (int i) net) i sv" and log: "log_inv C n (net_log net)"
  shows "step_ok C n i net sv' net'"
proof (cases "sv_point sv")
  case At_loop
  show ?thesis
  proof (cases "sv_decided sv")
    case True
    have "sv_inv C n (net_log net) (pending (int i) net) i (goto Decided sv)"
      using inv True by (rule sv_inv_decided) (use At_loop True sv_inv_idle [OF inv] in \<open>simp_all add: move_simps\<close>)
    then show ?thesis using assms(1) log At_loop True by (auto simp: server_step_def at_loop_def intro: step_ok_same)
  next
    case False
    then have "send_to i (int (leader n sv)) (prepare_message (sv_round sv) (sv_color sv) (sv_color_round sv))
        Sent_prepare sv net = (sv', net')"
      using assms(1) At_loop by (simp add: server_step_def at_loop_def)
    from step_ok_send [OF this say_prepare [OF inv log assms(2) At_loop False refl]] show ?thesis by (simp add: nancy_id_def)
  qed
next
  case Sent_prepare
  then show ?thesis using assms(1) log sent_prepare_ok [OF inv Sent_prepare]
    by (auto simp: server_step_def intro: step_ok_same split: if_splits)
next
  case (Prepare_loop k)
  then show ?thesis using assms(1) log prepare_loop_ok [OF inv log Prepare_loop]
    by (auto simp: server_step_def intro: step_ok_same)
next
  case (Prepare_receive k)
  show ?thesis
    by (rule step_ok_receive [OF _ log inv])
      (use assms(1) Prepare_receive prepare_received_ok [OF inv log Prepare_receive] in \<open>auto simp: server_step_def\<close>)
next
  case (Propose_loop j m)
  show ?thesis
  proof (cases "j = n")
    case True
    then show ?thesis using assms(1,2) log Propose_loop propose_loop_end_ok [OF inv Propose_loop True]
      by (auto simp: server_step_def propose_loop_def intro: step_ok_same)
  next
    case False
    then have "send_to i (int j) m (Sent_propose j m) sv net = (sv', net')"
      using assms(1) Propose_loop by (simp add: server_step_def propose_loop_def)
    from step_ok_send [OF this say_propose [OF inv log assms(2) Propose_loop]] show ?thesis by (simp add: nancy_id_def)
  qed
next
  case (Sent_propose j m)
  then show ?thesis using assms(1) log sent_propose_ok [OF inv Sent_propose]
    by (auto simp: server_step_def intro: step_ok_same split: if_splits)
next
  case Propose_receive
  show ?thesis
    by (rule step_ok_receive [OF _ log inv])
      (use assms(1) Propose_receive propose_received_ok [OF inv log Propose_receive] in \<open>auto simp: server_step_def\<close>)
next
  case (Proposed mp)
  show ?thesis
  proof (cases "sv_decided sv")
    case True
    have "sv_inv C n (net_log net) (pending (int i) net) i (goto Decided sv)"
      using inv True by (rule sv_inv_decided) (use Proposed True sv_inv_idle [OF inv] in \<open>simp_all add: move_simps\<close>)
    then show ?thesis using assms(1) log Proposed True by (auto simp: server_step_def proposed_def intro: step_ok_same)
  next
    case False
    have "leader n (adopt mp sv) = leader n sv" by (simp add: leader_def)
    then have "send_to i (int (leader n sv)) (ack_message (sv_round sv) (mp \<noteq> None)) Sent_ack (adopt mp sv) net = (sv', net')"
      using assms(1) log Proposed False by (simp add: server_step_def proposed_def adopt_def Let_def split: option.splits)
    from step_ok_send [OF this say_ack [OF inv log assms(2) Proposed False refl]] show ?thesis by (simp add: nancy_id_def)
  qed
next
  case Sent_ack
  then show ?thesis using assms(1) log sent_ack_ok [OF inv Sent_ack]
    by (auto simp: server_step_def intro: step_ok_same split: if_splits)
next
  case (Ack_loop s t)
  then show ?thesis using assms(1) log ack_loop_ok [OF inv log Ack_loop]
    by (auto simp: server_step_def intro: step_ok_same)
next
  case (Ack_receive s t)
  show ?thesis
    by (rule step_ok_receive [OF _ log inv])
      (use assms(1) Ack_receive ack_received_ok [OF inv log Ack_receive] in \<open>auto simp: server_step_def\<close>)
next
  case Next_round
  then show ?thesis using assms(1) log next_round_ok [OF inv Next_round]
    by (auto simp: server_step_def intro: step_ok_same split: if_splits)
next
  case Decided
  then have "sv_decided sv" using inv by (simp add: sv_inv_def point_ok_def)
  note say = say_decide [OF inv log assms(2) this _ refl, of "Sent_nancy (decide_message (sv_color sv))"]
  have "send_to i nancy_id (decide_message (sv_color sv)) (Sent_nancy (decide_message (sv_color sv))) sv net = (sv', net')"
    using assms(1) Decided by (simp add: server_step_def decided_def Let_def)
  from step_ok_send [OF this say] show ?thesis using Decided by (simp add: decide_message_def)
next
  case (Sent_nancy m)
  then have d: "sv_decided sv" and m: "m = decide_message (sv_color sv)" using inv by (simp_all add: sv_inv_def point_ok_def)
  have "sv_inv C n (net_log net) (pending (int i) net) i (goto (Decide_loop 0 m) sv)"
    using inv d by (rule sv_inv_decided) (use Sent_nancy d m sv_inv_idle [OF inv] in \<open>simp_all add: move_simps\<close>)
  then show ?thesis using assms(1) log Sent_nancy
    by (auto simp: server_step_def intro: step_ok_same split: if_splits)
next
  case (Decide_loop j m)
  then have d: "sv_decided sv" and m: "m = decide_message (sv_color sv)" using inv by (simp_all add: sv_inv_def point_ok_def)
  have mv: "sv_inv C n (net_log net) (pending (int i) net) i (goto pt sv)"
    if "pt = Finished \<or> pt = Decide_loop (j + 1) m" for pt
    using inv d by (rule sv_inv_decided) (use that Decide_loop d m sv_inv_idle [OF inv] in \<open>auto simp: move_simps\<close>)
  note say = say_decide [OF inv log assms(2) d _ m, of "Sent_decide j m" j]
  consider (fin) "j = n" | (self) "j \<noteq> n" "j = i" | (other) "j \<noteq> n" "j \<noteq> i" by blast
  then show ?thesis
  proof cases
    case fin
    then show ?thesis using assms(1) log Decide_loop mv [of Finished]
      by (auto simp: server_step_def decide_loop_def intro: step_ok_same)
  next
    case self
    then show ?thesis using assms(1) log Decide_loop mv [of "Decide_loop (j + 1) m"]
      by (auto simp: server_step_def decide_loop_def intro: step_ok_same)
  next
    case other
    then have "send_to i (int j) m (Sent_decide j m) sv net = (sv', net')"
      using assms(1) log Decide_loop by (simp add: server_step_def decide_loop_def)
    from step_ok_send [OF this say] show ?thesis using Decide_loop by (simp add: nancy_id_def)
  qed
next
  case (Sent_decide j m)
  then have d: "sv_decided sv" and m: "m = decide_message (sv_color sv)" using inv by (simp_all add: sv_inv_def point_ok_def)
  have "sv_inv C n (net_log net) (pending (int i) net) i (goto (Decide_loop (j + 1) m) sv)"
    using inv d by (rule sv_inv_decided) (use Sent_decide d m sv_inv_idle [OF inv] in \<open>simp_all add: move_simps\<close>)
  then show ?thesis using assms(1) log Sent_decide
    by (auto simp: server_step_def intro: step_ok_same split: if_splits)
next
  case Finished
  then show ?thesis using assms(1) log by (simp add: server_step_def)
qed

lemma server_timeout_ok:
  assumes "server_timeout sv net = Some sv'" "sv_inv C n L P i sv"
  shows "sv_inv C n L P i sv'"
  using assms(2)
  by (rule sv_inv_move)
    (use assms(1) sv_inv_idle [OF assms(2)] in \<open>auto simp: server_timeout_def move_simps split: if_splits\<close>)

subsection \<open>Nancy\<close>

definition nancy_ok :: "nat \<Rightarrow> log \<Rightarrow> nancy \<Rightarrow> bool" where
  "nancy_ok n L nc \<longleftrightarrow> (nc_consensus nc = [] \<or> chosen n L (nc_consensus nc))
     \<and> (nc_received nc > 0 \<longrightarrow> chosen n L (nc_consensus nc))
     \<and> (nc_stopper nc \<noteq> None \<longrightarrow> nc_received nc > n div 2)
     \<and> nc_verdict nc \<in> {Watching, Achieved, Impatient}
     \<and> (nc_verdict nc = Achieved \<longrightarrow> nc_received nc > n div 2)"

lemma nancy_ok_append:
  assumes "nancy_ok n L nc"
  shows "nancy_ok n (L @ [e]) nc"
  using assms chosen_append [of n L "nc_consensus nc" e] unfolding nancy_ok_def by blast

lemma required_color:
  assumes "c \<in> set colors"
  shows "required_consensus colors = [] \<or> c = required_consensus colors"
  using assms by (cases colors) (auto simp: list_all_iff)

lemma nancy_message_ok:
  assumes "nancy_ok n L nc" "nc_verdict nc = Watching" "log_inv (set colors) n L" "set colors \<subseteq> {''red'', ''blue''}"
    and "m_type m = M_decide" "chosen n L (m_color m)"
  shows "nancy_ok n L (nancy_message n (required_consensus colors) m t nc)"
proof -
  have col: "m_color m \<in> set colors" using chosen_color [OF assms(3,6)] .
  then have "m_color m = ''red'' \<or> m_color m = ''blue''" using assms(4) by auto
  moreover have "required_consensus colors = [] \<or> m_color m = required_consensus colors"
    using required_color [OF col] .
  moreover have "nc_consensus nc = [] \<or> m_color m = nc_consensus nc"
    using assms(1) chosen_agree [OF assms(3,6)] by (auto simp: nancy_ok_def)
  ultimately show ?thesis
    using assms(1,2,5,6) by (auto simp: nancy_message_def nancy_ok_def Let_def)
qed

lemma nancy_stop_ok:
  assumes "nancy_ok n L nc" "nc_stopper nc = Some t"
  shows "nancy_ok n L (nancy_stop n nc)"
  using assms by (auto simp: nancy_stop_def nancy_ok_def)

subsection \<open>The program\<close>

definition ct_inv :: "string list \<Rightarrow> ct_state \<Rightarrow> bool" where
  "ct_inv colors st \<longleftrightarrow>
     (let n = length colors; L = net_log (ct_net st)
      in log_inv (set colors) n L
       \<and> (\<forall>i < n. sv_inv (set colors) n L (pending (int i) (ct_net st)) i (ct_servers st i))
       \<and> pending nancy_id (ct_net st) \<subseteq># msgs_to nancy_id L
       \<and> (\<forall>f m. (f, nancy_id, m) \<in> set L \<longrightarrow> m_type m = M_decide)
       \<and> nancy_ok n L (ct_nancy st))"

lemma log_inv_Nil: "log_inv C n []"
  by (simp add: log_inv_def says_def)

lemma ct_inv_init: "ct_inv colors (ct_init colors)"
  by (auto simp: ct_inv_def ct_init_def log_inv_Nil network_new_def sv_inv_def server_new_def sent_ok_def says_def
      color_ok_def point_ok_def inbox_ok_def idle_ok_def counted_ok_def pending_def the_port_def port_new_def
      msgs_to_def nancy_ok_def nancy_new_def Let_def)

text \<open>Steps of the network move messages, and the clock.\<close>

lemma ct_inv_net:
  assumes "ct_inv colors st" "net_log net = net_log (ct_net st)" "\<forall>j. pending j net = pending j (ct_net st)"
  shows "ct_inv colors (st\<lparr>ct_net := net\<rparr>)"
  using assms by (simp add: ct_inv_def)

lemma ct_inv_run:
  assumes "ct_inv colors st" "i < length colors" "server_step (length colors) i (ct_servers st i) (ct_net st) = Some (sv, net)"
  shows "ct_inv colors (st\<lparr>ct_servers := (ct_servers st)(i := sv), ct_net := net\<rparr>)"
proof -
  note inv = assms(1) [unfolded ct_inv_def Let_def]
  let ?n = "length colors" and ?C = "set colors" and ?L = "net_log (ct_net st)"
  have sv: "\<And>j. j < ?n \<Longrightarrow> sv_inv ?C ?n ?L (pending (int j) (ct_net st)) j (ct_servers st j)" using inv by simp
  have "step_ok ?C ?n i (ct_net st) sv net"
    using server_step_ok [OF assms(3,2) sv [OF assms(2)]] inv by simp
  note ok = this [unfolded step_ok_def]
  from ok have os: "only_says i (ct_net st) net" by simp
  consider (quiet) "net_log net = ?L" "\<forall>j. j \<noteq> int i \<longrightarrow> pending j net = pending j (ct_net st)"
    | (say) d m where "net_log net = ?L @ [(int i, d, m)]" "d = nancy_id \<longrightarrow> m_type m = M_decide"
        "\<forall>j. j \<noteq> int i \<longrightarrow> pending j net = pending j (ct_net st) + (if d = j then {#m#} else {#})"
    using os unfolding only_says_def by blast
  then show ?thesis
  proof cases
    case quiet
    then show ?thesis using inv ok sv by (auto simp: ct_inv_def nancy_id_def)
  next
    case say
    have "sv_inv ?C ?n (net_log net) (pending (int j) net) j (ct_servers st j)" if "j < ?n" "j \<noteq> i" for j
      using sv_inv_other [OF sv [OF that(1)], of "int i" d m] that(2) say(1,3) by (simp add: eq_commute)
    moreover have "pending nancy_id net \<subseteq># msgs_to nancy_id (net_log net)"
      using inv say(1,3) by (simp add: nancy_id_def)
    moreover have "nancy_ok ?n (net_log net) (ct_nancy st)" using inv say(1) nancy_ok_append by simp
    moreover have "\<forall>f m. (f, nancy_id, m) \<in> set (net_log net) \<longrightarrow> m_type m = M_decide" using inv say(1,2) by auto
    ultimately show ?thesis using ok by (simp add: ct_inv_def)
  qed
qed

lemma ct_inv_nancy:
  assumes "ct_inv colors st" "set colors \<subseteq> {''red'', ''blue''}"
    and "nancy_step (length colors) (required_consensus colors) (ct_nancy st) (ct_net st) = Some (nc, net)"
  shows "ct_inv colors (st\<lparr>ct_nancy := nc, ct_net := net\<rparr>)"
proof -
  note inv = assms(1) [unfolded ct_inv_def Let_def]
  let ?n = "length colors" and ?L = "net_log (ct_net st)"
  have watch: "nc_verdict (ct_nancy st) = Watching" using assms(3) by (auto simp: nancy_step_def split: if_splits)
  consider (stop) t where "nc_stopper (ct_nancy st) = Some t" "nc = nancy_stop ?n (ct_nancy st)" "net = ct_net st"
    | (wait) pt pt' where "receive_with_id nancy_id pt (ct_net st) = (Suspended pt', net)"
        "nc = (ct_nancy st)\<lparr>nc_receive := Some pt'\<rparr>"
    | (msg) pt m f where "receive_with_id nancy_id pt (ct_net st) = (Received (m, f), net)"
        "nc = nancy_message ?n (required_consensus colors) m (now net) ((ct_nancy st)\<lparr>nc_receive := None\<rparr>)"
    using assms(3) by (auto simp: nancy_step_def Let_def split: if_splits option.splits prod.splits receive_step.splits)
  then show ?thesis
  proof cases
    case stop
    then show ?thesis using inv nancy_stop_ok by (simp add: ct_inv_def)
  next
    case wait
    then show ?thesis using inv pending_receive [OF wait(1)] log_receive [OF wait(1)]
      by (simp add: ct_inv_def nancy_ok_def)
  next
    case msg
    have pend: "pending nancy_id (ct_net st) = add_mset m (pending nancy_id net)"
        "\<And>j. j \<noteq> nancy_id \<Longrightarrow> pending j net = pending j (ct_net st)"
      and log: "net_log net = ?L"
      using pending_receive [OF msg(1)] log_receive [OF msg(1)] by simp_all
    have "m \<in># msgs_to nancy_id ?L" using inv pend(1) by (auto dest: mset_subset_eqD)
    then obtain g where g: "(g, nancy_id, m) \<in> set ?L" using in_msgs_to by blast
    then have dec: "m_type m = M_decide" using inv by blast
    obtain i where "says ?L i m" using g log_invD(2) [OF conjunct1 [OF inv] g] by (auto simp: says_def)
    then have "chosen ?n ?L (m_color m)" using log_invD(8) [OF conjunct1 [OF inv]] dec by blast
    moreover have "nancy_ok ?n ?L ((ct_nancy st)\<lparr>nc_receive := None\<rparr>)" using inv by (simp add: nancy_ok_def)
    ultimately have "nancy_ok ?n ?L nc"
      using nancy_message_ok [OF _ _ conjunct1 [OF inv] assms(2) dec] msg(2) watch by simp
    moreover have "pending nancy_id net \<subseteq># msgs_to nancy_id ?L"
      using inv pend(1) by (simp add: insert_subset_eq_iff) (meson diff_subset_eq_self subset_mset.order_trans)
    moreover have "pending (int i) net = pending (int i) (ct_net st)" for i
      using pend(2) by (simp add: nancy_id_def)
    ultimately show ?thesis using inv log by (simp add: ct_inv_def)
  qed
qed

lemma ct_inv_step:
  assumes "ct_inv colors st" "set colors \<subseteq> {''red'', ''blue''}" "ct_step colors ch st = Some st'"
  shows "ct_inv colors st'"
proof (cases ch)
  case (Deliver k)
  then show ?thesis using assms(3) pending_deliver [of k "ct_net st"]
    by (auto simp: ct_step_def Let_def split: if_splits intro!: ct_inv_net [OF assms(1)])
next
  case (Run i)
  then show ?thesis using assms(3) ct_inv_run [OF assms(1)]
    by (auto simp: ct_step_def Let_def split: if_splits)
next
  case (Timeout i)
  then obtain sv where sv: "i < length colors" "server_timeout (ct_servers st i) (ct_net st) = Some sv"
      "st' = st\<lparr>ct_servers := (ct_servers st)(i := sv)\<rparr>"
    using assms(3) by (auto simp: ct_step_def Let_def split: if_splits)
  then show ?thesis using assms(1) server_timeout_ok [OF sv(2)] by (simp add: ct_inv_def Let_def)
next
  case Nancy
  then show ?thesis using assms(3) ct_inv_nancy [OF assms(1,2)]
    by (auto simp: ct_step_def Let_def)
next
  case Impatience
  then show ?thesis using assms(1,3)
    by (auto simp: ct_step_def ct_inv_def Let_def nancy_is_impatient_def nancy_ok_def split: if_splits)
next
  case (Wait t)
  then show ?thesis using assms(3)
    by (auto simp: ct_step_def Let_def split: if_splits intro!: ct_inv_net [OF assms(1)])
qed

lemma ct_reach_inv:
  assumes "ct_reach colors st" "set colors \<subseteq> {''red'', ''blue''}"
  shows "ct_inv colors st"
  using assms(1)
proof induction
  case ct_start
  then show ?case by (rule ct_inv_init)
next
  case (ct_next st ch st')
  then show ?case using ct_inv_step assms(2) by blast
qed

subsection \<open>Agreement\<close>


text \<open>A run of three servers in which Nancy approves.\<close>

definition approved_colors :: "string list" where
  "approved_colors = [''red'', ''blue'', ''blue'']"

definition approved_run :: "ct_choice list" where
  "approved_run =
  [Nancy, Run 1, Run 0, Run 2, Wait 20000, Deliver 0, Deliver 0, Deliver 0,
   Run 1, Run 1, Run 1, Run 1, Run 1, Run 1, Run 1, Run 1, Run 1, Run 0,
   Run 0, Run 2, Run 2, Wait 20000, Deliver 0, Run 1, Run 1, Run 0, Run 0,
   Run 0, Wait 20000, Deliver 0, Deliver 0, Run 1, Run 1, Run 0, Wait 20000,
   Deliver 0, Run 1, Run 1, Run 1, Run 1, Run 1, Run 1, Run 1, Run 0, Run 0,
   Run 2, Run 2, Run 2, Wait 20000, Deliver 0, Deliver 0, Deliver 0, Run 1,
   Run 1, Run 1, Run 1, Run 1, Run 1, Run 1, Run 1, Run 1, Run 1, Run 1,
   Run 0, Run 0, Run 2, Wait 20000, Deliver 0, Nancy, Nancy, Nancy, Run 1,
   Run 1, Run 2, Run 2, Wait 20000, Deliver 0, Deliver 0, Run 1, Run 1,
   Run 1, Run 0, Run 0, Run 0, Run 0, Run 2, Run 2, Run 2, Run 2, Run 2,
   Run 2, Run 2, Run 2, Run 2, Wait 20000, Deliver 0, Deliver 0, Deliver 0,
   Nancy, Nancy, Nancy, Run 1, Run 1, Run 0, Run 0, Run 0, Run 2, Run 2,
   Wait 10000000, Deliver 0, Deliver 0, Nancy]"

lemma approved_run_ok:
  "map_option (\<lambda>st. (nc_verdict (ct_nancy st), nc_consensus (ct_nancy st), sv_decided (ct_servers st 0), sv_decided (ct_servers st 1)))
     (ct_run approved_colors approved_run (ct_init approved_colors)) = Some (Achieved, ''blue'', True, True)"
  by code_simp


end
