(* ===== verification/ConsensusSpec.thy ===== *)
theory ConsensusSpec
  imports ConsensusReach
begin

text \<open>
  The program as an implementation of one abstract register that is written at most once: the color
  that a majority has acknowledged. Every step of the program leaves the register alone or writes the
  color of some server into it; a server that has decided holds its value, for ever.
\<close>

subsection \<open>The abstract specification\<close>

inductive register_step :: "string set \<Rightarrow> string option \<Rightarrow> string option \<Rightarrow> bool" for C where
  reg_stay: "register_step C v v"
| reg_write: "c \<in> C \<Longrightarrow> register_step C None (Some c)"

inductive_cases register_stepE: "register_step C (Some c) v"

text \<open>The value of the register in a state of the program.\<close>

definition register_value :: "string list \<Rightarrow> ct_state \<Rightarrow> string option \<Rightarrow> bool" where
  "register_value colors st v \<longleftrightarrow> (\<forall>c. v = Some c \<longleftrightarrow> chosen (length colors) (net_log (ct_net st)) c)"

lemma register_value_unique: "register_value colors st v \<Longrightarrow> register_value colors st v' \<Longrightarrow> v = v'"
  unfolding register_value_def by (metis not_None_eq)

lemma register_value_exists:
  assumes "log_inv C (length colors) (net_log (ct_net st))"
  shows "\<exists>v. register_value colors st v"
proof (cases "\<exists>c. chosen (length colors) (net_log (ct_net st)) c")
  case True
  then obtain c where c: "chosen (length colors) (net_log (ct_net st)) c" by blast
  have "register_value colors st (Some c)"
    unfolding register_value_def
  proof (intro allI iffI)
    show "chosen (length colors) (net_log (ct_net st)) d" if "Some c = Some d" for d using c that by simp
    show "Some c = Some d" if "chosen (length colors) (net_log (ct_net st)) d" for d
      using chosen_agree [OF assms c that] by simp
  qed
  then show ?thesis by blast
next
  case False
  then have "register_value colors st None" by (simp add: register_value_def)
  then show ?thesis by blast
qed

subsection \<open>Steps extend the log and do not undo decisions\<close>

lemma received_ok_decided: "received_ok mt sv P r sv' P' \<Longrightarrow> sv_decided sv \<Longrightarrow> sv_decided sv'"
  by (auto simp: received_ok_def split: receive_result.splits)

lemma receive_then_decided:
  assumes "receive_then i mt k sv net = Some (sv', net')" "idle_ok sv" "sv_decided sv"
    and "\<And>m sv. sv_decided (k m sv) = sv_decided sv"
  shows "sv_decided sv'"
proof -
  obtain r sv1 where "server_receive i mt sv net = Some (r, sv1, net')"
      "sv' = (case r of Again \<Rightarrow> sv1 | Return m \<Rightarrow> k m sv1)"
    using assms(1) by (auto simp: receive_then_def split: option.splits receive_result.splits)
  then show ?thesis using server_receive_ok [OF _ assms(2)] received_ok_decided assms(3,4)
    by (cases r) (auto, blast+)
qed

lemma server_step_decided:
  assumes "server_step n i sv net = Some (sv', net')" "idle_ok sv" "sv_decided sv"
  shows "sv_decided sv'"
proof (cases "receiving (sv_point sv)")
  case True
  have k: "sv_decided (prepare_received x m s) = sv_decided s" "sv_decided (ack_received y z m s) = sv_decided s"
      "sv_decided (goto pt s) = sv_decided s" for x y z m pt s
    by (simp_all add: prepare_received_def ack_received_def goto_def)
  show ?thesis
    using assms(1) True receive_then_decided [OF _ assms(2,3)] k
    by (cases "sv_point sv") (auto simp: server_step_def)
next
  case False
  then show ?thesis using assms(1,3)
    by (cases "sv_point sv")
      (auto simp: server_step_def at_loop_def sent_prepare_def prepare_loop_def propose_loop_def proposed_def
        sent_ack_def ack_loop_def decided_def decide_loop_def send_to_def goto_def begin_propose_def receive_begin_def
        Let_def split: if_splits prod.splits option.splits)
qed

lemma nancy_step_log:
  "nancy_step n req nc net = Some (nc', net') \<Longrightarrow> net_log net' = net_log net"
  by (auto simp: nancy_step_def Let_def dest: log_receive split: if_splits option.splits prod.splits receive_step.splits)

lemma ct_step_log:
  assumes "ct_inv colors st" "ct_step colors ch st = Some st'"
  shows "\<exists>es. net_log (ct_net st') = net_log (ct_net st) @ es"
proof (cases ch)
  case (Run i)
  then obtain sv net where r: "i < length colors"
      "server_step (length colors) i (ct_servers st i) (ct_net st) = Some (sv, net)" "ct_net st' = net"
    using assms(2) by (auto simp: ct_step_def Let_def split: if_splits)
  have "step_ok (set colors) (length colors) i (ct_net st) sv net"
    using server_step_ok [OF r(2,1)] assms(1) r(1) by (simp add: ct_inv_def Let_def)
  then show ?thesis using r(3) by (auto simp: step_ok_def only_says_def)
next
  case Nancy
  then show ?thesis using assms(2) nancy_step_log by (auto simp: ct_step_def Let_def)
qed (use assms(2) in \<open>auto simp: ct_step_def Let_def nancy_is_impatient_def split: if_splits\<close>)

lemma ct_step_decided:
  assumes "ct_inv colors st" "ct_step colors ch st = Some st'" "i < length colors" "sv_decided (ct_servers st i)"
  shows "sv_decided (ct_servers st' i)"
proof (cases ch)
  case (Run j)
  have idle: "idle_ok (ct_servers st i)" using assms(1,3) by (simp add: ct_inv_def Let_def sv_inv_def inbox_ok_def)
  then show ?thesis using assms(2,4) Run server_step_decided [OF _ idle assms(4)]
    by (auto simp: ct_step_def Let_def split: if_splits)
next
  case (Timeout j)
  then show ?thesis using assms(2,4)
    by (auto simp: ct_step_def Let_def server_timeout_def goto_def split: if_splits)
qed (use assms(2,4) in \<open>auto simp: ct_step_def Let_def nancy_is_impatient_def split: if_splits\<close>)

lemma chosen_extend: "chosen n L c \<Longrightarrow> chosen n (L @ es) c"
proof (induction es rule: rev_induct)
  case (snoc e es)
  then show ?case using chosen_append [of n "L @ es" c e] by simp
qed simp

subsection \<open>Refinement\<close>

text \<open>
  C11: consensus refines a register that is written once: in a reachable state the register has one
  value; a step of the program leaves it or writes a color that some server started with into the empty
  register; servers that have decided hold its value, stay decided and keep their color.
\<close>

theorem consensus_refines_register:
  assumes "ct_reach colors st" "set colors \<subseteq> {''red'', ''blue''}" "ct_step colors ch st = Some st'"
  shows "\<exists>v v'. register_value colors st v \<and> register_value colors st' v' \<and> register_step (set colors) v v'
    \<and> (\<forall>i. i < length colors \<and> sv_decided (ct_servers st i) \<longrightarrow>
         sv_decided (ct_servers st' i) \<and> v = Some (sv_color (ct_servers st i))
         \<and> sv_color (ct_servers st' i) = sv_color (ct_servers st i))"
proof -
  let ?n = "length colors" and ?L = "net_log (ct_net st)" and ?L' = "net_log (ct_net st')"
  have inv: "ct_inv colors st" using ct_reach_inv [OF assms(1,2)] .
  then have inv': "ct_inv colors st'" using ct_inv_step assms(2,3) by blast
  have log: "log_inv (set colors) ?n ?L" "log_inv (set colors) ?n ?L'" using inv inv' by (simp_all add: ct_inv_def Let_def)
  obtain v v' where v: "register_value colors st v" "register_value colors st' v'"
    using register_value_exists log by blast
  obtain es where es: "?L' = ?L @ es" using ct_step_log [OF inv assms(3)] by blast
  have keep: "v' = Some c" if "v = Some c" for c
  proof -
    have "chosen ?n ?L c" using v(1) that unfolding register_value_def by blast
    then have "chosen ?n ?L' c" using chosen_extend es by metis
    then show ?thesis using v(2) unfolding register_value_def by blast
  qed
  have "register_step (set colors) v v'"
  proof (cases v)
    case None
    then show ?thesis using v(2) chosen_color [OF log(2)]
      by (cases v') (auto simp: register_value_def intro: reg_stay reg_write)
  next
    case (Some c)
    then show ?thesis using keep by (auto intro: reg_stay)
  qed
  moreover have "sv_decided (ct_servers st' i) \<and> v = Some (sv_color (ct_servers st i))
      \<and> sv_color (ct_servers st' i) = sv_color (ct_servers st i)"
    if i: "i < ?n" "sv_decided (ct_servers st i)" for i
  proof -
    have d': "sv_decided (ct_servers st' i)" using ct_step_decided [OF inv assms(3) i] .
    have ch: "chosen ?n ?L (sv_color (ct_servers st i))" "chosen ?n ?L' (sv_color (ct_servers st' i))"
      using inv inv' i d' by (simp_all add: ct_inv_def Let_def sv_inv_def color_ok_def)
    have "chosen ?n ?L' (sv_color (ct_servers st i))" using chosen_extend [OF ch(1)] es by simp
    then have "sv_color (ct_servers st' i) = sv_color (ct_servers st i)" using chosen_agree [OF log(2) ch(2)] by simp
    moreover have "v = Some (sv_color (ct_servers st i))" using v(1) ch(1) unfolding register_value_def by blast
    ultimately show ?thesis using d' by simp
  qed
  ultimately show ?thesis using v by blast
qed

theorem consensus_refines_register_witness:
  "\<exists>st v v'. ct_step approved_colors (Run 1) (ct_init approved_colors) = Some st
     \<and> register_value approved_colors (ct_init approved_colors) v \<and> register_value approved_colors st v'
     \<and> register_step (set approved_colors) v v'"
proof -
  have c: "set approved_colors \<subseteq> {''red'', ''blue''}" by (simp add: approved_colors_def)
  obtain st where st: "ct_step approved_colors (Run 1) (ct_init approved_colors) = Some st"
    by (auto simp: ct_step_def approved_colors_def ct_init_def server_new_def server_step_def Let_def)
  from consensus_refines_register [OF ct_start c st] st show ?thesis by blast
qed

end
