(* ===== verification/MessageStream.thy ===== *)
theory MessageStream
  imports Prelude IoLoops
begin

text \<open>
  Messages over a byte stream (\<^verbatim>\<open>examples/message_stream.hh\<close>). A sender frames messages with a
  32-bit length in the byte order of the host (little-endian here) and buffers them for its writer
  loop; a receiver's reader loop fills a buffer from which \<^verbatim>\<open>recv\<close> takes messages.

  The buffer is memory from the start of its array, with the position, length and capacity of the source. A notifier is
  armed while somebody may wait on it and triggered otherwise. Coroutines are split at their
  suspension points; one turn is one iteration of a loop. The mutex admits one client at a time.
\<close>

subsection \<open>State\<close>

datatype statuscode = Status_running | Status_eof | Status_error

text \<open>Where the reader or writer loop is.\<close>

datatype stream_task = Task_loop | Task_wait_event | Task_wait_fd | Task_done

record message_stream =
  ms_pos :: nat
  ms_len :: nat
  ms_capacity :: nat
  ms_buf :: mem
  ms_status :: statuscode
  ms_errno :: "errno option"
  client_armed :: bool
  loop_armed :: bool
  drained_armed :: bool
  ms_task :: stream_task

definition backlog :: nat where "backlog = 1048576"

text \<open>\<^verbatim>\<open>new char[n]\<close>; nothing reads these bytes before they are written.\<close>

definition new_chars :: mem where
  "new_chars = (\<lambda>_. char_of (0 :: nat))"

definition message_stream_new :: "bool \<Rightarrow> message_stream" where
  "message_stream_new valid = \<lparr>ms_pos = 0, ms_len = 0, ms_capacity = 4096, ms_buf = new_chars,
     ms_status = (if valid then Status_running else Status_error), ms_errno = None,
     client_armed = False, loop_armed = False, drained_armed = False, ms_task = Task_loop\<rparr>"

text \<open>The bytes that are in the buffer.\<close>

definition stored :: "message_stream \<Rightarrow> string" where
  "stored st = load_bytes (ms_buf st) (ms_pos st) (ms_len st)"

definition store32 :: "u32 \<Rightarrow> string" where
  "store32 w = map (\<lambda>k. char_of (unat w div 256 ^ k mod 256)) [0..<4]"

definition load32 :: "string \<Rightarrow> u32" where
  "load32 bs = of_nat (\<Sum>k<4. of_char (bs ! k) * 256 ^ k)"

text \<open>\<^verbatim>\<open>drained()\<close>: the returned event has triggered unless the notifier is armed.\<close>

definition drained :: "message_stream \<Rightarrow> bool \<times> message_stream" where
  "drained st = (let st = (if ms_len st \<noteq> 0 then st\<lparr>drained_armed := True\<rparr> else st)
                 in (\<not> drained_armed st, st))"

subsection \<open>Buffer space\<close>

text \<open>The body of both loops that grow the buffer.\<close>

definition double_buffer :: "message_stream \<Rightarrow> message_stream" where
  "double_buffer st =
     st\<lparr>ms_buf := store_bytes 0 (stored st) new_chars, ms_capacity := ms_capacity st * 2, ms_pos := 0\<rparr>"

partial_function (option) grow :: "nat \<Rightarrow> message_stream \<Rightarrow> message_stream option" where
  "grow n st =
     (if ms_pos st + ms_len st + n + 4 > ms_capacity st then grow n (double_buffer st) else Some st)"

declare grow.simps [code]

subsection \<open>Sending\<close>

datatype send_result = Send_waits | Sent_message | Send_epipe

text \<open>The part of \<^verbatim>\<open>send\<close> after the wait.\<close>

definition put_message :: "string \<Rightarrow> message_stream \<Rightarrow> message_stream option" where
  "put_message msg st =
     (case grow (length msg) (if ms_len st = 0 then st\<lparr>ms_pos := 0\<rparr> else st) of
        None \<Rightarrow> None
      | Some st \<Rightarrow>
          let mlen = of_nat (length msg) :: u32;
              buf = store_bytes (ms_pos st + ms_len st) (store32 mlen) (ms_buf st);
              buf = store_bytes (ms_pos st + ms_len st + 4) msg buf
          in Some (st\<lparr>ms_buf := buf, ms_len := ms_len st + length msg + 4, loop_armed := False\<rparr>))"

text \<open>\<^verbatim>\<open>send\<close> from the test of its wait, when the client has the mutex.\<close>

definition stream_send :: "string \<Rightarrow> message_stream \<Rightarrow> (send_result \<times> message_stream) option" where
  "stream_send msg st =
     (if ms_len st > 0 \<and> ms_len st + length msg > backlog \<and> ms_status st = Status_running
      then Some (Send_waits, st\<lparr>client_armed := True\<rparr>)
      else if ms_status st \<noteq> Status_running then Some (Send_epipe, st)
      else map_option (Pair Sent_message) (put_message msg st))"

text \<open>
  One turn of \<^verbatim>\<open>writer_loop\<close>: whether the descriptor is open, and the result of \<^verbatim>\<open>::write\<close> with
  \<^verbatim>\<open>errno\<close>; also the bytes that were written.
\<close>

definition finish_loop :: "statuscode \<Rightarrow> errno option \<Rightarrow> message_stream \<Rightarrow> message_stream" where
  "finish_loop sc e st = st\<lparr>ms_status := sc, ms_errno := e, client_armed := False, ms_task := Task_done\<rparr>"

definition writer_turn :: "bool \<Rightarrow> int \<Rightarrow> errno \<Rightarrow> message_stream \<Rightarrow> string \<times> message_stream" where
  "writer_turn f rv e st =
     (if \<not> f then ([], finish_loop Status_error (ms_errno st) st)
      else if ms_len st = 0
      then ([], st\<lparr>drained_armed := False, loop_armed := True, ms_task := Task_wait_event\<rparr>)
      else if rv > 0
      then let bs = take (nat rv) (stored st);
               st = st\<lparr>ms_pos := ms_pos st + nat rv, ms_len := ms_len st - nat rv, ms_task := Task_loop\<rparr>
           in (bs, if ms_len st < backlog then st\<lparr>client_armed := False\<rparr> else st)
      else if retry e then ([], st\<lparr>ms_task := Task_wait_fd\<rparr>)
      else ([], finish_loop Status_error (Some e) st))"

subsection \<open>Receiving\<close>

text \<open>\<^verbatim>\<open>uint32_t + int\<close> wraps at 32 bits; \<^verbatim>\<open>size_t(-1)\<close> is more than any length.\<close>

definition first_message_length :: "message_stream \<Rightarrow> nat" where
  "first_message_length st =
     (if ms_len st < 4 then 2 ^ 64 - 1 else unat (load32 (load_bytes (ms_buf st) (ms_pos st) 4) + 4))"

datatype recv_result = Recv_waits | Recv_end | Recv_message string | Recv_length_error

text \<open>\<^verbatim>\<open>recv\<close> from the test of its wait. A length below four makes the length of the string wrap.\<close>

definition stream_recv :: "message_stream \<Rightarrow> recv_result \<times> message_stream" where
  "stream_recv st =
     (let fml = first_message_length st
      in if fml > ms_len st
         then if ms_status st \<noteq> Status_running then (Recv_end, st)
              else (Recv_waits, st\<lparr>loop_armed := False, client_armed := True\<rparr>)
         else
           let st = st\<lparr>ms_pos := ms_pos st + fml, ms_len := ms_len st - fml\<rparr>;
               st = (if ms_len st = 0 then st\<lparr>drained_armed := False\<rparr> else st)
           in (if fml < 4 then Recv_length_error
               else Recv_message (load_bytes (ms_buf st) (ms_pos st - (fml - 4)) (fml - 4)), st))"

text \<open>The space that \<^verbatim>\<open>reader_loop\<close> makes before it reads, and how much it asks for.\<close>

definition reader_space :: "message_stream \<Rightarrow> message_stream" where
  "reader_space st =
     (let st = (if ms_len st = 0 then st\<lparr>ms_pos := 0\<rparr> else st)
      in if ms_pos st + ms_len st + 512 > ms_capacity st then double_buffer st else st)"

definition read_count :: "message_stream \<Rightarrow> nat" where
  "read_count st = (let st = reader_space st in ms_capacity st - (ms_pos st + ms_len st))"

text \<open>
  One turn of \<^verbatim>\<open>reader_loop\<close>: the bytes of a successful \<^verbatim>\<open>::read\<close> (\<open>[]\<close> at the end of the
  stream), or \<^verbatim>\<open>errno\<close>.
\<close>

definition reader_turn :: "bool \<Rightarrow> errno + string \<Rightarrow> message_stream \<Rightarrow> message_stream" where
  "reader_turn f r st =
     (if \<not> f then finish_loop Status_error (ms_errno st) st
      else if \<not> client_armed st then st\<lparr>loop_armed := True, ms_task := Task_wait_event\<rparr>
      else
        let st = reader_space st
        in (case r of
              Inr bs \<Rightarrow>
                if bs \<noteq> []
                then st\<lparr>ms_buf := store_bytes (ms_pos st + ms_len st) bs (ms_buf st), ms_len := ms_len st + length bs,
                        client_armed := False, ms_task := Task_loop\<rparr>
                else finish_loop Status_eof (ms_errno st) st
            | Inl e \<Rightarrow>
                if retry e then st\<lparr>ms_task := Task_wait_fd\<rparr>
                else finish_loop Status_error (Some e) st))"

text \<open>A loop can go on unless it has ended or waits on its event.\<close>

definition loop_runnable :: "message_stream \<Rightarrow> bool" where
  "loop_runnable st \<longleftrightarrow> ms_task st \<noteq> Task_done \<and> (ms_task st = Task_wait_event \<longrightarrow> \<not> loop_armed st)"

subsection \<open>A sender and a receiver on one connection\<close>

text \<open>
  The connection holds bytes in order. \<open>tx_client\<close> is the message whose \<^verbatim>\<open>send\<close> waits, \<open>rx_client\<close>
  whether a \<^verbatim>\<open>recv\<close> waits; \<open>sent\<close> and \<open>received\<close> are the messages in the order of the calls that
  completed.
\<close>

record stream_link =
  tx :: message_stream
  rx :: message_stream
  in_transit :: string
  sent :: "string list"
  received :: "string list"
  tx_client :: "string option"
  rx_client :: bool

definition link_new :: "bool \<Rightarrow> bool \<Rightarrow> stream_link" where
  "link_new f g = \<lparr>tx = message_stream_new f, rx = message_stream_new g, in_transit = [], sent = [],
     received = [], tx_client = None, rx_client = False\<rparr>"

datatype link_choice =
    Call_send string | Resume_send | Call_drained | Run_writer bool int errno
  | Call_recv | Resume_recv | Run_reader bool "errno + nat"

definition link_send :: "string \<Rightarrow> stream_link \<Rightarrow> stream_link option" where
  "link_send msg st =
     (case stream_send msg (tx st) of
        None \<Rightarrow> None
      | Some (Send_waits, s) \<Rightarrow> Some (st\<lparr>tx := s, tx_client := Some msg\<rparr>)
      | Some (Sent_message, s) \<Rightarrow> Some (st\<lparr>tx := s, tx_client := None, sent := sent st @ [msg]\<rparr>)
      | Some (Send_epipe, s) \<Rightarrow> Some (st\<lparr>tx := s, tx_client := None\<rparr>))"

definition link_recv :: "stream_link \<Rightarrow> stream_link" where
  "link_recv st =
     (case stream_recv (rx st) of
        (Recv_waits, s) \<Rightarrow> st\<lparr>rx := s, rx_client := True\<rparr>
      | (Recv_message m, s) \<Rightarrow> st\<lparr>rx := s, rx_client := False, received := received st @ [m]\<rparr>
      | (_, s) \<Rightarrow> st\<lparr>rx := s, rx_client := False\<rparr>)"

text \<open>
  One step; \<open>None\<close> if it cannot happen now. The kernel writes no more than it is given, and reads
  no more than it is asked for and than has arrived.
\<close>

definition link_step :: "link_choice \<Rightarrow> stream_link \<Rightarrow> stream_link option" where
  "link_step ch st =
     (case ch of
        Call_send msg \<Rightarrow>
          if tx_client st = None \<and> length msg \<le> 4294967295 then link_send msg st else None
      | Resume_send \<Rightarrow>
          (case tx_client st of Some msg \<Rightarrow> if \<not> client_armed (tx st) then link_send msg st else None | None \<Rightarrow> None)
      | Call_drained \<Rightarrow> Some (st\<lparr>tx := snd (drained (tx st))\<rparr>)
      | Run_writer f rv e \<Rightarrow>
          if loop_runnable (tx st) \<and> rv \<le> int (ms_len (tx st))
          then let (bs, s) = writer_turn f rv e (tx st)
               in Some (st\<lparr>tx := s, in_transit := in_transit st @ bs\<rparr>)
          else None
      | Call_recv \<Rightarrow> if \<not> rx_client st then Some (link_recv st) else None
      | Resume_recv \<Rightarrow> if rx_client st \<and> \<not> client_armed (rx st) then Some (link_recv st) else None
      | Run_reader f r \<Rightarrow>
          if loop_runnable (rx st)
          then (case r of
                  Inl e \<Rightarrow> Some (st\<lparr>rx := reader_turn f (Inl e) (rx st)\<rparr>)
                | Inr k \<Rightarrow>
                    if \<not> f \<or> \<not> client_armed (rx st) then Some (st\<lparr>rx := reader_turn f (Inr []) (rx st)\<rparr>)
                    else if k \<le> length (in_transit st) \<and> k \<le> read_count (rx st)
                    then Some (st\<lparr>rx := reader_turn f (Inr (take k (in_transit st))) (rx st), in_transit := drop k (in_transit st)\<rparr>)
                    else None)
          else None)"

fun link_run :: "link_choice list \<Rightarrow> stream_link \<Rightarrow> stream_link option" where
  "link_run [] st = Some st"
| "link_run (ch # chs) st = (case link_step ch st of None \<Rightarrow> None | Some st \<Rightarrow> link_run chs st)"

end
