(* ===== verification/MessageStreamInv.thy ===== *)
theory MessageStreamInv
  imports MessageStream IoInv
begin

text \<open>
  What is sent over a message stream is received, message by message; no access leaves the buffer;
  no wake-up between the loops and their clients is lost.
\<close>

subsection \<open>The length word\<close>

lemma length_store32 [simp]: "length (store32 w) = 4"
  by (simp add: store32_def)

lemma four_digits:
  assumes "n < 256 ^ 4"
  shows "(\<Sum>k<4. (n div 256 ^ k mod 256) * 256 ^ k) = (n :: nat)"
proof -
  define q1 q2 q3 where q: "q1 = n div 256" "q2 = q1 div 256" "q3 = q2 div 256"
  define r0 r1 r2 where r: "r0 = n mod 256" "r1 = q1 mod 256" "r2 = q2 mod 256"
  have digits: "n = q1 * 256 + r0" "q1 = q2 * 256 + r1" "q2 = q3 * 256 + r2" by (simp_all add: q r)
  have d: "n div 65536 = q2" "n div 16777216 = q3"
    using div_mult2_eq [of n 256 256] div_mult2_eq [of n 256 "256 * 256"] div_mult2_eq [of q1 256 256] by (simp_all add: q)
  have "q3 mod 256 = q3" using assms by (simp flip: d)
  moreover have "{..<4} = {0, 1, 2, 3 :: nat}" by auto
  ultimately have "(\<Sum>k<4. (n div 256 ^ k mod 256) * 256 ^ k) = r0 + r1 * 256 + r2 * 65536 + q3 * 16777216"
    by (simp add: d r q(1))
  also have "\<dots> = n" using digits by simp
  finally show ?thesis .
qed

lemma load_store32: "load32 (store32 w) = w"
proof -
  have "unat w < 256 ^ 4" using unsigned_less [of w] by simp
  from four_digits [OF this] have "(\<Sum>k<4. (unat w div 256 ^ k mod 256) * 256 ^ k) = unat w" .
  moreover have "(\<Sum>k<4. of_char (store32 w ! k) * 256 ^ k) = (\<Sum>k<4. (unat w div 256 ^ k mod 256) * 256 ^ k)"
    by (rule sum.cong) (simp_all add: store32_def)
  ultimately show ?thesis by (simp add: load32_def)
qed

subsection \<open>Buffers\<close>

definition ms_ok :: "message_stream \<Rightarrow> bool" where
  "ms_ok st \<longleftrightarrow> ms_pos st + ms_len st \<le> ms_capacity st \<and> ms_capacity st \<ge> 4096"

lemma ms_okD:
  assumes "ms_ok st"
  shows "ms_pos st + ms_len st \<le> ms_capacity st" "ms_capacity st \<ge> 4096"
  using assms by (simp_all add: ms_ok_def)

lemma length_stored [simp]: "length (stored st) = ms_len st"
  by (simp add: stored_def)

lemma store_bytes_apply: "store_bytes a s m i = (if a \<le> i \<and> i < a + length s then s ! (i - a) else m i)"
  by (induction s arbitrary: a m) (auto simp: nth_Cons')

lemma load_store_appends: "load_bytes (store_bytes (p + l) bs m) p (l + length bs) = load_bytes m p l @ bs"
proof (rule nth_equalityI)
  fix i
  assume "i < length (load_bytes (store_bytes (p + l) bs m) p (l + length bs))"
  then show "load_bytes (store_bytes (p + l) bs m) p (l + length bs) ! i = (load_bytes m p l @ bs) ! i"
    by (auto simp: load_bytes_def store_bytes_apply nth_append add.commute)
qed (simp add: load_bytes_def)

lemma double_buffer_ok:
  assumes "ms_ok st"
  shows "ms_ok (double_buffer st)" "stored (double_buffer st) = stored st" "ms_len (double_buffer st) = ms_len st"
    "ms_pos (double_buffer st) = 0" "ms_capacity (double_buffer st) = ms_capacity st * 2"
    "ms_status (double_buffer st) = ms_status st" "client_armed (double_buffer st) = client_armed st"
    "loop_armed (double_buffer st) = loop_armed st" "ms_task (double_buffer st) = ms_task st"
  using assms load_store_appends [of 0 0 "stored st" new_chars]
  by (simp_all add: ms_ok_def double_buffer_def stored_def)

definition same_loops :: "message_stream \<Rightarrow> message_stream \<Rightarrow> bool" where
  "same_loops st st' \<longleftrightarrow> ms_len st' = ms_len st \<and> ms_status st' = ms_status st \<and> client_armed st' = client_armed st
     \<and> loop_armed st' = loop_armed st \<and> ms_task st' = ms_task st"

text \<open>Growing ends, keeps the bytes, and makes the room that was asked for.\<close>

lemma grow_ok:
  assumes "ms_ok st"
  shows "\<exists>st'. grow n st = Some st' \<and> ms_ok st' \<and> stored st' = stored st \<and> same_loops st st'
    \<and> ms_pos st' + ms_len st' + n + 4 \<le> ms_capacity st'"
  using assms
proof (induction "ms_pos st + ms_len st + n + 4 - ms_capacity st" arbitrary: st rule: less_induct)
  case less
  show ?case
  proof (cases "ms_pos st + ms_len st + n + 4 > ms_capacity st")
    case True
    note d = double_buffer_ok [OF less(2)]
    have "ms_capacity st > 0" using ms_okD [OF less(2)] by simp
    then have "ms_pos (double_buffer st) + ms_len (double_buffer st) + n + 4 - ms_capacity (double_buffer st)
        < ms_pos st + ms_len st + n + 4 - ms_capacity st"
      using True d by simp
    from less(1) [OF this d(1)] show ?thesis
      using True d by (subst grow.simps) (simp add: same_loops_def)
  next
    case False
    then show ?thesis using less(2) by (subst grow.simps) (simp add: same_loops_def)
  qed
qed

subsection \<open>Sending and receiving\<close>

definition frame :: "string \<Rightarrow> string" where
  "frame m = store32 (of_nat (length m)) @ m"

definition frames :: "string list \<Rightarrow> string" where
  "frames ms = concat (map frame ms)"

lemma length_frame [simp]: "length (frame m) = length m + 4"
  by (simp add: frame_def)

lemma frames_simps [simp]: "frames [] = []" "frames (m # ms) = frame m @ frames ms" "frames (ms @ ms') = frames ms @ frames ms'"
  by (simp_all add: frames_def)

lemma put_message_ok:
  assumes "ms_ok st"
  shows "\<exists>st'. put_message msg st = Some st' \<and> ms_ok st' \<and> stored st' = stored st @ frame msg
    \<and> ms_status st' = ms_status st \<and> client_armed st' = client_armed st \<and> \<not> loop_armed st' \<and> ms_task st' = ms_task st
    \<and> ms_len st' > 0"
proof -
  let ?st = "if ms_len st = 0 then st\<lparr>ms_pos := 0\<rparr> else st"
  have ok: "ms_ok ?st" and s: "stored ?st = stored st" "same_loops st ?st"
    using assms by (auto simp: ms_ok_def stored_def same_loops_def)
  obtain g where g: "grow (length msg) ?st = Some g" "ms_ok g" "stored g = stored ?st" "same_loops ?st g"
      "ms_pos g + ms_len g + length msg + 4 \<le> ms_capacity g"
    using grow_ok [OF ok] by blast
  let ?b1 = "store_bytes (ms_pos g + ms_len g) (store32 (of_nat (length msg))) (ms_buf g)"
  let ?b2 = "store_bytes (ms_pos g + (ms_len g + 4)) msg ?b1"
  have "load_bytes ?b1 (ms_pos g) (ms_len g + 4) = stored g @ store32 (of_nat (length msg))"
    using load_store_appends [of "ms_pos g" "ms_len g" "store32 (of_nat (length msg))" "ms_buf g"] by (simp add: stored_def)
  then have b2: "load_bytes ?b2 (ms_pos g) (ms_len g + 4 + length msg) = stored g @ frame msg"
    using load_store_appends [of "ms_pos g" "ms_len g + 4" msg ?b1] by (simp add: frame_def)
  have p: "put_message msg st = Some (g\<lparr>ms_buf := ?b2, ms_len := ms_len g + length msg + 4, loop_armed := False\<rparr>)"
    using g(1) by (simp add: put_message_def Let_def add.assoc)
  let ?r = "g\<lparr>ms_buf := ?b2, ms_len := ms_len g + length msg + 4, loop_armed := False\<rparr>"
  have "ms_ok ?r" using g(5) ms_okD [OF g(2)] by (simp add: ms_ok_def)
  moreover have "stored ?r = stored st @ frame msg" using b2 g(3) s(1) by (simp add: stored_def ac_simps)
  ultimately show ?thesis using p g(4) s(2) by (simp add: same_loops_def)
qed

lemma store_stored:
  assumes "ms_ok st" "length bs \<le> ms_capacity st - (ms_pos st + ms_len st)"
  shows "ms_ok (st\<lparr>ms_buf := store_bytes (ms_pos st + ms_len st) bs (ms_buf st), ms_len := ms_len st + length bs\<rparr>)"
    and "stored (st\<lparr>ms_buf := store_bytes (ms_pos st + ms_len st) bs (ms_buf st), ms_len := ms_len st + length bs\<rparr>) = stored st @ bs"
proof -
  show "ms_ok (st\<lparr>ms_buf := store_bytes (ms_pos st + ms_len st) bs (ms_buf st), ms_len := ms_len st + length bs\<rparr>)"
    using assms(2) ms_okD [OF assms(1)] unfolding ms_ok_def by simp
qed (simp add: stored_def load_store_appends)

lemma reader_space_ok:
  assumes "ms_ok st"
  shows "ms_ok (reader_space st)" "stored (reader_space st) = stored st" "same_loops st (reader_space st)"
    "ms_pos (reader_space st) + ms_len (reader_space st) + 512 \<le> ms_capacity (reader_space st)"
proof -
  let ?st = "if ms_len st = 0 then st\<lparr>ms_pos := 0\<rparr> else st"
  have ok: "ms_ok ?st" and s: "stored ?st = stored st" "same_loops st ?st"
    using assms by (auto simp: ms_ok_def stored_def same_loops_def)
  note d = double_buffer_ok [OF ok]
  show "ms_ok (reader_space st)" "stored (reader_space st) = stored st" "same_loops st (reader_space st)"
    "ms_pos (reader_space st) + ms_len (reader_space st) + 512 \<le> ms_capacity (reader_space st)"
    using ok s d ms_okD [OF ok] by (auto simp: reader_space_def Let_def same_loops_def)
qed

text \<open>What is taken from the front of the buffer.\<close>

lemma stored_advance:
  assumes "ms_ok st" "k \<le> ms_len st"
  shows "ms_ok (st\<lparr>ms_pos := ms_pos st + k, ms_len := ms_len st - k\<rparr>)"
    and "stored (st\<lparr>ms_pos := ms_pos st + k, ms_len := ms_len st - k\<rparr>) = drop k (stored st)"
  using assms by (simp_all add: ms_ok_def stored_def drop_load_bytes)

lemma first_message:
  assumes "ms_ok st" "stored st @ later = frames ms" "\<forall>m \<in> set ms. length m + 4 < 2 ^ 32"
    and "first_message_length st \<le> ms_len st"
  shows "\<exists>m ms'. ms = m # ms' \<and> first_message_length st = length m + 4 \<and> take (length m + 4) (stored st) = frame m"
proof -
  have four: "ms_len st \<ge> 4" using assms(4) by (auto simp: first_message_length_def split: if_splits)
  have len: "length (stored st) = ms_len st" using length_stored .
  obtain m ms' where ms: "ms = m # ms'" using assms(2) four len by (cases ms) auto
  have eq: "stored st @ later = frame m @ frames ms'" using assms(2) ms by simp
  have "take 4 (stored st) = take 4 (stored st @ later)" using four len by simp
  also have "\<dots> = store32 (of_nat (length m))" by (simp add: eq frame_def)
  finally have "load_bytes (ms_buf st) (ms_pos st) 4 = store32 (of_nat (length m))"
    using four by (simp add: stored_def take_load_bytes)
  then have "first_message_length st = unat (of_nat (length m) + 4 :: u32)"
    using four by (simp add: first_message_length_def load_store32)
  also have "\<dots> = unat (of_nat (length m + 4) :: u32)" by simp
  also have "\<dots> = length m + 4" using assms(3) ms by (subst unat_of_nat) simp
  finally have fml: "first_message_length st = length m + 4" .
  have "take (length m + 4) (stored st) = take (length m + 4) (stored st @ later)" using fml assms(4) len by simp
  then have "take (length m + 4) (stored st) = frame m" by (simp add: eq)
  with ms fml show ?thesis by blast
qed

subsection \<open>The notifiers\<close>

text \<open>Who waits, and that the other side will wake it.\<close>

definition tx_ok :: "message_stream \<Rightarrow> bool" where
  "tx_ok st \<longleftrightarrow> ms_ok st
     \<and> (loop_armed st \<longrightarrow> ms_len st = 0 \<and> \<not> drained_armed st)
     \<and> (client_armed st \<longrightarrow> ms_len st > 0 \<and> ms_status st = Status_running)
     \<and> (ms_task st = Task_done \<longrightarrow> ms_status st \<noteq> Status_running)"

definition rx_ok :: "message_stream \<Rightarrow> bool" where
  "rx_ok st \<longleftrightarrow> ms_ok st
     \<and> (client_armed st \<longrightarrow> \<not> loop_armed st \<and> ms_status st = Status_running \<and> first_message_length st > ms_len st)
     \<and> (ms_task st = Task_done \<longrightarrow> ms_status st \<noteq> Status_running)"

lemma stream_new_ok: "tx_ok (message_stream_new f)" "rx_ok (message_stream_new f)" "stored (message_stream_new f) = []"
  by (simp_all add: tx_ok_def rx_ok_def ms_ok_def message_stream_new_def new_chars_def stored_def)

text \<open>\<^verbatim>\<open>send\<close>: it returns, and the message is in the buffer if it was sent.\<close>

lemma stream_send_ok:
  assumes "tx_ok st"
  shows "\<exists>r st'. stream_send msg st = Some (r, st') \<and> tx_ok st'
    \<and> stored st' = stored st @ (if r = Sent_message then frame msg else [])"
proof -
  have ok: "ms_ok st" using assms by (simp add: tx_ok_def)
  obtain p where "put_message msg st = Some p" "ms_ok p" "stored p = stored st @ frame msg"
      "ms_status p = ms_status st" "client_armed p = client_armed st" "\<not> loop_armed p" "ms_task p = ms_task st" "ms_len p > 0"
    using put_message_ok [OF ok] by blast
  then show ?thesis using assms
    by (auto simp: stream_send_def tx_ok_def ms_ok_def stored_def)
qed

lemma drained_ok:
  assumes "tx_ok st"
  shows "tx_ok (snd (drained st))" "stored (snd (drained st)) = stored st"
  using assms by (auto simp: drained_def Let_def tx_ok_def ms_ok_def stored_def)

lemma writer_turn_ok:
  assumes "tx_ok st" "rv \<le> int (ms_len st)" "writer_turn f rv e st = (bs, st')"
  shows "tx_ok st' \<and> stored st = bs @ stored st'"
proof -
  have ok: "ms_ok st" using assms(1) by (simp add: tx_ok_def)
  show ?thesis
  proof (cases "f \<and> ms_len st \<noteq> 0 \<and> rv > 0")
    case True
    let ?a = "st\<lparr>ms_pos := ms_pos st + nat rv, ms_len := ms_len st - nat rv\<rparr>"
    have k: "nat rv \<le> ms_len st" using assms(2) by linarith
    note a = stored_advance [OF ok k]
    let ?b = "?a\<lparr>ms_task := Task_loop\<rparr>"
    have b: "ms_ok ?b" "stored ?b = drop (nat rv) (stored st)" using a by (simp_all add: ms_ok_def stored_def)
    have bs: "bs = take (nat rv) (stored st)" and st': "st' = (if ms_len ?b < backlog then ?b\<lparr>client_armed := False\<rparr> else ?b)"
      using assms(3) True by (auto simp: writer_turn_def Let_def)
    have "ms_ok st'" "stored st' = drop (nat rv) (stored st)" using b st' by (auto simp: ms_ok_def stored_def)
    moreover have "ms_len ?b \<ge> backlog \<Longrightarrow> ms_len ?b > 0" by (simp add: backlog_def)
    ultimately show ?thesis using assms(1) bs st' by (auto simp: tx_ok_def)
  next
    case False
    then show ?thesis using assms(1,3) by (auto simp: writer_turn_def finish_loop_def tx_ok_def ms_ok_def stored_def split: if_splits)
  qed
qed

text \<open>The length of the first message is that of what is stored.\<close>

lemma first_message_length_stored:
  "first_message_length st = (if ms_len st < 4 then 2 ^ 64 - 1 else unat (load32 (take 4 (stored st)) + 4))"
  by (simp add: first_message_length_def stored_def take_load_bytes)

lemma stream_recv_ok:
  assumes "rx_ok st" "stored st @ later = frames ms" "\<forall>m \<in> set ms. length m + 4 < 2 ^ 32" "stream_recv st = (r, st')"
  shows "rx_ok st' \<and> (case r of
      Recv_message m \<Rightarrow> \<exists>ms'. ms = m # ms' \<and> stored st' @ later = frames ms'
    | Recv_length_error \<Rightarrow> False
    | Recv_waits \<Rightarrow> stored st' = stored st \<and> client_armed st'
    | Recv_end \<Rightarrow> st' = st)"
proof (cases "first_message_length st > ms_len st")
  case True
  then show ?thesis using assms(1,4)
    by (auto simp: stream_recv_def Let_def rx_ok_def ms_ok_def stored_def first_message_length_def split: if_splits)
next
  case False
  have ok: "ms_ok st" using assms(1) by (simp add: rx_ok_def)
  have len: "length (stored st) = ms_len st" using length_stored .
  have fml: "first_message_length st \<le> ms_len st" using False by simp
  obtain m ms' where m: "ms = m # ms'" "first_message_length st = length m + 4" "take (length m + 4) (stored st) = frame m"
    using first_message [OF ok assms(2,3) fml] by blast
  let ?a = "st\<lparr>ms_pos := ms_pos st + (length m + 4), ms_len := ms_len st - (length m + 4)\<rparr>"
  have k: "length m + 4 \<le> ms_len st" using fml m(2) by simp
  note a = stored_advance [OF ok k]
  have "frame m @ drop (length m + 4) (stored st) @ later = frame m @ frames ms'"
    using assms(2) m(1,3) append_take_drop_id [of "length m + 4" "stored st"] by (metis append.assoc frames_simps(2))
  then have rest: "stored ?a @ later = frames ms'" using a(2) by simp
  have "load_bytes (ms_buf st) (ms_pos st + 4) (length m) = drop 4 (take (length m + 4) (stored st))"
    using k by (simp add: stored_def take_load_bytes drop_load_bytes)
  also have "\<dots> = m" by (simp add: m(3) frame_def)
  finally have msg: "load_bytes (ms_buf st) (ms_pos st + 4) (length m) = m" .
  have "r = Recv_message m" and st': "st' = (if ms_len ?a = 0 then ?a\<lparr>drained_armed := False\<rparr> else ?a)"
    using assms(4) m(2) fml msg by (auto simp: stream_recv_def Let_def)
  moreover have "stored st' = stored ?a" "ms_ok st'" using st' a(1) by (auto simp: stored_def ms_ok_def)
  moreover have "\<not> client_armed st" using assms(1) fml by (auto simp: rx_ok_def)
  then have "\<not> client_armed st'" using st' by simp
  moreover have "ms_task st' = ms_task st" "ms_status st' = ms_status st" using st' by simp_all
  ultimately show ?thesis using m(1) rest assms(1) by (auto simp: rx_ok_def)
qed

lemma reader_turn_ok:
  assumes "rx_ok st" "f \<and> client_armed st \<longrightarrow> (case r of Inr bs \<Rightarrow> length bs \<le> read_count st | Inl _ \<Rightarrow> True)"
  shows "rx_ok (reader_turn f r st) \<and> stored (reader_turn f r st)
     = stored st @ (if f \<and> client_armed st then (case r of Inr bs \<Rightarrow> bs | Inl _ \<Rightarrow> []) else [])"
proof (cases "f \<and> client_armed st")
  case False
  then show ?thesis using assms(1)
    by (auto simp: reader_turn_def finish_loop_def rx_ok_def ms_ok_def stored_def first_message_length_def)
next
  case True
  have ok: "ms_ok st" using assms(1) by (simp add: rx_ok_def)
  let ?s = "reader_space st"
  note sp = reader_space_ok [OF ok]
  have same: "ms_len ?s = ms_len st" "ms_status ?s = ms_status st" "client_armed ?s = client_armed st"
      "loop_armed ?s = loop_armed st" "ms_task ?s = ms_task st"
    using sp(3) by (simp_all add: same_loops_def)
  have fml: "first_message_length ?s = first_message_length st"
    using sp(2) same(1) by (simp add: first_message_length_stored)
  show ?thesis
  proof (cases r)
    case (Inl e)
    show ?thesis
      using True Inl sp(1,2) same fml assms(1)
      by (auto simp: reader_turn_def Let_def finish_loop_def rx_ok_def ms_ok_def stored_def first_message_length_def)
  next
    case (Inr bs)
    show ?thesis
    proof (cases "bs = []")
      case empty: True
      show ?thesis
        using True Inr empty sp(1,2) same assms(1)
        by (auto simp: reader_turn_def Let_def finish_loop_def rx_ok_def ms_ok_def stored_def)
    next
      case no: False
      have "length bs \<le> ms_capacity ?s - (ms_pos ?s + ms_len ?s)"
        using assms(2) True Inr by (simp add: read_count_def Let_def)
      note m = store_stored [OF sp(1) this]
      let ?m = "?s\<lparr>ms_buf := store_bytes (ms_pos ?s + ms_len ?s) bs (ms_buf ?s), ms_len := ms_len ?s + length bs\<rparr>"
      have t: "reader_turn f r st = ?m\<lparr>client_armed := False, ms_task := Task_loop\<rparr>"
        using True Inr no by (simp add: reader_turn_def Let_def)
      have "ms_ok (reader_turn f r st)" "stored (reader_turn f r st) = stored st @ bs"
        unfolding t using m sp(2) by (simp_all add: ms_ok_def stored_def)
      moreover have "\<not> client_armed (reader_turn f r st)" "ms_task (reader_turn f r st) = Task_loop"
        unfolding t by simp_all
      ultimately show ?thesis using True Inr by (simp add: rx_ok_def)
    qed
  qed
qed

subsection \<open>The connection\<close>

definition link_inv :: "stream_link \<Rightarrow> bool" where
  "link_inv st \<longleftrightarrow> tx_ok (tx st) \<and> rx_ok (rx st)
     \<and> (\<exists>rest. sent st = received st @ rest \<and> frames rest = stored (rx st) @ in_transit st @ stored (tx st))"

definition short_messages :: "stream_link \<Rightarrow> bool" where
  "short_messages st \<longleftrightarrow> (\<forall>m \<in> set (sent st). length m + 4 < 2 ^ 32)"

lemma link_send_ok:
  assumes "link_inv st" "link_send msg st = Some st'"
  shows "link_inv st'"
proof -
  obtain rest where rest: "sent st = received st @ rest" "frames rest = stored (rx st) @ in_transit st @ stored (tx st)"
    using assms(1) by (auto simp: link_inv_def)
  have tx: "tx_ok (tx st)" using assms(1) by (simp add: link_inv_def)
  obtain r s where s: "stream_send msg (tx st) = Some (r, s)" "tx_ok s"
      "stored s = stored (tx st) @ (if r = Sent_message then frame msg else [])"
    using stream_send_ok [OF tx] by blast
  show ?thesis
  proof (cases "r = Sent_message")
    case True
    then have "sent st' = received st' @ (rest @ [msg])"
        "frames (rest @ [msg]) = stored (rx st') @ in_transit st' @ stored (tx st')" "tx st' = s" "rx st' = rx st"
      using assms(2) s rest by (auto simp: link_send_def)
    then show ?thesis using assms(1) s(2) unfolding link_inv_def by metis
  next
    case False
    then have "sent st' = sent st" "received st' = received st" "in_transit st' = in_transit st" "tx st' = s" "rx st' = rx st"
      using assms(2) s by (auto simp: link_send_def split: send_result.splits)
    then show ?thesis using assms(1) s False by (simp add: link_inv_def)
  qed
qed

lemma link_recv_ok:
  assumes "link_inv st" "short_messages st"
  shows "link_inv (link_recv st)"
proof -
  obtain rest where rest: "sent st = received st @ rest" "frames rest = stored (rx st) @ in_transit st @ stored (tx st)"
    using assms(1) by (auto simp: link_inv_def)
  have rx: "rx_ok (rx st)" "tx_ok (tx st)" using assms(1) by (simp_all add: link_inv_def)
  have short: "\<forall>m \<in> set rest. length m + 4 < 2 ^ 32" using assms(2) rest(1) by (simp add: short_messages_def)
  obtain r s where r: "stream_recv (rx st) = (r, s)" by fastforce
  note ok = stream_recv_ok [OF rx(1) rest(2) [symmetric] short r]
  show ?thesis
  proof (cases r)
    case (Recv_message m)
    then obtain ms' where "rest = m # ms'" "stored s @ in_transit st @ stored (tx st) = frames ms'" using ok by auto
    then show ?thesis using ok rx(2) rest(1) Recv_message r by (simp add: link_inv_def link_recv_def)
  qed (use ok assms(1) r in \<open>auto simp: link_inv_def link_recv_def\<close>)
qed

lemma link_step_ok:
  assumes "link_inv st" "short_messages st" "link_step ch st = Some st'"
  shows "link_inv st'"
proof (cases ch)
  case (Call_send msg)
  then show ?thesis using assms link_send_ok by (auto simp: link_step_def split: if_splits)
next
  case Resume_send
  then show ?thesis using assms link_send_ok by (auto simp: link_step_def split: if_splits option.splits)
next
  case Call_drained
  then show ?thesis using assms drained_ok by (auto simp: link_step_def link_inv_def)
next
  case (Run_writer f rv e)
  obtain bs s where w: "writer_turn f rv e (tx st) = (bs, s)" by fastforce
  have "rv \<le> int (ms_len (tx st))" "st' = st\<lparr>tx := s, in_transit := in_transit st @ bs\<rparr>"
    using assms(3) Run_writer w by (auto simp: link_step_def split: if_splits)
  then show ?thesis using assms(1) writer_turn_ok [OF _ _ w] by (simp add: link_inv_def)
next
  case Call_recv
  then show ?thesis using assms link_recv_ok by (auto simp: link_step_def split: if_splits)
next
  case Resume_recv
  then show ?thesis using assms link_recv_ok by (auto simp: link_step_def split: if_splits)
next
  case (Run_reader f r)
  have rx: "rx_ok (rx st)" using assms(1) by (simp add: link_inv_def)
  consider (err) e where "st' = st\<lparr>rx := reader_turn f (Inl e) (rx st)\<rparr>"
    | (idle) "\<not> (f \<and> client_armed (rx st))" "st' = st\<lparr>rx := reader_turn f (Inr []) (rx st)\<rparr>"
    | (data) k where "f \<and> client_armed (rx st)" "k \<le> length (in_transit st)" "k \<le> read_count (rx st)"
        "st' = st\<lparr>rx := reader_turn f (Inr (take k (in_transit st))) (rx st), in_transit := drop k (in_transit st)\<rparr>"
    using assms(3) Run_reader by (auto simp: link_step_def split: if_splits sum.splits)
  then show ?thesis
  proof cases
    case err
    then show ?thesis using assms(1) reader_turn_ok [OF rx, of f "Inl e"] by (simp add: link_inv_def)
  next
    case idle
    then show ?thesis using assms(1) reader_turn_ok [OF rx, of f "Inr []"] by (auto simp: link_inv_def)
  next
    case data
    have td: "take k bs @ drop k bs @ x = bs @ x" for bs x :: string by (metis append.assoc append_take_drop_id)
    show ?thesis using data assms(1) reader_turn_ok [OF rx, of f "Inr (take k (in_transit st))"]
      by (simp add: link_inv_def td)
  qed
qed

text \<open>Messages that are sent are those that clients hand to \<^verbatim>\<open>send\<close>.\<close>

definition short_calls :: "link_choice list \<Rightarrow> bool" where
  "short_calls chs \<longleftrightarrow> list_all (\<lambda>ch. case ch of Call_send m \<Rightarrow> length m + 4 < 2 ^ 32 | _ \<Rightarrow> True) chs"

definition short_client :: "stream_link \<Rightarrow> bool" where
  "short_client st \<longleftrightarrow> short_messages st \<and> (\<forall>m. tx_client st = Some m \<longrightarrow> length m + 4 < 2 ^ 32)"

lemma link_step_short:
  assumes "short_client st" "short_calls [ch]" "link_step ch st = Some st'"
  shows "short_client st'"
proof -
  have send: "short_client st'" if "link_send m st = Some st'" "length m + 4 < 2 ^ 32" for m
    using that assms(1)
    by (auto simp: link_send_def short_client_def short_messages_def split: option.splits prod.splits send_result.splits)
  have recv: "short_client (link_recv st)"
    using assms(1) by (auto simp: link_recv_def short_client_def short_messages_def split: prod.splits recv_result.splits)
  have mem: "length m + 4 < 2 ^ 32" if "tx_client st = Some m" for m using assms(1) that by (simp add: short_client_def)
  show ?thesis
  proof (cases ch)
    case (Call_send m)
    then show ?thesis using assms(2,3) send [of m] by (auto simp: link_step_def short_calls_def split: if_splits)
  next
    case Resume_send
    then show ?thesis using assms(3) send mem by (auto simp: link_step_def split: if_splits option.splits)
  qed (use assms recv in \<open>auto simp: link_step_def short_client_def short_messages_def split: if_splits sum.splits prod.splits\<close>)
qed

lemma link_run_ok:
  assumes "link_run chs st = Some st'" "short_calls chs" "link_inv st" "short_client st"
  shows "link_inv st' \<and> short_client st'"
  using assms
proof (induction chs arbitrary: st)
  case Nil
  then show ?case by simp
next
  case (Cons ch chs)
  obtain st1 where st1: "link_step ch st = Some st1" "link_run chs st1 = Some st'"
    using Cons(2) by (auto split: option.splits)
  have c: "short_calls [ch]" "short_calls chs" using Cons(3) by (simp_all add: short_calls_def)
  have "link_inv st1" using link_step_ok [OF Cons(4) _ st1(1)] Cons(5) by (simp add: short_client_def)
  from Cons(1) [OF st1(2) c(2) this link_step_short [OF Cons(5) c(1) st1(1)]] show ?case .
qed

lemma link_new_inv: "link_inv (link_new f g)" "short_client (link_new f g)"
  using stream_new_ok by (simp_all add: link_inv_def link_new_def short_client_def short_messages_def)

subsection \<open>Messages longer than the length word allows\<close>

text \<open>\<^verbatim>\<open>send\<close> asserts a length up to 0xFFFFFFFF, but four more wrap around in \<^verbatim>\<open>first_message_length\<close>.\<close>

lemma long_message_length_wraps:
  assumes "ms_ok st" "2 ^ 32 - 4 \<le> length m" "length m < 2 ^ 32" "take 4 (stored st) = store32 (of_nat (length m))" "ms_len st \<ge> 4"
  shows "first_message_length st = length m + 4 - 2 ^ 32"
proof -
  have "first_message_length st = unat (of_nat (length m + 4) :: u32)"
    using assms(4,5) by (simp add: first_message_length_stored load_store32)
  also have "\<dots> = (length m + 4) mod 2 ^ 32" by (subst unat_of_nat) simp
  also have "\<dots> = length m + 4 - 2 ^ 32" using assms(2,3) by (intro mod_nat_eqI) simp_all
  finally show ?thesis .
qed

text \<open>After a write error nothing triggers the event that \<^verbatim>\<open>drained\<close> returned.\<close>

lemma drained_after_error:
  assumes "ms_task st = Task_done" "drained_armed st"
  shows "drained_armed (snd (drained st))" "stream_send msg st = Some (r, st') \<Longrightarrow> ms_status st \<noteq> Status_running \<Longrightarrow> drained_armed st'"
    and "\<not> loop_runnable st"
  using assms by (auto simp: drained_def stream_send_def loop_runnable_def Let_def)

subsection \<open>Properties of the connection\<close>

text \<open>
  C10: message streams deliver: however writes and reads are split, errors interrupt and clients
  wait, the messages received are a prefix of the messages sent, each whole and in order; the rest
  are exactly, framed, the bytes in the receiver's buffer, on the way and in the sender's buffer; and
  both buffers stay inside their arrays. Messages are up to four bytes shorter than 4 GiB.
\<close>

theorem stream_delivers:
  assumes "link_run chs (link_new f g) = Some st" "short_calls chs"
  shows "(\<exists>rest. sent st = received st @ rest
       \<and> concat (map (\<lambda>m. store32 (of_nat (length m)) @ m) rest) = stored (rx st) @ in_transit st @ stored (tx st))
    \<and> ms_pos (tx st) + ms_len (tx st) \<le> ms_capacity (tx st)
    \<and> ms_pos (rx st) + ms_len (rx st) \<le> ms_capacity (rx st)
    \<and> read_count (rx st) \<ge> 512"
proof -
  have inv: "link_inv st" using link_run_ok [OF assms link_new_inv] by simp
  then have ok: "ms_ok (tx st)" "ms_ok (rx st)" by (simp_all add: link_inv_def tx_ok_def rx_ok_def)
  have "read_count (rx st) \<ge> 512" using reader_space_ok(4) [OF ok(2)] by (simp add: read_count_def Let_def)
  then show ?thesis using inv ms_okD [OF ok(1)] ms_okD [OF ok(2)]
    by (simp add: link_inv_def frames_def frame_def [abs_def])
qed

text \<open>
  C31: no wake-up is lost between the loops and their clients: while \<^verbatim>\<open>recv\<close> waits on its event the
  buffer has no whole message and the reader loop can go on; while \<^verbatim>\<open>send\<close> or somebody at
  \<^verbatim>\<open>drained\<close> waits there is something to write, and the writer loop can go on as long as there was
  no error; the writer loop waits for its event only when there is nothing to write.
\<close>

theorem stream_no_lost_wakeup:
  assumes "link_run chs (link_new f g) = Some st" "short_calls chs"
  shows "(client_armed (rx st) \<longrightarrow> first_message_length (rx st) > ms_len (rx st) \<and> loop_runnable (rx st))
    \<and> (client_armed (tx st) \<longrightarrow> ms_len (tx st) > 0 \<and> loop_runnable (tx st))
    \<and> (drained_armed (tx st) \<longrightarrow> loop_runnable (tx st) \<or> ms_status (tx st) \<noteq> Status_running)
    \<and> (ms_task (tx st) = Task_wait_event \<and> loop_armed (tx st) \<longrightarrow> ms_len (tx st) = 0)"
proof -
  have "link_inv st" using link_run_ok [OF assms link_new_inv] by simp
  then have "tx_ok (tx st)" "rx_ok (rx st)" by (simp_all add: link_inv_def)
  then show ?thesis by (auto simp: tx_ok_def rx_ok_def loop_runnable_def)
qed

subsection \<open>Concrete runs\<close>

lemma upt_numerals:
  "[0..<numeral k] = 0 # [1..<numeral k]"
  "[Suc 0..<numeral k] = (if 1 < (numeral k :: nat) then 1 # [2..<numeral k] else [])"
  by (simp_all add: upt_rec numeral_2_eq_2)

lemma below_four: "{..<4} = {0, 1, 2, 3 :: nat}"
  by auto

lemmas run_simps = link_step_def link_send_def link_recv_def stream_send_def stream_recv_def put_message_def
  writer_turn_def reader_turn_def reader_space_def read_count_def drained_def loop_runnable_def
  message_stream_new_def link_new_def backlog_def Let_def first_message_length_def grow.simps stored_def
  store32_def load32_def below_four upt_numerals load_bytes_def retry_def store_bytes_apply new_chars_def

text \<open>One message arrives in two pieces while the receiver waits; the second, empty one is on its way.\<close>

definition stream_run :: "link_choice list" where
  "stream_run = [Run_writer True 0 EINTR, Run_reader True (Inr 0), Call_send ''hello'', Call_send '''', Call_drained,
     Call_recv, Run_writer True 6 EINTR, Run_reader True (Inr 6), Resume_recv, Run_writer True 7 EINTR,
     Run_reader True (Inr 7), Resume_recv]"

lemma stream_run_ok:
  "\<exists>st. link_run stream_run (link_new True True) = Some st \<and> received st = [''hello''] \<and> sent st = [''hello'', '''']"
  by (simp add: run_simps stream_run_def)

theorem stream_delivers_witness:
  "\<exists>st. link_run stream_run (link_new True True) = Some st \<and> received st = [''hello'']
     \<and> stored (rx st) @ in_transit st @ stored (tx st) = store32 0"
proof -
  obtain st where st: "link_run stream_run (link_new True True) = Some st" "received st = [''hello'']" "sent st = [''hello'', '''']"
    using stream_run_ok by blast
  have "short_calls stream_run" by (simp add: short_calls_def stream_run_def)
  from stream_delivers [OF st(1) this] st show ?thesis by auto
qed

text \<open>The receiver waits, and its reader loop was woken.\<close>

definition wait_run :: "link_choice list" where
  "wait_run = [Run_writer True 0 EINTR, Run_reader True (Inr 0), Call_recv]"

lemma wait_run_ok:
  "\<exists>st. link_run wait_run (link_new True True) = Some st \<and> client_armed (rx st)"
  by (simp add: run_simps wait_run_def)

theorem stream_no_lost_wakeup_witness:
  "\<exists>st. link_run wait_run (link_new True True) = Some st \<and> client_armed (rx st) \<and> loop_runnable (rx st)"
proof -
  obtain st where st: "link_run wait_run (link_new True True) = Some st" "client_armed (rx st)"
    using wait_run_ok by blast
  have "short_calls wait_run" by (simp add: short_calls_def wait_run_def)
  from stream_no_lost_wakeup [OF st(1) this] st show ?thesis by auto
qed

end
