(* ===== verification/CurlDriver.thy ===== *)
theory CurlDriver
  imports Prelude
begin

unbundle bit_operations_syntax

text \<open>
  The libcurl driver (\<^verbatim>\<open>curl.cc\<close>): the callbacks by which libcurl opens, watches and closes sockets and
  sets its timer, the coroutine that watches a socket, the timer task, and the collection of a response.

  libcurl is not modelled. While it runs it makes callbacks, and what it does is the list of the
  callbacks it makes; completed transfers are the list of messages it reports. The constants are those
  of libcurl's interface. Destroying a coroutine that is running is a fault, recorded in \<open>cd_fault\<close>.
\<close>

subsection \<open>State\<close>

type_synonym socket = nat

definition CURL_POLL_IN :: u32 where "CURL_POLL_IN = 1"
definition CURL_POLL_OUT :: u32 where "CURL_POLL_OUT = 2"
definition CURL_POLL_REMOVE :: u32 where "CURL_POLL_REMOVE = 4"
definition CURL_CSELECT_IN :: u32 where "CURL_CSELECT_IN = 1"
definition CURL_CSELECT_OUT :: u32 where "CURL_CSELECT_OUT = 2"

text \<open>
  The event a watcher waits on: the conditions it was made for, and, when it has triggered, the
  conditions that the kernel reported (none when \<^verbatim>\<open>socket_cb\<close> triggered it).
\<close>

record file_ev =
  fe_mask :: u32
  fe_fired :: "u32 option"

datatype watch_point = Watch_waiting | Watch_running

record watch_state =
  w_id :: nat
  w_mask :: u32
  w_ev :: file_ev
  w_point :: watch_point

record curl_driver =
  cd_fds :: "socket set"
  cd_watches :: "socket \<Rightarrow> watch_state option"
  cd_current :: "socket option"
  cd_next_id :: nat
  cd_fault :: bool
  cd_expiry_triggered :: bool
  cd_expiry_flags :: bool
  cd_expiry_after :: "int option"
  cd_next_timeout :: int
  cd_completed :: "(nat \<times> nat) list"

definition curl_driver_new :: curl_driver where
  "curl_driver_new = \<lparr>cd_fds = {}, cd_watches = (\<lambda>_. None), cd_current = None, cd_next_id = 0, cd_fault = False,
     cd_expiry_triggered = False, cd_expiry_flags = False, cd_expiry_after = None, cd_next_timeout = -1,
     cd_completed = []\<rparr>"

subsection \<open>Watching a socket\<close>

text \<open>The conditions that \<^verbatim>\<open>watch_task\<close> waits for, and \<^verbatim>\<open>file_event(f, mask)\<close>.\<close>

definition poll_mask :: "u32 \<Rightarrow> u32" where
  "poll_mask m = (let mask = 0; mask = (if m AND CURL_POLL_IN \<noteq> 0 then mask OR 1 else mask)
                  in if m AND CURL_POLL_OUT \<noteq> 0 then mask OR 2 else mask)"

text \<open>What libcurl is told: \<^verbatim>\<open>fdevent::read\<close> is 1 and \<^verbatim>\<open>fdevent::write\<close> is 2.\<close>

definition select_bits :: "u32 \<Rightarrow> u32" where
  "select_bits fired = (let ev_bits = 0; ev_bits = (if fired AND 1 \<noteq> 0 then ev_bits OR CURL_CSELECT_IN else ev_bits)
                        in if fired AND 2 \<noteq> 0 then ev_bits OR CURL_CSELECT_OUT else ev_bits)"

definition watch_install :: "watch_state \<Rightarrow> watch_state" where
  "watch_install w = w\<lparr>w_ev := \<lparr>fe_mask = poll_mask (w_mask w), fe_fired = None\<rparr>, w_point := Watch_waiting\<rparr>"

definition upd_watch :: "socket \<Rightarrow> (watch_state \<Rightarrow> watch_state) \<Rightarrow> curl_driver \<Rightarrow> curl_driver" where
  "upd_watch s f d = d\<lparr>cd_watches := (cd_watches d)(s := map_option f (cd_watches d s))\<rparr>"

text \<open>\<^verbatim>\<open>watches_.erase(s)\<close> destroys the coroutine with the state, unless it was detached.\<close>

definition watches_erase :: "bool \<Rightarrow> socket \<Rightarrow> curl_driver \<Rightarrow> curl_driver" where
  "watches_erase detached s d =
     d\<lparr>cd_watches := (cd_watches d)(s := None),
       cd_fault := (cd_fault d \<or> (case cd_watches d s of Some w \<Rightarrow> w_point w = Watch_running \<and> \<not> detached | None \<Rightarrow> False))\<rparr>"

text \<open>\<^verbatim>\<open>event::trigger\<close> by hand.\<close>

definition poke :: "watch_state \<Rightarrow> watch_state" where
  "poke w = (if fe_fired (w_ev w) = None then w\<lparr>w_ev := (w_ev w)\<lparr>fe_fired := Some 0\<rparr>\<rparr> else w)"

subsection \<open>Callbacks\<close>

text \<open>\<open>None\<close> stands for \<^verbatim>\<open>CURL_SOCKET_BAD\<close>; a socket that cannot be made non-blocking is closed.\<close>

definition opensocket_cb :: "socket option \<Rightarrow> bool \<Rightarrow> curl_driver \<Rightarrow> socket option \<times> curl_driver" where
  "opensocket_cb sock nonblocking d =
     (case sock of
        None \<Rightarrow> (None, d)
      | Some s \<Rightarrow> if \<not> nonblocking then (None, d) else (Some s, d\<lparr>cd_fds := insert s (cd_fds d)\<rparr>))"

definition closesocket_cb :: "socket \<Rightarrow> curl_driver \<Rightarrow> curl_driver" where
  "closesocket_cb s d = d\<lparr>cd_fds := cd_fds d - {s}\<rparr>"

definition socket_cb :: "socket \<Rightarrow> u32 \<Rightarrow> curl_driver \<Rightarrow> curl_driver" where
  "socket_cb s what d =
     (if what = CURL_POLL_REMOVE \<and> cd_current d \<noteq> Some s then watches_erase False s d
      else if cd_watches d s \<noteq> None then upd_watch s (\<lambda>w. poke (w\<lparr>w_mask := what\<rparr>)) d
      else if what \<noteq> CURL_POLL_REMOVE \<and> s \<in> cd_fds d
      then d\<lparr>cd_watches := (cd_watches d)(s \<mapsto> watch_install
               \<lparr>w_id = cd_next_id d, w_mask = what, w_ev = \<lparr>fe_mask = 0, fe_fired = None\<rparr>,
                w_point = Watch_running\<rparr>),
             cd_next_id := cd_next_id d + 1\<rparr>
      else d)"

definition timer_cb :: "int \<Rightarrow> curl_driver \<Rightarrow> curl_driver" where
  "timer_cb timeout_ms d =
     (let d = (if \<not> cd_expiry_triggered d then d\<lparr>cd_expiry_flags := True, cd_expiry_triggered := True\<rparr> else d)
      in d\<lparr>cd_next_timeout := timeout_ms\<rparr>)"

datatype curl_callback =
  Open_socket "socket option" bool | Close_socket socket | Poll_socket socket u32 | Set_timer int

fun curl_call :: "curl_callback \<Rightarrow> curl_driver \<Rightarrow> curl_driver" where
  "curl_call (Open_socket sock nb) d = snd (opensocket_cb sock nb d)"
| "curl_call (Close_socket s) d = closesocket_cb s d"
| "curl_call (Poll_socket s what) d = socket_cb s what d"
| "curl_call (Set_timer ms) d = timer_cb ms d"

text \<open>A call of libcurl that makes these callbacks.\<close>

definition curl_calls :: "curl_callback list \<Rightarrow> curl_driver \<Rightarrow> curl_driver" where
  "curl_calls cbs d = fold curl_call cbs d"

text \<open>\<^verbatim>\<open>process_multi\<close>: done messages set the result of their transfer and trigger its event.\<close>

fun process_multi :: "(bool \<times> nat option \<times> nat) list \<Rightarrow> curl_driver \<Rightarrow> curl_driver" where
  "process_multi [] d = d"
| "process_multi ((is_done, private, result) # msgs) d =
     process_multi msgs
       (case private of
          Some cr \<Rightarrow> if is_done then d\<lparr>cd_completed := cd_completed d @ [(cr, result)]\<rparr> else d
        | None \<Rightarrow> d)"

subsection \<open>The coroutines\<close>

text \<open>
  The head of the loop of \<^verbatim>\<open>watch_task\<close>: it waits for its mask, or ends and erases its own state
  if that is still the one it was started with.
\<close>

definition watch_loop :: "socket \<Rightarrow> nat \<Rightarrow> curl_driver \<Rightarrow> curl_driver" where
  "watch_loop s ident d =
     (case cd_watches d s of
        None \<Rightarrow> d
      | Some w \<Rightarrow>
          if w_id w \<noteq> ident then d
          else if w_mask w \<noteq> CURL_POLL_REMOVE then upd_watch s watch_install d
          else watches_erase True s d)"

text \<open>\<^verbatim>\<open>watch_task\<close> resumes when its event has triggered; libcurl then makes the callbacks \<open>cbs\<close>,
  which depend on the conditions it is told.\<close>

definition watch_resume ::
  "socket \<Rightarrow> (u32 \<Rightarrow> curl_callback list) \<Rightarrow> (bool \<times> nat option \<times> nat) list \<Rightarrow> curl_driver \<Rightarrow> curl_driver option" where
  "watch_resume s cbs msgs d =
     (case cd_watches d s of
        None \<Rightarrow> None
      | Some w \<Rightarrow>
          (case fe_fired (w_ev w) of
             None \<Rightarrow> None
           | Some fired \<Rightarrow>
               let d = upd_watch s (\<lambda>w. w\<lparr>w_point := Watch_running\<rparr>) d in
               if fired = 0 then Some (watch_loop s (w_id w) d)
               else
                 let d = curl_calls (cbs (select_bits fired)) (d\<lparr>cd_current := Some s\<rparr>);
                     d = process_multi msgs (d\<lparr>cd_current := None\<rparr>)
                 in Some (watch_loop s (w_id w) d)))"

text \<open>The kernel reports conditions that a waiting event asked for.\<close>

definition kernel_fires :: "socket \<Rightarrow> u32 \<Rightarrow> curl_driver \<Rightarrow> curl_driver option" where
  "kernel_fires s fired d =
     (case cd_watches d s of
        Some w \<Rightarrow>
          if fe_fired (w_ev w) = None \<and> fired \<noteq> 0
          then Some (upd_watch s (\<lambda>w. w\<lparr>w_ev := (w_ev w)\<lparr>fe_fired := Some fired\<rparr>\<rparr>) d) else None
      | None \<Rightarrow> None)"

text \<open>
  \<^verbatim>\<open>timer_task\<close> resumes when \<^verbatim>\<open>expiry_\<close> has triggered. It runs libcurl if the timer went off by itself,
  then arms the timer with the last time-out that was asked for.
\<close>

definition timer_arm :: "curl_driver \<Rightarrow> curl_driver" where
  "timer_arm d =
     (if cd_expiry_triggered d
      then d\<lparr>cd_expiry_after := (if cd_next_timeout d < 0 then None else Some (cd_next_timeout d)),
             cd_expiry_triggered := False, cd_expiry_flags := False, cd_next_timeout := -1\<rparr>
      else d)"

definition timer_resume ::
  "curl_callback list \<Rightarrow> (bool \<times> nat option \<times> nat) list \<Rightarrow> curl_driver \<Rightarrow> curl_driver option" where
  "timer_resume cbs msgs d =
     (if \<not> cd_expiry_triggered d then None
      else if cd_expiry_flags d then Some (timer_arm d)
      else Some (timer_arm (process_multi msgs (curl_calls cbs d))))"

definition timer_fires :: "curl_driver \<Rightarrow> curl_driver option" where
  "timer_fires d =
     (if \<not> cd_expiry_triggered d \<and> cd_expiry_after d \<noteq> None then Some (d\<lparr>cd_expiry_triggered := True\<rparr>) else None)"

datatype curl_choice =
    Client_call "curl_callback list" | Kernel_fires socket u32 | Timer_fires
  | Watch_task socket "u32 \<Rightarrow> curl_callback list" "(bool \<times> nat option \<times> nat) list"
  | Timer_task "curl_callback list" "(bool \<times> nat option \<times> nat) list"

fun curl_step :: "curl_choice \<Rightarrow> curl_driver \<Rightarrow> curl_driver option" where
  "curl_step (Client_call cbs) d = Some (curl_calls cbs d)"
| "curl_step (Kernel_fires s fired) d = kernel_fires s fired d"
| "curl_step Timer_fires d = timer_fires d"
| "curl_step (Watch_task s cbs msgs) d = watch_resume s cbs msgs d"
| "curl_step (Timer_task cbs msgs) d = timer_resume cbs msgs d"

fun curl_run :: "curl_choice list \<Rightarrow> curl_driver \<Rightarrow> curl_driver option" where
  "curl_run [] d = Some d"
| "curl_run (ch # chs) d = (case curl_step ch d of None \<Rightarrow> None | Some d \<Rightarrow> curl_run chs d)"

subsection \<open>Responses\<close>

record curl_response =
  cr_status :: int
  cr_body :: string
  cr_headers :: "(string \<times> string) list"

definition curl_response_new :: curl_response where
  "curl_response_new = \<lparr>cr_status = 0, cr_body = [], cr_headers = []\<rparr>"

definition write_body_cb :: "string \<Rightarrow> curl_response \<Rightarrow> nat \<times> curl_response" where
  "write_body_cb bytes r = (length bytes, r\<lparr>cr_body := cr_body r @ bytes\<rparr>)"

text \<open>The multimap of headers keeps equal names in the order of insertion; here it is the list.\<close>

fun strip_line_end :: "string \<Rightarrow> string" where
  "strip_line_end line = rev (dropWhile (\<lambda>c. c = CHR 0x0A \<or> c = CHR 0x0D) (rev line))"

definition write_header_cb :: "string \<Rightarrow> curl_response \<Rightarrow> nat \<times> curl_response" where
  "write_header_cb bytes r =
     (let n = length bytes; line = strip_line_end bytes in
      if line = [] then (n, r)
      else if take 5 line = ''HTTP/'' then (n, r)
      else if CHR '':'' \<notin> set line then (n, r)
      else let name = takeWhile (\<lambda>c. c \<noteq> CHR '':'') line;
               val = dropWhile (\<lambda>c. c = CHR '' '' \<or> c = CHR 0x09) (drop (length name + 1) line)
           in (n, r\<lparr>cr_headers := cr_headers r @ [(name, val)]\<rparr>))"

text \<open>\<^verbatim>\<open>curl_fetch\<close> after its transfer has completed: an exception, or the response.\<close>

definition curl_result :: "nat \<Rightarrow> string \<Rightarrow> (nat \<Rightarrow> string) \<Rightarrow> int \<Rightarrow> curl_response \<Rightarrow> (nat \<times> string) + curl_response" where
  "curl_result result errbuf strerror status r =
     (if result \<noteq> 0 then Inl (result, if errbuf \<noteq> [] then errbuf else strerror result)
      else Inr (r\<lparr>cr_status := status\<rparr>))"

end
