(* ===== verification/CurlInv.thy ===== *)
theory CurlInv
  imports CurlDriver
begin

text \<open>
  Whatever callbacks libcurl makes: no coroutine is destroyed while it runs, no change of a mask or of
  the timer is lost, and header lines are taken apart as they were put together.
\<close>

subsection \<open>The invariant\<close>

text \<open>\<open>run\<close> is the socket whose coroutine runs, and the name of its state.\<close>

definition watch_ok :: "bool \<Rightarrow> watch_state \<Rightarrow> bool" where
  "watch_ok running w \<longleftrightarrow> (w_point w = Watch_running \<longleftrightarrow> running)
     \<and> (\<not> running \<longrightarrow> w_mask w \<noteq> CURL_POLL_REMOVE \<and> (fe_fired (w_ev w) = None \<longrightarrow> fe_mask (w_ev w) = poll_mask (w_mask w)))"

definition timer_ok :: "curl_driver \<Rightarrow> bool" where
  "timer_ok d \<longleftrightarrow> (\<not> cd_expiry_triggered d \<longrightarrow> cd_next_timeout d = -1 \<and> \<not> cd_expiry_flags d)"

definition curl_inv :: "(socket \<times> nat) option \<Rightarrow> curl_driver \<Rightarrow> bool" where
  "curl_inv run d \<longleftrightarrow> \<not> cd_fault d \<and> timer_ok d
     \<and> (\<forall>s w. cd_watches d s = Some w \<longrightarrow> watch_ok (map_option fst run = Some s) w)
     \<and> (\<forall>s n. run = Some (s, n) \<longrightarrow> (\<exists>w. cd_watches d s = Some w \<and> w_id w = n))"

lemma curl_invD: "curl_inv run d \<Longrightarrow> cd_watches d s = Some w \<Longrightarrow> watch_ok (map_option fst run = Some s) w"
  by (simp add: curl_inv_def)

lemma watch_install_ok: "w_mask w \<noteq> CURL_POLL_REMOVE \<Longrightarrow> watch_ok False (watch_install w)"
  by (simp add: watch_ok_def watch_install_def)

lemma poke_simps [simp]: "w_mask (poke w) = w_mask w" "w_point (poke w) = w_point w" "w_id (poke w) = w_id w"
  by (simp_all add: poke_def)

lemma poke_fired: "fe_fired (w_ev (poke w)) \<noteq> None"
  by (simp add: poke_def)

text \<open>Callbacks, whether a watcher called libcurl or somebody else.\<close>

lemma socket_cb_ok:
  assumes "curl_inv run d" "cd_current d = map_option fst run"
  shows "curl_inv run (socket_cb s what d)" "cd_current (socket_cb s what d) = cd_current d"
proof -
  note inv = assms(1) [unfolded curl_inv_def]
  show "cd_current (socket_cb s what d) = cd_current d"
    by (simp add: socket_cb_def watches_erase_def upd_watch_def)
  consider (erase) "what = CURL_POLL_REMOVE" "cd_current d \<noteq> Some s"
    | (poke) w where "cd_watches d s = Some w" "what = CURL_POLL_REMOVE \<longrightarrow> cd_current d = Some s"
    | (create) "cd_watches d s = None" "what \<noteq> CURL_POLL_REMOVE" "s \<in> cd_fds d"
    | (ignore) "cd_watches d s = None" "what \<noteq> CURL_POLL_REMOVE \<or> cd_current d = Some s"
        "what = CURL_POLL_REMOVE \<or> s \<notin> cd_fds d"
    by (cases "cd_watches d s") blast+
  then show "curl_inv run (socket_cb s what d)"
  proof cases
    case erase
    have "w_point w \<noteq> Watch_running" if "cd_watches d s = Some w" for w
      using curl_invD [OF assms(1) that] erase(2) assms(2) by (auto simp: watch_ok_def)
    then show ?thesis using inv erase assms(2)
      by (auto simp: socket_cb_def watches_erase_def curl_inv_def timer_ok_def split: option.splits)
  next
    case poke
    have "watch_ok (map_option fst run = Some s) (poke (w\<lparr>w_mask := what\<rparr>))"
      using curl_invD [OF assms(1) poke(1)] poke(2) assms(2) poke_fired [of "w\<lparr>w_mask := what\<rparr>"] by (auto simp: watch_ok_def)
    then show ?thesis using inv poke
      by (auto simp: socket_cb_def upd_watch_def curl_inv_def timer_ok_def)
  next
    case create
    have "map_option fst run \<noteq> Some s" using inv create(1) by (cases run) auto
    then show ?thesis using inv create
      by (auto simp: socket_cb_def curl_inv_def timer_ok_def intro!: watch_install_ok)
  next
    case ignore
    then have "socket_cb s what d = d" by (auto simp: socket_cb_def)
    then show ?thesis using assms(1) by simp
  qed
qed

lemma curl_calls_ok:
  assumes "curl_inv run d" "cd_current d = map_option fst run"
  shows "curl_inv run (curl_calls cbs d) \<and> cd_current (curl_calls cbs d) = cd_current d"
  using assms
proof (induction cbs arbitrary: d)
  case Nil
  then show ?case by (simp add: curl_calls_def)
next
  case (Cons cb cbs)
  have "curl_inv run (curl_call cb d) \<and> cd_current (curl_call cb d) = cd_current d"
  proof (cases cb)
    case (Poll_socket s what)
    then show ?thesis using socket_cb_ok [OF Cons(2,3)] by simp
  qed (use Cons(2) in \<open>auto simp: curl_inv_def timer_ok_def opensocket_cb_def closesocket_cb_def timer_cb_def Let_def
         split: option.splits\<close>)
  then show ?case using Cons(1) [of "curl_call cb d"] Cons(3) by (simp add: curl_calls_def)
qed

lemma process_multi_ok: "curl_inv run (process_multi msgs d) = curl_inv run d"
    "cd_current (process_multi msgs d) = cd_current d"
  by (induction msgs d rule: process_multi.induct) (auto simp: curl_inv_def timer_ok_def split: option.splits)

subsection \<open>The coroutines\<close>

text \<open>The coroutine that ran waits again, or has left with its state.\<close>

lemma watch_loop_ok:
  assumes "curl_inv (Some (s, n)) d" "cd_current d = None"
  shows "curl_inv None (watch_loop s n d) \<and> cd_current (watch_loop s n d) = None"
proof -
  note inv = assms(1) [unfolded curl_inv_def]
  obtain w where w: "cd_watches d s = Some w" "w_id w = n" using inv by blast
  have others: "watch_ok False v" if "cd_watches d t = Some v" "t \<noteq> s" for t v
    using curl_invD [OF assms(1) that(1)] that(2) by simp
  show ?thesis
  proof (cases "w_mask w = CURL_POLL_REMOVE")
    case True
    then show ?thesis using w inv others assms(2)
      by (auto simp: watch_loop_def watches_erase_def curl_inv_def timer_ok_def)
  next
    case False
    then show ?thesis using w inv others assms(2)
      by (auto simp: watch_loop_def upd_watch_def curl_inv_def timer_ok_def intro!: watch_install_ok)
  qed
qed

lemma watch_resume_ok:
  assumes "curl_inv None d" "cd_current d = None" "watch_resume s cbs msgs d = Some d'"
  shows "curl_inv None d' \<and> cd_current d' = None"
proof -
  obtain w fired where w: "cd_watches d s = Some w" "fe_fired (w_ev w) = Some fired"
    using assms(3) by (auto simp: watch_resume_def split: option.splits)
  let ?d = "upd_watch s (\<lambda>w. w\<lparr>w_point := Watch_running\<rparr>) d"
  have run: "curl_inv (Some (s, w_id w)) ?d"
    using assms(1) w(1) by (auto simp: curl_inv_def upd_watch_def watch_ok_def timer_ok_def)
  have cur: "cd_current ?d = None" using assms(2) by (simp add: upd_watch_def)
  show ?thesis
  proof (cases "fired = 0")
    case True
    then show ?thesis using watch_loop_ok [OF run cur] assms(3) w by (simp add: watch_resume_def Let_def)
  next
    case False
    let ?c = "curl_calls (cbs (select_bits fired)) (?d\<lparr>cd_current := Some s\<rparr>)"
    have "curl_inv (Some (s, w_id w)) (?d\<lparr>cd_current := Some s\<rparr>)" using run by (simp add: curl_inv_def timer_ok_def)
    from curl_calls_ok [OF this] have "curl_inv (Some (s, w_id w)) ?c" by simp
    then have "curl_inv (Some (s, w_id w)) (?c\<lparr>cd_current := None\<rparr>)" by (simp add: curl_inv_def timer_ok_def)
    then have "curl_inv (Some (s, w_id w)) (process_multi msgs (?c\<lparr>cd_current := None\<rparr>))"
        "cd_current (process_multi msgs (?c\<lparr>cd_current := None\<rparr>)) = None"
      by (simp_all add: process_multi_ok)
    from watch_loop_ok [OF this] show ?thesis using assms(3) w False by (simp add: watch_resume_def Let_def)
  qed
qed

lemma timer_resume_ok:
  assumes "curl_inv None d" "cd_current d = None" "timer_resume cbs msgs d = Some d'"
  shows "curl_inv None d' \<and> cd_current d' = None"
proof -
  have arm: "curl_inv None (timer_arm e) \<and> cd_current (timer_arm e) = cd_current e" if "curl_inv None e" for e
    using that by (auto simp: timer_arm_def curl_inv_def timer_ok_def)
  have "curl_inv None (process_multi msgs (curl_calls cbs d))" "cd_current (process_multi msgs (curl_calls cbs d)) = None"
    using curl_calls_ok [OF assms(1)] assms(2) by (simp_all add: process_multi_ok)
  then show ?thesis using arm [of d] arm [of "process_multi msgs (curl_calls cbs d)"] assms
    by (auto simp: timer_resume_def split: if_splits)
qed

lemma curl_step_ok:
  assumes "curl_inv None d" "cd_current d = None" "curl_step ch d = Some d'"
  shows "curl_inv None d' \<and> cd_current d' = None"
proof (cases ch)
  case (Client_call cbs)
  then show ?thesis using curl_calls_ok [OF assms(1)] assms(2,3) by auto
next
  case (Kernel_fires s fired)
  then show ?thesis using assms
    by (auto simp: kernel_fires_def upd_watch_def curl_inv_def timer_ok_def watch_ok_def split: option.splits if_splits)
next
  case Timer_fires
  then show ?thesis using assms by (auto simp: timer_fires_def curl_inv_def timer_ok_def split: if_splits)
next
  case (Watch_task s cbs msgs)
  then show ?thesis using watch_resume_ok [OF assms(1,2)] assms(3) by simp
next
  case (Timer_task cbs msgs)
  then show ?thesis using timer_resume_ok [OF assms(1,2)] assms(3) by simp
qed

lemma curl_run_ok:
  "curl_run chs d = Some d' \<Longrightarrow> curl_inv None d \<Longrightarrow> cd_current d = None \<Longrightarrow> curl_inv None d' \<and> cd_current d' = None"
  by (induction chs arbitrary: d) (auto split: option.splits dest: curl_step_ok)

lemma curl_new_inv: "curl_inv None curl_driver_new"
  by (simp add: curl_inv_def timer_ok_def curl_driver_new_def)


text \<open>A watcher whose callback removes its own socket.\<close>

definition curl_example :: "curl_choice list" where
  "curl_example = [Client_call [Open_socket (Some 5) True, Poll_socket 5 CURL_POLL_IN, Set_timer 100],
     Timer_task [] [], Kernel_fires 5 1,
     Watch_task 5 (\<lambda>bits. if bits = CURL_CSELECT_IN then [Poll_socket 5 CURL_POLL_REMOVE, Close_socket 5, Set_timer (-1)] else [])
       [(True, Some 7, 0)]]"

lemma curl_example_run:
  "map_option (\<lambda>d. (cd_watches d 5, cd_completed d, cd_expiry_triggered d, cd_expiry_after d)) (curl_run curl_example curl_driver_new)
     = Some (None, [(7, 0)], True, Some 100)"
  by code_simp


subsection \<open>Header lines\<close>

lemma strip_line_end_crlf:
  assumes "line = [] \<or> last line \<noteq> CHR 0x0A \<and> last line \<noteq> CHR 0x0D"
  shows "strip_line_end (line @ [CHR 0x0D, CHR 0x0A]) = line"
  using assms by (cases line rule: rev_cases) auto

text \<open>A line that names a header adds it; the value keeps inner and trailing blanks.\<close>

lemma write_header_line:
  assumes "CHR '':'' \<notin> set name" "take 5 (name @ '': '' @ val) \<noteq> ''HTTP/''"
    and "val \<noteq> []" "hd val \<noteq> CHR '' ''" "hd val \<noteq> CHR 0x09" "last val \<noteq> CHR 0x0A" "last val \<noteq> CHR 0x0D"
  shows "write_header_cb (name @ '': '' @ val @ [CHR 0x0D, CHR 0x0A]) r
     = (length name + 4 + length val, r\<lparr>cr_headers := cr_headers r @ [(name, val)]\<rparr>)"
proof -
  let ?line = "name @ '': '' @ val"
  have strip: "strip_line_end (?line @ [CHR 0x0D, CHR 0x0A]) = ?line"
    using assms(3,6,7) by (intro strip_line_end_crlf) simp
  have name: "takeWhile (\<lambda>c. c \<noteq> CHR '':'') ?line = name"
    using assms(1) by (subst takeWhile_append2) auto
  have "dropWhile (\<lambda>c. c = CHR '' '' \<or> c = CHR 0x09) (drop (length name + 1) ?line) = val"
    using assms(3-5) by (cases val) auto
  with strip name assms(2) show ?thesis by (simp add: write_header_cb_def Let_def)
qed

end
