(* ===== verification/SmallVector.thy ===== *)
theory SmallVector
  imports Prelude
begin

text \<open>
  A vector with inline storage (\<^verbatim>\<open>small_vector.hh\<close>), with the life of its elements: a cell of memory is
  raw, holds an object, or holds an object that was moved from and still has to be destroyed. An
  operation returns \<open>None\<close> where the code would construct over an object, destroy or read raw memory,
  leave its buffer, or free what it has not allocated.

  The union of the inline buffer and the pointer is a list of cells for each, of which \<^verbatim>\<open>cap_\<close>
  tells which one is in use; \<open>sv_live\<close> are the sizes of the allocations that are not freed.
\<close>

subsection \<open>Cells\<close>

datatype 'a cell = Raw | Obj 'a | Moved

text \<open>\<^verbatim>\<open>std::destroy_n\<close> from the start of the cells, and of a range.\<close>

fun destroy_n :: "nat \<Rightarrow> 'a cell list \<Rightarrow> 'a cell list option" where
  "destroy_n 0 cs = Some cs"
| "destroy_n (Suc n) (c # cs) = (if c = Raw then None else map_option (Cons Raw) (destroy_n n cs))"
| "destroy_n (Suc n) [] = None"

definition destroy_range :: "nat \<Rightarrow> nat \<Rightarrow> 'a cell list \<Rightarrow> 'a cell list option" where
  "destroy_range i j cs = map_option ((@) (take i cs)) (destroy_n (j - i) (drop i cs))"

text \<open>\<^verbatim>\<open>std::uninitialized_move_n\<close> into raw cells.\<close>

fun uninitialized_move_n :: "nat \<Rightarrow> 'a cell list \<Rightarrow> 'a cell list \<Rightarrow> ('a cell list \<times> 'a cell list) option" where
  "uninitialized_move_n 0 src dst = Some (src, dst)"
| "uninitialized_move_n (Suc n) (Obj x # src) (Raw # dst) =
     map_option (\<lambda>(s, d). (Moved # s, Obj x # d)) (uninitialized_move_n n src dst)"
| "uninitialized_move_n (Suc n) src dst = None"

text \<open>\<^verbatim>\<open>std::move(first, last, to)\<close> inside one buffer, to a lower address.\<close>

fun move_down :: "nat \<Rightarrow> nat \<Rightarrow> nat \<Rightarrow> 'a cell list \<Rightarrow> 'a cell list option" where
  "move_down 0 f t cs = Some cs"
| "move_down (Suc n) f t cs =
     (if f < length cs \<and> t < length cs \<and> cs ! t \<noteq> Raw
      then (case cs ! f of
              Obj x \<Rightarrow> move_down n (f + 1) (t + 1) (cs[t := Obj x, f := Moved])
            | _ \<Rightarrow> None)
      else None)"

subsection \<open>The vector\<close>

record 'a small_vector =
  sv_sz :: nat
  sv_cap :: nat
  sv_in :: "'a cell list"
  sv_out :: "'a cell list"
  sv_live :: "nat list"

text \<open>The template's \<^verbatim>\<open>N\<close> is an argument. \<^verbatim>\<open>sz_\<close> and \<^verbatim>\<open>cap_\<close> are 32 bits wide.\<close>

definition small_vector_new :: "nat \<Rightarrow> 'a small_vector" where
  "small_vector_new N = \<lparr>sv_sz = 0, sv_cap = N, sv_in = replicate N Raw, sv_out = [], sv_live = []\<rparr>"

definition sv_data :: "nat \<Rightarrow> 'a small_vector \<Rightarrow> 'a cell list" where
  "sv_data N v = (if sv_cap v \<le> N then sv_in v else sv_out v)"

definition set_data :: "nat \<Rightarrow> 'a cell list \<Rightarrow> 'a small_vector \<Rightarrow> 'a small_vector" where
  "set_data N cs v = (if sv_cap v \<le> N then v\<lparr>sv_in := cs\<rparr> else v\<lparr>sv_out := cs\<rparr>)"

definition sv_size :: "'a small_vector \<Rightarrow> nat" where
  "sv_size v = sv_sz v"

definition sv_empty :: "'a small_vector \<Rightarrow> bool" where
  "sv_empty v \<longleftrightarrow> sv_size v = 0"

text \<open>\<^verbatim>\<open>operator[]\<close>, \<^verbatim>\<open>front\<close> and \<^verbatim>\<open>back\<close>.\<close>

definition sv_at :: "nat \<Rightarrow> nat \<Rightarrow> 'a small_vector \<Rightarrow> 'a option" where
  "sv_at N i v = (if i < length (sv_data N v) then (case sv_data N v ! i of Obj x \<Rightarrow> Some x | _ \<Rightarrow> None) else None)"

definition sv_front :: "nat \<Rightarrow> 'a small_vector \<Rightarrow> 'a option" where
  "sv_front N v = sv_at N 0 v"

definition sv_back :: "nat \<Rightarrow> 'a small_vector \<Rightarrow> 'a option" where
  "sv_back N v = (if sv_sz v = 0 then None else sv_at N (sv_sz v - 1) v)"

definition sv_clear :: "nat \<Rightarrow> 'a small_vector \<Rightarrow> 'a small_vector option" where
  "sv_clear N v = map_option (\<lambda>cs. (set_data N cs v)\<lparr>sv_sz := 0\<rparr>) (destroy_n (sv_sz v) (sv_data N v))"

text \<open>\<^verbatim>\<open>alloc.deallocate(p, n)\<close>: the pointer must come from an allocation of this size.\<close>

definition deallocate :: "nat \<Rightarrow> nat list \<Rightarrow> nat list option" where
  "deallocate n live = (if n \<in> set live then Some (remove1 n live) else None)"

definition clear_capacity :: "nat \<Rightarrow> 'a small_vector \<Rightarrow> 'a small_vector option" where
  "clear_capacity N v =
     (case destroy_n (sv_sz v) (sv_data N v) of
        None \<Rightarrow> None
      | Some cs \<Rightarrow>
          let v = set_data N cs v
          in (case if sv_cap v > N then deallocate (sv_cap v) (sv_live v) else Some (sv_live v) of
                None \<Rightarrow> None
              | Some live \<Rightarrow>
                  Some \<lparr>sv_sz = 0, sv_cap = 0, sv_in = (if sv_cap v > N then replicate N Raw else sv_in v),
                        sv_out = [], sv_live = live\<rparr>))"

text \<open>The move constructor: the new vector and what is left of the old one.\<close>

definition small_vector_move :: "nat \<Rightarrow> 'a small_vector \<Rightarrow> ('a small_vector \<times> 'a small_vector) option" where
  "small_vector_move N x =
     (if sv_cap x > N
      then Some (\<lparr>sv_sz = sv_sz x, sv_cap = sv_cap x, sv_in = replicate N Raw, sv_out = sv_out x, sv_live = sv_live x\<rparr>,
                 \<lparr>sv_sz = 0, sv_cap = 0, sv_in = replicate N Raw, sv_out = [], sv_live = []\<rparr>)
      else (case uninitialized_move_n (sv_sz x) (sv_in x) (replicate N Raw) of
              None \<Rightarrow> None
            | Some (src, dst) \<Rightarrow>
                Some (\<lparr>sv_sz = sv_sz x, sv_cap = sv_cap x, sv_in = dst, sv_out = [], sv_live = []\<rparr>, x\<lparr>sv_in := src\<rparr>)))"

definition sv_erase :: "nat \<Rightarrow> nat \<Rightarrow> nat \<Rightarrow> 'a small_vector \<Rightarrow> 'a small_vector option" where
  "sv_erase N lo hi v =
     (if lo = hi then Some v
      else (case move_down (sv_sz v - hi) hi lo (sv_data N v) of
              None \<Rightarrow> None
            | Some cs \<Rightarrow>
                map_option (\<lambda>cs. (set_data N cs v)\<lparr>sv_sz := sv_sz v - (hi - lo)\<rparr>)
                  (destroy_range (sv_sz v - (hi - lo)) (sv_sz v) cs)))"

definition sv_truncate :: "nat \<Rightarrow> nat \<Rightarrow> 'a small_vector \<Rightarrow> 'a small_vector option" where
  "sv_truncate N lo v =
     map_option (\<lambda>cs. (set_data N cs v)\<lparr>sv_sz := lo\<rparr>) (destroy_range lo (sv_sz v) (sv_data N v))"

text \<open>\<^verbatim>\<open>push_space\<close>; the position it returns is \<^verbatim>\<open>sz_\<close>.\<close>

definition push_space :: "nat \<Rightarrow> 'a small_vector \<Rightarrow> 'a small_vector option" where
  "push_space N v =
     (let v = (if sv_cap v = 0 then v\<lparr>sv_cap := N\<rparr> else v)
      in if sv_sz v < sv_cap v then Some v
         else
           let ncap = sv_cap v * 2 mod 2 ^ 32
           in (case uninitialized_move_n (sv_sz v) (sv_data N v) (replicate ncap Raw) of
                 None \<Rightarrow> None
               | Some (src, dst) \<Rightarrow>
                   (case destroy_n (sv_sz v) src of
                      None \<Rightarrow> None
                    | Some _ \<Rightarrow>
                        (case if sv_cap v > N then deallocate (sv_cap v) (ncap # sv_live v) else Some (ncap # sv_live v) of
                           None \<Rightarrow> None
                         | Some live \<Rightarrow> Some (v\<lparr>sv_out := dst, sv_cap := ncap, sv_live := live\<rparr>)))))"

text \<open>\<^verbatim>\<open>std::construct_at(push_space(), x); ++sz_\<close>.\<close>

definition construct_back :: "nat \<Rightarrow> 'a \<Rightarrow> 'a small_vector \<Rightarrow> 'a small_vector option" where
  "construct_back N x v =
     (if sv_sz v < length (sv_data N v) \<and> sv_data N v ! sv_sz v = Raw
      then Some ((set_data N ((sv_data N v)[sv_sz v := Obj x]) v)\<lparr>sv_sz := (sv_sz v + 1) mod 2 ^ 32\<rparr>)
      else None)"

definition push_back :: "nat \<Rightarrow> 'a \<Rightarrow> 'a small_vector \<Rightarrow> 'a small_vector option" where
  "push_back N x v = (case push_space N v of None \<Rightarrow> None | Some v \<Rightarrow> construct_back N x v)"

text \<open>
  \<^verbatim>\<open>v.push_back(v[i])\<close>: the reference is read after \<^verbatim>\<open>push_space\<close>, when the buffer it points into may
  have been freed.
\<close>

definition push_back_own :: "nat \<Rightarrow> nat \<Rightarrow> 'a small_vector \<Rightarrow> 'a small_vector option" where
  "push_back_own N i v =
     (case push_space N v of
        None \<Rightarrow> None
      | Some v' \<Rightarrow>
          if sv_cap v' \<noteq> sv_cap v \<and> sv_cap v \<noteq> 0 then None
          else (case sv_at N i v' of None \<Rightarrow> None | Some x \<Rightarrow> construct_back N x v'))"

definition pop_back :: "nat \<Rightarrow> 'a small_vector \<Rightarrow> 'a small_vector option" where
  "pop_back N v =
     (if sv_sz v = 0 then None
      else map_option (\<lambda>cs. (set_data N cs v)\<lparr>sv_sz := sv_sz v - 1\<rparr>) (destroy_range (sv_sz v - 1) (sv_sz v) (sv_data N v)))"

subsection \<open>Sequences of operations\<close>

datatype 'a sv_op = Push_back 'a | Pop_back | Erase nat nat | Truncate nat | Clear | Clear_capacity | Move_construct

text \<open>\<open>Move_construct\<close> goes on with the new vector and destroys the old one.\<close>

definition sv_step :: "nat \<Rightarrow> 'a sv_op \<Rightarrow> 'a small_vector \<Rightarrow> 'a small_vector option" where
  "sv_step N a v =
     (case a of
        Push_back x \<Rightarrow> push_back N x v
      | Pop_back \<Rightarrow> pop_back N v
      | Erase i j \<Rightarrow> sv_erase N i j v
      | Truncate i \<Rightarrow> sv_truncate N i v
      | Clear \<Rightarrow> sv_clear N v
      | Clear_capacity \<Rightarrow> clear_capacity N v
      | Move_construct \<Rightarrow>
          (case small_vector_move N v of
             None \<Rightarrow> None
           | Some (new, old) \<Rightarrow> (case clear_capacity N old of None \<Rightarrow> None | Some old \<Rightarrow> if sv_live old = [] then Some new else None)))"

fun sv_run :: "nat \<Rightarrow> 'a sv_op list \<Rightarrow> 'a small_vector \<Rightarrow> 'a small_vector option" where
  "sv_run N [] v = Some v"
| "sv_run N (a # ops) v = (case sv_step N a v of None \<Rightarrow> None | Some v \<Rightarrow> sv_run N ops v)"

subsection \<open>Cells and lists\<close>

lemma destroy_n_all:
  assumes "\<forall>c \<in> set cs. c \<noteq> Raw"
  shows "destroy_n (length cs) (cs @ ds) = Some (replicate (length cs) Raw @ ds)"
  using assms by (induction cs) auto

lemma destroy_range_all:
  assumes "\<forall>c \<in> set cs. c \<noteq> Raw" "i = length bs" "j = length bs + length cs"
  shows "destroy_range i j (bs @ cs @ ds) = Some (bs @ replicate (length cs) Raw @ ds)"
  using destroy_n_all [OF assms(1), of ds] by (simp add: destroy_range_def assms(2,3))

lemma uninitialized_move_all:
  "uninitialized_move_n (length xs) (map Obj xs @ ds) (replicate (length xs) Raw @ es) =
    Some (replicate (length xs) Moved @ ds, map Obj xs @ es)"
  by (induction xs) auto

lemma move_down_all:
  assumes "\<forall>c \<in> set bs. c \<noteq> Raw" "bs \<noteq> []"
  shows "\<exists>bs'. move_down (length xs) (length ps + length bs) (length ps) (ps @ bs @ map Obj xs @ ds)
      = Some (ps @ map Obj xs @ bs' @ ds) \<and> length bs' = length bs \<and> (\<forall>c \<in> set bs'. c \<noteq> Raw)"
  using assms
proof (induction xs arbitrary: ps bs)
  case (Cons x xs)
  obtain b bs0 where bs: "bs = b # bs0" using Cons(3) by (cases bs) auto
  let ?cs = "ps @ bs @ map Obj (x # xs) @ ds"
  have "?cs[length ps := Obj x, length ps + length bs := Moved] = (ps @ [Obj x]) @ (bs0 @ [Moved]) @ map Obj xs @ ds"
    by (simp add: bs list_update_append nth_append)
  moreover have "?cs ! (length ps + length bs) = Obj x" "?cs ! length ps = b" by (simp_all add: nth_append bs)
  moreover have "\<exists>bs'. move_down (length xs) (length (ps @ [Obj x]) + length (bs0 @ [Moved])) (length (ps @ [Obj x]))
        ((ps @ [Obj x]) @ (bs0 @ [Moved]) @ map Obj xs @ ds)
      = Some ((ps @ [Obj x]) @ map Obj xs @ bs' @ ds) \<and> length bs' = length (bs0 @ [Moved]) \<and> (\<forall>c \<in> set bs'. c \<noteq> Raw)"
    by (rule Cons(1)) (use Cons(2) bs in auto)
  ultimately show ?case using Cons(2) bs by auto
qed simp

subsection \<open>The vector holds a list\<close>

definition sv_holds :: "nat \<Rightarrow> 'a list \<Rightarrow> 'a small_vector \<Rightarrow> bool" where
  "sv_holds N xs v \<longleftrightarrow> sv_sz v = length xs \<and> sv_cap v < 2 ^ 32
     \<and> (\<exists>k. sv_data N v = map Obj xs @ replicate k Raw \<and> length xs + k = max N (sv_cap v))
     \<and> sv_live v = (if sv_cap v > N then [sv_cap v] else [])
     \<and> (sv_cap v > N \<or> sv_cap v = N \<or> sv_cap v = 0 \<and> xs = [])"

text \<open>Replacing the objects of the buffer in use.\<close>

lemma holds_data:
  assumes "sv_holds N xs v" "length ys + k = length (sv_data N v)" "sv_cap v = 0 \<longrightarrow> ys = []"
  shows "sv_holds N ys ((set_data N (map Obj ys @ replicate k Raw) v)\<lparr>sv_sz := length ys\<rparr>)"
proof -
  let ?w = "(set_data N (map Obj ys @ replicate k Raw) v)\<lparr>sv_sz := length ys\<rparr>"
  have "sv_data N ?w = map Obj ys @ replicate k Raw" "sv_cap ?w = sv_cap v" "sv_live ?w = sv_live v" "sv_sz ?w = length ys"
    by (simp_all add: sv_data_def set_data_def)
  moreover have "length ys + k = max N (sv_cap v)" using assms(1,2) by (auto simp: sv_holds_def)
  ultimately show ?thesis using assms(1,3) unfolding sv_holds_def by auto
qed

lemma destroy_holds:
  assumes "sv_holds N xs v" "i \<le> length xs"
  shows "\<exists>k. destroy_range i (length xs) (sv_data N v) = Some (map Obj (take i xs) @ replicate k Raw)
    \<and> i + k = length (sv_data N v)"
proof -
  obtain k where k: "sv_data N v = map Obj xs @ replicate k Raw" using assms(1) by (auto simp: sv_holds_def)
  have "destroy_range i (length xs) (map Obj (take i xs) @ map Obj (drop i xs) @ replicate k Raw)
      = Some (map Obj (take i xs) @ replicate (length (map Obj (drop i xs))) Raw @ replicate k Raw)"
    by (rule destroy_range_all) (use assms(2) in auto)
  moreover have "map Obj (take i xs) @ map Obj (drop i xs) = map Obj xs" by (simp flip: map_append)
  ultimately have "destroy_range i (length xs) (sv_data N v) = Some (map Obj (take i xs) @ replicate (length xs - i + k) Raw)"
    by (metis append.assoc k length_drop length_map replicate_add)
  moreover have "i + (length xs - i + k) = length (sv_data N v)" using assms(2) by (simp add: k)
  ultimately show ?thesis by blast
qed

lemma destroy_range_0: "destroy_range 0 n cs = destroy_n n cs"
  by (cases "destroy_n n cs") (simp_all add: destroy_range_def)

lemma truncate_holds:
  assumes "sv_holds N xs v" "i \<le> length xs"
  shows "\<exists>v'. sv_truncate N i v = Some v' \<and> sv_holds N (take i xs) v'"
proof -
  obtain k where k: "destroy_range i (length xs) (sv_data N v) = Some (map Obj (take i xs) @ replicate k Raw)"
      "i + k = length (sv_data N v)"
    using destroy_holds [OF assms] by blast
  have "sv_sz v = length xs" "sv_cap v = 0 \<longrightarrow> take i xs = []" using assms(1) by (auto simp: sv_holds_def)
  moreover have t: "length (take i xs) = i" using assms(2) by simp
  ultimately show ?thesis
    using k holds_data [OF assms(1), of "take i xs" k, unfolded t] by (simp add: sv_truncate_def)
qed

lemma clear_truncate: "sv_clear N v = sv_truncate N 0 v"
  by (simp add: sv_clear_def sv_truncate_def destroy_range_0)

lemma pop_truncate: "sv_sz v \<noteq> 0 \<Longrightarrow> pop_back N v = sv_truncate N (sv_sz v - 1) v"
  by (simp add: pop_back_def sv_truncate_def)

lemma clear_capacity_holds:
  assumes "sv_holds N xs v"
  shows "\<exists>v'. clear_capacity N v = Some v' \<and> sv_holds N [] v' \<and> sv_live v' = []"
proof -
  obtain k where k: "destroy_n (length xs) (sv_data N v) = Some (replicate k Raw)" "k = length (sv_data N v)"
    using destroy_holds [OF assms, of 0] by (auto simp: destroy_range_0)
  have sz: "sv_sz v = length xs" and len: "length (sv_data N v) = max N (sv_cap v)"
    and live: "sv_live v = (if sv_cap v > N then [sv_cap v] else [])"
    using assms by (auto simp: sv_holds_def)
  show ?thesis
    using k sz len live
    by (auto simp: clear_capacity_def set_data_def deallocate_def sv_holds_def sv_data_def Let_def)
qed

lemma erase_holds:
  assumes "sv_holds N xs v" "i \<le> j" "j \<le> length xs"
  shows "\<exists>v'. sv_erase N i j v = Some v' \<and> sv_holds N (take i xs @ drop j xs) v'"
proof (cases "i = j")
  case False
  obtain k where k: "sv_data N v = map Obj xs @ replicate k Raw" using assms(1) by (auto simp: sv_holds_def)
  have sz: "sv_sz v = length xs" and cap: "sv_cap v = 0 \<longrightarrow> xs = []" using assms(1) by (auto simp: sv_holds_def)
  let ?A = "map Obj (take i xs)" and ?B = "map Obj (take (j - i) (drop i xs))"
  have parts: "map Obj xs = ?A @ ?B @ map Obj (drop j xs)"
    using assms(2) by (simp flip: map_append add: append_take_drop_id)
      (metis append_take_drop_id assms(2) drop_drop le_add_diff_inverse2)
  have B: "?B \<noteq> []" "length ?A = i" "length ?A + length ?B = j" using assms False by auto
  obtain bs where bs: "move_down (length (drop j xs)) (length ?A + length ?B) (length ?A) (?A @ ?B @ map Obj (drop j xs) @ replicate k Raw)
      = Some (?A @ map Obj (drop j xs) @ bs @ replicate k Raw)" "length bs = length ?B" "\<forall>c \<in> set bs. c \<noteq> Raw"
    using move_down_all [of ?B "drop j xs" ?A "replicate k Raw"] B(1) by auto
  have md: "move_down (sv_sz v - j) j i (sv_data N v) = Some (?A @ map Obj (drop j xs) @ bs @ replicate k Raw)"
    using bs(1) B(2,3) by (simp add: sz k parts)
  let ?ys = "take i xs @ drop j xs"
  have n: "length ?ys = length xs - (j - i)" "length bs = j - i" using assms(2,3) bs(2) by auto
  have "destroy_range (length xs - (j - i)) (length xs) (map Obj ?ys @ bs @ replicate k Raw)
      = Some (map Obj ?ys @ replicate (length bs) Raw @ replicate k Raw)"
    by (rule destroy_range_all) (use bs(3) n assms(2,3) in auto)
  then have d: "destroy_range (sv_sz v - (j - i)) (sv_sz v) (?A @ map Obj (drop j xs) @ bs @ replicate k Raw)
      = Some (map Obj ?ys @ replicate (length bs + k) Raw)"
    by (simp add: sz replicate_add)
  have "length ?ys + (length bs + k) = length (sv_data N v)" "sv_cap v = 0 \<longrightarrow> ?ys = []"
    using n assms(2,3) cap by (auto simp: k)
  from holds_data [OF assms(1) this] have "sv_holds N ?ys ((set_data N (map Obj ?ys @ replicate (length bs + k) Raw) v)\<lparr>sv_sz := length ?ys\<rparr>)" .
  then show ?thesis using False md d n(1) by (simp add: sv_erase_def sz)
qed (use assms in \<open>simp add: sv_erase_def\<close>)

text \<open>After \<^verbatim>\<open>push_space\<close> there is a raw cell behind the objects.\<close>

lemma push_space_holds:
  assumes "sv_holds N xs v" "0 < N" "length xs < 2 ^ 31" "N \<le> 128"
  shows "\<exists>v'. push_space N v = Some v' \<and> sv_holds N xs v' \<and> length xs < length (sv_data N v') \<and> sv_cap v' \<noteq> 0"
proof -
  let ?v = "if sv_cap v = 0 then v\<lparr>sv_cap := N\<rparr> else v"
  have holds: "sv_holds N xs ?v"
    using assms(1,4) by (auto simp: sv_holds_def sv_data_def max_def split: if_splits)
  obtain k where k: "sv_data N ?v = map Obj xs @ replicate k Raw" "length xs + k = max N (sv_cap ?v)"
    using holds by (auto simp: sv_holds_def)
  have sz: "sv_sz ?v = length xs" and cap: "sv_cap ?v \<ge> N" and live: "sv_live ?v = (if sv_cap ?v > N then [sv_cap ?v] else [])"
    using holds assms(2) by (auto simp: sv_holds_def split: if_splits)
  show ?thesis
  proof (cases "sv_sz ?v < sv_cap ?v")
    case True
    then have "push_space N v = Some ?v" by (simp add: push_space_def Let_def)
    moreover have "length xs < length (sv_data N ?v)" using True sz k cap by simp
    ultimately show ?thesis using holds cap assms(2) by auto
  next
    case False
    have full: "sv_cap ?v = length xs" "k = 0" using False k sz cap by (simp_all add: max_def)
    let ?n = "sv_cap ?v * 2"
    have n: "?n mod 2 ^ 32 = ?n" "?n > N" using full(1) assms(2,3) cap by simp_all
    have "replicate ?n Raw = replicate (length xs) Raw @ replicate (length xs) (Raw :: 'a cell)"
      by (simp add: full(1) mult_2_right replicate_add)
    then have move: "uninitialized_move_n (sv_sz ?v) (sv_data N ?v) (replicate ?n Raw)
        = Some (replicate (length xs) Moved, map Obj xs @ replicate (length xs) Raw)"
      using uninitialized_move_all [of xs "[]" "replicate (length xs) Raw"] by (simp add: k full(2) sz)
    have destroy: "destroy_n (sv_sz ?v) (replicate (length xs) Moved) = Some (replicate (length xs) (Raw :: 'a cell))"
      using destroy_n_all [of "replicate (length xs) Moved" "[]"] by (simp add: sz)
    let ?w = "?v\<lparr>sv_out := map Obj xs @ replicate (length xs) Raw, sv_cap := ?n, sv_live := [?n]\<rparr>"
    have dealloc: "(if sv_cap ?v > N then deallocate (sv_cap ?v) (?n # sv_live ?v) else Some (?n # sv_live ?v)) = Some [?n]"
      using live assms(2) cap by (auto simp: deallocate_def)
    have p: "push_space N v = Some ?w"
      unfolding push_space_def Let_def using False move destroy dealloc by (simp only: n(1) if_False) simp
    have "sv_data N ?w = map Obj xs @ replicate (length xs) Raw" "sv_cap ?w = ?n" "sv_live ?w = [?n]" "sv_sz ?w = length xs"
      using n(2) sz by (simp_all add: sv_data_def)
    moreover have "length xs + length xs = max N ?n" "?n < 2 ^ 32" using full(1) cap assms(3) by simp_all
    ultimately have "sv_holds N xs ?w" unfolding sv_holds_def using n(2) by auto
    moreover have "length xs < length (sv_data N ?w)" using \<open>sv_data N ?w = _\<close> full(1) cap assms(2) by (cases xs) simp_all
    ultimately show ?thesis using p n(2) by auto
  qed
qed

lemma construct_holds:
  assumes "sv_holds N xs v" "length xs < length (sv_data N v)" "length xs < 2 ^ 31" "sv_cap v \<noteq> 0"
  shows "\<exists>v'. construct_back N x v = Some v' \<and> sv_holds N (xs @ [x]) v'"
proof -
  obtain k where k: "sv_data N v = map Obj xs @ replicate k Raw" using assms(1) by (auto simp: sv_holds_def)
  then obtain k' where k': "k = Suc k'" using assms(2) by (cases k) auto
  have sz: "sv_sz v = length xs" using assms(1) by (simp add: sv_holds_def)
  have raw: "sv_data N v ! sv_sz v = Raw" by (simp add: k sz k' nth_append)
  have upd: "(sv_data N v)[sv_sz v := Obj x] = map Obj (xs @ [x]) @ replicate k' Raw"
    by (simp add: k sz k' list_update_append)
  have "sv_holds N (xs @ [x]) ((set_data N (map Obj (xs @ [x]) @ replicate k' Raw) v)\<lparr>sv_sz := length (xs @ [x])\<rparr>)"
    by (rule holds_data [OF assms(1)]) (use assms(4) in \<open>simp_all add: k k'\<close>)
  then show ?thesis using assms(2,3) raw by (simp add: construct_back_def upd) (simp add: sz)
qed

lemma move_holds:
  assumes "sv_holds N xs v"
  shows "\<exists>new old. small_vector_move N v = Some (new, old) \<and> sv_holds N xs new
    \<and> (\<exists>old'. clear_capacity N old = Some old' \<and> sv_live old' = [])"
proof (cases "sv_cap v > N")
  case True
  then show ?thesis using assms
    by (simp add: small_vector_move_def sv_holds_def sv_data_def clear_capacity_def set_data_def)
next
  case False
  obtain k where k: "sv_in v = map Obj xs @ replicate k Raw" "length xs + k = N"
    using assms False by (auto simp: sv_holds_def sv_data_def max_def)
  have sz: "sv_sz v = length xs" and live: "sv_live v = []" using assms False by (auto simp: sv_holds_def)
  have "replicate N Raw = replicate (length xs) Raw @ replicate k (Raw :: 'a cell)" using k(2) by (simp flip: replicate_add)
  then have "uninitialized_move_n (sv_sz v) (sv_in v) (replicate N Raw) =
      Some (replicate (length xs) Moved @ replicate k Raw, map Obj xs @ replicate k Raw)"
    using uninitialized_move_all [of xs "replicate k Raw" "replicate k Raw"] by (simp add: k(1) sz)
  moreover have "destroy_n (length xs) (replicate (length xs) Moved @ replicate k Raw)
      = Some (replicate (length xs) Raw @ replicate k (Raw :: 'a cell))"
    using destroy_n_all [of "replicate (length xs) Moved" "replicate k Raw"] by simp
  ultimately show ?thesis using assms False k(2) sz live
    by (auto simp: small_vector_move_def sv_holds_def sv_data_def clear_capacity_def set_data_def)
qed

subsection \<open>Refinement\<close>

text \<open>The operations on lists, where they are allowed.\<close>

fun list_step :: "'a sv_op \<Rightarrow> 'a list \<Rightarrow> 'a list option" where
  "list_step (Push_back x) xs = (if length xs < 2 ^ 31 then Some (xs @ [x]) else None)"
| "list_step Pop_back xs = (if xs = [] then None else Some (butlast xs))"
| "list_step (Erase i j) xs = (if i \<le> j \<and> j \<le> length xs then Some (take i xs @ drop j xs) else None)"
| "list_step (Truncate i) xs = (if i \<le> length xs then Some (take i xs) else None)"
| "list_step Clear xs = Some []"
| "list_step Clear_capacity xs = Some []"
| "list_step Move_construct xs = Some xs"

fun list_run :: "'a sv_op list \<Rightarrow> 'a list \<Rightarrow> 'a list option" where
  "list_run [] xs = Some xs"
| "list_run (a # ops) xs = (case list_step a xs of None \<Rightarrow> None | Some xs \<Rightarrow> list_run ops xs)"

lemma sv_step_holds:
  assumes "sv_holds N xs v" "0 < N" "list_step a xs = Some ys" "N \<le> 128"
  shows "\<exists>v'. sv_step N a v = Some v' \<and> sv_holds N ys v'"
proof (cases a)
  case (Push_back x)
  then have len: "length xs < 2 ^ 31" "ys = xs @ [x]" using assms(3) by (auto split: if_splits)
  obtain w where w: "push_space N v = Some w" "sv_holds N xs w" "length xs < length (sv_data N w)" "sv_cap w \<noteq> 0"
    using push_space_holds [OF assms(1,2) len(1) assms(4)] by blast
  from construct_holds [OF w(2,3) len(1) w(4), of x] show ?thesis
    using Push_back w(1) len(2) by (simp add: sv_step_def push_back_def)
next
  case Pop_back
  then have ne: "xs \<noteq> []" "ys = butlast xs" using assms(3) by (auto split: if_splits)
  have "sv_sz v = length xs" using assms(1) by (simp add: sv_holds_def)
  then show ?thesis using truncate_holds [OF assms(1), of "length xs - 1"] Pop_back ne
    by (simp add: sv_step_def pop_truncate butlast_conv_take)
next
  case Move_construct
  then show ?thesis using move_holds [OF assms(1)] assms(3) by (auto simp: sv_step_def)
next
  case Clear
  then show ?thesis using truncate_holds [OF assms(1), of 0] assms(3) by (simp add: sv_step_def clear_truncate)
qed (use assms truncate_holds [OF assms(1)] clear_capacity_holds [OF assms(1)] erase_holds [OF assms(1)] in
  \<open>auto simp: sv_step_def clear_truncate split: if_splits\<close>)

text \<open>
  C19: a sequence of operations that is allowed on a list works on the vector: no operation touches an
  object that does not live, a cell outside the buffer or memory that is not allocated, and the vector
  holds the list. Its destructor then frees all its memory.
\<close>

theorem small_vector_refines:
  assumes "0 < N" "N \<le> 128" "list_run ops [] = Some xs"
  shows "\<exists>v v'. sv_run N ops (small_vector_new N) = Some v \<and> sv_size v = length xs
    \<and> (\<forall>i < length xs. sv_at N i v = Some (xs ! i))
    \<and> clear_capacity N v = Some v' \<and> sv_live v' = []"
proof -
  have run: "\<exists>v'. sv_run N ops v = Some v' \<and> sv_holds N xs v'" if "sv_holds N ys v" "list_run ops ys = Some xs" for ys v
    using that
  proof (induction ops arbitrary: ys v)
    case (Cons a ops)
    obtain zs where zs: "list_step a ys = Some zs" "list_run ops zs = Some xs" using Cons(3) by (auto split: option.splits)
    from sv_step_holds [OF Cons(2) assms(1) zs(1) assms(2)] Cons(1) zs(2) show ?case by fastforce
  qed simp
  have "sv_holds N [] (small_vector_new N)" using assms(2) by (simp add: sv_holds_def small_vector_new_def sv_data_def)
  from run [OF this assms(3)] obtain v where v: "sv_run N ops (small_vector_new N) = Some v" "sv_holds N xs v" by blast
  obtain v' where v': "clear_capacity N v = Some v'" "sv_live v' = []" using clear_capacity_holds [OF v(2)] by blast
  have at: "sv_at N i v = Some (xs ! i)" if "i < length xs" for i
    using v(2) that by (auto simp: sv_holds_def sv_at_def nth_append)
  have "sv_size v = length xs" using v(2) by (simp add: sv_holds_def sv_size_def)
  then show ?thesis using v(1) v' at by blast
qed

lemma small_vector_refines_witness:
  "\<exists>v. sv_run 2 [Push_back 1, Push_back 2, Push_back 3, Push_back (4 :: int), Push_back 5, Erase 1 3, Move_construct, Pop_back]
      (small_vector_new 2) = Some v \<and> sv_size v = 2 \<and> sv_at 2 0 v = Some 1 \<and> sv_at 2 1 v = Some 4"
proof -
  let ?ops = "[Push_back 1, Push_back 2, Push_back 3, Push_back (4 :: int), Push_back 5, Erase 1 3, Move_construct, Pop_back]"
  have "list_run ?ops [] = Some [1, 4]" by simp
  from small_vector_refines [OF _ _ this, of 2] show ?thesis by fastforce
qed

text \<open>
  Pushing an element of the vector itself reads freed memory exactly when the vector is full, where a
  \<^verbatim>\<open>std::vector\<close> copies the element before it moves.
\<close>

lemma push_back_own_full:
  assumes "sv_holds N xs v" "0 < N" "i < length xs" "length xs < 2 ^ 31" "N \<le> 128"
  shows "push_back_own N i v = None \<longleftrightarrow> length xs = sv_cap v"
proof -
  have cap: "sv_cap v \<noteq> 0" "sv_sz v = length xs" "length xs \<le> sv_cap v"
    using assms(1,2,3) by (auto simp: sv_holds_def sv_data_def max_def split: if_splits)
  show ?thesis
  proof (cases "sv_sz v < sv_cap v")
    case True
    then have p: "push_space N v = Some v" using cap by (simp add: push_space_def)
    have at: "sv_at N i v = Some (xs ! i)" using assms(1,3) by (auto simp: sv_holds_def sv_at_def nth_append)
    have "length xs < length (sv_data N v)" using assms(1) True by (auto simp: sv_holds_def)
    from construct_holds [OF assms(1) this assms(4) cap(1), of "xs ! i"] show ?thesis
      using True cap p at by (auto simp: push_back_own_def)
  next
    case False
    obtain w where w: "push_space N v = Some w" "length xs < length (sv_data N w)" "sv_holds N xs w" "sv_cap w \<noteq> 0"
      using push_space_holds [OF assms(1,2,4,5)] by blast
    have "sv_cap w \<noteq> sv_cap v"
    proof
      assume eq: "sv_cap w = sv_cap v"
      have "length (sv_data N w) = max N (sv_cap w)" "length (sv_data N v) = max N (sv_cap v)" "sv_cap v \<ge> N"
        using w(3) assms(1) cap by (auto simp: sv_holds_def)
      then show False using w(2) eq False cap by simp
    qed
    then show ?thesis using False cap w(1) by (simp add: push_back_own_def)
  qed
qed

end
