(* ===== verification/Notes.thy ===== *)
theory Notes
  imports HttpMessage
begin

text \<open>
  What the two note servers share (\<^verbatim>\<open>examples/jsond.cc\<close>, \<^verbatim>\<open>examples/udp-jsond.cc\<close>): numbers in
  requests (\<^verbatim>\<open>std::from_chars\<close>, \<^verbatim>\<open>examples/utils.hh\<close>), the database of notes, and the
  operations of nlohmann::json that they call, which are arguments.
\<close>

subsection \<open>Numbers\<close>

datatype errc = Errc_none | Errc_invalid_argument | Errc_result_out_of_range

definition is_digit :: "char \<Rightarrow> bool" where
  "is_digit c \<longleftrightarrow> CHR ''0'' \<le> c \<and> c \<le> CHR ''9''"

definition digit_value :: "char \<Rightarrow> nat" where
  "digit_value c = of_char c - 48"

definition digits_value :: "string \<Rightarrow> nat" where
  "digits_value s = foldl (\<lambda>v c. v * 10 + digit_value c) 0 s"

text \<open>
  \<^verbatim>\<open>std::from_chars\<close> into an unsigned type, in base 10: the number of characters that were read, the
  error, and the value that is assigned. There is no sign and no white space; too large a number
  is read to its end and not assigned.
\<close>

definition from_chars :: "string \<Rightarrow> nat \<times> errc \<times> 'w::len word option" where
  "from_chars s =
     (let ds = takeWhile is_digit s
      in if ds = [] then (0, Errc_invalid_argument, None)
         else if digits_value ds \<ge> 2 ^ LENGTH('w) then (length ds, Errc_result_out_of_range, None)
         else (length ds, Errc_none, Some (of_nat (digits_value ds))))"

text \<open>\<^verbatim>\<open>from_str_chars(s, value)\<close>: the error and the assignment; and the overload that throws.\<close>

definition from_str_chars :: "string \<Rightarrow> errc \<times> 'w::len word option" where
  "from_str_chars s =
     (let (next, ec, v) = from_chars s
      in (if next \<noteq> length s then Errc_invalid_argument else ec, v))"

definition from_str_chars_value :: "string \<Rightarrow> errc + 'w::len word" where
  "from_str_chars_value s =
     (case from_str_chars s of
        (Errc_none, Some v) \<Rightarrow> Inr v
      | (ec, _) \<Rightarrow> Inl ec)"

subsection \<open>Notes\<close>

record note_t =
  note_id :: u64
  title :: string
  note_body :: string

text \<open>A \<^verbatim>\<open>std::map\<close> is the list of its elements in the order of the keys.\<close>

record notes_db =
  db_notes :: "(u64 \<times> note_t) list"
  next_id :: u64

definition notes_db_new :: notes_db where
  "notes_db_new = \<lparr>db_notes = [], next_id = 1\<rparr>"

fun map_emplace :: "'k::linorder \<Rightarrow> 'v \<Rightarrow> ('k \<times> 'v) list \<Rightarrow> ('k \<times> 'v) list" where
  "map_emplace k v [] = [(k, v)]"
| "map_emplace k v ((k', v') # m) =
     (if k < k' then (k, v) # (k', v') # m
      else if k = k' then (k', v') # m
      else (k', v') # map_emplace k v m)"

fun map_erase :: "'k \<Rightarrow> ('k \<times> 'v) list \<Rightarrow> ('k \<times> 'v) list" where
  "map_erase k [] = []"
| "map_erase k ((k', v) # m) = (if k = k' then m else (k', v) # map_erase k m)"

text \<open>A change of the element with a key through a pointer to it.\<close>

fun map_modify :: "'k \<Rightarrow> ('v \<Rightarrow> 'v) \<Rightarrow> ('k \<times> 'v) list \<Rightarrow> ('k \<times> 'v) list" where
  "map_modify k f [] = []"
| "map_modify k f ((k', v) # m) = (if k = k' then (k', f v) # m else (k', v) # map_modify k f m)"

text \<open>\<^verbatim>\<open>create\<close> returns the note that the map has under the id.\<close>

definition create :: "string \<Rightarrow> string \<Rightarrow> notes_db \<Rightarrow> note_t \<times> notes_db" where
  "create t b db =
     (let i = next_id db;
          m = map_emplace i \<lparr>note_id = i, title = t, note_body = b\<rparr> (db_notes db)
      in (the (map_of m i), db\<lparr>db_notes := m, next_id := i + 1\<rparr>))"

definition find_note :: "u64 \<Rightarrow> notes_db \<Rightarrow> note_t option" where
  "find_note i db = map_of (db_notes db) i"

definition erase_note :: "u64 \<Rightarrow> notes_db \<Rightarrow> bool \<times> notes_db" where
  "erase_note i db = (map_of (db_notes db) i \<noteq> None, db\<lparr>db_notes := map_erase i (db_notes db)\<rparr>)"

definition all_notes :: "notes_db \<Rightarrow> note_t list" where
  "all_notes db = map snd (db_notes db)"

definition modify_note :: "u64 \<Rightarrow> (note_t \<Rightarrow> note_t) \<Rightarrow> notes_db \<Rightarrow> notes_db" where
  "modify_note i f db = db\<lparr>db_notes := map_modify i f (db_notes db)\<rparr>"

text \<open>\<^verbatim>\<open>parse_note_id\<close>: the id, if it returns true.\<close>

definition note_prefix :: string where
  "note_prefix = ''/notes/''"

definition parse_note_id :: "string \<Rightarrow> u64 option" where
  "parse_note_id path =
     (if take (length note_prefix) path \<noteq> note_prefix then None
      else let rest = drop (length note_prefix) path
           in if rest = [] then None
              else case from_chars rest of
                     (end_pos, ec, v) \<Rightarrow> if ec = Errc_none \<and> end_pos = length rest then v else None)"

subsection \<open>JSON\<close>

text \<open>
  The operations of nlohmann::json in the two programs, for a type \<open>'j\<close> of JSON values.
  \<open>j_parse\<close> returns the text of its exception or a value. \<open>j_dump\<close> has the indentation, and is
  \<open>None\<close> when it throws because a string in the value is not valid UTF-8. \<open>j_find\<close> is \<open>None\<close>
  for a missing key and for a value that is not an object. \<open>j_object\<close> is an initializer list,
  and \<open>j_update j j'\<close> what \<^verbatim>\<open>j.update(j')\<close> makes of \<open>j\<close>.
\<close>

record 'j json_api =
  j_parse :: "string \<Rightarrow> string + 'j"
  j_dump :: "int \<Rightarrow> 'j \<Rightarrow> string option"
  j_is_object :: "'j \<Rightarrow> bool"
  j_is_string :: "'j \<Rightarrow> bool"
  j_is_uint :: "'j \<Rightarrow> bool"
  j_is_array :: "'j \<Rightarrow> bool"
  j_get_string :: "'j \<Rightarrow> string"
  j_get_uint :: "'j \<Rightarrow> u64"
  j_size :: "'j \<Rightarrow> nat"
  j_find :: "string \<Rightarrow> 'j \<Rightarrow> 'j option"
  j_null :: 'j
  j_string :: "string \<Rightarrow> 'j"
  j_uint :: "u64 \<Rightarrow> 'j"
  j_array :: "'j list \<Rightarrow> 'j"
  j_object :: "(string \<times> 'j) list \<Rightarrow> 'j"
  j_update :: "'j \<Rightarrow> 'j \<Rightarrow> 'j"

definition j_contains :: "'j json_api \<Rightarrow> string \<Rightarrow> 'j \<Rightarrow> bool" where
  "j_contains js k j \<longleftrightarrow> j_find js k j \<noteq> None"

definition j_at :: "'j json_api \<Rightarrow> string \<Rightarrow> 'j \<Rightarrow> 'j" where
  "j_at js k j = the (j_find js k j)"

definition note_json :: "'j json_api \<Rightarrow> note_t \<Rightarrow> 'j" where
  "note_json js n = j_object js
     [(''id'', j_uint js (note_id n)), (''title'', j_string js (title n)), (''body'', j_string js (note_body n))]"

text \<open>The walk of \<^verbatim>\<open>/stats\<close> over the notes, the newest first: the bytes of text and the recent ids.\<close>

definition stats_step :: "'j json_api \<Rightarrow> u64 \<times> 'j list \<Rightarrow> note_t \<Rightarrow> u64 \<times> 'j list" where
  "stats_step js = (\<lambda>(total, recent) n.
     (total + of_nat (length (title n) + length (note_body n)),
      if length recent < 5 then recent @ [j_uint js (note_id n)] else recent))"

definition stats_json :: "'j json_api \<Rightarrow> string \<Rightarrow> notes_db \<Rightarrow> 'j" where
  "stats_json js nm db =
     (let (total, recent) = foldl (stats_step js) (0, []) (rev (all_notes db))
      in j_object js
           [(''count'', j_uint js (of_nat (length (db_notes db)))),
            (''total_text_bytes'', j_uint js total),
            (''recent_ids'', j_array js recent),
            (''server'', j_object js [(''name'', j_string js nm), (''version'', j_string js ''0.1'')])])"

end
