(* ===== verification/UdpJsond.thy ===== *)
theory UdpJsond
  imports Notes IoLoops "HOL-Library.Monad_Syntax"
begin

text \<open>
  The note server over UDP (\<^verbatim>\<open>examples/udp-jsond.cc\<close>) and the RPCs of its client
  (\<^verbatim>\<open>examples/udp-jsond-client.cc\<close>). A request and a response is a JSON value in one datagram.
\<close>

subsection \<open>Responses\<close>

definition udp_make_response :: "'j json_api \<Rightarrow> u32 \<Rightarrow> 'j \<Rightarrow> 'j" where
  "udp_make_response js status payload = j_update js (j_object js [(''status'', j_uint js (ucast status))]) payload"

definition udp_error_response :: "'j json_api \<Rightarrow> u32 \<Rightarrow> string \<Rightarrow> 'j" where
  "udp_error_response js status msg = j_object js [(''status'', j_uint js (ucast status)), (''error'', j_string js msg)]"

subsection \<open>Handlers\<close>

definition udp_post_fields :: string where
  \<open>udp_post_fields = ''expected "title" and "body" string fields''\<close>

definition udp_post :: "'j json_api \<Rightarrow> 'j \<Rightarrow> notes_db \<Rightarrow> 'j \<times> notes_db" where
  "udp_post js req db =
     (if \<not> j_contains js ''title'' req \<or> \<not> j_is_string js (j_at js ''title'' req)
         \<or> \<not> j_contains js ''body'' req \<or> \<not> j_is_string js (j_at js ''body'' req)
      then (udp_error_response js 400 udp_post_fields, db)
      else let (n, db) = create (j_get_string js (j_at js ''title'' req)) (j_get_string js (j_at js ''body'' req)) db
           in (udp_make_response js 201 (note_json js n), db))"

definition udp_put_body :: "'j json_api \<Rightarrow> 'j \<Rightarrow> u64 \<Rightarrow> notes_db \<Rightarrow> 'j \<times> notes_db" where
  "udp_put_body js req i db =
     (case j_find js ''body'' req of
        Some v \<Rightarrow>
          if \<not> j_is_string js v then (udp_error_response js 400 ''body must be a string'', db)
          else let db = modify_note i (note_body_update (\<lambda>_. j_get_string js v)) db
               in (udp_make_response js 200 (note_json js (the (find_note i db))), db)
      | None \<Rightarrow> (udp_make_response js 200 (note_json js (the (find_note i db))), db))"

definition udp_put :: "'j json_api \<Rightarrow> 'j \<Rightarrow> u64 \<Rightarrow> notes_db \<Rightarrow> 'j \<times> notes_db" where
  "udp_put js req i db =
     (case find_note i db of
        None \<Rightarrow> (udp_error_response js 404 ''no such note'', db)
      | Some n \<Rightarrow>
          (case j_find js ''title'' req of
             Some v \<Rightarrow>
               if \<not> j_is_string js v then (udp_error_response js 400 ''title must be a string'', db)
               else udp_put_body js req i (modify_note i (title_update (\<lambda>_. j_get_string js v)) db)
           | None \<Rightarrow> udp_put_body js req i db))"

definition udp_handle :: "'j json_api \<Rightarrow> string \<Rightarrow> string \<Rightarrow> 'j \<Rightarrow> notes_db \<Rightarrow> 'j \<times> notes_db" where
  "udp_handle js m p req db =
     (if p = ''/notes''
      then (if m = ''GET''
            then (udp_make_response js 200 (j_object js [(''notes'', j_array js (map (note_json js) (all_notes db)))]), db)
            else if m = ''POST'' then udp_post js req db
            else (udp_error_response js 405 ''method not allowed on /notes'', db))
      else case parse_note_id p of
             Some i \<Rightarrow>
               (if m = ''GET''
                then (case find_note i db of
                        None \<Rightarrow> (udp_error_response js 404 ''no such note'', db)
                      | Some n \<Rightarrow> (udp_make_response js 200 (note_json js n), db))
                else if m = ''PUT'' then udp_put js req i db
                else if m = ''DELETE''
                then (let (erased, db) = erase_note i db
                      in (if \<not> erased then udp_error_response js 404 ''no such note''
                          else udp_make_response js 200 (j_object js [(''deleted'', j_uint js i)]), db))
                else (udp_error_response js 405 ''method not allowed on /notes/<id>'', db))
           | None \<Rightarrow>
               if p = ''/stats'' \<and> m = ''GET'' then (udp_make_response js 200 (stats_json js ''udp-jsond'' db), db)
               else (udp_error_response js 404 ''no such route'', db))"

subsection \<open>Datagrams\<close>

definition udp_expected :: string where
  \<open>udp_expected = ''expected {"method": string, "path": string, ...}''\<close>

definition process_datagram :: "'j json_api \<Rightarrow> string \<Rightarrow> notes_db \<Rightarrow> 'j \<times> notes_db" where
  "process_datagram js payload db =
     (case j_parse js payload of
        Inl what \<Rightarrow> (udp_error_response js 400 (''invalid JSON: '' @ what), db)
      | Inr req \<Rightarrow>
          if \<not> j_is_object js req
             \<or> \<not> j_contains js ''path'' req
             \<or> \<not> j_is_string js (j_at js ''path'' req)
             \<or> (j_contains js ''method'' req \<and> \<not> j_is_string js (j_at js ''method'' req))
          then (udp_error_response js 400 udp_expected, db)
          else udp_handle js
                 (case j_find js ''method'' req of Some v \<Rightarrow> j_get_string js v | None \<Rightarrow> ''GET'')
                 (j_get_string js (j_at js ''path'' req)) req db)"

text \<open>
  The loop of \<^verbatim>\<open>serve\<close> on the results of its calls of \<^verbatim>\<open>recvfrom\<close>: an error, or a datagram and
  its sender. What it hands to \<^verbatim>\<open>sendto\<close> is collected; the result of \<^verbatim>\<open>sendto\<close> is only printed. The
  flag tells whether the coroutine still runs: an exception of \<^verbatim>\<open>dump\<close> ends it.
\<close>

record 'a udp_server =
  us_db :: notes_db
  us_sent :: "('a \<times> string) list"
  us_running :: bool

definition udp_server_new :: "notes_db \<Rightarrow> 'a udp_server" where
  "udp_server_new db = \<lparr>us_db = db, us_sent = [], us_running = True\<rparr>"

definition serve_turn :: "'j json_api \<Rightarrow> errno + string \<times> 'a \<Rightarrow> 'a udp_server \<Rightarrow> 'a udp_server" where
  "serve_turn js r st =
     (case r of
        Inl e \<Rightarrow> st
      | Inr (payload, src) \<Rightarrow>
          let (resp, db) = process_datagram js payload (us_db st)
          in (case j_dump js (-1) resp of
                None \<Rightarrow> st\<lparr>us_db := db, us_running := False\<rparr>
              | Some out \<Rightarrow> st\<lparr>us_db := db, us_sent := us_sent st @ [(src, out)]\<rparr>))"

fun serve :: "'j json_api \<Rightarrow> (errno + string \<times> 'a) list \<Rightarrow> 'a udp_server \<Rightarrow> 'a udp_server" where
  "serve js [] st = st"
| "serve js (r # rs) st = (if us_running st then serve js rs (serve_turn js r st) else st)"

subsection \<open>The client\<close>

text \<open>
  \<^verbatim>\<open>rpc\<close>, with the server on the other side and no datagram lost: the status and the value of the
  response, or \<open>None\<close> for an exception.
\<close>

definition rpc_request :: "'j json_api \<Rightarrow> string \<Rightarrow> string \<Rightarrow> 'j \<Rightarrow> 'j" where
  "rpc_request js m p b =
     (let req = j_object js [(''method'', j_string js m), (''path'', j_string js p)]
      in if j_is_object js b then j_update js req b else req)"

definition rpc_status :: "'j json_api \<Rightarrow> 'j \<Rightarrow> u32" where
  "rpc_status js resp = (case j_find js ''status'' resp of Some v \<Rightarrow> ucast (j_get_uint js v) | None \<Rightarrow> 0)"

definition rpc :: "'j json_api \<Rightarrow> string \<Rightarrow> string \<Rightarrow> 'j \<Rightarrow> notes_db \<Rightarrow> (u32 \<times> 'j) option \<times> notes_db" where
  "rpc js m p b db =
     (case j_dump js (-1) (rpc_request js m p b) of
        None \<Rightarrow> (None, db)
      | Some out \<Rightarrow>
          let (resp, db) = process_datagram js out db
          in (case j_dump js (-1) resp of
                None \<Rightarrow> None
              | Some bytes \<Rightarrow>
                  (case j_parse js bytes of
                     Inl what \<Rightarrow> None
                   | Inr resp \<Rightarrow> Some (rpc_status js resp, resp)), db))"

text \<open>One example: an RPC and the assertions on its response. \<open>None\<close> if an assertion fails.\<close>

definition example :: "'j json_api \<Rightarrow> string \<Rightarrow> string \<Rightarrow> 'j \<Rightarrow> u32 \<Rightarrow> ('j \<Rightarrow> bool) \<Rightarrow> notes_db \<Rightarrow> ('j \<times> notes_db) option" where
  "example js m p b status check db =
     (case rpc js m p b db of
        (Some (st, resp), db) \<Rightarrow> if st = status \<and> check resp then Some (resp, db) else None
      | (None, db) \<Rightarrow> None)"

definition note_path :: "u64 \<Rightarrow> string" where
  "note_path i = ''/notes/'' @ to_string (unat i)"

definition has_field :: "'j json_api \<Rightarrow> string \<Rightarrow> 'j \<Rightarrow> 'j \<Rightarrow> bool" where
  "has_field js k v resp \<longleftrightarrow> j_find js k resp = Some v"

definition note_fields :: "'j json_api \<Rightarrow> string \<Rightarrow> string \<Rightarrow> 'j" where
  "note_fields js t b = j_object js [(''title'', j_string js t), (''body'', j_string js b)]"

definition normal_examples :: "'j json_api \<Rightarrow> notes_db \<Rightarrow> notes_db option" where
  "normal_examples js db = do {
     (r1, db) \<leftarrow> example js ''POST'' ''/notes'' (note_fields js ''hello'' ''world'') 201
       (\<lambda>r. has_field js ''title'' (j_string js ''hello'') r \<and> has_field js ''body'' (j_string js ''world'') r
          \<and> j_is_uint js (j_at js ''id'' r)) db;
     let id1 = j_get_uint js (j_at js ''id'' r1);
     (r2, db) \<leftarrow> example js ''POST'' ''/notes'' (note_fields js ''second'' ''note'') 201
       (\<lambda>r. j_get_uint js (j_at js ''id'' r) = id1 + 1) db;
     let id2 = j_get_uint js (j_at js ''id'' r2);
     (r3, db) \<leftarrow> example js ''GET'' ''/notes'' (j_null js) 200
       (\<lambda>r. j_is_array js (j_at js ''notes'' r) \<and> j_size js (j_at js ''notes'' r) \<ge> 2) db;
     (r4, db) \<leftarrow> example js ''GET'' (note_path id1) (j_null js) 200
       (has_field js ''title'' (j_string js ''hello'')) db;
     (r5, db) \<leftarrow> example js ''PUT'' (note_path id1) (j_object js [(''title'', j_string js ''renamed'')]) 200
       (\<lambda>r. has_field js ''title'' (j_string js ''renamed'') r \<and> has_field js ''body'' (j_string js ''world'') r) db;
     (r6, db) \<leftarrow> example js ''GET'' ''/stats'' (j_null js) 200
       (\<lambda>r. j_get_uint js (j_at js ''count'' r) \<ge> 2 \<and> has_field js ''name'' (j_string js ''udp-jsond'') (j_at js ''server'' r)) db;
     let count6 = j_get_uint js (j_at js ''count'' r6);
     (r7, db) \<leftarrow> example js ''DELETE'' (note_path id2) (j_null js) 200
       (has_field js ''deleted'' (j_uint js id2)) db;
     (r8, db) \<leftarrow> example js ''GET'' ''/stats'' (j_null js) 200
       (\<lambda>r. j_get_uint js (j_at js ''count'' r) = count6 - 1) db;
     Some db
   }"

definition error_examples :: "'j json_api \<Rightarrow> notes_db \<Rightarrow> notes_db option" where
  "error_examples js db = do {
     (r1, db) \<leftarrow> example js ''GET'' ''/notes/9999'' (j_null js) 404 (\<lambda>_. True) db;
     (r2, db) \<leftarrow> example js ''GET'' ''/unknown'' (j_null js) 404 (\<lambda>_. True) db;
     (r3, db) \<leftarrow> example js ''PATCH'' ''/notes'' (j_null js) 405 (\<lambda>_. True) db;
     (r4, db) \<leftarrow> example js ''POST'' ''/notes'' (j_object js [(''title'', j_string js ''x'')]) 400 (\<lambda>_. True) db;
     (r5, db) \<leftarrow> example js ''DELETE'' ''/notes/9999'' (j_null js) 404 (\<lambda>_. True) db;
     Some db
   }"

text \<open>\<^verbatim>\<open>main_task\<close>: both lists of examples.\<close>

definition client_examples :: "'j json_api \<Rightarrow> notes_db \<Rightarrow> notes_db option" where
  "client_examples js db = (case normal_examples js db of None \<Rightarrow> None | Some db \<Rightarrow> error_examples js db)"

end
