(* ===== verification/Jsond.thy ===== *)
theory Jsond
  imports Notes HttpParser
begin

text \<open>
  The note server over HTTP (\<^verbatim>\<open>examples/jsond.cc\<close>): its responses, the dispatch of a request, and
  the coroutine of a connection. A handler returns \<open>None\<close> for the response when printing the JSON
  value throws; what it did to the notes by then stays.
\<close>

subsection \<open>Responses\<close>

definition make_response :: "'j json_api \<Rightarrow> u32 \<Rightarrow> 'j \<Rightarrow> http_message option" where
  "make_response js status j =
     (case j_dump js 2 j of
        None \<Rightarrow> None
      | Some s \<Rightarrow> Some (set_body (s @ [CHR 0x0A])
                  (add_header ''Content-Type'' ''application/json'' (set_status_code status http_message_new))))"

definition error_response :: "'j json_api \<Rightarrow> u32 \<Rightarrow> string \<Rightarrow> http_message option" where
  "error_response js status msg =
     make_response js status (j_object js [(''error'', j_string js msg), (''status'', j_uint js (ucast status))])"

subsection \<open>Handlers\<close>

definition handle_list :: "'j json_api \<Rightarrow> notes_db \<Rightarrow> http_message option \<times> notes_db" where
  "handle_list js db =
     (make_response js 200 (j_object js [(''notes'', j_array js (map (note_json js) (all_notes db)))]), db)"

definition expected_fields :: string where
  \<open>expected_fields = ''expected {"title": string, "body": string}''\<close>

definition handle_post :: "'j json_api \<Rightarrow> string \<Rightarrow> notes_db \<Rightarrow> http_message option \<times> notes_db" where
  "handle_post js req_body db =
     (case j_parse js req_body of
        Inl what \<Rightarrow> (error_response js 400 (''invalid JSON: '' @ what), db)
      | Inr j \<Rightarrow>
          if \<not> j_is_object js j
             \<or> \<not> j_contains js ''title'' j \<or> \<not> j_is_string js (j_at js ''title'' j)
             \<or> \<not> j_contains js ''body'' j \<or> \<not> j_is_string js (j_at js ''body'' j)
          then (error_response js 400 expected_fields, db)
          else let (n, db) = create (j_get_string js (j_at js ''title'' j)) (j_get_string js (j_at js ''body'' j)) db
               in (make_response js 201 (note_json js n), db))"

definition handle_get :: "'j json_api \<Rightarrow> u64 \<Rightarrow> notes_db \<Rightarrow> http_message option \<times> notes_db" where
  "handle_get js i db =
     (case find_note i db of
        None \<Rightarrow> (error_response js 404 ''no such note'', db)
      | Some n \<Rightarrow> (make_response js 200 (note_json js n), db))"

text \<open>The two fields of a \<^verbatim>\<open>PUT\<close>, in the order of the source; the first is stored before the second is looked at.\<close>

definition put_body :: "'j json_api \<Rightarrow> 'j \<Rightarrow> u64 \<Rightarrow> notes_db \<Rightarrow> http_message option \<times> notes_db" where
  "put_body js j i db =
     (case j_find js ''body'' j of
        Some v \<Rightarrow>
          if \<not> j_is_string js v then (error_response js 400 ''body must be a string'', db)
          else let db = modify_note i (note_body_update (\<lambda>_. j_get_string js v)) db
               in (make_response js 200 (note_json js (the (find_note i db))), db)
      | None \<Rightarrow> (make_response js 200 (note_json js (the (find_note i db))), db))"

definition put_title :: "'j json_api \<Rightarrow> 'j \<Rightarrow> u64 \<Rightarrow> notes_db \<Rightarrow> http_message option \<times> notes_db" where
  "put_title js j i db =
     (case j_find js ''title'' j of
        Some v \<Rightarrow>
          if \<not> j_is_string js v then (error_response js 400 ''title must be a string'', db)
          else put_body js j i (modify_note i (title_update (\<lambda>_. j_get_string js v)) db)
      | None \<Rightarrow> put_body js j i db)"

definition handle_put :: "'j json_api \<Rightarrow> u64 \<Rightarrow> string \<Rightarrow> notes_db \<Rightarrow> http_message option \<times> notes_db" where
  "handle_put js i req_body db =
     (case find_note i db of
        None \<Rightarrow> (error_response js 404 ''no such note'', db)
      | Some n \<Rightarrow>
          (case j_parse js req_body of
             Inl what \<Rightarrow> (error_response js 400 (''invalid JSON: '' @ what), db)
           | Inr j \<Rightarrow> put_title js j i db))"

definition handle_delete :: "'j json_api \<Rightarrow> u64 \<Rightarrow> notes_db \<Rightarrow> http_message option \<times> notes_db" where
  "handle_delete js i db =
     (let (erased, db) = erase_note i db
      in (if \<not> erased then error_response js 404 ''no such note''
          else make_response js 200 (j_object js [(''deleted'', j_uint js i)]), db))"

definition handle :: "'j json_api \<Rightarrow> http_message \<Rightarrow> notes_db \<Rightarrow> http_message option \<times> notes_db" where
  "handle js req db =
     (let m = req_method req; p = fst (path req)
      in if p = ''/notes''
         then (if m = HTTP_GET then handle_list js db
               else if m = HTTP_POST then handle_post js (body req) db
               else (error_response js 405 ''method not allowed on /notes'', db))
         else case parse_note_id p of
                Some i \<Rightarrow>
                  (if m = HTTP_GET then handle_get js i db
                   else if m = HTTP_PUT then handle_put js i (body req) db
                   else if m = HTTP_DELETE then handle_delete js i db
                   else (error_response js 405 ''method not allowed on /notes/<id>'', db))
              | None \<Rightarrow>
                  if p = ''/stats'' \<and> m = HTTP_GET then (make_response js 200 (stats_json js ''jsond'' db), db)
                  else (error_response js 404 ''no such route'', db))"

subsection \<open>A connection\<close>

text \<open>What the functions of llhttp and the receiving socket are for \<^verbatim>\<open>handle_connection\<close>.\<close>

record ('h, 'j) server_env =
  env_llhttp :: "'h llhttp_api"
  env_keep_alive :: "'h llhttp \<Rightarrow> bool"
  env_method_name :: "llhttp_method \<Rightarrow> string"
  env_status_name :: "u32 \<Rightarrow> string"
  env_json :: "'j json_api"

text \<open>
  One iteration: the connection ends, or goes on with the next request, or the handler has thrown.
  The tasks that send responses take the lock for writing in the order in which they start, so the
  bytes go out in that order. \<open>None\<close>: the coroutine waits for more bytes.
\<close>

datatype 'a turn = Goes_on 'a | Ends 'a | Throws 'a

definition connection_turn ::
  "('h, 'j) server_env \<Rightarrow> rx list \<times> 'h http_parser \<times> notes_db \<Rightarrow> (rx list \<times> 'h http_parser \<times> notes_db) turn option" where
  "connection_turn env = (\<lambda>(rxs, p, db).
     case receive (env_llhttp env) rxs p of
       None \<Rightarrow> None
     | Some (req, rxs, p) \<Rightarrow>
         Some (if \<not> parser_ok p then Ends (rxs, p, db)
               else case handle (env_json env) req db of
                      (None, db) \<Rightarrow> Throws (rxs, p, db)
                    | (Some res, db) \<Rightarrow>
                        let p = send (env_method_name env) (env_keep_alive env) (env_status_name env) res p
                        in if \<not> env_keep_alive env (p_hp p) then Ends (rxs, p, db) else Goes_on (rxs, p, db)))"

partial_function (option) handle_connection ::
  "('h, 'j) server_env \<Rightarrow> rx list \<times> 'h http_parser \<times> notes_db \<Rightarrow> (rx list \<times> 'h http_parser \<times> notes_db) option" where
  "handle_connection env s =
     (case connection_turn env s of
        None \<Rightarrow> None
      | Some (Goes_on s) \<Rightarrow> handle_connection env s
      | Some (Ends s) \<Rightarrow> Some s
      | Some (Throws s) \<Rightarrow> Some s)"

declare handle_connection.simps [code]

end
