(* ===== verification/NotesInv.thy ===== *)
theory NotesInv
  imports Notes
begin

text \<open>
  Numbers in requests are read back exactly; the database of notes is the log of all notes that
  were ever created, in which a deleted note leaves a gap and no id is used twice.
\<close>

subsection \<open>Decimal numbers\<close>

lemma digit_char:
  assumes "d < (10 :: nat)"
  shows "is_digit (char_of (48 + d))" "digit_value (char_of (48 + d)) = d"
proof -
  have "list_all (\<lambda>d :: nat. is_digit (char_of (48 + d)) \<and> digit_value (char_of (48 + d)) = d) [0..<10]" by code_simp
  then show "is_digit (char_of (48 + d))" "digit_value (char_of (48 + d)) = d"
    using assms by (simp_all add: list_all_iff)
qed

lemma digit_of_char:
  assumes "is_digit c"
  shows "digit_value c < 10" "char_of (48 + digit_value c) = c"
proof -
  have "of_char c \<ge> (48 :: nat)" "of_char c \<le> (57 :: nat)"
    using assms by (simp_all add: is_digit_def less_eq_char_def)
  then have "digit_value c < 10" "48 + digit_value c = of_char c" by (simp_all add: digit_value_def)
  then show "digit_value c < 10" "char_of (48 + digit_value c) = c" by simp_all
qed

lemma digits_value_snoc [simp]: "digits_value (s @ [c]) = digits_value s * 10 + digit_value c"
  by (simp add: digits_value_def)

lemma digits_value_Nil [simp]: "digits_value [] = 0"
  by (simp add: digits_value_def)

lemma to_string_facts:
  "to_string n \<noteq> []" "\<forall>c \<in> set (to_string n). is_digit c" "digits_value (to_string n) = n"
proof -
  have "to_string n \<noteq> [] \<and> (\<forall>c \<in> set (to_string n). is_digit c) \<and> digits_value (to_string n) = n"
  proof (induction n rule: to_string.induct)
    case (1 n)
    show ?case
    proof (cases "n < 10")
      case True
      then show ?thesis
        using digit_char [of n] digits_value_snoc [of "[]" "char_of (48 + n)"] by (subst (1 2 3) to_string.simps) simp
    next
      case False
      then show ?thesis using 1 digit_char [of "n mod 10"] by (subst (1 2 3) to_string.simps) simp
    qed
  qed
  then show "to_string n \<noteq> []" "\<forall>c \<in> set (to_string n). is_digit c" "digits_value (to_string n) = n" by simp_all
qed

lemma to_string_small: "d < 10 \<Longrightarrow> to_string d = [char_of (48 + d)]"
  by (subst to_string.simps) simp

lemma to_string_step: "0 < v \<Longrightarrow> d < 10 \<Longrightarrow> to_string (v * 10 + d) = to_string v @ [char_of (48 + d)]"
  by (subst to_string.simps) simp

text \<open>A string of digits is the canonical form of its value after some zeros.\<close>

lemma digits_canonical:
  assumes "s \<noteq> []" "\<forall>c \<in> set s. is_digit c"
  shows "\<exists>k. s = replicate k CHR ''0'' @ to_string (digits_value s)"
  using assms
proof (induction s rule: rev_induct)
  case (snoc c s)
  have c: "digit_value c < 10" "char_of (48 + digit_value c) = c" using snoc(3) digit_of_char by simp_all
  show ?case
  proof (cases "s = []")
    case True
    then show ?thesis using c digits_value_snoc [of "[]" c] to_string_small [OF c(1)] by (intro exI [of _ 0]) simp
  next
    case False
    then obtain k where k: "s = replicate k CHR ''0'' @ to_string (digits_value s)" using snoc by auto
    show ?thesis
    proof (cases "digits_value s = 0")
      case True
      have "to_string 0 = ''0''" by code_simp
      then have "s = replicate (Suc k) CHR ''0''" using k True by (simp add: replicate_append_same)
      moreover have "digits_value (s @ [c]) = digit_value c" using True by simp
      ultimately show ?thesis using c to_string_small [OF c(1)] by (intro exI [of _ "Suc k"]) (simp only:)
    next
      case False
      then show ?thesis using k c to_string_step [of "digits_value s" "digit_value c"]
        by (intro exI [of _ k]) (metis append_assoc digits_value_snoc not_gr_zero)
    qed
  qed
qed simp

lemma digits_value_zeros: "digits_value (replicate k CHR ''0'' @ s) = digits_value s"
proof (induction k)
  case (Suc k)
  have "digit_value CHR ''0'' = 0" by code_simp
  with Suc show ?case by (simp add: digits_value_def)
qed simp

text \<open>When a whole string is read without an error.\<close>

lemma from_chars_all:
  "from_chars s = (length s, Errc_none, v) \<longleftrightarrow>
     s \<noteq> [] \<and> (\<forall>c \<in> set s. is_digit c) \<and> digits_value s < 2 ^ LENGTH('w) \<and> v = Some (of_nat (digits_value s) :: 'w::len word)"
proof -
  have "length (takeWhile is_digit s) = length s \<longleftrightarrow> (\<forall>c \<in> set s. is_digit c)"
    by (metis takeWhile_eq_all_conv takeWhile_eq_take take_all_iff le_refl length_takeWhile_le)
  then show ?thesis
    by (cases "\<forall>c \<in> set s. is_digit c") (auto simp: from_chars_def Let_def simp flip: takeWhile_eq_all_conv)
qed

lemma from_str_chars_value_iff:
  "from_str_chars_value s = Inr (w :: 'w::len word) \<longleftrightarrow> (\<exists>k. s = replicate k CHR ''0'' @ to_string (unat w))"
proof
  assume "from_str_chars_value s = Inr w"
  then have "from_chars s = (length s, Errc_none, Some w)"
    by (auto simp: from_str_chars_value_def from_str_chars_def split: prod.splits errc.splits option.splits if_splits)
  then have s: "s \<noteq> []" "\<forall>c \<in> set s. is_digit c" "digits_value s < 2 ^ LENGTH('w)" "w = of_nat (digits_value s)"
    by (auto simp: from_chars_all)
  have "unat w = digits_value s" unfolding s(4) using s(3) by (subst unat_of_nat) simp
  with digits_canonical [OF s(1,2)] show "\<exists>k. s = replicate k CHR ''0'' @ to_string (unat w)" by simp
next
  assume "\<exists>k. s = replicate k CHR ''0'' @ to_string (unat w)"
  then obtain k where k: "s = replicate k CHR ''0'' @ to_string (unat w)" ..
  have "digits_value s = unat w" by (simp add: k digits_value_zeros to_string_facts)
  moreover have "is_digit CHR ''0''" by code_simp
  then have "s \<noteq> [] \<and> (\<forall>c \<in> set s. is_digit c)" using to_string_facts [of "unat w"] by (auto simp: k)
  ultimately have "from_chars s = (length s, Errc_none, Some w)"
    using unsigned_less [of w] by (subst from_chars_all) (simp add: unsigned_less)
  then show "from_str_chars_value s = Inr w" by (simp add: from_str_chars_value_def from_str_chars_def)
qed

text \<open>A path names a note exactly if it is the prefix and the id in decimal, perhaps after zeros.\<close>

lemma parse_note_id_iff:
  "parse_note_id p = Some i \<longleftrightarrow> (\<exists>k. p = ''/notes/'' @ replicate k CHR ''0'' @ to_string (unat i))"
proof -
  have digits: "(from_chars s = (length s, Errc_none, Some i)) \<longleftrightarrow> (\<exists>k. s = replicate k CHR ''0'' @ to_string (unat i))" for s
  proof
    assume "from_chars s = (length s, Errc_none, Some i)"
    then have "from_str_chars_value s = Inr i" by (simp add: from_str_chars_value_def from_str_chars_def)
    then show "\<exists>k. s = replicate k CHR ''0'' @ to_string (unat i)" by (simp add: from_str_chars_value_iff)
  next
    assume "\<exists>k. s = replicate k CHR ''0'' @ to_string (unat i)"
    then have "from_str_chars_value s = Inr i" by (simp add: from_str_chars_value_iff)
    then show "from_chars s = (length s, Errc_none, Some i)"
      by (auto simp: from_str_chars_value_def from_str_chars_def split: prod.splits errc.splits option.splits if_splits)
  qed
  have "parse_note_id p = Some i \<longleftrightarrow> take 7 p = note_prefix \<and> drop 7 p \<noteq> []
      \<and> from_chars (drop 7 p) = (length (drop 7 p), Errc_none, Some i)"
  proof -
    have "length note_prefix = 7" by (simp add: note_prefix_def)
    then show ?thesis
      unfolding parse_note_id_def by (simp only: Let_def) (auto split: prod.splits if_splits)
  qed
  also have "\<dots> \<longleftrightarrow> take 7 p = note_prefix \<and> (\<exists>k. drop 7 p = replicate k CHR ''0'' @ to_string (unat i))"
    using digits [of "drop 7 p"] to_string_facts(1) [of "unat i"] by auto
  also have "\<dots> \<longleftrightarrow> (\<exists>k. p = note_prefix @ replicate k CHR ''0'' @ to_string (unat i))"
  proof
    assume "take 7 p = note_prefix \<and> (\<exists>k. drop 7 p = replicate k CHR ''0'' @ to_string (unat i))"
    then show "\<exists>k. p = note_prefix @ replicate k CHR ''0'' @ to_string (unat i)" by (metis append_take_drop_id)
  next
    assume "\<exists>k. p = note_prefix @ replicate k CHR ''0'' @ to_string (unat i)"
    then show "take 7 p = note_prefix \<and> (\<exists>k. drop 7 p = replicate k CHR ''0'' @ to_string (unat i))"
      by (auto simp: note_prefix_def)
  qed
  finally show ?thesis by (simp add: note_prefix_def)
qed

lemma parse_note_path: "parse_note_id (''/notes/'' @ to_string (unat i)) = Some i"
  using parse_note_id_iff [of "''/notes/'' @ to_string (unat i)" i] by (auto intro: exI [of _ 0])

lemma parse_other_path [simp]: "parse_note_id ''/notes'' = None"
  by (simp add: parse_note_id_def note_prefix_def)

subsection \<open>The log of notes\<close>

text \<open>Note number \<open>k\<close> of the log, counted from one, has the id \<open>k\<close>; a gap is a deleted note.\<close>

type_synonym note_log = "(string \<times> string) option list"

definition mk_note :: "nat \<Rightarrow> string \<times> string \<Rightarrow> note_t" where
  "mk_note n x = \<lparr>note_id = of_nat n, title = fst x, note_body = snd x\<rparr>"

fun log_notes :: "nat \<Rightarrow> note_log \<Rightarrow> (u64 \<times> note_t) list" where
  "log_notes n [] = []"
| "log_notes n (None # l) = log_notes (Suc n) l"
| "log_notes n (Some x # l) = (of_nat n, mk_note n x) # log_notes (Suc n) l"

definition log_db :: "note_log \<Rightarrow> notes_db" where
  "log_db l = \<lparr>db_notes = log_notes 1 l, next_id = of_nat (length l + 1)\<rparr>"

definition log_lookup :: "nat \<Rightarrow> note_log \<Rightarrow> (string \<times> string) option" where
  "log_lookup k l = (if 0 < k \<and> k \<le> length l then l ! (k - 1) else None)"

definition log_update :: "nat \<Rightarrow> ((string \<times> string) option \<Rightarrow> (string \<times> string) option) \<Rightarrow> note_log \<Rightarrow> note_log" where
  "log_update k f l = (if 0 < k \<and> k \<le> length l then l[k - 1 := f (l ! (k - 1))] else l)"

lemma length_log_update [simp]: "length (log_update k f l) = length l"
  by (simp add: log_update_def)

lemma log_db_new: "log_db [] = notes_db_new"
  by (simp add: log_db_def notes_db_new_def)

lemma of_nat_less_u64: "m < n \<Longrightarrow> n < 2 ^ 64 \<Longrightarrow> (of_nat m :: u64) < of_nat n"
  by (simp add: word_less_nat_alt unat_of_nat)

lemma of_nat_eq_u64: "m < 2 ^ 64 \<Longrightarrow> (of_nat m = (i :: u64)) \<longleftrightarrow> m = unat i"
  by (auto simp: unat_of_nat)

lemma log_notes_append: "log_notes n (l @ l') = log_notes n l @ log_notes (n + length l) l'"
  by (induction n l rule: log_notes.induct) simp_all

lemma emplace_last: "\<forall>(k', v') \<in> set m. k' < k \<Longrightarrow> map_emplace k v m = m @ [(k, v)]"
  by (induction m) (auto simp: not_less_iff_gr_or_eq)

lemma log_notes_keys:
  assumes "n + length l \<le> 2 ^ 64"
  shows "\<forall>(k, v) \<in> set (log_notes n l). n \<le> unat k \<and> unat k < n + length l"
  using assms by (induction n l rule: log_notes.induct) (auto simp: unat_of_nat)

text \<open>The key \<open>i\<close> is the first one, or it lies behind.\<close>

lemma key_cases:
  assumes "n + length (y # l) \<le> 2 ^ 64" "n \<le> unat (i :: u64)"
  shows "unat i = n \<and> of_nat n = i \<or> (\<exists>d. unat i = n + Suc d) \<and> of_nat n \<noteq> i"
  using assms of_nat_eq_u64 [of n i] less_imp_Suc_add [of n "unat i"] by (auto simp: le_less)

lemma map_of_log_notes:
  assumes "n + length l \<le> 2 ^ 64"
  shows "map_of (log_notes n l) i =
    (if n \<le> unat i \<and> unat i < n + length l then map_option (mk_note (unat i)) (l ! (unat i - n)) else None)"
  using assms
proof (induction n l rule: log_notes.induct)
  case (2 n l)
  show ?case
  proof (cases "n \<le> unat i")
    case True
    from key_cases [OF 2(2) True] 2 show ?thesis by auto
  qed (use 2 in simp)
next
  case (3 n x l)
  show ?case
  proof (cases "n \<le> unat i")
    case True
    from key_cases [OF 3(2) True] 3 show ?thesis by auto
  next
    case False
    then have "i \<noteq> of_nat n" using of_nat_eq_u64 [of n i] 3(2) by auto
    with False 3 show ?thesis by simp
  qed
qed auto

lemma map_erase_absent: "map_of m i = None \<Longrightarrow> map_erase i m = m"
  by (induction m) (auto split: if_splits)

lemma map_modify_absent: "map_of m i = None \<Longrightarrow> map_modify i f m = m"
  by (induction m) (auto split: if_splits)

lemma log_notes_before: "n + length l \<le> 2 ^ 64 \<Longrightarrow> unat i < n \<Longrightarrow> map_of (log_notes n l) i = None"
  by (simp add: map_of_log_notes)

lemma erase_log_notes:
  assumes "n + length l \<le> 2 ^ 64" "n \<le> unat i"
  shows "map_erase i (log_notes n l) = log_notes n (l[unat i - n := None])"
  using assms
proof (induction n l rule: log_notes.induct)
  case (2 n l)
  from key_cases [OF 2(2,3)] 2 log_notes_before [of "Suc n" l i] show ?case by (auto simp: map_erase_absent)
next
  case (3 n x l)
  from key_cases [OF 3(2,3)] 3 show ?case by auto
qed simp

lemma modify_log_notes:
  assumes "n + length l \<le> 2 ^ 64" "n \<le> unat i" "\<forall>x. f (mk_note (unat i) x) = mk_note (unat i) (g x)"
  shows "map_modify i f (log_notes n l) = log_notes n (l[unat i - n := map_option g (l ! (unat i - n))])"
  using assms
proof (induction n l rule: log_notes.induct)
  case (2 n l)
  from key_cases [OF 2(2,3)] 2 log_notes_before [of "Suc n" l i] show ?case by (auto simp: map_modify_absent)
next
  case (3 n x l)
  from key_cases [OF 3(2,3)] 3 show ?case by (cases x) auto
qed simp

subsection \<open>The operations on the log\<close>

definition log_room :: "note_log \<Rightarrow> bool" where
  "log_room l \<longleftrightarrow> length l + 1 < 2 ^ 64"

lemma find_log:
  assumes "log_room l"
  shows "find_note i (log_db l) = map_option (mk_note (unat i)) (log_lookup (unat i) l)"
  using assms map_of_log_notes [of 1 l i]
  by (auto simp: find_note_def log_db_def log_lookup_def log_room_def)

lemma create_log:
  assumes "log_room l"
  shows "create t b (log_db l) = (mk_note (length l + 1) (t, b), log_db (l @ [Some (t, b)]))"
proof -
  let ?k = "of_nat (length l + 1) :: u64"
  have keys: "\<forall>(k, v) \<in> set (log_notes 1 l). k < ?k"
  proof -
    have "unat ?k = length l + 1" using assms unfolding log_room_def by (subst unat_of_nat) simp
    then show ?thesis using log_notes_keys [of 1 l] assms by (auto simp: word_less_nat_alt log_room_def simp del: of_nat_add)
  qed
  have new: "map_emplace ?k (mk_note (length l + 1) (t, b)) (log_notes 1 l) = log_notes 1 (l @ [Some (t, b)])"
    using emplace_last [OF keys, of "mk_note (length l + 1) (t, b)"] by (simp add: log_notes_append)
  have "log_notes 1 (l @ [Some (t, b)]) = log_notes 1 l @ [(?k, mk_note (length l + 1) (t, b))]"
    by (simp add: log_notes_append)
  moreover have "map_of (log_notes 1 l) ?k = None" using keys by (fastforce simp: map_of_eq_None_iff)
  ultimately have "map_of (log_notes 1 (l @ [Some (t, b)])) ?k = Some (mk_note (length l + 1) (t, b))"
    by (simp only: map_of_append map_add_def) simp
  then show ?thesis using new by (simp add: create_def log_db_def Let_def mk_note_def)
qed

lemma erase_log:
  assumes "log_room l"
  shows "erase_note i (log_db l) = (log_lookup (unat i) l \<noteq> None, log_db (log_update (unat i) (\<lambda>_. None) l))"
proof -
  have "map_erase i (log_notes 1 l) = log_notes 1 (log_update (unat i) (\<lambda>_. None) l)"
  proof (cases "0 < unat i")
    case True
    then show ?thesis using erase_log_notes [of 1 l i] assms
        list_update_beyond [of l "unat i - 1" None]
      by (cases "unat i \<le> length l") (simp_all add: log_update_def log_room_def)
  next
    case False
    then have "map_of (log_notes 1 l) i = None" using map_of_log_notes [of 1 l i] assms by (simp add: log_room_def)
    then show ?thesis using False by (simp add: log_update_def map_erase_absent)
  qed
  then show ?thesis using find_log [OF assms, of i]
    by (simp add: erase_note_def log_db_def find_note_def)
qed

lemma modify_log:
  assumes "log_room l" "0 < unat i" "\<forall>x. f (mk_note (unat i) x) = mk_note (unat i) (g x)"
  shows "modify_note i f (log_db l) = log_db (log_update (unat i) (map_option g) l)"
  using modify_log_notes [of 1 l i f g] assms list_update_beyond [of l "unat i - 1"]
  by (cases "unat i \<le> length l") (simp_all add: modify_note_def log_db_def log_update_def log_room_def)

lemmas log_facts = find_log create_log erase_log modify_log

end
