(* ===== verification/JsonLaws.thy ===== *)
theory JsonLaws
  imports NotesInv
begin

text \<open>
  What the note servers rely on nlohmann::json for, stated over its operations, and an instance that
  has these properties: values as a datatype with a text form.
\<close>

subsection \<open>Laws\<close>

definition prints :: "'j json_api \<Rightarrow> 'j \<Rightarrow> bool" where
  "prints js j \<longleftrightarrow> (\<forall>i. j_dump js i j \<noteq> None)"

definition is_ascii :: "string \<Rightarrow> bool" where
  "is_ascii s \<longleftrightarrow> (\<forall>c \<in> set s. of_char c < (128 :: nat))"

text \<open>Values: what is printed is read back, and what is built has its parts.\<close>

definition value_laws :: "'j json_api \<Rightarrow> bool" where
  "value_laws js \<longleftrightarrow>
     (\<forall>i j s. j_dump js i j = Some s \<longrightarrow> j_parse js s = Inr j)
   \<and> (\<forall>kvs. j_is_object js (j_object js kvs))
   \<and> (\<forall>kvs k. j_find js k (j_object js kvs) = map_of kvs k)
   \<and> (\<forall>j kvs. j_is_object js j \<longrightarrow> j_is_object js (j_update js j (j_object js kvs)))
   \<and> (\<forall>j kvs k. j_is_object js j \<longrightarrow> distinct (map fst kvs) \<longrightarrow>
        j_find js k (j_update js j (j_object js kvs)) = (case map_of kvs k of Some v \<Rightarrow> Some v | None \<Rightarrow> j_find js k j))
   \<and> \<not> j_is_object js (j_null js)
   \<and> (\<forall>s. j_is_string js (j_string js s) \<and> j_get_string js (j_string js s) = s)
   \<and> (\<forall>n. j_is_uint js (j_uint js n) \<and> j_get_uint js (j_uint js n) = n)
   \<and> (\<forall>xs. j_is_array js (j_array js xs) \<and> j_size js (j_array js xs) = length xs)"

text \<open>
  Printing: it fails only for strings that are not UTF-8, and the parser lets no such string through.
\<close>

definition print_laws :: "'j json_api \<Rightarrow> bool" where
  "print_laws js \<longleftrightarrow>
     (\<forall>n. prints js (j_uint js n)) \<and> prints js (j_null js)
   \<and> (\<forall>s. is_ascii s \<longrightarrow> prints js (j_string js s))
   \<and> (\<forall>s s'. prints js (j_string js s) \<longrightarrow> prints js (j_string js s') \<longrightarrow> prints js (j_string js (s @ s')))
   \<and> (\<forall>xs. (\<forall>x \<in> set xs. prints js x) \<longrightarrow> prints js (j_array js xs))
   \<and> (\<forall>kvs. (\<forall>(k, v) \<in> set kvs. is_ascii k \<and> prints js v) \<longrightarrow> prints js (j_object js kvs))
   \<and> (\<forall>j j'. prints js j \<longrightarrow> prints js j' \<longrightarrow> prints js (j_update js j j'))
   \<and> (\<forall>s j. j_parse js s = Inr j \<longrightarrow> prints js j)
   \<and> (\<forall>k j v. prints js j \<longrightarrow> j_find js k j = Some v \<longrightarrow> prints js v)
   \<and> (\<forall>j. prints js j \<longrightarrow> j_is_string js j \<longrightarrow> prints js (j_string js (j_get_string js j)))"

lemma value_lawsD:
  assumes "value_laws js"
  shows "j_dump js i j = Some s \<Longrightarrow> j_parse js s = Inr j"
    "j_is_object js (j_object js kvs)" "j_find js k (j_object js kvs) = map_of kvs k"
    "j_is_object js j \<Longrightarrow> j_is_object js (j_update js j (j_object js kvs))"
    "j_is_object js j \<Longrightarrow> distinct (map fst kvs) \<Longrightarrow>
       j_find js k (j_update js j (j_object js kvs)) = (case map_of kvs k of Some v \<Rightarrow> Some v | None \<Rightarrow> j_find js k j)"
    "\<not> j_is_object js (j_null js)"
    "j_is_string js (j_string js s)" "j_get_string js (j_string js s) = s"
    "j_is_uint js (j_uint js n)" "j_get_uint js (j_uint js n) = n"
    "j_is_array js (j_array js xs)" "j_size js (j_array js xs) = length xs"
  using assms unfolding value_laws_def by blast+

lemma print_lawsD:
  assumes "print_laws js"
  shows "prints js (j_uint js n)" "prints js (j_null js)" "is_ascii s \<Longrightarrow> prints js (j_string js s)"
    "prints js (j_string js s) \<Longrightarrow> prints js (j_string js s') \<Longrightarrow> prints js (j_string js (s @ s'))"
    "(\<forall>x \<in> set xs. prints js x) \<Longrightarrow> prints js (j_array js xs)"
    "(\<forall>(k, v) \<in> set kvs. is_ascii k \<and> prints js v) \<Longrightarrow> prints js (j_object js kvs)"
    "prints js j \<Longrightarrow> prints js j' \<Longrightarrow> prints js (j_update js j j')"
    "j_parse js s = Inr j \<Longrightarrow> prints js j"
    "prints js j \<Longrightarrow> j_find js k j = Some v \<Longrightarrow> prints js v"
    "prints js j \<Longrightarrow> j_is_string js j \<Longrightarrow> prints js (j_string js (j_get_string js j))"
  using assms unfolding print_laws_def by blast+

lemma prints_dump: "prints js j \<Longrightarrow> \<exists>s. j_dump js i j = Some s"
  by (simp add: prints_def)

subsection \<open>An instance\<close>

datatype sample_value = SV_null | SV_uint u64 | SV_string string | SV_array "sample_value list"
  | SV_object "(string \<times> sample_value) list"

definition text_of :: "string \<Rightarrow> string" where
  "text_of s = concat (map (\<lambda>c. [CHR ''.'', c]) s) @ '';''"

fun read_text :: "string \<Rightarrow> (string \<times> string) option" where
  "read_text (x # c # r) =
     (if x = CHR ''.'' then map_option (\<lambda>(s, r). (c # s, r)) (read_text r)
      else if x = CHR '';'' then Some ([], c # r) else None)"
| "read_text [x] = (if x = CHR '';'' then Some ([], []) else None)"
| "read_text [] = None"

primrec sample_text :: "sample_value \<Rightarrow> string" where
  "sample_text SV_null = ''n''"
| "sample_text (SV_uint n) = CHR ''u'' # text_of (to_string (unat n))"
| "sample_text (SV_string s) = CHR ''s'' # text_of s"
| "sample_text (SV_array xs) = CHR ''['' # concat (map (\<lambda>x. CHR '','' # x) (map sample_text xs)) @ '']''"
| "sample_text (SV_object kvs) =
     CHR ''{'' # concat (map (\<lambda>(k, x). CHR '','' # text_of k @ x) (map (map_prod id sample_text) kvs)) @ ''}''"

fun read_value :: "nat \<Rightarrow> string \<Rightarrow> (sample_value \<times> string) option"
  and read_array :: "nat \<Rightarrow> string \<Rightarrow> (sample_value list \<times> string) option"
  and read_object :: "nat \<Rightarrow> string \<Rightarrow> ((string \<times> sample_value) list \<times> string) option" where
  "read_value (Suc n) (c # r) =
     (if c = CHR ''n'' then Some (SV_null, r)
      else if c = CHR ''u'' then map_option (\<lambda>(s, r). (SV_uint (of_nat (digits_value s)), r)) (read_text r)
      else if c = CHR ''s'' then map_option (\<lambda>(s, r). (SV_string s, r)) (read_text r)
      else if c = CHR ''['' then map_option (\<lambda>(xs, r). (SV_array xs, r)) (read_array n r)
      else if c = CHR ''{'' then map_option (\<lambda>(kvs, r). (SV_object kvs, r)) (read_object n r)
      else None)"
| "read_value n r = None"
| "read_array (Suc n) (c # r) =
     (if c = CHR '']'' then Some ([], r)
      else case read_value n r of
             None \<Rightarrow> None
           | Some (x, r) \<Rightarrow> map_option (\<lambda>(xs, r). (x # xs, r)) (read_array n r))"
| "read_array n r = None"
| "read_object (Suc n) (c # r) =
     (if c = CHR ''}'' then Some ([], r)
      else case read_text r of
             None \<Rightarrow> None
           | Some (k, r) \<Rightarrow>
               (case read_value n r of
                  None \<Rightarrow> None
                | Some (x, r) \<Rightarrow> map_option (\<lambda>(kvs, r). ((k, x) # kvs, r)) (read_object n r)))"
| "read_object n r = None"

lemma read_text_of [simp]: "read_text (text_of s @ r) = Some (s, r)"
  by (induction s) (cases r, auto simp: text_of_def)

lemma read_array_text:
  assumes "\<And>x n r. x \<in> set xs \<Longrightarrow> length (sample_text x) < n \<Longrightarrow> read_value n (sample_text x @ r) = Some (x, r)"
    and "length (concat (map (\<lambda>x. CHR '','' # x) (map sample_text xs))) + 1 < n"
  shows "read_array n (concat (map (\<lambda>x. CHR '','' # x) (map sample_text xs)) @ CHR '']'' # r) = Some (xs, r)"
  using assms
proof (induction xs arbitrary: n)
  case Nil
  then show ?case by (cases n) auto
next
  case (Cons x xs)
  then show ?case by (cases n) (auto simp: split: option.splits)
qed

lemma read_object_text:
  assumes "\<And>k x n r. (k, x) \<in> set kvs \<Longrightarrow> length (sample_text x) < n \<Longrightarrow> read_value n (sample_text x @ r) = Some (x, r)"
    and "length (concat (map (\<lambda>(k, x). CHR '','' # text_of k @ x) (map (map_prod id sample_text) kvs))) + 1 < n"
  shows "read_object n (concat (map (\<lambda>(k, x). CHR '','' # text_of k @ x) (map (map_prod id sample_text) kvs)) @ CHR ''}'' # r)
    = Some (kvs, r)"
  using assms
proof (induction kvs arbitrary: n)
  case Nil
  then show ?case by (cases n) auto
next
  case (Cons kv kvs)
  obtain k x where kv: "kv = (k, x)" by fastforce
  obtain m where n: "n = Suc m" using Cons(3) by (cases n) auto
  have "read_value m (sample_text x @ r') = Some (x, r')" for r'
    using Cons(2) [of k x m r'] Cons(3) by (simp add: kv n)
  moreover have "read_object m (concat (map (\<lambda>(k, x). CHR '','' # text_of k @ x) (map (map_prod id sample_text) kvs)) @ CHR ''}'' # r)
      = Some (kvs, r)"
  proof (rule Cons(1))
    show "read_value i (sample_text y @ r') = Some (y, r')"
      if "(k', y) \<in> set kvs" "length (sample_text y) < i" for k' y i r'
      using Cons(2) [of k' y i r'] that by simp
  qed (use Cons(3) in \<open>simp add: kv n\<close>)
  ultimately show ?case by (simp add: kv n id_def)
qed

lemma read_sample_text: "length (sample_text x) < n \<Longrightarrow> read_value n (sample_text x @ r) = Some (x, r)"
proof (induction x arbitrary: n r)
  case SV_null
  then show ?case by (cases n) auto
next
  case (SV_uint w)
  then show ?case by (cases n) (auto simp: to_string_facts)
next
  case (SV_string s)
  then show ?case by (cases n) auto
next
  case (SV_array xs)
  then obtain m where n: "n = Suc m" by (cases n) auto
  have "read_array m (concat (map (\<lambda>x. CHR '','' # x) (map sample_text xs)) @ CHR '']'' # r) = Some (xs, r)"
    using SV_array by (intro read_array_text) (simp_all add: n)
  then show ?case by (simp add: n)
next
  case (SV_object kvs)
  then obtain m where n: "n = Suc m" by (cases n) auto
  have "read_object m (concat (map (\<lambda>(k, x). CHR '','' # text_of k @ x) (map (map_prod id sample_text) kvs)) @ CHR ''}'' # r)
      = Some (kvs, r)"
  proof (rule read_object_text)
    show "read_value i (sample_text x @ r') = Some (x, r')"
      if "(k, x) \<in> set kvs" "length (sample_text x) < i" for k x i r'
      using SV_object(1) [OF that(1), of x i r'] that(2) by simp
    show "length (concat (map (\<lambda>(k, x). CHR '','' # text_of k @ x) (map (map_prod id sample_text) kvs))) + 1 < m"
      using SV_object(2) by (simp add: n)
  qed
  then show ?case by (simp add: n)
qed

primrec sample_ascii :: "sample_value \<Rightarrow> bool" where
  "sample_ascii SV_null = True"
| "sample_ascii (SV_uint n) = True"
| "sample_ascii (SV_string s) = is_ascii s"
| "sample_ascii (SV_array xs) = list_all id (map sample_ascii xs)"
| "sample_ascii (SV_object kvs) = list_all (\<lambda>(k, b). is_ascii k \<and> b) (map (map_prod id sample_ascii) kvs)"

definition sample_json :: "sample_value json_api" where
  "sample_json = \<lparr>
     j_parse = (\<lambda>s. case read_value (length s + 1) s of
         Some (x, []) \<Rightarrow> if sample_ascii x then Inr x else Inl ''invalid UTF-8 byte''
       | _ \<Rightarrow> Inl (''syntax error; last read: '' @ s)),
     j_dump = (\<lambda>i x. if sample_ascii x then Some (sample_text x) else None),
     j_is_object = (\<lambda>x. case x of SV_object _ \<Rightarrow> True | _ \<Rightarrow> False),
     j_is_string = (\<lambda>x. case x of SV_string _ \<Rightarrow> True | _ \<Rightarrow> False),
     j_is_uint = (\<lambda>x. case x of SV_uint _ \<Rightarrow> True | _ \<Rightarrow> False),
     j_is_array = (\<lambda>x. case x of SV_array _ \<Rightarrow> True | _ \<Rightarrow> False),
     j_get_string = (\<lambda>x. case x of SV_string s \<Rightarrow> s | _ \<Rightarrow> []),
     j_get_uint = (\<lambda>x. case x of SV_uint n \<Rightarrow> n | _ \<Rightarrow> 0),
     j_size = (\<lambda>x. case x of SV_array xs \<Rightarrow> length xs | SV_object kvs \<Rightarrow> length kvs | SV_null \<Rightarrow> 0 | _ \<Rightarrow> 1),
     j_find = (\<lambda>k x. case x of SV_object kvs \<Rightarrow> map_of kvs k | _ \<Rightarrow> None),
     j_null = SV_null,
     j_string = SV_string,
     j_uint = SV_uint,
     j_array = SV_array,
     j_object = SV_object,
     j_update = (\<lambda>x y. case x of
         SV_object kvs \<Rightarrow> (case y of SV_object kvs' \<Rightarrow> SV_object (kvs' @ kvs) | _ \<Rightarrow> x) | _ \<Rightarrow> x)\<rparr>"

lemma sample_prints: "prints sample_json x = sample_ascii x"
  by (simp add: prints_def sample_json_def)

lemma sample_parse: "j_parse sample_json s = Inr x \<Longrightarrow> sample_ascii x"
  by (auto simp: sample_json_def split: option.splits list.splits if_splits)

lemma sample_object [simp]:
  "j_is_object sample_json j \<longleftrightarrow> (\<exists>kvs. j = SV_object kvs)" "j_object sample_json kvs = SV_object kvs"
  "j_find sample_json k (SV_object kvs) = map_of kvs k"
  "j_update sample_json (SV_object kvs) (SV_object kvs') = SV_object (kvs' @ kvs)"
  "j_null sample_json = SV_null" "j_uint sample_json n = SV_uint n" "j_string sample_json s = SV_string s"
  "j_array sample_json xs = SV_array xs"
  by (simp_all add: sample_json_def split: sample_value.splits)

lemma sample_value_laws: "value_laws sample_json"
  unfolding value_laws_def
proof (intro conjI allI impI)
  show "j_parse sample_json s = Inr j" if "j_dump sample_json i j = Some s" for i j s
    using that read_sample_text [of j "length s + 1" "[]"] by (auto simp: sample_json_def split: if_splits)
  show "j_find sample_json k (j_update sample_json j (j_object sample_json kvs))
      = (case map_of kvs k of Some v \<Rightarrow> Some v | None \<Rightarrow> j_find sample_json k j)"
    if "j_is_object sample_json j" for j kvs k
    using that by (auto simp: map_add_def split: option.splits)
qed (auto simp: sample_json_def split: sample_value.splits)

lemma sample_print_laws: "print_laws sample_json"
  unfolding print_laws_def sample_prints
proof (intro conjI allI impI)
  show "sample_ascii v" if "sample_ascii x" "j_find sample_json k x = Some v" for k x v
    using that by (auto simp: sample_json_def list_all_iff split: sample_value.splits dest!: map_of_SomeD)
  show "sample_ascii (j_update sample_json x y)" if "sample_ascii x" "sample_ascii y" for x y
    using that by (auto simp: sample_json_def split: sample_value.splits)
  show "sample_ascii (j_string sample_json (j_get_string sample_json x))" if "j_is_string sample_json x" "sample_ascii x" for x
    using that by (auto simp: sample_json_def split: sample_value.splits)
qed (auto simp: is_ascii_def list_all_iff dest: sample_parse)

end
