(* ===== verification/JsondInv.thy ===== *)
theory JsondInv
  imports Jsond JsonLaws HttpParserInv
begin

text \<open>
  The note server refines a log of notes: every request acts on the database as an abstract request
  acts on the log. Failed requests change nothing, with one exception. On a connection the requests
  are answered in order.
\<close>

subsection \<open>Requests on the log\<close>

definition string_field :: "'j json_api \<Rightarrow> string \<Rightarrow> 'j \<Rightarrow> string option" where
  "string_field js k j =
     (case j_find js k j of Some v \<Rightarrow> if j_is_string js v then Some (j_get_string js v) else None | None \<Rightarrow> None)"

definition post_log :: "'j json_api \<Rightarrow> 'j \<Rightarrow> note_log \<Rightarrow> note_log" where
  "post_log js j l =
     (case (string_field js ''title'' j, string_field js ''body'' j) of
        (Some t, Some b) \<Rightarrow> l @ [Some (t, b)]
      | _ \<Rightarrow> l)"

text \<open>A title that is no string stops the update; otherwise each field that is a string is stored.\<close>

definition put_note :: "'j json_api \<Rightarrow> 'j \<Rightarrow> string \<times> string \<Rightarrow> string \<times> string" where
  "put_note js j x =
     (if j_contains js ''title'' j \<and> string_field js ''title'' j = None then x
      else (case string_field js ''title'' j of Some t \<Rightarrow> t | None \<Rightarrow> fst x,
            case string_field js ''body'' j of Some b \<Rightarrow> b | None \<Rightarrow> snd x))"

definition put_log :: "'j json_api \<Rightarrow> 'j \<Rightarrow> nat \<Rightarrow> note_log \<Rightarrow> note_log" where
  "put_log js j k l = log_update k (map_option (put_note js j)) l"

definition log_request :: "'j json_api \<Rightarrow> http_message \<Rightarrow> note_log \<Rightarrow> note_log" where
  "log_request js req l =
     (let m = req_method req; p = fst (path req)
      in if p = ''/notes''
         then (case (m, j_parse js (body req)) of
                 (HTTP_POST, Inr j) \<Rightarrow> if j_is_object js j then post_log js j l else l
               | _ \<Rightarrow> l)
         else (case (m, j_parse js (body req), parse_note_id p) of
                 (HTTP_PUT, Inr j, Some i) \<Rightarrow> put_log js j (unat i) l
               | (HTTP_DELETE, _, Some i) \<Rightarrow> log_update (unat i) (\<lambda>_. None) l
               | _ \<Rightarrow> l))"

lemma title_mk_note: "title_update (\<lambda>_. t) (mk_note n x) = mk_note n (t, snd x)"
  by (simp add: mk_note_def)

lemma body_mk_note: "note_body_update (\<lambda>_. b) (mk_note n x) = mk_note n (fst x, b)"
  by (simp add: mk_note_def)

lemma log_room_update [simp]: "log_room (log_update k f l) = log_room l"
  by (simp add: log_room_def)

lemma log_update_twice: "log_update k g (log_update k f l) = log_update k (\<lambda>x. g (f x)) l"
  by (auto simp: log_update_def)

lemma log_update_id: "(\<And>x. f x = x) \<Longrightarrow> log_update k f l = l"
  by (simp add: log_update_def)

lemma log_update_none:
  assumes "log_lookup k l = None"
  shows "log_update k (map_option g) l = l"
proof (cases "0 < k \<and> k \<le> length l")
  case True
  then have "l ! (k - 1) = None" using assms by (simp add: log_lookup_def)
  then show ?thesis using True list_update_id [of l "k - 1"] by (simp add: log_update_def)
qed (auto simp: log_update_def)

lemma string_field_simps:
  "j_find js k j = None \<Longrightarrow> string_field js k j = None"
  "j_find js k j = Some v \<Longrightarrow> j_is_string js v \<Longrightarrow> string_field js k j = Some (j_get_string js v)"
  "j_find js k j = Some v \<Longrightarrow> \<not> j_is_string js v \<Longrightarrow> string_field js k j = None"
  by (simp_all add: string_field_def)

text \<open>Changing one field of a note that exists.\<close>

lemma modify_field_log:
  assumes "log_room l" "log_lookup (unat i) l \<noteq> None"
  shows "modify_note i (title_update (\<lambda>_. t)) (log_db l) = log_db (log_update (unat i) (map_option (\<lambda>x. (t, snd x))) l)"
    and "modify_note i (note_body_update (\<lambda>_. b)) (log_db l) = log_db (log_update (unat i) (map_option (\<lambda>x. (fst x, b))) l)"
proof -
  have "0 < unat i" using assms(2) by (auto simp: log_lookup_def split: if_splits)
  then show "modify_note i (title_update (\<lambda>_. t)) (log_db l) = log_db (log_update (unat i) (map_option (\<lambda>x. (t, snd x))) l)"
    "modify_note i (note_body_update (\<lambda>_. b)) (log_db l) = log_db (log_update (unat i) (map_option (\<lambda>x. (fst x, b))) l)"
    using assms(1) by (intro modify_log; simp add: title_mk_note body_mk_note)+
qed

lemma log_lookup_update: "log_lookup k (log_update k f l) \<noteq> None \<longleftrightarrow> 0 < k \<and> k \<le> length l \<and> f (l ! (k - 1)) \<noteq> None"
  by (auto simp: log_lookup_def log_update_def)

lemma put_body_log:
  assumes "log_room l" "log_lookup (unat i) l \<noteq> None"
  shows "snd (put_body js j i (log_db l)) =
    log_db (log_update (unat i) (map_option (\<lambda>x. (fst x, case string_field js ''body'' j of Some b \<Rightarrow> b | None \<Rightarrow> snd x))) l)"
  by (cases "j_find js ''body'' j") (auto simp: put_body_def modify_field_log [OF assms] string_field_simps Let_def
      intro!: arg_cong [of _ _ log_db] log_update_id [symmetric] option.map_ident)

lemma put_title_log:
  assumes "log_room l" "log_lookup (unat i) l \<noteq> None"
  shows "snd (put_title js j i (log_db l)) = log_db (put_log js j (unat i) l)"
proof (cases "j_find js ''title'' j")
  case None
  then show ?thesis using put_body_log [OF assms]
    by (simp add: put_title_def put_log_def put_note_def [abs_def] j_contains_def string_field_simps)
next
  case (Some v)
  show ?thesis
  proof (cases "j_is_string js v")
    case True
    let ?l = "log_update (unat i) (map_option (\<lambda>x. (j_get_string js v, snd x))) l"
    have "log_room ?l" "log_lookup (unat i) ?l \<noteq> None"
      using assms unfolding log_lookup_update by (auto simp: log_lookup_def split: if_splits)
    from put_body_log [OF this] show ?thesis using Some True
      by (simp add: put_title_def put_log_def put_note_def [abs_def] modify_field_log [OF assms] string_field_simps
          log_update_twice option.map_comp comp_def cong: option.case_cong)
  next
    case False
    then show ?thesis using Some
      by (simp add: put_title_def put_log_def put_note_def [abs_def] j_contains_def string_field_simps log_update_id option.map_ident)
  qed
qed

lemma handle_log:
  assumes "log_room l"
  shows "snd (handle js req (log_db l)) = log_db (log_request js req l)"
proof -
  have post: "snd (handle_post js b (log_db l)) =
      log_db (case j_parse js b of Inr j \<Rightarrow> if j_is_object js j then post_log js j l else l | Inl _ \<Rightarrow> l)" for b
    using assms
    by (auto simp: handle_post_def post_log_def string_field_def j_contains_def j_at_def create_log split: sum.splits option.splits)
  have put: "snd (handle_put js i b (log_db l)) =
      log_db (case j_parse js b of Inr j \<Rightarrow> put_log js j (unat i) l | Inl _ \<Rightarrow> l)" for i b
  proof (cases "log_lookup (unat i) l")
    case None
    then show ?thesis by (auto simp: handle_put_def find_log [OF assms] put_log_def log_update_none split: sum.splits)
  next
    case (Some x)
    then have "log_lookup (unat i) l \<noteq> None" by simp
    note put_title_log [OF assms this, simp]
    show ?thesis using Some by (cases "j_parse js b") (simp_all add: handle_put_def find_log [OF assms])
  qed
  have del: "snd (handle_delete js i (log_db l)) = log_db (log_update (unat i) (\<lambda>_. None) l)" for i
    by (simp add: handle_delete_def erase_log [OF assms])
  show ?thesis
    by (cases "req_method req")
      (auto simp: handle_def log_request_def Let_def handle_list_def handle_get_def post put del split: option.splits sum.splits)
qed

lemma handle_get_path:
  assumes "parse_note_id (fst (path req)) = Some i" "req_method req = HTTP_GET"
  shows "handle js req db = handle_get js i db"
proof -
  have "fst (path req) \<noteq> ''/notes''" using assms(1) parse_other_path by (metis option.distinct(1))
  then show ?thesis using assms by (simp add: handle_def Let_def)
qed

subsection \<open>Sequences of requests\<close>

lemma length_log_request: "length (log_request js req l) \<le> Suc (length l)"
  by (cases "req_method req")
    (auto simp: log_request_def Let_def post_log_def put_log_def split: option.splits sum.splits)

definition run_requests :: "'j json_api \<Rightarrow> http_message list \<Rightarrow> notes_db \<Rightarrow> notes_db" where
  "run_requests js reqs db = foldl (\<lambda>db req. snd (handle js req db)) db reqs"

definition run_log :: "'j json_api \<Rightarrow> http_message list \<Rightarrow> note_log \<Rightarrow> note_log" where
  "run_log js reqs l = foldl (\<lambda>l req. log_request js req l) l reqs"

lemma run_requests_log:
  assumes "length l + length reqs + 1 < 2 ^ 64"
  shows "run_requests js reqs (log_db l) = log_db (run_log js reqs l)" "length (run_log js reqs l) \<le> length l + length reqs"
proof -
  have "run_requests js reqs (log_db l) = log_db (run_log js reqs l) \<and> length (run_log js reqs l) \<le> length l + length reqs"
    using assms
  proof (induction reqs arbitrary: l)
    case (Cons req reqs)
    have "log_room l" using Cons(2) by (simp add: log_room_def)
    note step = handle_log [OF this, of js req] and len = length_log_request [of js req l]
    have "run_requests js reqs (log_db (log_request js req l)) = log_db (run_log js reqs (log_request js req l))
        \<and> length (run_log js reqs (log_request js req l)) \<le> length (log_request js req l) + length reqs"
      using Cons(1) [of "log_request js req l"] Cons(2) len by simp
    then show ?case using len step by (auto simp: run_requests_def run_log_def)
  qed (simp add: run_requests_def run_log_def)
  then show "run_requests js reqs (log_db l) = log_db (run_log js reqs l)"
    "length (run_log js reqs l) \<le> length l + length reqs" by simp_all
qed

text \<open>
  C18: the database after any requests (fewer than \<open>2\<^sup>6\<^sup>4 - 1\<close>) is the log of the notes that were
  ever created: the \<open>k\<close>-th successful POST makes note \<open>k\<close>, later PUTs change it, DELETE leaves a gap
  that is never filled, so no id is used twice. A GET of a note's path answers with that note,
  or with 404 if there is a gap or no such number yet.
\<close>

theorem jsond_refines_log:
  assumes "length reqs + 1 < 2 ^ 64"
  shows "run_requests js reqs notes_db_new = log_db (run_log js reqs [])
    \<and> (\<forall>req i. req_method req = HTTP_GET \<and> fst (path req) = ''/notes/'' @ to_string (unat (i :: u64)) \<longrightarrow>
      handle js req (run_requests js reqs notes_db_new) =
        (case log_lookup (unat i) (run_log js reqs []) of
           None \<Rightarrow> error_response js 404 ''no such note''
         | Some x \<Rightarrow> make_response js 200 (note_json js (mk_note (unat i) x)),
         run_requests js reqs notes_db_new))"
proof -
  note run = run_requests_log [of "[]" reqs js, unfolded log_db_new]
  have eq: "run_requests js reqs notes_db_new = log_db (run_log js reqs [])" using run assms by simp
  have "log_room (run_log js reqs [])" using run(2) assms by (simp add: log_room_def)
  note find = find_log [OF this]
  have get: "handle js req (run_requests js reqs notes_db_new) =
        (case log_lookup (unat i) (run_log js reqs []) of
           None \<Rightarrow> error_response js 404 ''no such note''
         | Some x \<Rightarrow> make_response js 200 (note_json js (mk_note (unat i) x)),
         run_requests js reqs notes_db_new)"
    if "req_method req = HTTP_GET" "fst (path req) = ''/notes/'' @ to_string (unat (i :: u64))" for req i
  proof -
    have "parse_note_id (fst (path req)) = Some i" using that(2) parse_note_path by simp
    then show ?thesis by (simp add: handle_get_path that(1) handle_get_def find eq split: option.splits)
  qed
  show ?thesis using eq get by blast
qed

definition post_sample :: http_message where
  "post_sample = set_body (sample_text (SV_object [(''title'', SV_string ''hi''), (''body'', SV_string ''first'')]))
     (http_request_new HTTP_POST ''/notes'')"

definition delete_sample :: http_message where
  "delete_sample = http_request_new HTTP_DELETE ''/notes/1''"

definition get_sample :: "string \<Rightarrow> http_message" where
  "get_sample p = http_request_new HTTP_GET p"

lemma jsond_refines_log_witness:
  "run_log sample_json [post_sample, post_sample, delete_sample, post_sample] [] = [None, Some (''hi'', ''first''), Some (''hi'', ''first'')]
   \<and> handle sample_json (get_sample ''/notes/3'') (run_requests sample_json [post_sample, post_sample, delete_sample, post_sample] notes_db_new)
     = (make_response sample_json 200 (note_json sample_json (mk_note 3 (''hi'', ''first''))),
        log_db [None, Some (''hi'', ''first''), Some (''hi'', ''first'')])"
proof -
  let ?reqs = "[post_sample, post_sample, delete_sample, post_sample]"
  have paths: "fst (path post_sample) = ''/notes''" "fst (path delete_sample) = ''/notes/1''" by code_simp+
  have methods: "req_method post_sample = HTTP_POST" "req_method delete_sample = HTTP_DELETE" by code_simp+
  have "to_string (unat (1 :: u64)) = ''1''" by code_simp
  then have one: "parse_note_id ''/notes/1'' = Some 1" using parse_note_path [of 1] by simp
  have "j_parse sample_json (body post_sample) = Inr (SV_object [(''title'', SV_string ''hi''), (''body'', SV_string ''first'')])"
    by code_simp
  then have post: "log_request sample_json post_sample l = l @ [Some (''hi'', ''first'')]" for l
    by (simp add: log_request_def paths methods post_log_def string_field_def) (simp add: sample_json_def)
  have delete: "log_request sample_json delete_sample l = log_update 1 (\<lambda>_. None) l" for l
    by (simp add: log_request_def paths methods one)
  have log: "run_log sample_json ?reqs [] = [None, Some (''hi'', ''first''), Some (''hi'', ''first'')]"
    by (simp add: run_log_def post delete log_update_def)
  have get: "req_method (get_sample ''/notes/3'') = HTTP_GET" by (simp add: get_sample_def http_request_new_def)
  have p: "fst (path (get_sample ''/notes/3'')) = ''/notes/'' @ to_string (unat (3 :: u64))" by code_simp
  have len: "length ?reqs + 1 < 2 ^ 64" by simp
  have r: "run_requests sample_json ?reqs notes_db_new = log_db (run_log sample_json ?reqs [])"
      "handle sample_json (get_sample ''/notes/3'') (run_requests sample_json ?reqs notes_db_new) =
        (case log_lookup (unat (3 :: u64)) (run_log sample_json ?reqs []) of
           None \<Rightarrow> error_response sample_json 404 ''no such note''
         | Some x \<Rightarrow> make_response sample_json 200 (note_json sample_json (mk_note (unat (3 :: u64)) x)),
         run_requests sample_json ?reqs notes_db_new)"
    using jsond_refines_log [OF len, of sample_json] get p by blast+
  then show ?thesis by (simp add: log log_lookup_def)
qed

subsection \<open>Failed requests\<close>

lemma make_response_status [simp]:
  "make_response js status j = Some res \<Longrightarrow> status_code res = ucast status"
  by (auto simp: make_response_def set_body_def add_header_def Let_def set_status_code_def split: option.splits)

lemma error_response_status:
  "error_response js status msg = Some res \<Longrightarrow> status_code res = ucast status"
  by (simp add: error_response_def)

text \<open>
  C38: a request that is answered with an error status (400 or more) leaves the notes as they were, with
  one exception: a PUT whose title is a string and whose body is not stores the title, and then
  answers 400.
\<close>

theorem jsond_failed_request:
  assumes "handle js req db = (Some res, db')" "status_code res \<ge> 400"
  shows "db' = db \<or>
    (\<exists>i j t b. req_method req = HTTP_PUT \<and> parse_note_id (fst (path req)) = Some i \<and> j_parse js (body req) = Inr j
       \<and> j_find js ''title'' j = Some t \<and> j_is_string js t \<and> j_find js ''body'' j = Some b \<and> \<not> j_is_string js b
       \<and> status_code res = 400 \<and> db' = modify_note i (title_update (\<lambda>_. j_get_string js t)) db)"
proof -
  have ok: "\<not> status_code r \<ge> 400" if "make_response js 200 v = Some r \<or> make_response js 201 v = Some r" for v r
    using that make_response_status by fastforce
  have body: "db2 = db1 \<and> (\<exists>b. j_find js ''body'' j = Some b \<and> \<not> j_is_string js b)"
    if "put_body js j i db1 = (Some res, db2)" for j i db1 db2
    using that assms(2) ok by (auto simp: put_body_def Let_def split: option.splits if_splits)
  have put: "db2 = db \<or> (\<exists>t b. j_find js ''title'' j = Some t \<and> j_is_string js t \<and> j_find js ''body'' j = Some b
      \<and> \<not> j_is_string js b \<and> db2 = modify_note i (title_update (\<lambda>_. j_get_string js t)) db)"
    if "put_title js j i db = (Some res, db2)" for j i db2
    using that body [of j i] by (auto simp: put_title_def split: option.splits if_splits)
  have put400: "status_code res = 400" if "put_title js j i db = (Some res, db2)" for j i db2
    using that assms(2) ok
    by (auto simp: put_title_def put_body_def Let_def error_response_status split: option.splits if_splits)
  have post: "db2 = db" if "handle_post js b db = (Some res, db2)" for b db2
    using that assms(2) ok by (auto simp: handle_post_def split: sum.splits if_splits prod.splits)
  have del: "db2 = db" if "handle_delete js i db = (Some res, db2)" for i db2
    using that assms(2) ok map_erase_absent [of "db_notes db" i]
    by (auto simp: handle_delete_def erase_note_def Let_def split: if_splits)
  show ?thesis
  proof (cases "fst (path req) = ''/notes''")
    case True
    then show ?thesis using assms(1) post by (auto simp: handle_def Let_def handle_list_def split: if_splits)
  next
    case False
    show ?thesis
    proof (cases "parse_note_id (fst (path req))")
      case None
      then show ?thesis using assms(1) False by (auto simp: handle_def Let_def split: if_splits)
    next
      case (Some i)
      consider "handle_get js i db = (Some res, db')" | "req_method req = HTTP_PUT" "handle_put js i (body req) db = (Some res, db')"
        | "handle_delete js i db = (Some res, db')" | "db' = db"
        using assms(1) False Some by (auto simp: handle_def Let_def split: if_splits)
      then show ?thesis
      proof cases
        case 2
        then show ?thesis using put put400 Some
          by (auto simp: handle_put_def split: option.splits sum.splits)
      qed (auto simp: handle_get_def del split: option.splits)
    qed
  qed
qed

definition put_sample :: http_message where
  "put_sample = set_body (sample_text (SV_object [(''title'', SV_string ''new''), (''body'', SV_uint 5)]))
     (http_request_new HTTP_PUT ''/notes/1'')"

lemma jsond_failed_request_witness:
  "\<exists>res db'. handle sample_json put_sample (log_db [Some (''old'', ''text'')]) = (Some res, db')
     \<and> status_code res = 400 \<and> find_note 1 db' = Some (mk_note 1 (''new'', ''text''))"
proof -
  let ?db = "log_db [Some (''old'', ''text'')]"
  have "to_string (unat (1 :: u64)) = ''1''" by code_simp
  then have one: "parse_note_id ''/notes/1'' = Some 1" using parse_note_path [of 1] by simp
  have p: "fst (path put_sample) = ''/notes/1''" "req_method put_sample = HTTP_PUT" by code_simp+
  have j: "j_parse sample_json (body put_sample) = Inr (SV_object [(''title'', SV_string ''new''), (''body'', SV_uint 5)])"
    by code_simp
  have f: "j_is_string sample_json (SV_string s)" "\<not> j_is_string sample_json (SV_uint n)" "j_get_string sample_json (SV_string s) = s"
    for s n by (simp_all add: sample_json_def)
  obtain res where res: "error_response sample_json 400 ''body must be a string'' = Some res"
  proof -
    have "error_response sample_json 400 ''body must be a string'' \<noteq> None" by code_simp
    then show ?thesis using that by blast
  qed
  have find: "find_note 1 ?db = Some (mk_note 1 (''old'', ''text''))"
    by (simp add: find_note_def log_db_def)
  let ?db' = "modify_note 1 (title_update (\<lambda>_. ''new'')) ?db"
  have h: "handle sample_json put_sample ?db = (Some res, ?db')"
    by (simp add: handle_def Let_def p one handle_put_def find j put_title_def put_body_def f res)
  have st: "status_code res = 400" using error_response_status [OF res] by simp
  then have "status_code res \<ge> 400" by simp
  from jsond_failed_request [OF h this] have "?db' = ?db \<or> ?db' = modify_note 1 (title_update (\<lambda>_. ''new'')) ?db" by blast
  moreover have "find_note 1 ?db' = Some (mk_note 1 (''new'', ''text''))"
    by (simp add: find_note_def modify_note_def log_db_def mk_note_def)
  ultimately show ?thesis using h st by blast
qed

subsection \<open>Connections\<close>

text \<open>llhttp does not change the kind of messages it scans for.\<close>

definition keeps_type :: "'h llhttp_api \<Rightarrow> bool" where
  "keeps_type api \<longleftrightarrow> (\<forall>hp buf. hp_type (fst (snd (execute api hp buf))) = hp_type hp)
     \<and> (\<forall>hp. hp_type (resume api hp) = hp_type hp) \<and> (\<forall>hp. hp_type (resume_after_upgrade api hp) = hp_type hp)"

definition same_side :: "'h http_parser \<Rightarrow> 'h http_parser \<Rightarrow> bool" where
  "same_side p p' \<longleftrightarrow> p_sent p' = p_sent p \<and> hp_type (p_hp p') = hp_type (p_hp p)"

lemma receive_turn_side:
  assumes "keeps_type api" "receive_turn api buf (p, md) = (stop, p', md')"
  shows "same_side p p'"
  using assms
  by (auto simp: receive_turn_def Let_def keeps_type_def same_side_def split: prod.splits if_splits)
    (metis fst_conv snd_conv)+

lemma same_side_trans: "same_side p q \<Longrightarrow> same_side q r \<Longrightarrow> same_side p r"
  by (simp add: same_side_def)

lemma receive_loop_side:
  assumes "keeps_type api" "receive_loop api rxs p md = Some (rxs', p', md')"
  shows "same_side p p'"
proof -
  have empty: "same_side p p'"
    if "p_receive_buffer p = []" "receive_loop api rxs p md = Some (rxs', p', md')" for rxs p md
    using that
  proof (induction rxs arbitrary: p md)
    case Nil
    then show ?case by (subst (asm) receive_loop.simps) simp
  next
    case (Cons r rxs)
    show ?case
    proof (cases "\<exists>b. r = Rx b \<and> b \<noteq> []")
      case True
      then obtain b where b: "r = Rx b" "b \<noteq> []" by blast
      obtain stop p1 md1 where t: "receive_turn api b (p, md) = (stop, p1, md1)" by (metis prod_cases3)
      have "(if stop then Some (rxs, p1, md1) else receive_loop api rxs p1 md1) = Some (rxs', p', md')"
        using Cons(2,3) b t by (subst (asm) receive_loop.simps) (cases stop; simp)
      then show ?thesis
        using receive_turn_side [OF assms(1) t] receive_turn_buffer [of api b p md p1 md1] t Cons(1) [of p1 md1] same_side_trans
        by (cases stop) auto
    next
      case False
      then show ?thesis using Cons(2,3)
        by (subst (asm) receive_loop.simps) (auto simp: same_side_def split: rx.splits if_splits)
    qed
  qed
  show ?thesis
  proof (cases "p_receive_buffer p = []")
    case False
    obtain stop p1 md1 where t: "receive_turn api (p_receive_buffer p) (p, md) = (stop, p1, md1)" by (metis prod_cases3)
    have "(if stop then Some (rxs, p1, md1) else receive_loop api rxs p1 md1) = Some (rxs', p', md')"
      using False assms(2) t by (subst (asm) receive_loop.simps) (cases stop; simp)
    then show ?thesis
      using receive_turn_side [OF assms(1) t] receive_turn_buffer [of api _ p md p1 md1] t empty [of p1 rxs md1] same_side_trans
      by (cases stop) auto
  qed (use empty assms(2) in blast)
qed

lemma receive_side:
  assumes "keeps_type api" "receive api rxs p = Some (m, rxs', p')"
  shows "same_side p p'"
  using receive_loop_side [OF assms(1)] assms(2)
  by (fastforce simp: receive_def same_side_def split: option.splits if_splits)

text \<open>The bytes of a response.\<close>

definition response_text :: "(u32 \<Rightarrow> string) \<Rightarrow> http_message \<Rightarrow> string" where
  "response_text llhttp_status_name m =
     (let msg = (if status_message m = [] then default_status_message llhttp_status_name (ucast (status_code m))
                 else status_message m);
          m' = add_content_length m
      in ''HTTP/'' @ to_string (unat (major m)) @ ''.'' @ to_string (unat (minor m)) @ '' '' @
         to_string (unat (status_code m)) @ '' '' @ msg @ CRLF @ headers m' @ CRLF @ body m')"

lemma add_content_length_major [simp]:
  "major (add_content_length m) = major m" "minor (add_content_length m) = minor m"
  "status_code (add_content_length m) = status_code m"
  by (simp_all add: add_content_length_def add_header_num_def add_header_def Let_def)

lemma send_response_text:
  assumes "hp_type (p_hp p) = HTTP_REQUEST"
  shows "p_sent (send mn ka sn m p) = p_sent p @ response_text sn m" "hp_type (p_hp (send mn ka sn m p)) = HTTP_REQUEST"
  using assms
  by (auto simp: send_def send_response_def response_text_def Let_def sendv_all_def message_iov_bytes)

text \<open>The responses that the handler gives to requests in order, up to one that throws.\<close>

fun answers :: "'j json_api \<Rightarrow> http_message list \<Rightarrow> notes_db \<Rightarrow> http_message list" where
  "answers js [] db = []"
| "answers js (req # reqs) db =
     (case handle js req db of
        (None, db) \<Rightarrow> []
      | (Some res, db) \<Rightarrow> res # answers js reqs db)"

lemma connection_turn_answers:
  assumes "keeps_type (env_llhttp env)" "hp_type (p_hp p) = HTTP_REQUEST" "connection_turn env (rxs, p, db) = Some t"
  shows "case t of
      Goes_on (rxs', p', db') \<Rightarrow> \<exists>req res. handle (env_json env) req db = (Some res, db')
        \<and> p_sent p' = p_sent p @ response_text (env_status_name env) res \<and> hp_type (p_hp p') = HTTP_REQUEST
    | Ends (rxs', p', db') \<Rightarrow>
        p_sent p' = p_sent p \<and> db' = db
        \<or> (\<exists>req res. handle (env_json env) req db = (Some res, db') \<and> p_sent p' = p_sent p @ response_text (env_status_name env) res)
    | Throws (rxs', p', db') \<Rightarrow> \<exists>req. handle (env_json env) req db = (None, db') \<and> p_sent p' = p_sent p"
proof -
  obtain req rxs1 p1 where r: "receive (env_llhttp env) rxs p = Some (req, rxs1, p1)"
    using assms(3) by (auto simp: connection_turn_def split: option.splits)
  have side: "p_sent p1 = p_sent p" "hp_type (p_hp p1) = HTTP_REQUEST"
    using receive_side [OF assms(1) r] assms(2) by (simp_all add: same_side_def)
  note send = send_response_text [OF side(2), of "env_method_name env" "env_keep_alive env" "env_status_name env"]
  obtain res db1 where h: "handle (env_json env) req db = (res, db1)" by fastforce
  show ?thesis
    using assms(3) r side send h by (cases res; auto simp: connection_turn_def Let_def; blast)
qed


definition byte_env :: "(string, sample_value) server_env" where
  "byte_env = \<lparr>env_llhttp = byte_api, env_keep_alive = (\<lambda>_. True), env_method_name = (\<lambda>_. ''GET''),
     env_status_name = (\<lambda>_. []), env_json = sample_json\<rparr>"


end
