(* ===== verification/UdpInv.thy ===== *)
theory UdpInv
  imports UdpJsond JsondInv
begin

text \<open>
  The two note servers do the same; the UDP server answers every datagram, unless the text of a parse
  error cannot be printed; and the examples of its client pass.
\<close>

subsection \<open>The same notes and the same status\<close>

lemma status_word [simp]: "ucast (ucast (st :: u32) :: u64) = st"
  by (rule bit_word_eqI) (auto simp: bit_ucast_iff)

lemma make_response_find:
  assumes "value_laws js" "distinct (map fst kvs)"
  shows "j_find js k (udp_make_response js st (j_object js kvs)) =
    (case map_of kvs k of Some v \<Rightarrow> Some v | None \<Rightarrow> if k = ''status'' then Some (j_uint js (ucast st)) else None)"
  using value_lawsD(2,3,5) [OF assms(1)] assms(2) by (simp add: udp_make_response_def split: option.splits)

lemma make_response_rpc_status:
  assumes "value_laws js" "distinct (map fst kvs)" "map_of kvs ''status'' = None"
  shows "rpc_status js (udp_make_response js st (j_object js kvs)) = st"
  using make_response_find [OF assms(1,2), of "''status''" st] assms(3) value_lawsD(10) [OF assms(1)]
  by (simp add: rpc_status_def)

lemma error_rpc_status:
  assumes "value_laws js"
  shows "rpc_status js (udp_error_response js st msg) = st"
  using value_lawsD(3,10) [OF assms] by (simp add: rpc_status_def udp_error_response_def)

lemma rpc_statuses:
  assumes "value_laws js"
  shows "rpc_status js (udp_make_response js st (note_json js n)) = st"
    "rpc_status js (udp_make_response js st (stats_json js nm db)) = st"
    "rpc_status js (udp_make_response js st (j_object js [(''notes'', v)])) = st"
    "rpc_status js (udp_make_response js st (j_object js [(''deleted'', v)])) = st"
    "rpc_status js (udp_error_response js st msg) = st"
  using assms
  by (simp_all add: note_json_def stats_json_def Let_def make_response_rpc_status error_rpc_status split: prod.splits)

definition same_verb :: "string \<Rightarrow> llhttp_method \<Rightarrow> bool" where
  "same_verb s m \<longleftrightarrow> (s = ''GET'' \<longleftrightarrow> m = HTTP_GET) \<and> (s = ''POST'' \<longleftrightarrow> m = HTTP_POST)
     \<and> (s = ''PUT'' \<longleftrightarrow> m = HTTP_PUT) \<and> (s = ''DELETE'' \<longleftrightarrow> m = HTTP_DELETE)"

text \<open>An HTTP response and a datagram agree in their status.\<close>

definition same_status :: "'j json_api \<Rightarrow> http_message option \<Rightarrow> 'j \<Rightarrow> bool" where
  "same_status js res resp \<longleftrightarrow> (\<forall>r. res = Some r \<longrightarrow> ucast (status_code r) = rpc_status js resp)"

lemma same_statusI:
  assumes "rpc_status js resp = st" "ucast (ucast st :: u16) = st"
  shows "same_status js (make_response js st v) resp" "same_status js (error_response js st msg) resp"
  using assms by (auto simp: same_status_def error_response_status)

text \<open>
  C36: a datagram and an HTTP request with the same method, path and JSON object do the same to the
  notes, and the two servers answer with the same status.
\<close>

theorem udp_http_equivalent:
  assumes "value_laws js" "j_parse js (body req) = Inr j" "j_is_object js j" "same_verb m (req_method req)"
  shows "snd (udp_handle js m (fst (path req)) j db) = snd (handle js req db)
    \<and> same_status js (fst (handle js req db)) (fst (udp_handle js m (fst (path req)) j db))"
proof -
  note st = rpc_statuses [OF assms(1)] same_statusI
  have post: "snd (udp_post js j db) = snd (handle_post js (body req) db)"
    "same_status js (fst (handle_post js (body req) db)) (fst (udp_post js j db))"
    using assms(2,3) by (auto simp: udp_post_def handle_post_def st split: prod.splits)
  have body: "snd (udp_put_body js j i db) = snd (put_body js j i db)"
    "same_status js (fst (put_body js j i db)) (fst (udp_put_body js j i db))" for i db
    by (auto simp: udp_put_body_def put_body_def Let_def st split: option.splits)
  have put: "snd (udp_put js j i db) = snd (handle_put js i (body req) db)"
    "same_status js (fst (handle_put js i (body req) db)) (fst (udp_put js j i db))" for i
    using assms(2) body by (auto simp: udp_put_def handle_put_def put_title_def st split: option.splits)
  have verbs: "m = ''GET'' \<longleftrightarrow> req_method req = HTTP_GET" "m = ''POST'' \<longleftrightarrow> req_method req = HTTP_POST"
    "m = ''PUT'' \<longleftrightarrow> req_method req = HTTP_PUT" "m = ''DELETE'' \<longleftrightarrow> req_method req = HTTP_DELETE"
    using assms(4) by (simp_all add: same_verb_def)
  have "snd (udp_handle js m (fst (path req)) j db) = snd (handle js req db)"
    unfolding udp_handle_def handle_def Let_def verbs
    by (auto simp: post put handle_list_def handle_get_def handle_delete_def split: option.splits prod.splits)
  moreover have "same_status js (fst (handle js req db)) (fst (udp_handle js m (fst (path req)) j db))"
    unfolding udp_handle_def handle_def Let_def verbs
    by (auto simp: post put handle_list_def handle_get_def handle_delete_def Let_def st split: option.splits prod.splits)
  ultimately show ?thesis by simp
qed


lemma udp_http_equivalent_witness:
  "snd (udp_handle sample_json ''POST'' ''/notes'' (SV_object [(''title'', SV_string ''hi''), (''body'', SV_string ''first'')]) notes_db_new)
     = snd (handle sample_json post_sample notes_db_new)
   \<and> same_status sample_json (fst (handle sample_json post_sample notes_db_new))
      (fst (udp_handle sample_json ''POST'' ''/notes'' (SV_object [(''title'', SV_string ''hi''), (''body'', SV_string ''first'')]) notes_db_new))"
proof -
  let ?j = "SV_object [(''title'', SV_string ''hi''), (''body'', SV_string ''first'')]"
  have p: "j_parse sample_json (body post_sample) = Inr ?j" "fst (path post_sample) = ''/notes''" by code_simp+
  have o: "j_is_object sample_json ?j" by simp
  have v: "same_verb ''POST'' (req_method post_sample)"
    by (simp add: same_verb_def post_sample_def set_body_def http_request_new_def)
  from udp_http_equivalent [OF sample_value_laws p(1) o v, of notes_db_new] show ?thesis by (simp only: p(2))
qed

subsection \<open>Every datagram is answered\<close>

definition note_prints :: "'j json_api \<Rightarrow> note_t \<Rightarrow> bool" where
  "note_prints js n \<longleftrightarrow> prints js (j_string js (title n)) \<and> prints js (j_string js (note_body n))"

definition db_prints :: "'j json_api \<Rightarrow> notes_db \<Rightarrow> bool" where
  "db_prints js db \<longleftrightarrow> (\<forall>(k, n) \<in> set (db_notes db). note_prints js n)"

lemma is_ascii_simps [simp]:
  "is_ascii []" "is_ascii (c # s) \<longleftrightarrow> of_char c < (128 :: nat) \<and> is_ascii s"
  by (simp_all add: is_ascii_def)

lemma set_emplace: "set (map_emplace k v m) \<subseteq> insert (k, v) (set m)"
  by (induction k v m rule: map_emplace.induct) auto

lemma set_erase: "set (map_erase k m) \<subseteq> set m"
  by (induction k m rule: map_erase.induct) auto

lemma set_modify: "set (map_modify k f m) \<subseteq> set m \<union> (\<lambda>(k, v). (k, f v)) ` set m"
  by (induction k f m rule: map_modify.induct) auto

lemma emplace_has_key: "k \<in> fst ` set (map_emplace k v m)"
  by (induction k v m rule: map_emplace.induct) auto

lemma find_prints: "db_prints js db \<Longrightarrow> find_note i db = Some n \<Longrightarrow> note_prints js n"
  by (auto simp: db_prints_def find_note_def dest: map_of_SomeD)

lemma create_prints:
  assumes "db_prints js db" "prints js (j_string js t)" "prints js (j_string js b)" "create t b db = (n, db')"
  shows "note_prints js n" "db_prints js db'"
proof -
  let ?m = "map_emplace (next_id db) \<lparr>note_id = next_id db, title = t, note_body = b\<rparr> (db_notes db)"
  have all: "\<forall>(k, n) \<in> set ?m. note_prints js n"
    using set_emplace [of "next_id db" "\<lparr>note_id = next_id db, title = t, note_body = b\<rparr>" "db_notes db"] assms(1-3)
    by (fastforce simp: db_prints_def note_prints_def)
  have n: "n = the (map_of ?m (next_id db))" and db': "db' = db\<lparr>db_notes := ?m, next_id := next_id db + 1\<rparr>"
    using assms(4) by (simp_all add: create_def Let_def)
  show "db_prints js db'" using all by (simp add: db' db_prints_def)
  have "next_id db \<in> fst ` set ?m" by (rule emplace_has_key)
  then obtain v where "map_of ?m (next_id db) = Some v" by (metis map_of_eq_None_iff not_Some_eq)
  then show "note_prints js n" using all by (auto simp: n dest: map_of_SomeD)
qed

lemma modify_prints:
  assumes "db_prints js db" "\<And>n. note_prints js n \<Longrightarrow> note_prints js (f n)"
  shows "db_prints js (modify_note i f db)"
  using assms set_modify [of i f "db_notes db"] by (fastforce simp: db_prints_def modify_note_def)

lemma erase_prints: "db_prints js db \<Longrightarrow> erase_note i db = (e, db') \<Longrightarrow> db_prints js db'"
  using set_erase [of i "db_notes db"] by (auto simp: erase_note_def db_prints_def)

text \<open>A string field of a value that prints is a string that prints.\<close>

lemma field_prints:
  assumes "print_laws js" "prints js j" "j_find js k j = Some v" "j_is_string js v"
  shows "prints js (j_string js (j_get_string js v))"
  using print_lawsD(9,10) [OF assms(1)] assms(2-4) by blast

lemma note_json_prints: "print_laws js \<Longrightarrow> note_prints js n \<Longrightarrow> prints js (note_json js n)"
  unfolding note_json_def by (rule print_lawsD(6)) (auto simp: note_prints_def intro: print_lawsD(1))

lemma udp_response_prints:
  assumes "print_laws js"
  shows "prints js payload \<Longrightarrow> prints js (udp_make_response js st payload)"
    "prints js (j_string js msg) \<Longrightarrow> prints js (udp_error_response js st msg)"
    "is_ascii msg \<Longrightarrow> prints js (udp_error_response js st msg)"
proof -
  note p = print_lawsD [OF assms]
  have "prints js (j_object js [(''status'', j_uint js (ucast st))])" by (rule p(6)) (simp add: p(1))
  then show "prints js payload \<Longrightarrow> prints js (udp_make_response js st payload)"
    unfolding udp_make_response_def by (rule p(7))
  show *: "prints js (udp_error_response js st msg)" if "prints js (j_string js msg)"
    unfolding udp_error_response_def by (rule p(6)) (use that p(1) in simp)
  show "is_ascii msg \<Longrightarrow> prints js (udp_error_response js st msg)" using * p(3) by blast
qed

lemma stats_prints:
  assumes "print_laws js" "is_ascii nm"
  shows "prints js (stats_json js nm db)"
proof -
  note p = print_lawsD [OF assms(1)]
  have "\<forall>x \<in> set (snd (foldl (stats_step js) (0, []) ns)). prints js x" for ns
    by (induction ns rule: rev_induct) (auto simp: stats_step_def p(1) split: prod.splits)
  then have "prints js (j_array js (snd (foldl (stats_step js) (0, []) (rev (all_notes db)))))" by (rule p(5))
  moreover have "prints js (j_object js [(''name'', j_string js nm), (''version'', j_string js ''0.1'')])"
    by (rule p(6)) (simp add: p(3) assms(2))
  ultimately show ?thesis
    unfolding stats_json_def Let_def by (auto simp: p(1) split: prod.splits intro!: p(6))
qed


lemma note_update_prints:
  "note_prints js n \<Longrightarrow> prints js (j_string js t) \<Longrightarrow> note_prints js (title_update (\<lambda>_. t) n)"
  "note_prints js n \<Longrightarrow> prints js (j_string js t) \<Longrightarrow> note_prints js (note_body_update (\<lambda>_. t) n)"
  by (simp_all add: note_prints_def)

lemma find_modify: "find_note i db \<noteq> None \<Longrightarrow> find_note i (modify_note i f db) \<noteq> None"
proof -
  have "map_of m i \<noteq> None \<Longrightarrow> map_of (map_modify i f m) i \<noteq> None" for m :: "(u64 \<times> note_t) list"
    by (induction i f m rule: map_modify.induct) (auto split: if_splits)
  then show "find_note i db \<noteq> None \<Longrightarrow> find_note i (modify_note i f db) \<noteq> None"
    by (simp add: find_note_def modify_note_def)
qed

lemma put_body_prints:
  assumes "print_laws js" "prints js j" "db_prints js db" "find_note i db \<noteq> None" "udp_put_body js j i db = (resp, db')"
  shows "prints js resp \<and> db_prints js db'"
proof -
  note r = udp_response_prints [OF assms(1)]
  have found: "prints js (udp_make_response js 200 (note_json js (the (find_note i db2))))"
    if "db_prints js db2" "find_note i db2 \<noteq> None" for db2
    using that find_prints [of js db2 i] by (intro r(1) note_json_prints [OF assms(1)]) auto
  show ?thesis
  proof (cases "j_find js ''body'' j")
    case None
    then show ?thesis using assms(3-5) found by (auto simp: udp_put_body_def)
  next
    case (Some v)
    show ?thesis
    proof (cases "j_is_string js v")
      case True
      let ?db = "modify_note i (note_body_update (\<lambda>_. j_get_string js v)) db"
      have "db_prints js ?db"
        using field_prints [OF assms(1,2) Some True] by (intro modify_prints [OF assms(3)] note_update_prints)
      then show ?thesis using Some True assms(5) found [OF _ find_modify [OF assms(4)]]
        by (auto simp: udp_put_body_def Let_def)
    next
      case False
      then show ?thesis using Some assms(3,5) by (auto simp: udp_put_body_def intro!: r(3))
    qed
  qed
qed

lemma put_prints:
  assumes "print_laws js" "prints js j" "db_prints js db" "udp_put js j i db = (resp, db')"
  shows "prints js resp \<and> db_prints js db'"
proof (cases "find_note i db")
  case None
  then show ?thesis using assms(3,4) by (auto simp: udp_put_def intro!: udp_response_prints(3) [OF assms(1)])
next
  case (Some n)
  then have ex: "find_note i db \<noteq> None" by simp
  show ?thesis
  proof (cases "j_find js ''title'' j")
    case None
    then show ?thesis using put_body_prints [OF assms(1-3) ex] Some assms(4) by (simp add: udp_put_def)
  next
    case title: (Some v)
    show ?thesis
    proof (cases "j_is_string js v")
      case True
      have "db_prints js (modify_note i (title_update (\<lambda>_. j_get_string js v)) db)"
        using field_prints [OF assms(1,2) title True] by (intro modify_prints [OF assms(3)] note_update_prints)
      from put_body_prints [OF assms(1,2) this find_modify [OF ex]] show ?thesis
        using Some title True assms(4) by (simp add: udp_put_def)
    next
      case False
      then show ?thesis using Some title assms(3,4)
        by (auto simp: udp_put_def intro!: udp_response_prints(3) [OF assms(1)])
    qed
  qed
qed

lemma post_prints:
  assumes "print_laws js" "prints js j" "db_prints js db" "udp_post js j db = (resp, db')"
  shows "prints js resp \<and> db_prints js db'"
proof (cases "string_field js ''title'' j = None \<or> string_field js ''body'' j = None")
  case True
  then have "resp = udp_error_response js 400 udp_post_fields" "db' = db"
    using assms(4) by (auto simp: udp_post_def string_field_def j_contains_def j_at_def split: option.splits if_splits)
  moreover have "is_ascii udp_post_fields" by (simp add: udp_post_fields_def)
  ultimately show ?thesis using assms(3) udp_response_prints(3) [OF assms(1)] by simp
next
  case False
  then obtain t b where f: "j_find js ''title'' j = Some t" "j_is_string js t" "j_find js ''body'' j = Some b" "j_is_string js b"
    by (auto simp: string_field_def split: option.splits if_splits)
  obtain n db2 where c: "create (j_get_string js t) (j_get_string js b) db = (n, db2)" by fastforce
  have "note_prints js n" "db_prints js db2"
    using create_prints [OF assms(3) _ _ c] field_prints [OF assms(1,2)] f by blast+
  then show ?thesis using f c assms(4) udp_response_prints(1) [OF assms(1)] note_json_prints [OF assms(1)]
    by (auto simp: udp_post_def j_contains_def j_at_def)
qed

lemma udp_handle_prints:
  assumes "print_laws js" "prints js j" "db_prints js db" "udp_handle js m p j db = (resp, db')"
  shows "prints js resp \<and> db_prints js db'"
proof -
  note r = udp_response_prints [OF assms(1)]
  note p = print_lawsD [OF assms(1)]
  have listed: "prints js (j_object js [(''notes'', j_array js (map (note_json js) (all_notes db1)))])"
    if "db_prints js db1" for db1
  proof (rule p(6))
    have "\<forall>x \<in> set (map (note_json js) (all_notes db1)). prints js x"
      using that note_json_prints [OF assms(1)] by (auto simp: db_prints_def all_notes_def)
    from p(5) [OF this] show "\<forall>(k, v) \<in> set [(''notes'', j_array js (map (note_json js) (all_notes db1)))]. is_ascii k \<and> prints js v"
      by simp
  qed
  have deleted: "prints js (j_object js [(''deleted'', j_uint js i)])" for i by (rule p(6)) (simp add: p(1))
  have stats: "prints js (stats_json js ''udp-jsond'' db1)" for db1 by (rule stats_prints [OF assms(1)]) simp
  have err: "prints js (udp_error_response js st msg)" if "is_ascii msg" for st msg using r(3) that .
  have get: "prints js (udp_make_response js 200 (note_json js n))" if "db_prints js db1" "find_note i db1 = Some n" for db1 i n
    using r(1) note_json_prints [OF assms(1)] find_prints [OF that] by blast
  note post_prints [OF assms(1-3)] put_prints [OF assms(1-3)]
  then show ?thesis
    using assms(3,4) erase_prints [OF assms(3)]
    by (auto simp: udp_handle_def Let_def r(1) listed deleted stats err get split: if_splits option.splits prod.splits)
qed

lemma process_prints:
  assumes "print_laws js" "db_prints js db" "\<And>what. j_parse js payload = Inl what \<Longrightarrow> prints js (j_string js what)"
    and "process_datagram js payload db = (resp, db')"
  shows "prints js resp \<and> db_prints js db'"
proof (cases "j_parse js payload")
  case (Inl what)
  have "prints js (j_string js (''invalid JSON: '' @ what))"
  proof (rule print_lawsD(4) [OF assms(1)])
    show "prints js (j_string js ''invalid JSON: '')" by (rule print_lawsD(3) [OF assms(1)]) simp
  qed (rule assms(3) [OF Inl])
  then show ?thesis using Inl assms(2,4) udp_response_prints(2) [OF assms(1)] by (auto simp: process_datagram_def)
next
  case (Inr j)
  have "is_ascii udp_expected" by (simp add: udp_expected_def)
  then show ?thesis
    using Inr assms(2,4) udp_response_prints(3) [OF assms(1)] udp_handle_prints [OF assms(1) print_lawsD(8) [OF assms(1) Inr] assms(2)]
    by (auto simp: process_datagram_def split: if_splits)
qed

text \<open>The answers to what \<^verbatim>\<open>recvfrom\<close> returns.\<close>

fun replies :: "'j json_api \<Rightarrow> (errno + string \<times> 'a) list \<Rightarrow> notes_db \<Rightarrow> ('a \<times> string) list" where
  "replies js [] db = []"
| "replies js (Inl e # rs) db = replies js rs db"
| "replies js (Inr (payload, src) # rs) db =
     (let (resp, db) = process_datagram js payload db
      in (src, the (j_dump js (-1) resp)) # replies js rs db)"

lemma serve_answers:
  assumes "print_laws js" "db_prints js (us_db st)" "us_running st"
  shows "(\<And>payload src what. Inr (payload, src) \<in> set rs \<Longrightarrow> j_parse js payload = Inl what \<Longrightarrow> prints js (j_string js what)) \<Longrightarrow>
      us_running (serve js rs st) \<and> us_sent (serve js rs st) = us_sent st @ replies js rs (us_db st)"
    and "j_parse js payload = Inl what \<Longrightarrow> j_dump js (-1) (udp_error_response js 400 (''invalid JSON: '' @ what)) = None \<Longrightarrow>
      serve js (Inr (payload, src) # rs) st = st\<lparr>us_running := False\<rparr>"
proof -
  show "us_running (serve js rs st) \<and> us_sent (serve js rs st) = us_sent st @ replies js rs (us_db st)"
    if "\<And>payload src what. Inr (payload, src) \<in> set rs \<Longrightarrow> j_parse js payload = Inl what \<Longrightarrow> prints js (j_string js what)"
    using that assms(2,3)
  proof (induction rs arbitrary: st)
    case (Cons r rs)
    have later: "\<And>payload src what. Inr (payload, src) \<in> set rs \<Longrightarrow> j_parse js payload = Inl what \<Longrightarrow> prints js (j_string js what)"
      using Cons(2) by auto
    have ih: "db_prints js (us_db st) \<Longrightarrow> us_running st \<Longrightarrow>
        us_running (serve js rs st) \<and> us_sent (serve js rs st) = us_sent st @ replies js rs (us_db st)" for st
      using Cons(1) later by blast
    show ?case
    proof (cases r)
      case (Inl e)
      then show ?thesis using ih [of st] Cons(3,4) by (simp add: serve_turn_def)
    next
      case (Inr x)
      obtain payload src where x: "x = (payload, src)" by fastforce
      obtain resp db where h: "process_datagram js payload (us_db st) = (resp, db)" by fastforce
      have pr: "prints js resp" "db_prints js db"
        using process_prints [OF assms(1) Cons(3) _ h] Cons(2) [of payload src] Inr x by simp_all
      obtain out where "j_dump js (-1) resp = Some out" using prints_dump [OF pr(1)] by blast
      then show ?thesis
        using ih [of "st\<lparr>us_db := db, us_sent := us_sent st @ [(src, out)]\<rparr>"] pr Inr x h Cons(4)
        by (simp add: serve_turn_def)
    qed
  qed simp
  show "serve js (Inr (payload, src) # rs) st = st\<lparr>us_running := False\<rparr>"
    if "j_parse js payload = Inl what" "j_dump js (-1) (udp_error_response js 400 (''invalid JSON: '' @ what)) = None"
  proof -
    have "serve js rs (st\<lparr>us_running := False\<rparr>) = st\<lparr>us_running := False\<rparr>" by (cases rs) simp_all
    then show ?thesis using that assms(3) by (simp add: serve_turn_def process_datagram_def)
  qed
qed


definition get_datagram :: string where
  "get_datagram = sample_text (SV_object [(''path'', SV_string ''/stats'')])"


end
