(* ===== verification/UdpExamples.thy ===== *)
theory UdpExamples
  imports UdpInv
begin

text \<open>
  The examples of the UDP client, run against the server: from any database they pass exactly if no
  note has the number 9999 that they expect to be missing.
\<close>

subsection \<open>RPCs\<close>

text \<open>What the server sees of a request with the fields \<open>kvs\<close>.\<close>

definition request_is :: "'j json_api \<Rightarrow> 'j \<Rightarrow> string \<Rightarrow> string \<Rightarrow> (string \<times> 'j) list \<Rightarrow> bool" where
  "request_is js req m p kvs \<longleftrightarrow> j_is_object js req \<and> prints js req
     \<and> (\<forall>k. j_find js k req = map_of (kvs @ [(''method'', j_string js m), (''path'', j_string js p)]) k)"

definition fields_ok :: "'j json_api \<Rightarrow> (string \<times> 'j) list \<Rightarrow> bool" where
  "fields_ok js kvs \<longleftrightarrow> distinct (map fst kvs) \<and> map_of kvs ''method'' = None \<and> map_of kvs ''path'' = None
     \<and> (\<forall>(k, v) \<in> set kvs. is_ascii k \<and> prints js v)"

lemma request_fields:
  assumes "value_laws js" "print_laws js" "is_ascii m" "is_ascii p" "fields_ok js kvs"
  shows "request_is js (rpc_request js m p (j_object js kvs)) m p kvs" "request_is js (rpc_request js m p (j_null js)) m p []"
proof -
  note v = value_lawsD [OF assms(1)] and pr = print_lawsD [OF assms(2)]
  let ?req = "j_object js [(''method'', j_string js m), (''path'', j_string js p)]"
  have req: "prints js ?req" by (rule pr(6)) (simp add: pr(3) assms(3,4))
  have "prints js (j_object js kvs)" by (rule pr(6)) (use assms(5) in \<open>simp add: fields_ok_def\<close>)
  then have "prints js (j_update js ?req (j_object js kvs))" by (rule pr(7) [OF req])
  then show "request_is js (rpc_request js m p (j_object js kvs)) m p kvs"
    using assms(5) v(2-5) by (simp add: request_is_def rpc_request_def fields_ok_def map_add_def split: option.splits)
  show "request_is js (rpc_request js m p (j_null js)) m p []"
    using req v(2,3,6) by (simp add: request_is_def rpc_request_def)
qed

lemma rpc_handle:
  assumes "value_laws js" "print_laws js" "db_prints js db"
    and "request_is js (rpc_request js m p b) m p kvs" "map_of kvs ''method'' = None" "map_of kvs ''path'' = None"
    and "udp_handle js m p (rpc_request js m p b) db = (resp, db')"
  shows "rpc js m p b db = (Some (rpc_status js resp, resp), db')" "db_prints js db'"
proof -
  let ?req = "rpc_request js m p b"
  note v = value_lawsD [OF assms(1)]
  have req: "j_is_object js ?req" "prints js ?req" "j_find js ''method'' ?req = Some (j_string js m)"
      "j_find js ''path'' ?req = Some (j_string js p)"
    using assms(4-6) by (simp_all add: request_is_def map_add_def)
  obtain out where out: "j_dump js (-1) ?req = Some out" using prints_dump [OF req(2)] by blast
  have process: "process_datagram js out db = (resp, db')"
    using v(1) [OF out] req assms(7) v(7,8) by (simp add: process_datagram_def j_contains_def j_at_def)
  have pr: "prints js resp" "db_prints js db'" using udp_handle_prints [OF assms(2) req(2) assms(3,7)] by simp_all
  obtain bytes where bytes: "j_dump js (-1) resp = Some bytes" using prints_dump [OF pr(1)] by blast
  show "rpc js m p b db = (Some (rpc_status js resp, resp), db')"
    using out process bytes v(1) [OF bytes] by (simp add: rpc_def)
  show "db_prints js db'" using pr(2) .
qed

text \<open>One example, when the server's answer is known.\<close>

lemma example_step:
  assumes "value_laws js" "print_laws js" "db_prints js db" "is_ascii m" "is_ascii p"
    and "b = j_object js kvs \<or> b = j_null js \<and> kvs = []" "fields_ok js kvs"
    and "\<And>req. request_is js req m p kvs \<Longrightarrow> udp_handle js m p req db = (resp, db')"
  shows "example js m p b status check db = (if rpc_status js resp = status \<and> check resp then Some (resp, db') else None)"
    and "db_prints js db'"
proof -
  have r: "request_is js (rpc_request js m p b) m p kvs"
    using request_fields [OF assms(1,2,4,5,7)] assms(6) by auto
  have none: "map_of kvs ''method'' = None" "map_of kvs ''path'' = None" using assms(7) by (simp_all add: fields_ok_def)
  note h = rpc_handle [OF assms(1-3) r none assms(8) [OF r]]
  show "example js m p b status check db = (if rpc_status js resp = status \<and> check resp then Some (resp, db') else None)"
    using h(1) by (simp add: example_def)
  show "db_prints js db'" using h(2) .
qed

subsection \<open>The handler on the log\<close>

lemma note_json_find:
  assumes "value_laws js"
  shows "j_find js ''id'' (udp_make_response js st (note_json js n)) = Some (j_uint js (note_id n))"
    "j_find js ''title'' (udp_make_response js st (note_json js n)) = Some (j_string js (title n))"
    "j_find js ''body'' (udp_make_response js st (note_json js n)) = Some (j_string js (note_body n))"
  using make_response_find [OF assms] by (simp_all add: note_json_def)

lemma udp_post_log:
  assumes "value_laws js" "log_room l"
    and "request_is js req ''POST'' ''/notes'' [(''title'', j_string js t), (''body'', j_string js b)]"
  shows "udp_handle js ''POST'' ''/notes'' req (log_db l) =
    (udp_make_response js 201 (note_json js (mk_note (length l + 1) (t, b))), log_db (l @ [Some (t, b)]))"
  using assms(3) value_lawsD(7,8) [OF assms(1)] create_log [OF assms(2)]
  by (simp add: udp_handle_def udp_post_def request_is_def j_contains_def j_at_def)

lemma note_path_simps [simp]: "parse_note_id (note_path i) = Some i" "note_path i \<noteq> ''/notes''" "is_ascii (note_path i)"
proof -
  show *: "parse_note_id (note_path i) = Some i" using parse_note_path [of i] by (simp add: note_path_def)
  show "note_path i \<noteq> ''/notes''" using * parse_other_path by (metis option.distinct(1))
  have "is_digit c \<Longrightarrow> of_char c < (128 :: nat)" for c by (simp add: is_digit_def less_eq_char_def)
  then have "is_ascii (to_string n)" for n using to_string_facts(2) [of n] by (simp add: is_ascii_def)
  then show "is_ascii (note_path i)" by (simp add: note_path_def is_ascii_def)
qed

lemma udp_get_log:
  assumes "log_room l" "parse_note_id p = Some i"
  shows "udp_handle js ''GET'' p req (log_db l) =
    (case log_lookup (unat i) l of
       None \<Rightarrow> udp_error_response js 404 ''no such note''
     | Some x \<Rightarrow> udp_make_response js 200 (note_json js (mk_note (unat i) x)), log_db l)"
proof -
  have "p \<noteq> ''/notes''" using assms(2) parse_other_path by (metis option.distinct(1))
  then show ?thesis using assms by (simp add: udp_handle_def find_log split: option.splits)
qed

lemma udp_delete_log:
  assumes "log_room l" "parse_note_id p = Some i"
  shows "udp_handle js ''DELETE'' p req (log_db l) =
    (if log_lookup (unat i) l = None then udp_error_response js 404 ''no such note''
     else udp_make_response js 200 (j_object js [(''deleted'', j_uint js i)]),
     log_db (log_update (unat i) (\<lambda>_. None) l))"
proof -
  have "p \<noteq> ''/notes''" using assms(2) parse_other_path by (metis option.distinct(1))
  then show ?thesis using assms by (simp add: udp_handle_def erase_log)
qed

lemma udp_put_title_log:
  assumes "value_laws js" "log_room l" "log_lookup (unat i) l = Some x"
    and "request_is js req ''PUT'' (note_path i) [(''title'', j_string js t)]"
  shows "udp_handle js ''PUT'' (note_path i) req (log_db l) =
    (udp_make_response js 200 (note_json js (mk_note (unat i) (t, snd x))),
     log_db (log_update (unat i) (map_option (\<lambda>x. (t, snd x))) l))"
proof -
  have ex: "log_lookup (unat i) l \<noteq> None" using assms(3) by simp
  have "log_lookup (unat i) (log_update (unat i) (map_option (\<lambda>x. (t, snd x))) l) = Some (t, snd x)"
    using assms(3) by (auto simp: log_lookup_def log_update_def split: if_splits)
  then have "find_note i (log_db (log_update (unat i) (map_option (\<lambda>x. (t, snd x))) l)) = Some (mk_note (unat i) (t, snd x))"
    using find_log [of "log_update (unat i) (map_option (\<lambda>x. (t, snd x))) l"] assms(2) by simp
  then show ?thesis
    using assms(3,4) value_lawsD(7,8) [OF assms(1)] modify_field_log(1) [OF assms(2) ex, of t] find_log [OF assms(2), of i]
    by (simp add: udp_handle_def udp_put_def udp_put_body_def request_is_def)
qed


lemma log_count: "length (log_notes n (l @ l')) = length (log_notes n l) + length (log_notes (n + length l) l')"
  by (simp add: log_notes_append)

lemma log_notes_length: "length (log_notes n l) \<le> length l"
  by (induction n l rule: log_notes.induct) simp_all

lemma stats_find:
  assumes "value_laws js"
  shows "j_find js ''count'' (udp_make_response js st (stats_json js nm db)) = Some (j_uint js (of_nat (length (db_notes db))))"
    "\<exists>v. j_find js ''server'' (udp_make_response js st (stats_json js nm db)) = Some v
       \<and> j_find js ''name'' v = Some (j_string js nm)"
  using make_response_find [OF assms] value_lawsD(3) [OF assms]
  by (simp_all add: stats_json_def Let_def split: prod.splits)

lemma list_find:
  assumes "value_laws js"
  shows "j_find js ''notes'' (udp_make_response js st (j_object js [(''notes'', v)])) = Some v"
    "j_find js ''deleted'' (udp_make_response js st (j_object js [(''deleted'', v)])) = Some v"
  using make_response_find [OF assms] by simp_all

text \<open>The examples of \<^verbatim>\<open>normal_examples\<close>, each with the log it finds.\<close>

lemma post_example:
  assumes "value_laws js" "print_laws js" "db_prints js (log_db l)" "log_room l" "is_ascii t" "is_ascii b"
    and "check (udp_make_response js 201 (note_json js (mk_note (length l + 1) (t, b))))"
  shows "example js ''POST'' ''/notes'' (note_fields js t b) 201 check (log_db l) =
      Some (udp_make_response js 201 (note_json js (mk_note (length l + 1) (t, b))), log_db (l @ [Some (t, b)]))"
    and "db_prints js (log_db (l @ [Some (t, b)]))"
proof -
  let ?kvs = "[(''title'', j_string js t), (''body'', j_string js b)]"
  have f: "fields_ok js ?kvs" using print_lawsD(3) [OF assms(2)] assms(5,6) by (simp add: fields_ok_def)
  have o: "note_fields js t b = j_object js ?kvs \<or> note_fields js t b = j_null js \<and> ?kvs = []" by (simp add: note_fields_def)
  have a: "is_ascii ''POST''" "is_ascii ''/notes''" by simp_all
  note e = example_step [OF assms(1-3) a o f udp_post_log [OF assms(1,4)]]
  show "example js ''POST'' ''/notes'' (note_fields js t b) 201 check (log_db l) =
      Some (udp_make_response js 201 (note_json js (mk_note (length l + 1) (t, b))), log_db (l @ [Some (t, b)]))"
    using e(1) assms(7) rpc_statuses(1) [OF assms(1)] by simp
  show "db_prints js (log_db (l @ [Some (t, b)]))" using e(2) .
qed

lemma simple_example:
  assumes "value_laws js" "print_laws js" "db_prints js db" "is_ascii m" "is_ascii p"
    and "\<And>req. udp_handle js m p req db = (resp, db')"
  shows "example js m p (j_null js) status check db = (if rpc_status js resp = status \<and> check resp then Some (resp, db') else None)"
    and "db_prints js db'"
proof -
  have f: "fields_ok js []" by (simp add: fields_ok_def)
  have o: "j_null js = j_object js [] \<or> j_null js = j_null js \<and> [] = []" by simp
  note e = example_step [OF assms(1-5) o f assms(6)]
  show "example js m p (j_null js) status check db = (if rpc_status js resp = status \<and> check resp then Some (resp, db') else None)"
    using e(1) .
  show "db_prints js db'" using e(2) .
qed

lemma put_example:
  assumes "value_laws js" "print_laws js" "db_prints js (log_db l)" "log_room l" "log_lookup (unat i) l = Some x" "is_ascii t"
    and "check (udp_make_response js 200 (note_json js (mk_note (unat i) (t, snd x))))"
  shows "example js ''PUT'' (note_path i) (j_object js [(''title'', j_string js t)]) 200 check (log_db l) =
      Some (udp_make_response js 200 (note_json js (mk_note (unat i) (t, snd x))),
            log_db (log_update (unat i) (map_option (\<lambda>x. (t, snd x))) l))"
    and "db_prints js (log_db (log_update (unat i) (map_option (\<lambda>x. (t, snd x))) l))"
proof -
  let ?kvs = "[(''title'', j_string js t)]"
  have f: "fields_ok js ?kvs" using print_lawsD(3) [OF assms(2)] assms(6) by (simp add: fields_ok_def)
  have o: "j_object js ?kvs = j_object js ?kvs \<or> j_object js ?kvs = j_null js \<and> ?kvs = []" by simp
  have a: "is_ascii ''PUT''" by simp
  note e = example_step [OF assms(1-3) a note_path_simps(3) o f udp_put_title_log [OF assms(1,4,5)]]
  show "example js ''PUT'' (note_path i) (j_object js ?kvs) 200 check (log_db l) =
      Some (udp_make_response js 200 (note_json js (mk_note (unat i) (t, snd x))),
            log_db (log_update (unat i) (map_option (\<lambda>x. (t, snd x))) l))"
    using e(1) assms(7) rpc_statuses(1) [OF assms(1)] by simp
  show "db_prints js (log_db (log_update (unat i) (map_option (\<lambda>x. (t, snd x))) l))" using e(2) .
qed

lemma stats_handle:
  "udp_handle js ''GET'' ''/stats'' req db = (udp_make_response js 200 (stats_json js ''udp-jsond'' db), db)"
proof -
  have "parse_note_id ''/stats'' = None" by (simp add: parse_note_id_def note_prefix_def)
  then show ?thesis by (simp add: udp_handle_def)
qed

lemma normal_examples_run:
  assumes laws: "value_laws js" "print_laws js" and room: "length l + 4 < 2 ^ 64" and pr: "db_prints js (log_db l)"
  shows "normal_examples js (log_db l) = Some (log_db (l @ [Some (''renamed'', ''world''), None]))
    \<and> db_prints js (log_db (l @ [Some (''renamed'', ''world''), None]))"
proof -
  define k1 k2 where k: "k1 = (of_nat (length l + 1) :: u64)" "k2 = (of_nat (length l + 2) :: u64)"
  have un: "unat k1 = length l + 1" "unat k2 = length l + 2"
    unfolding k using room by (subst unat_of_nat; simp)+
  have kk: "k2 = k1 + 1" by (simp add: k)
  let ?l1 = "l @ [Some (''hello'', ''world'')]"
  let ?l2 = "l @ [Some (''hello'', ''world''), Some (''second'', ''note'')]"
  let ?l3 = "l @ [Some (''renamed'', ''world''), Some (''second'', ''note'')]"
  let ?l4 = "l @ [Some (''renamed'', ''world''), None]"
  have rooms: "log_room l" "log_room ?l1" "log_room ?l2" "log_room ?l3" "log_room ?l4" using room by (simp_all add: log_room_def)
  note v = value_lawsD [OF laws(1)] and nf = note_json_find [OF laws(1)]
  let ?r1 = "udp_make_response js 201 (note_json js (mk_note (length l + 1) (''hello'', ''world'')))"
  have id1: "j_at js ''id'' ?r1 = j_uint js k1" by (simp add: j_at_def nf mk_note_def k)
  have g1: "j_get_uint js (j_at js ''id'' ?r1) = k1" by (simp only: id1 v(10))
  have c1: "has_field js ''title'' (j_string js ''hello'') ?r1 \<and> has_field js ''body'' (j_string js ''world'') ?r1
      \<and> j_is_uint js (j_at js ''id'' ?r1)"
    by (simp only: id1) (simp add: has_field_def nf mk_note_def v(9))
  have e1: "example js ''POST'' ''/notes'' (note_fields js ''hello'' ''world'') 201
       (\<lambda>r. has_field js ''title'' (j_string js ''hello'') r \<and> has_field js ''body'' (j_string js ''world'') r
          \<and> j_is_uint js (j_at js ''id'' r)) (log_db l) = Some (?r1, log_db ?l1)"
    using c1 by - (rule post_example(1) [OF laws pr rooms(1)]; simp)
  have p1: "db_prints js (log_db ?l1)"
    by (rule post_example(2) [OF laws pr rooms(1), where check = "\<lambda>_. True"]) simp_all
  let ?r2 = "udp_make_response js 201 (note_json js (mk_note (length ?l1 + 1) (''second'', ''note'')))"
  have id2: "j_at js ''id'' ?r2 = j_uint js k2" by (simp add: j_at_def nf mk_note_def k)
  have g2: "j_get_uint js (j_at js ''id'' ?r2) = k2" by (simp only: id2 v(10))
  have l2: "?l1 @ [Some (''second'', ''note'')] = ?l2" by simp
  have e2: "example js ''POST'' ''/notes'' (note_fields js ''second'' ''note'') 201
       (\<lambda>r. j_get_uint js (j_at js ''id'' r) = k1 + 1) (log_db ?l1) = Some (?r2, log_db ?l2)"
    unfolding l2 [symmetric] using g2 kk by - (rule post_example(1) [OF laws p1 rooms(2)]; simp)
  have p2: "db_prints js (log_db ?l2)"
    unfolding l2 [symmetric] by (rule post_example(2) [OF laws p1 rooms(2), where check = "\<lambda>_. True"]) simp_all
  let ?r3 = "udp_make_response js 200 (j_object js [(''notes'', j_array js (map (note_json js) (all_notes (log_db ?l2))))])"
  have len2: "length (all_notes (log_db ?l2)) \<ge> 2" by (simp add: all_notes_def log_db_def log_count)
  have e3: "example js ''GET'' ''/notes'' (j_null js) 200
       (\<lambda>r. j_is_array js (j_at js ''notes'' r) \<and> j_size js (j_at js ''notes'' r) \<ge> 2) (log_db ?l2) = Some (?r3, log_db ?l2)"
    using rpc_statuses(3) [OF laws(1)] len2 v(11,12)
    by (subst simple_example(1) [OF laws p2, where resp = ?r3 and db' = "log_db ?l2"])
      (simp_all add: udp_handle_def j_at_def list_find [OF laws(1)])
  have look1: "log_lookup (unat k1) ?l2 = Some (''hello'', ''world'')" by (simp add: un log_lookup_def)
  let ?r4 = "udp_make_response js 200 (note_json js (mk_note (unat k1) (''hello'', ''world'')))"
  have e4: "example js ''GET'' (note_path k1) (j_null js) 200 (has_field js ''title'' (j_string js ''hello'')) (log_db ?l2)
      = Some (?r4, log_db ?l2)"
    using rpc_statuses(1) [OF laws(1)] look1
    by (subst simple_example(1) [OF laws p2, where resp = ?r4 and db' = "log_db ?l2"])
      (simp_all add: udp_get_log [OF rooms(3)] has_field_def nf mk_note_def)
  let ?r5 = "udp_make_response js 200 (note_json js (mk_note (unat k1) (''renamed'', snd (''hello'', ''world''))))"
  have l3: "log_update (unat k1) (map_option (\<lambda>x. (''renamed'', snd x))) ?l2 = ?l3"
    by (simp add: un log_update_def list_update_append)
  have c5: "has_field js ''title'' (j_string js ''renamed'') ?r5 \<and> has_field js ''body'' (j_string js ''world'') ?r5"
    by (simp add: has_field_def nf mk_note_def)
  have e5: "example js ''PUT'' (note_path k1) (j_object js [(''title'', j_string js ''renamed'')]) 200
       (\<lambda>r. has_field js ''title'' (j_string js ''renamed'') r \<and> has_field js ''body'' (j_string js ''world'') r) (log_db ?l2)
      = Some (?r5, log_db ?l3)"
    unfolding l3 [symmetric] using c5 by - (rule put_example(1) [OF laws p2 rooms(3) look1]; simp)
  have p3: "db_prints js (log_db ?l3)"
    unfolding l3 [symmetric] by (rule put_example(2) [OF laws p2 rooms(3) look1, where check = "\<lambda>_. True"]) simp_all
  define n where "n = length (log_notes 1 l)"
  have count: "length (db_notes (log_db ?l3)) = n + 2" "length (db_notes (log_db ?l4)) = n + 1"
    by (simp_all add: log_db_def log_count n_def)
  have "n + 2 < 2 ^ 64" using log_notes_length [of 1 l] room by (simp add: n_def)
  then have two: "(of_nat (n + 2) :: u64) \<ge> 2" by (simp only: word_le_nat_alt unat_of_nat) simp
  let ?r6 = "udp_make_response js 200 (stats_json js ''udp-jsond'' (log_db ?l3))"
  have g6: "j_get_uint js (j_at js ''count'' ?r6) = of_nat (n + 2)"
    by (simp only: j_at_def stats_find(1) [OF laws(1)] count option.sel v(10))
  have c6: "has_field js ''name'' (j_string js ''udp-jsond'') (j_at js ''server'' ?r6)"
    using stats_find(2) [OF laws(1), of 200 "''udp-jsond''" "log_db ?l3"] by (auto simp: has_field_def j_at_def)
  have e6: "example js ''GET'' ''/stats'' (j_null js) 200
       (\<lambda>r. j_get_uint js (j_at js ''count'' r) \<ge> 2 \<and> has_field js ''name'' (j_string js ''udp-jsond'') (j_at js ''server'' r)) (log_db ?l3)
      = Some (?r6, log_db ?l3)"
    using rpc_statuses(2) [OF laws(1)] c6 two g6
    by (subst simple_example(1) [OF laws p3, where resp = ?r6 and db' = "log_db ?l3"]) (simp_all add: stats_handle)
  have look2: "log_lookup (unat k2) ?l3 = Some (''second'', ''note'')" by (simp add: un log_lookup_def nth_append)
  have l4: "log_update (unat k2) (\<lambda>_. None) ?l3 = ?l4" by (simp add: un log_update_def list_update_append)
  let ?r7 = "udp_make_response js 200 (j_object js [(''deleted'', j_uint js k2)])"
  have h7: "udp_handle js ''DELETE'' (note_path k2) req (log_db ?l3) = (?r7, log_db ?l4)" for req
    using look2 by (simp add: udp_delete_log [OF rooms(4)] l4)
  have e7: "example js ''DELETE'' (note_path k2) (j_null js) 200 (has_field js ''deleted'' (j_uint js k2)) (log_db ?l3)
      = Some (?r7, log_db ?l4)"
    using rpc_statuses(4) [OF laws(1)] list_find(2) [OF laws(1)]
    by (subst simple_example(1) [OF laws p3 _ _ h7]) (simp_all add: has_field_def)
  have p4: "db_prints js (log_db ?l4)" by (rule simple_example(2) [OF laws p3 _ _ h7]) simp_all
  let ?r8 = "udp_make_response js 200 (stats_json js ''udp-jsond'' (log_db ?l4))"
  have g8: "j_get_uint js (j_at js ''count'' ?r8) = of_nat (n + 2) - 1"
    by (simp only: j_at_def stats_find(1) [OF laws(1)] count option.sel v(10)) simp
  have e8: "example js ''GET'' ''/stats'' (j_null js) 200 (\<lambda>r. j_get_uint js (j_at js ''count'' r) = of_nat (n + 2) - 1) (log_db ?l4)
      = Some (?r8, log_db ?l4)"
    using rpc_statuses(2) [OF laws(1)] g8
    by (subst simple_example(1) [OF laws p4, where resp = ?r8 and db' = "log_db ?l4"]) (simp_all add: stats_handle)
  show ?thesis
    unfolding normal_examples_def
    by (simp only: e1 bind.bind_lunit prod.case Let_def g1 e2 g2 e3 e4 e5 e6 g6 e7 e8 p4 simp_thms)
qed


lemma error_examples_run:
  assumes laws: "value_laws js" "print_laws js" and room: "log_room l" and pr: "db_prints js (log_db l)"
  shows "error_examples js (log_db l) = (if log_lookup 9999 l = None then Some (log_db l) else None)"
proof -
  have "to_string (unat (9999 :: u64)) = ''9999''" by (simp add: to_string.simps) code_simp
  then have path: "parse_note_id ''/notes/9999'' = Some 9999" using parse_note_path [of 9999] by simp
  note step = simple_example(1) [OF laws pr] and st = rpc_statuses [OF laws(1)]
  have missing: "parse_note_id ''/unknown'' = None" by (simp add: parse_note_id_def note_prefix_def)
  have e1: "example js ''GET'' ''/notes/9999'' (j_null js) 404 (\<lambda>_. True) (log_db l)
      = (if log_lookup 9999 l = None then Some (udp_error_response js 404 ''no such note'', log_db l) else None)"
    using st by (subst step [OF _ _ udp_get_log [OF room path]]) (auto split: option.splits)
  have e2: "example js ''GET'' ''/unknown'' (j_null js) 404 (\<lambda>_. True) (log_db l)
      = Some (udp_error_response js 404 ''no such route'', log_db l)"
    using st by (subst step [where resp = "udp_error_response js 404 ''no such route''" and db' = "log_db l"])
      (simp_all add: udp_handle_def missing)
  have e3: "example js ''PATCH'' ''/notes'' (j_null js) 405 (\<lambda>_. True) (log_db l)
      = Some (udp_error_response js 405 ''method not allowed on /notes'', log_db l)"
    using st by (subst step [where resp = "udp_error_response js 405 ''method not allowed on /notes''" and db' = "log_db l"])
      (simp_all add: udp_handle_def)
  have e4: "example js ''POST'' ''/notes'' (j_object js [(''title'', j_string js ''x'')]) 400 (\<lambda>_. True) (log_db l)
      = Some (udp_error_response js 400 udp_post_fields, log_db l)"
  proof -
    let ?kvs = "[(''title'', j_string js ''x'')]"
    have f: "fields_ok js ?kvs" using print_lawsD(3) [OF laws(2)] by (simp add: fields_ok_def)
    have o: "j_object js ?kvs = j_object js ?kvs \<or> j_object js ?kvs = j_null js \<and> ?kvs = []" by simp
    have h: "udp_handle js ''POST'' ''/notes'' req (log_db l) = (udp_error_response js 400 udp_post_fields, log_db l)"
      if "request_is js req ''POST'' ''/notes'' ?kvs" for req
      using that by (simp add: udp_handle_def udp_post_def request_is_def j_contains_def)
    have a: "is_ascii ''POST''" "is_ascii ''/notes''" by simp_all
    show ?thesis using example_step(1) [OF laws pr a o f h] st by simp
  qed
  have e5: "example js ''DELETE'' ''/notes/9999'' (j_null js) 404 (\<lambda>_. True) (log_db l)
      = Some (udp_error_response js 404 ''no such note'', log_db l)" if "log_lookup 9999 l = None"
  proof -
    have "log_update 9999 (\<lambda>_. None) l = l"
      using log_update_none [OF that, of id] that by (auto simp: log_update_def log_lookup_def split: if_splits)
    then have h: "udp_handle js ''DELETE'' ''/notes/9999'' req (log_db l) = (udp_error_response js 404 ''no such note'', log_db l)" for req
      using udp_delete_log [OF room path, of js req] that by simp
    then show ?thesis using st by (subst step [OF _ _ h]) simp_all
  qed
  show ?thesis
    unfolding error_examples_def using e5
    by (simp add: e1 e2 e3 e4)
qed

text \<open>
  Whatever notes the server has (and fewer than \<open>2\<^sup>6\<^sup>4 - 4\<close> were ever created), all assertions of the
  client's examples hold, unless there is a note 9999 or the first example makes it: the error
  examples expect it to be missing. The examples leave one note behind.
\<close>

theorem udp_examples_pass:
  assumes "value_laws js" "print_laws js" "length l + 4 < 2 ^ 64" "db_prints js (log_db l)"
  shows "client_examples js (log_db l) =
    (if log_lookup 9999 l = None \<and> length l + 1 \<noteq> 9999
     then Some (log_db (l @ [Some (''renamed'', ''world''), None])) else None)"
proof -
  let ?l = "l @ [Some (''renamed'', ''world''), None]"
  have room: "log_room ?l" using assms(3) by (simp add: log_room_def)
  have "log_lookup 9999 ?l = None \<longleftrightarrow> log_lookup 9999 l = None \<and> length l + 1 \<noteq> 9999"
    by (auto simp: log_lookup_def nth_append nth_Cons' split: if_splits)
  then show ?thesis
    using normal_examples_run [OF assms] error_examples_run [OF assms(1,2) room] by (auto simp: client_examples_def)
qed

lemma udp_examples_pass_witness:
  "client_examples sample_json notes_db_new = Some (log_db [Some (''renamed'', ''world''), None])"
proof -
  have pr: "db_prints sample_json (log_db [])" by (simp add: db_prints_def log_db_def)
  have len: "length [] + 4 < (2 :: nat) ^ 64" by simp
  from udp_examples_pass [OF sample_value_laws sample_print_laws len pr] show ?thesis
    by (simp add: log_db_new log_lookup_def)
qed

end
