(* ===== verification/RpcGame.thy ===== *)
theory RpcGame
  imports Notes MessageStream
begin

text \<open>
  The RPC game (\<^verbatim>\<open>examples/rpcgame.hh\<close>, \<^verbatim>\<open>rpcg-client.cc\<close>, \<^verbatim>\<open>clientstub.cc\<close>, \<^verbatim>\<open>rpcg-server.cc\<close>,
  \<^verbatim>\<open>serverstub.cc\<close>): a client sends numbered tries over a message stream, the server answers each with a
  number, and at the end both compare checksums of everything that was sent and answered.

  XXH3 is not part of the repository: its streaming state and its functions are arguments. Both hosts are
  little-endian.
\<close>

subsection \<open>Numbers in messages and checksums\<close>

record 's xxh =
  xxh_reset :: 's
  xxh_update :: "'s \<Rightarrow> string \<Rightarrow> 's"
  xxh_digest :: "'s \<Rightarrow> u64"
  xxh_64bits :: "string \<Rightarrow> u64"

definition store64 :: "u64 \<Rightarrow> string" where
  "store64 w = map (\<lambda>k. char_of (unat w div 256 ^ k mod 256)) [0..<8]"

definition load64 :: "string \<Rightarrow> u64" where
  "load64 bs = of_nat (\<Sum>k<8. of_char (bs ! k) * 256 ^ k)"

definition update_uint64 :: "'s xxh \<Rightarrow> 's \<Rightarrow> u64 \<Rightarrow> 's" where
  "update_uint64 xx ctx v = xxh_update xx ctx (store64 v)"

text \<open>\<^verbatim>\<open>std::format("{:016x}", digest)\<close>.\<close>

definition hex_digit :: "nat \<Rightarrow> char" where
  "hex_digit d = (if d < 10 then char_of (48 + d) else char_of (87 + d))"

definition hexdigest :: "'s xxh \<Rightarrow> 's \<Rightarrow> string" where
  "hexdigest xx ctx = map (\<lambda>k. hex_digit (unat (xxh_digest xx ctx) div 16 ^ (15 - k) mod 16)) [0..<16]"

text \<open>What a call does: it returns, an assertion fails, or the thread waits and nobody can wake it.\<close>

datatype 'a outcome = Returns 'a | Aborts | Blocks

subsection \<open>The server's game\<close>

record 's rpc_server =
  srv_ctx0 :: 's
  srv_ctx1 :: 's
  srv_count :: u64
  srv_want :: u64
  srv_done :: bool

definition rpc_server_new :: "'s xxh \<Rightarrow> 's rpc_server" where
  "rpc_server_new xx = \<lparr>srv_ctx0 = xxh_reset xx, srv_ctx1 = xxh_reset xx, srv_count = 0, srv_want = 1, srv_done = False\<rparr>"

text \<open>The server has one thread, so a wait for another serial number does not end.\<close>

definition process_try :: "'s xxh \<Rightarrow> u64 \<Rightarrow> string \<Rightarrow> u64 \<Rightarrow> 's rpc_server \<Rightarrow> (u64 \<times> 's rpc_server) outcome" where
  "process_try xx serial nm v s =
     (if serial \<noteq> srv_want s then Blocks
      else
        let s = s\<lparr>srv_want := srv_want s + 1\<rparr>
        in if srv_done s then Aborts
           else
             let s = s\<lparr>srv_ctx0 := xxh_update xx (srv_ctx0 s) nm\<rparr>;
                 s = s\<lparr>srv_ctx0 := update_uint64 xx (srv_ctx0 s) v\<rparr>;
                 response = xxh_64bits xx nm + v + srv_count s;
                 s = s\<lparr>srv_count := srv_count s + 1\<rparr>;
                 s = s\<lparr>srv_ctx1 := update_uint64 xx (srv_ctx1 s) response\<rparr>
             in Returns (response, s))"

definition server_checksums :: "'s xxh \<Rightarrow> 's rpc_server \<Rightarrow> string \<times> 's rpc_server" where
  "server_checksums xx s = (hexdigest xx (srv_ctx0 s) @ '' '' @ hexdigest xx (srv_ctx1 s), s\<lparr>srv_done := True\<rparr>)"

text \<open>\<^verbatim>\<open>handle_try\<close>, up to the reply that it sends.\<close>

definition handle_try :: "'s xxh \<Rightarrow> string \<Rightarrow> 's rpc_server \<Rightarrow> (string \<times> 's rpc_server) outcome" where
  "handle_try xx m s =
     (if length m \<le> 16 then Aborts
      else case process_try xx (load64 (take 8 m)) (drop 16 m) (load64 (take 8 (drop 8 m))) s of
             Returns (v, s) \<Rightarrow> Returns (store64 v, s)
           | Aborts \<Rightarrow> Aborts
           | Blocks \<Rightarrow> Blocks)"

text \<open>One turn of the server's loop on a message: the reply, and whether the loop goes on.\<close>

definition server_turn :: "'s xxh \<Rightarrow> string \<Rightarrow> 's rpc_server \<Rightarrow> (string \<times> bool \<times> 's rpc_server) outcome" where
  "server_turn xx m s =
     (if m = [] then (let (c, s) = server_checksums xx s in Returns (c, False, s))
      else case handle_try xx m s of
             Returns (r, s) \<Rightarrow> Returns (r, True, s)
           | Aborts \<Rightarrow> Aborts
           | Blocks \<Rightarrow> Blocks)"

subsection \<open>The client's game\<close>

text \<open>
  The lines of the input file: a name, a comma and a number, and anything up to the end of the line.
  A line without a comma or a number is skipped.
\<close>

definition line_end :: char where "line_end = CHR 0x0A"

lemma line_shorter:
  assumes "dropWhile P s \<noteq> []"
  shows "length (List.tl (dropWhile P s)) < length s"
    "length (List.tl (dropWhile Q (drop n (List.tl (dropWhile P s))))) < length s"
proof -
  have "length (dropWhile P s) > 0" using assms by (rule length_greater_0_conv [THEN iffD2])
  moreover have "length (dropWhile P s) \<le> length s" by (rule length_dropWhile_le)
  moreover have "length (dropWhile Q (drop n (List.tl (dropWhile P s)))) \<le> length (drop n (List.tl (dropWhile P s)))"
    by (rule length_dropWhile_le)
  ultimately show "length (List.tl (dropWhile P s)) < length s"
    "length (List.tl (dropWhile Q (drop n (List.tl (dropWhile P s))))) < length s"
    unfolding length_tl length_drop by linarith+
qed

function parse_inputs :: "string \<Rightarrow> (string \<times> u64) list" where
  "parse_inputs s =
     (let nm = takeWhile (\<lambda>c. c \<noteq> line_end \<and> c \<noteq> CHR '','') s;
          r = dropWhile (\<lambda>c. c \<noteq> line_end \<and> c \<noteq> CHR '','') s
      in if r = [] then []
         else if List.hd r = line_end then parse_inputs (List.tl r)
         else (case from_chars (List.tl r) of
                 (next, ec, v) \<Rightarrow>
                   let rest = dropWhile (\<lambda>c. c \<noteq> line_end) (drop next (List.tl r));
                       later = parse_inputs (List.tl rest)
                   in (case (ec, v) of (Errc_none, Some v) \<Rightarrow> (nm, v) # later | _ \<Rightarrow> later)))"
  by pat_completeness auto

termination
  by (relation "measure length")
    (simp_all add: line_shorter del: dropWhile_eq_Nil_conv length_tl)

declare parse_inputs.simps [simp del]

record 's rpc_client =
  cl_inputs :: "(string \<times> u64) list"
  cl_index :: nat
  cl_ctx0 :: 's
  cl_ctx1 :: 's
  cl_done :: bool
  cl_serial :: u64

definition rpc_client_new :: "'s xxh \<Rightarrow> string \<Rightarrow> 's rpc_client" where
  "rpc_client_new xx file = \<lparr>cl_inputs = parse_inputs file, cl_index = 0, cl_ctx0 = xxh_reset xx, cl_ctx1 = xxh_reset xx,
     cl_done = False, cl_serial = 1\<rparr>"

text \<open>\<^verbatim>\<open>send_try\<close> up to its \<^verbatim>\<open>send\<close>: the message. \<^verbatim>\<open>BUFSIZ\<close> of the C library is an argument.\<close>

definition send_try :: "nat \<Rightarrow> string \<Rightarrow> u64 \<Rightarrow> 's rpc_client \<Rightarrow> (string \<times> 's rpc_client) outcome" where
  "send_try bufsiz nm v c =
     (if length nm + 16 > 8 * bufsiz then Aborts
      else Returns (store64 (cl_serial c) @ store64 v @ nm, c\<lparr>cl_serial := cl_serial c + 1\<rparr>))"

text \<open>One iteration of \<^verbatim>\<open>run\<close>. Without inputs it reads past the end of the vector.\<close>

definition run_turn :: "'s xxh \<Rightarrow> nat \<Rightarrow> 's rpc_client \<Rightarrow> (string \<times> 's rpc_client) outcome" where
  "run_turn xx bufsiz c =
     (if cl_done c \<or> cl_index c \<ge> length (cl_inputs c) then Aborts
      else
        let (nm, v) = cl_inputs c ! cl_index c;
            c = c\<lparr>cl_index := cl_index c + 1\<rparr>;
            c = (if cl_index c = length (cl_inputs c) then c\<lparr>cl_index := 0\<rparr> else c);
            c = c\<lparr>cl_ctx0 := xxh_update xx (cl_ctx0 c) nm\<rparr>;
            c = c\<lparr>cl_ctx0 := update_uint64 xx (cl_ctx0 c) v\<rparr>
        in send_try bufsiz nm v c)"

text \<open>The rest of \<^verbatim>\<open>send_try\<close>, when it has received a message.\<close>

definition process_response :: "'s xxh \<Rightarrow> string \<Rightarrow> 's rpc_client \<Rightarrow> 's rpc_client outcome" where
  "process_response xx m c =
     (if length m \<noteq> 8 \<or> cl_done c then Aborts
      else Returns (c\<lparr>cl_ctx1 := update_uint64 xx (cl_ctx1 c) (load64 m)\<rparr>))"

text \<open>The rest of \<^verbatim>\<open>finish\<close>: whether the checksums match.\<close>

definition finish_response :: "'s xxh \<Rightarrow> string \<Rightarrow> 's rpc_client \<Rightarrow> (bool \<times> 's rpc_client) outcome" where
  "finish_response xx m c =
     (if CHR '' '' \<notin> set m then Aborts
      else
        let s_client = takeWhile (\<lambda>x. x \<noteq> CHR '' '') m;
            s_server = drop (length s_client + 1) m
        in Returns (hexdigest xx (cl_ctx0 c) = s_client \<and> hexdigest xx (cl_ctx1 c) = s_server, c\<lparr>cl_done := True\<rparr>))"

subsection \<open>Client and server on a connection\<close>

text \<open>
  The two directions of the connection are two links. Coroutines of the client that wait for the lock
  of the sending stream are in \<open>g_sends\<close>, with their message; those that have sent and wait for the lock of
  the receiving stream or for a message are in \<open>g_recvs\<close>; both locks are first come, first served. A
  coroutine is one of \<^verbatim>\<open>send_try\<close> or that of \<^verbatim>\<open>finish\<close>. \<open>g_fault\<close> is set when an assertion
  fails or the server blocks.
\<close>

datatype call_kind = Call_try | Call_finish

datatype server_point = At_recv | At_send bool | At_end

record 's game =
  g_up :: stream_link
  g_down :: stream_link
  g_client :: "'s rpc_client"
  g_server :: "'s rpc_server"
  g_point :: server_point
  g_finishing :: bool
  g_sends :: "(string \<times> call_kind) list"
  g_recvs :: "call_kind list"
  g_match :: "bool option"
  g_fault :: bool

definition game_new :: "'s xxh \<Rightarrow> string \<Rightarrow> 's game" where
  "game_new xx file = \<lparr>g_up = link_new True True, g_down = link_new True True, g_client = rpc_client_new xx file,
     g_server = rpc_server_new xx, g_point = At_recv, g_finishing = False, g_sends = [], g_recvs = [],
     g_match = None, g_fault = False\<rparr>"

text \<open>What a \<^verbatim>\<open>recv\<close> that has returned gave: a message, or an empty one at the end of the stream.\<close>

definition got_message :: "stream_link \<Rightarrow> stream_link \<Rightarrow> string option" where
  "got_message old new =
     (if rx_client new then None
      else if length (received new) > length (received old) then Some (last (received new))
      else Some [])"

text \<open>The first client coroutine has sent its message if its \<^verbatim>\<open>send\<close> has returned; then it calls \<^verbatim>\<open>recv\<close>.\<close>

definition client_sent :: "stream_link \<Rightarrow> 's game \<Rightarrow> 's game" where
  "client_sent new g =
     (if tx_client new = None
      then g\<lparr>g_up := new, g_sends := List.tl (g_sends g), g_recvs := g_recvs g @ [snd (List.hd (g_sends g))]\<rparr>
      else g\<lparr>g_up := new\<rparr>)"

text \<open>The server got a message: it replies, and waits there if the \<^verbatim>\<open>send\<close> waits.\<close>

definition server_replied :: "bool \<Rightarrow> stream_link \<Rightarrow> 's game \<Rightarrow> 's game" where
  "server_replied again new g =
     g\<lparr>g_down := new, g_point := (if tx_client new \<noteq> None then At_send again else if again then At_recv else At_end)\<rparr>"

definition server_got :: "'s xxh \<Rightarrow> stream_link \<Rightarrow> 's game \<Rightarrow> 's game option" where
  "server_got xx new g =
     (case got_message (g_up g) new of
        None \<Rightarrow> Some (g\<lparr>g_up := new\<rparr>)
      | Some m \<Rightarrow>
          (case server_turn xx m (g_server g) of
             Returns (r, again, s) \<Rightarrow>
               map_option (\<lambda>d. server_replied again d (g\<lparr>g_up := new, g_server := s\<rparr>)) (link_step (Call_send r) (g_down g))
           | _ \<Rightarrow> Some (g\<lparr>g_up := new, g_fault := True\<rparr>)))"

text \<open>The first client coroutine that receives got a message.\<close>

definition client_got :: "'s xxh \<Rightarrow> stream_link \<Rightarrow> 's game \<Rightarrow> 's game" where
  "client_got xx new g =
     (case got_message (g_down g) new of
        None \<Rightarrow> g\<lparr>g_down := new\<rparr>
      | Some m \<Rightarrow>
          let g' = g\<lparr>g_down := new, g_recvs := List.tl (g_recvs g)\<rparr>
          in (case List.hd (g_recvs g) of
                Call_try \<Rightarrow>
                  (case process_response xx m (g_client g) of
                     Returns c \<Rightarrow> g'\<lparr>g_client := c\<rparr>
                   | _ \<Rightarrow> g'\<lparr>g_fault := True\<rparr>)
              | Call_finish \<Rightarrow>
                  (case finish_response xx m (g_client g) of
                     Returns (b, c) \<Rightarrow> g'\<lparr>g_client := c, g_match := Some b\<rparr>
                   | _ \<Rightarrow> g'\<lparr>g_fault := True\<rparr>)))"

datatype game_choice =
    Client_try | Client_finish
  | Client_send | Client_resume_send | Client_recv | Client_resume_recv
  | Server_recv | Server_resume_recv | Server_resume_send
  | Stream_up link_choice | Stream_down link_choice

text \<open>The writer and reader loops of the streams.\<close>

fun loop_choice :: "link_choice \<Rightarrow> bool" where
  "loop_choice (Run_writer f rv e) = True"
| "loop_choice (Run_reader f r) = True"
| "loop_choice _ = False"

text \<open>One step; \<open>None\<close> if it cannot happen now.\<close>

definition game_step :: "'s xxh \<Rightarrow> nat \<Rightarrow> game_choice \<Rightarrow> 's game \<Rightarrow> 's game option" where
  "game_step xx bufsiz ch g =
     (if g_fault g then None
      else case ch of
        Client_try \<Rightarrow>
          if g_finishing g then None
          else (case run_turn xx bufsiz (g_client g) of
                  Returns (m, c) \<Rightarrow> Some (g\<lparr>g_client := c, g_sends := g_sends g @ [(m, Call_try)]\<rparr>)
                | _ \<Rightarrow> Some (g\<lparr>g_fault := True\<rparr>))
      | Client_finish \<Rightarrow>
          if g_finishing g then None
          else Some (g\<lparr>g_finishing := True, g_sends := g_sends g @ [([], Call_finish)]\<rparr>)
      | Client_send \<Rightarrow>
          if g_sends g = [] then None
          else map_option (\<lambda>l. client_sent l g) (link_step (Call_send (fst (List.hd (g_sends g)))) (g_up g))
      | Client_resume_send \<Rightarrow> map_option (\<lambda>l. client_sent l g) (link_step Resume_send (g_up g))
      | Client_recv \<Rightarrow>
          if g_recvs g = [] then None else map_option (\<lambda>l. client_got xx l g) (link_step Call_recv (g_down g))
      | Client_resume_recv \<Rightarrow> map_option (\<lambda>l. client_got xx l g) (link_step Resume_recv (g_down g))
      | Server_recv \<Rightarrow>
          if g_point g \<noteq> At_recv then None
          else (case link_step Call_recv (g_up g) of None \<Rightarrow> None | Some l \<Rightarrow> server_got xx l g)
      | Server_resume_recv \<Rightarrow>
          if g_point g \<noteq> At_recv then None
          else (case link_step Resume_recv (g_up g) of None \<Rightarrow> None | Some l \<Rightarrow> server_got xx l g)
      | Server_resume_send \<Rightarrow>
          (case g_point g of
             At_send again \<Rightarrow> map_option (\<lambda>l. server_replied again l g) (link_step Resume_send (g_down g))
           | _ \<Rightarrow> None)
      | Stream_up ch \<Rightarrow>
          if loop_choice ch then map_option (\<lambda>l. g\<lparr>g_up := l\<rparr>) (link_step ch (g_up g)) else None
      | Stream_down ch \<Rightarrow>
          if loop_choice ch then map_option (\<lambda>l. g\<lparr>g_down := l\<rparr>) (link_step ch (g_down g)) else None)"

fun game_run :: "'s xxh \<Rightarrow> nat \<Rightarrow> game_choice list \<Rightarrow> 's game \<Rightarrow> 's game option" where
  "game_run xx bufsiz [] g = Some g"
| "game_run xx bufsiz (ch # chs) g =
     (case game_step xx bufsiz ch g of None \<Rightarrow> None | Some g \<Rightarrow> game_run xx bufsiz chs g)"

end
