(* ===== verification/RpcGameInv.thy ===== *)
theory RpcGameInv
  imports RpcGame MessageStreamInv
begin

text \<open>
  The RPC game on streams whose descriptors work: no assertion fails, the server never waits for
  another serial number, every reply is the one to its try, and the checksums match at the end.
\<close>

subsection \<open>Numbers in messages\<close>

lemma digits_sum: "(\<Sum>k<m. (n div b ^ k mod b) * b ^ k) = (n mod b ^ m :: nat)"
proof (induction m)
  case 0
  then show ?case by simp
next
  case (Suc m)
  have "n mod b ^ Suc m = b ^ m * (n div b ^ m mod b) + n mod b ^ m"
    using mod_mult2_eq [of n "b ^ m" b] by (simp add: mult.commute)
  then show ?case using Suc by (simp add: mult.commute)
qed

lemma length_store64 [simp]: "length (store64 w) = 8"
  by (simp add: store64_def)

lemma load_store64 [simp]: "load64 (store64 w) = w"
proof -
  have "(\<Sum>k<8. of_char (store64 w ! k) * 256 ^ k) = (\<Sum>k<8. (unat w div 256 ^ k mod 256) * 256 ^ k)"
    by (rule sum.cong) (simp_all add: store64_def)
  also have "\<dots> = unat w"
    using digits_sum [of "unat w" 256 8] unsigned_less [of w, where ?'a = nat] by simp
  finally show ?thesis by (simp add: load64_def)
qed

lemma hexdigest_no_space: "CHR '' '' \<notin> set (hexdigest xx ctx)"
proof -
  have "list_all (\<lambda>d. hex_digit d \<noteq> CHR '' '') [0..<16]" by code_simp
  then have "hex_digit d \<noteq> CHR '' ''" if "d < 16" for d using that by (auto simp: list_all_iff)
  then show ?thesis by (auto simp: hexdigest_def) (metis mod_less_divisor zero_less_numeral)
qed

subsection \<open>Streams that work\<close>

definition live :: "stream_link \<Rightarrow> bool" where
  "live l \<longleftrightarrow> link_inv l \<and> short_client l \<and> ms_status (tx l) = Status_running \<and> ms_status (rx l) = Status_running"

lemma live_new: "live (link_new True True)"
  using link_new_inv [of True True] by (simp add: live_def) (simp add: link_new_def message_stream_new_def)

lemma live_received:
  assumes "live l"
  shows "\<exists>rest. sent l = received l @ rest"
  using assms by (auto simp: live_def link_inv_def)

lemma grow_status:
  assumes "ms_ok st" "put_message m st = Some p"
  shows "ms_status p = ms_status st"
  using put_message_ok [OF assms(1), of m] assms(2) by auto

lemma live_send:
  assumes "live l" "length m + 4 < 2 ^ 32" "link_step ch l = Some l'"
    "ch = Call_send m \<or> ch = Resume_send \<and> tx_client l = Some m"
  shows "live l' \<and> received l' = received l \<and> rx_client l' = rx_client l
    \<and> (if tx_client l' = None then sent l' = sent l @ [m] else tx_client l' = Some m \<and> sent l' = sent l)"
proof -
  have tx: "tx_ok (tx l)" using assms(1) by (simp add: live_def link_inv_def)
  have s: "link_send m l = Some l'" using assms(3,4) by (auto simp: link_step_def split: if_splits)
  have "short_calls [ch]" using assms(2,4) by (auto simp: short_calls_def)
  then have "link_inv l' \<and> short_client l'"
    using assms(1,3) link_step_ok link_step_short by (metis live_def short_client_def)
  moreover obtain r st where st: "stream_send m (tx l) = Some (r, st)" using stream_send_ok [OF tx] by blast
  moreover have "r \<noteq> Send_epipe" "ms_status st = Status_running"
    using st assms(1) tx grow_status [of "tx l" m]
    by (auto simp: stream_send_def live_def tx_ok_def split: if_splits)
  ultimately show ?thesis using s assms(1) by (cases r) (auto simp: link_send_def live_def)
qed

lemma live_recv:
  assumes "live l" "link_step ch l = Some l'" "ch = Call_recv \<or> ch = Resume_recv"
  shows "live l' \<and> sent l' = sent l \<and> tx_client l' = tx_client l
    \<and> (if rx_client l' then received l' = received l
       else \<exists>m rest. received l' = received l @ [m] \<and> sent l = received l @ m # rest)"
proof -
  have l': "l' = link_recv l" using assms(2,3) by (auto simp: link_step_def split: if_splits)
  have "short_calls [ch]" using assms(3) by (auto simp: short_calls_def)
  then have inv: "link_inv l'" "short_client l'"
    using assms(1,2) link_step_ok link_step_short by (metis live_def short_client_def)+
  obtain rest where rest: "sent l = received l @ rest" "frames rest = stored (rx l) @ in_transit l @ stored (tx l)"
    using assms(1) by (auto simp: live_def link_inv_def)
  have short: "\<forall>m \<in> set rest. length m + 4 < 2 ^ 32"
    using assms(1) rest(1) by (simp add: live_def short_client_def short_messages_def)
  obtain r st where r: "stream_recv (rx l) = (r, st)" by fastforce
  have "rx_ok (rx l)" using assms(1) by (simp add: live_def link_inv_def)
  note ok = stream_recv_ok [OF this rest(2) [symmetric] short r]
  have "r \<noteq> Recv_end" "ms_status st = Status_running"
    using r assms(1) by (auto simp: stream_recv_def Let_def live_def split: if_splits)
  then show ?thesis using inv ok r rest(1) assms(1) l' by (cases r) (auto simp: link_recv_def live_def)
qed

text \<open>The kernel takes some bytes, gives some bytes, or asks to be called again.\<close>

fun kernel_works :: "link_choice \<Rightarrow> bool" where
  "kernel_works (Run_writer f rv e) = (f \<and> (rv > 0 \<or> retry e))"
| "kernel_works (Run_reader f (Inl e)) = (f \<and> retry e)"
| "kernel_works (Run_reader f (Inr k)) = (f \<and> k > 0)"
| "kernel_works _ = True"

lemma live_loop:
  assumes "live l" "link_step ch l = Some l'" "loop_choice ch" "kernel_works ch"
  shows "live l' \<and> sent l' = sent l \<and> received l' = received l \<and> tx_client l' = tx_client l \<and> rx_client l' = rx_client l"
proof -
  have "short_calls [ch]" using assms(3) by (cases ch) (auto simp: short_calls_def)
  then have inv: "link_inv l'" "short_client l'"
    using assms(1,2) link_step_ok link_step_short by (metis live_def short_client_def)+
  have st: "ms_status (tx l) = Status_running" "ms_status (rx l) = Status_running" using assms(1) by (simp_all add: live_def)
  have space: "ms_status (reader_space (rx l)) = Status_running"
    using st by (simp add: reader_space_def double_buffer_def Let_def)
  show ?thesis
  proof (cases ch)
    case (Run_writer f rv e)
    then show ?thesis using assms(2,4) inv st
      by (auto simp: live_def link_step_def writer_turn_def Let_def split: if_splits)
  next
    case (Run_reader f r)
    then show ?thesis using assms(2,4) inv st space
      by (cases r) (auto simp: live_def link_step_def reader_turn_def Let_def split: if_splits)
  qed (use assms(3) in auto)
qed

subsection \<open>What the game should do\<close>

definition try_input :: "(string \<times> u64) list \<Rightarrow> nat \<Rightarrow> string \<times> u64" where
  "try_input inputs i = inputs ! (i mod length inputs)"

definition try_reply :: "'s xxh \<Rightarrow> (string \<times> u64) list \<Rightarrow> nat \<Rightarrow> u64" where
  "try_reply xx inputs i = xxh_64bits xx (fst (try_input inputs i)) + snd (try_input inputs i) + of_nat i"

primrec asked :: "'s xxh \<Rightarrow> (string \<times> u64) list \<Rightarrow> nat \<Rightarrow> 's" where
  "asked xx inputs 0 = xxh_reset xx"
| "asked xx inputs (Suc i) =
     update_uint64 xx (xxh_update xx (asked xx inputs i) (fst (try_input inputs i))) (snd (try_input inputs i))"

primrec answered :: "'s xxh \<Rightarrow> (string \<times> u64) list \<Rightarrow> nat \<Rightarrow> 's" where
  "answered xx inputs 0 = xxh_reset xx"
| "answered xx inputs (Suc i) = update_uint64 xx (answered xx inputs i) (try_reply xx inputs i)"

text \<open>The message, its reply and its coroutine at a position, when the client makes \<open>n\<close> tries.\<close>

definition request_at :: "(string \<times> u64) list \<Rightarrow> nat \<Rightarrow> nat \<Rightarrow> string" where
  "request_at inputs n j =
     (if j < n then store64 (of_nat (Suc j)) @ store64 (snd (try_input inputs j)) @ fst (try_input inputs j) else [])"

definition reply_at :: "'s xxh \<Rightarrow> (string \<times> u64) list \<Rightarrow> nat \<Rightarrow> nat \<Rightarrow> string" where
  "reply_at xx inputs n j =
     (if j < n then store64 (try_reply xx inputs j)
      else hexdigest xx (asked xx inputs n) @ '' '' @ hexdigest xx (answered xx inputs n))"

definition kind_at :: "nat \<Rightarrow> nat \<Rightarrow> call_kind" where
  "kind_at n j = (if j < n then Call_try else Call_finish)"

definition good_inputs :: "nat \<Rightarrow> (string \<times> u64) list \<Rightarrow> bool" where
  "good_inputs bufsiz inputs \<longleftrightarrow> inputs \<noteq> [] \<and> 8 * bufsiz + 4 < 2 ^ 32
     \<and> list_all (\<lambda>x. fst x \<noteq> [] \<and> length (fst x) + 16 \<le> 8 * bufsiz) inputs"

lemma try_input_good:
  assumes "good_inputs bufsiz inputs"
  shows "fst (try_input inputs j) \<noteq> []" "length (fst (try_input inputs j)) + 16 \<le> 8 * bufsiz"
proof -
  have "j mod length inputs < length inputs" using assms by (simp add: good_inputs_def)
  then show "fst (try_input inputs j) \<noteq> []" "length (fst (try_input inputs j)) + 16 \<le> 8 * bufsiz"
    using assms by (auto simp: good_inputs_def try_input_def list_all_length)
qed

lemma request_short:
  assumes "good_inputs bufsiz inputs"
  shows "length (request_at inputs n j) + 4 < 2 ^ 32"
  using try_input_good [OF assms, of j] assms by (auto simp: request_at_def good_inputs_def)

lemma reply_short: "length (reply_at xx inputs n j) + 4 < 2 ^ 32"
  by (simp add: reply_at_def hexdigest_def)

text \<open>The server answers the request at its position with the reply there.\<close>

definition server_at :: "'s xxh \<Rightarrow> (string \<times> u64) list \<Rightarrow> nat \<Rightarrow> nat \<Rightarrow> 's rpc_server" where
  "server_at xx inputs n r =
     \<lparr>srv_ctx0 = asked xx inputs (min r n), srv_ctx1 = answered xx inputs (min r n), srv_count = of_nat (min r n),
      srv_want = of_nat (Suc (min r n)), srv_done = (n < r)\<rparr>"

lemma server_turn_at:
  assumes "good_inputs bufsiz inputs" "r \<le> n"
  shows "server_turn xx (request_at inputs n r) (server_at xx inputs n r)
    = Returns (reply_at xx inputs n r, r < n, server_at xx inputs n (Suc r))"
proof (cases "r < n")
  case True
  then show ?thesis using try_input_good [OF assms(1), of r]
    by (simp add: server_turn_def request_at_def handle_try_def process_try_def server_at_def reply_at_def Let_def
        min_def try_reply_def update_uint64_def algebra_simps)
next
  case False
  then have "r = n" using assms(2) by simp
  then show ?thesis
    by (simp add: server_turn_def request_at_def server_checksums_def server_at_def reply_at_def)
qed

text \<open>The client takes the reply at its position.\<close>

definition client_at :: "'s xxh \<Rightarrow> (string \<times> u64) list \<Rightarrow> nat \<Rightarrow> nat \<Rightarrow> 's rpc_client" where
  "client_at xx inputs n q =
     \<lparr>cl_inputs = inputs, cl_index = n mod length inputs, cl_ctx0 = asked xx inputs n, cl_ctx1 = answered xx inputs (min q n),
      cl_done = (n < q), cl_serial = of_nat (Suc n)\<rparr>"

lemma process_response_at:
  assumes "q < n"
  shows "process_response xx (reply_at xx inputs n q) (client_at xx inputs n q) = Returns (client_at xx inputs n (Suc q))"
  using assms by (simp add: process_response_def reply_at_def client_at_def min_def)

lemma takeWhile_no_space:
  assumes "c \<notin> set xs"
  shows "takeWhile (\<lambda>x. x \<noteq> c) (xs @ c # ys) = xs"
  using assms by (induction xs) auto

lemma finish_response_at:
  "finish_response xx (reply_at xx inputs n n) (client_at xx inputs n n) = Returns (True, client_at xx inputs n (Suc n))"
  by (simp add: finish_response_def reply_at_def client_at_def takeWhile_no_space hexdigest_no_space Let_def)

lemma run_turn_at:
  assumes "good_inputs bufsiz inputs" "q \<le> n"
  shows "run_turn xx bufsiz (client_at xx inputs n q) = Returns (request_at inputs (Suc n) n, client_at xx inputs (Suc n) q)"
proof -
  have "inputs \<noteq> []" using assms(1) by (simp add: good_inputs_def)
  then have "n mod length inputs < length inputs" by simp
  moreover obtain nm v where "try_input inputs n = (nm, v)" by fastforce
  moreover have "Suc n mod length inputs = (if Suc (n mod length inputs) = length inputs then 0 else Suc (n mod length inputs))"
    by (rule mod_Suc)
  ultimately show ?thesis using assms(2) try_input_good [OF assms(1), of n]
    by (simp add: run_turn_def send_try_def client_at_def request_at_def try_input_def Let_def min_def)
qed

subsection \<open>The invariant\<close>

definition asks :: "nat \<Rightarrow> 's game \<Rightarrow> nat" where
  "asks n g = (if g_finishing g then Suc n else n)"

definition requests_inv :: "(string \<times> u64) list \<Rightarrow> nat \<Rightarrow> 's game \<Rightarrow> bool" where
  "requests_inv inputs n g \<longleftrightarrow>
     sent (g_up g) @ map fst (g_sends g) = map (request_at inputs n) [0..<asks n g]
     \<and> (\<forall>m. tx_client (g_up g) = Some m \<longrightarrow> g_sends g \<noteq> [] \<and> m = fst (List.hd (g_sends g)))"

definition callers_inv :: "nat \<Rightarrow> 's game \<Rightarrow> bool" where
  "callers_inv n g \<longleftrightarrow>
     g_recvs g @ map snd (g_sends g) = map (kind_at n) [length (received (g_down g))..<asks n g]
     \<and> (rx_client (g_down g) \<longrightarrow> g_recvs g \<noteq> [])"

definition server_inv :: "'s xxh \<Rightarrow> (string \<times> u64) list \<Rightarrow> nat \<Rightarrow> 's game \<Rightarrow> bool" where
  "server_inv xx inputs n g \<longleftrightarrow>
     (let r = length (received (g_up g))
      in g_server g = server_at xx inputs n r
       \<and> sent (g_down g) @ (case tx_client (g_down g) of None \<Rightarrow> [] | Some m \<Rightarrow> [m]) = map (reply_at xx inputs n) [0..<r]
       \<and> g_point g = (if tx_client (g_down g) \<noteq> None then At_send (r \<le> n) else if r \<le> n then At_recv else At_end))"

definition client_inv :: "'s xxh \<Rightarrow> (string \<times> u64) list \<Rightarrow> nat \<Rightarrow> 's game \<Rightarrow> bool" where
  "client_inv xx inputs n g \<longleftrightarrow>
     (let q = length (received (g_down g))
      in g_client g = client_at xx inputs n q \<and> g_match g = (if n < q then Some True else None))"

definition game_inv :: "'s xxh \<Rightarrow> (string \<times> u64) list \<Rightarrow> nat \<Rightarrow> 's game \<Rightarrow> bool" where
  "game_inv xx inputs n g \<longleftrightarrow> live (g_up g) \<and> live (g_down g) \<and> \<not> g_fault g
     \<and> requests_inv inputs n g \<and> callers_inv n g \<and> server_inv xx inputs n g \<and> client_inv xx inputs n g"

lemmas inv_defs = game_inv_def requests_inv_def callers_inv_def server_inv_def client_inv_def

lemma game_new_inv: "game_inv xx (parse_inputs file) 0 (game_new xx file)"
proof -
  have l: "sent (link_new True True) = []" "received (link_new True True) = []" "tx_client (link_new True True) = None"
      "\<not> rx_client (link_new True True)"
    by (simp_all add: link_new_def)
  show ?thesis
    by (simp add: inv_defs game_new_def live_new l asks_def server_at_def rpc_server_new_def client_at_def rpc_client_new_def)
qed

text \<open>The messages on the connection are those that the client sent, the replies those of the server.\<close>

lemma received_requests:
  assumes "game_inv xx inputs n g"
  shows "length (received (g_up g)) + length (g_sends g) \<le> asks n g"
proof -
  obtain rest where "sent (g_up g) = received (g_up g) @ rest" using assms live_received by (auto simp: game_inv_def)
  moreover have "length (sent (g_up g)) + length (g_sends g) = asks n g"
    using assms unfolding game_inv_def requests_inv_def by (metis length_append length_map length_upt minus_nat.diff_0)
  ultimately show ?thesis by simp
qed

lemma request_next:
  assumes "game_inv xx inputs n g" "sent (g_up g) = received (g_up g) @ m # rest"
  shows "m = request_at inputs n (length (received (g_up g)))" "length (received (g_up g)) < asks n g"
proof -
  let ?r = "length (received (g_up g))"
  have all: "received (g_up g) @ m # rest @ map fst (g_sends g) = map (request_at inputs n) [0..<asks n g]"
    using assms by (simp add: game_inv_def requests_inv_def)
  from arg_cong [OF all, of length] show r: "?r < asks n g" by simp
  from arg_cong [OF all, of "\<lambda>xs. xs ! ?r"] r show "m = request_at inputs n ?r" by simp
qed

lemma reply_next:
  assumes "game_inv xx inputs n g" "sent (g_down g) = received (g_down g) @ m # rest"
  shows "m = reply_at xx inputs n (length (received (g_down g)))"
proof -
  let ?q = "length (received (g_down g))"
  let ?r = "length (received (g_up g))"
  define w where "w = (case tx_client (g_down g) of None \<Rightarrow> [] | Some m \<Rightarrow> [m])"
  have all: "received (g_down g) @ m # rest @ w = map (reply_at xx inputs n) [0..<?r]"
    using assms by (simp add: game_inv_def server_inv_def Let_def w_def)
  from arg_cong [OF all, of length] have r: "?q < ?r" by simp
  from arg_cong [OF all, of "\<lambda>xs. xs ! ?q"] r show ?thesis by simp
qed

lemma replies_received:
  assumes "game_inv xx inputs n g"
  shows "received (g_down g) = map (reply_at xx inputs n) [0..<length (received (g_down g))]"
    "length (received (g_down g)) \<le> length (received (g_up g))"
proof -
  let ?q = "length (received (g_down g))"
  let ?r = "length (received (g_up g))"
  define w where "w = (case tx_client (g_down g) of None \<Rightarrow> [] | Some m \<Rightarrow> [m])"
  obtain rest where "sent (g_down g) = received (g_down g) @ rest" using assms live_received by (auto simp: game_inv_def)
  then have all: "received (g_down g) @ rest @ w = map (reply_at xx inputs n) [0..<?r]"
    using assms by (simp add: game_inv_def server_inv_def Let_def w_def)
  from arg_cong [OF all, of length] show r: "?q \<le> ?r" by simp
  from arg_cong [OF all, of "take ?q"] r show "received (g_down g) = map (reply_at xx inputs n) [0..<?q]"
    by (simp add: take_map)
qed

subsection \<open>Steps\<close>

lemma client_finish_inv:
  assumes "game_inv xx inputs n g" "\<not> g_finishing g"
  shows "game_inv xx inputs n (g\<lparr>g_finishing := True, g_sends := g_sends g @ [([], Call_finish)]\<rparr>)"
proof -
  have "length (received (g_down g)) \<le> n"
    using replies_received(2) [OF assms(1)] received_requests [OF assms(1)] assms(2) by (simp add: asks_def)
  then show ?thesis using assms by (auto simp: inv_defs asks_def request_at_def kind_at_def Let_def)
qed

lemma client_try_inv:
  assumes "game_inv xx inputs n g" "\<not> g_finishing g"
  shows "game_inv xx inputs (Suc n) (g\<lparr>g_client := client_at xx inputs (Suc n) (length (received (g_down g))),
    g_sends := g_sends g @ [(request_at inputs (Suc n) n, Call_try)]\<rparr>)"
proof -
  have r: "length (received (g_up g)) \<le> n"
    using received_requests [OF assms(1)] assms(2) by (simp add: asks_def)
  then have q: "length (received (g_down g)) \<le> n" using replies_received(2) [OF assms(1)] by simp
  have "map (request_at inputs (Suc n)) [0..<n] = map (request_at inputs n) [0..<n]"
      "map (kind_at (Suc n)) [length (received (g_down g))..<n] = map (kind_at n) [length (received (g_down g))..<n]"
      "map (reply_at xx inputs (Suc n)) [0..<length (received (g_up g))] = map (reply_at xx inputs n) [0..<length (received (g_up g))]"
    using r by (simp_all add: request_at_def kind_at_def reply_at_def)
  moreover have "server_at xx inputs (Suc n) (length (received (g_up g))) = server_at xx inputs n (length (received (g_up g)))"
    using r by (simp add: server_at_def min_def)
  ultimately show ?thesis using assms r q by (auto simp: inv_defs asks_def kind_at_def Let_def)
qed

lemma stream_up_inv:
  assumes "game_inv xx inputs n g" "live l" "sent l = sent (g_up g)" "received l = received (g_up g)" "tx_client l = tx_client (g_up g)"
  shows "game_inv xx inputs n (g\<lparr>g_up := l\<rparr>)"
  using assms by (simp add: inv_defs asks_def Let_def)

lemma stream_down_inv:
  assumes "game_inv xx inputs n g" "live l" "sent l = sent (g_down g)" "received l = received (g_down g)"
    "tx_client l = tx_client (g_down g)" "rx_client l \<longrightarrow> g_recvs g \<noteq> []"
  shows "game_inv xx inputs n (g\<lparr>g_down := l\<rparr>)"
  using assms by (simp add: inv_defs asks_def Let_def)

lemma client_sent_inv:
  assumes "good_inputs bufsiz inputs" "game_inv xx inputs n g" "g_sends g \<noteq> []" "link_step ch (g_up g) = Some l"
    "ch = Call_send (fst (List.hd (g_sends g))) \<or> ch = Resume_send"
  shows "game_inv xx inputs n (client_sent l g)"
proof -
  obtain m k xs where s: "g_sends g = (m, k) # xs" using assms(3) by (metis list.exhaust surj_pair)
  have req: "requests_inv inputs n g" and up: "live (g_up g)" using assms(2) by (simp_all add: game_inv_def)
  have "m \<in> set (sent (g_up g) @ map fst (g_sends g))" by (simp add: s)
  also have "sent (g_up g) @ map fst (g_sends g) = map (request_at inputs n) [0..<asks n g]" using req by (simp add: requests_inv_def)
  finally have "\<exists>j. m = request_at inputs n j" by auto
  then have short: "length m + 4 < 2 ^ 32" using request_short [OF assms(1)] by auto
  have "\<exists>m'. tx_client (g_up g) = Some m'" if "ch = Resume_send"
    using assms(4) that by (auto simp: link_step_def split: option.splits)
  then have "ch = Call_send m \<or> ch = Resume_send \<and> tx_client (g_up g) = Some m"
    using assms(5) req s by (auto simp: requests_inv_def)
  note l = live_send [OF up short assms(4) this]
  show ?thesis
  proof (cases "tx_client l = None")
    case True
    then have "sent l = sent (g_up g) @ [m]" using l by simp
    then show ?thesis using assms(2) l s True by (auto simp: client_sent_def inv_defs asks_def Let_def)
  next
    case False
    then show ?thesis using assms(2) l s by (auto simp: client_sent_def inv_defs asks_def Let_def)
  qed
qed

lemma client_got_inv:
  assumes "game_inv xx inputs n g" "g_recvs g \<noteq> []" "link_step ch (g_down g) = Some l" "ch = Call_recv \<or> ch = Resume_recv"
  shows "game_inv xx inputs n (client_got xx l g)"
proof -
  have down: "live (g_down g)" using assms(1) by (simp add: game_inv_def)
  note l = live_recv [OF down assms(3,4)]
  show ?thesis
  proof (cases "rx_client l")
    case True
    then show ?thesis using stream_down_inv [OF assms(1), of l] l assms(2)
      by (simp add: client_got_def got_message_def)
  next
    case False
    let ?q = "length (received (g_down g))"
    obtain m rest where m: "received l = received (g_down g) @ [m]" "sent (g_down g) = received (g_down g) @ m # rest"
      using l False by auto
    have mq: "m = reply_at xx inputs n ?q" by (rule reply_next [OF assms(1) m(2)])
    obtain k ks where ks: "g_recvs g = k # ks" using assms(2) by (cases "g_recvs g") auto
    have calls: "k # ks @ map snd (g_sends g) = map (kind_at n) [?q..<asks n g]"
      using assms(1) ks by (simp add: game_inv_def callers_inv_def)
    from arg_cong [OF calls, of length] have qa: "?q < asks n g" by simp
    then have "[?q..<asks n g] = ?q # [Suc ?q..<asks n g]" by (simp add: upt_rec)
    then have k: "k = kind_at n ?q" and later: "ks @ map snd (g_sends g) = map (kind_at n) [Suc ?q..<asks n g]"
      using calls by simp_all
    have c: "g_client g = client_at xx inputs n ?q" "g_match g = (if n < ?q then Some True else None)"
      using assms(1) by (simp_all add: game_inv_def client_inv_def Let_def)
    have got: "got_message (g_down g) l = Some (reply_at xx inputs n ?q)"
      using False m(1) mq by (simp add: got_message_def)
    have took: "game_inv xx inputs n (g\<lparr>g_down := l, g_recvs := ks, g_client := client_at xx inputs n (Suc ?q),
        g_match := (if n < Suc ?q then Some True else None)\<rparr>)"
      using assms(1) l False m later by (simp add: inv_defs asks_def Let_def)
    show ?thesis
    proof (cases "?q < n")
      case True
      then have "client_got xx l g = g\<lparr>g_down := l, g_recvs := ks, g_client := client_at xx inputs n (Suc ?q)\<rparr>"
        using got ks k c by (simp add: client_got_def kind_at_def Let_def process_response_at)
      also have "\<dots> = g\<lparr>g_down := l, g_recvs := ks, g_client := client_at xx inputs n (Suc ?q),
          g_match := (if n < Suc ?q then Some True else None)\<rparr>"
        by (rule game.equality) (use c True in simp_all)
      finally show ?thesis using took by simp
    next
      case no: False
      have "?q \<le> n" using qa by (simp add: asks_def split: if_splits)
      then have "?q = n" using no by simp
      then have "client_got xx l g = g\<lparr>g_down := l, g_recvs := ks, g_client := client_at xx inputs n (Suc ?q),
          g_match := (if n < Suc ?q then Some True else None)\<rparr>"
        using got ks k c by (simp add: client_got_def kind_at_def Let_def finish_response_at)
      then show ?thesis using took by simp
    qed
  qed
qed

text \<open>The server's reply is handed to its sending stream, at once or when it waited.\<close>

lemma server_replied_inv:
  assumes "game_inv xx inputs n g" "g_point g = At_send again" "link_step Resume_send (g_down g) = Some d"
  shows "game_inv xx inputs n (server_replied again d g)"
proof -
  let ?r = "length (received (g_up g))"
  have down: "live (g_down g)" and srv: "server_inv xx inputs n g" using assms(1) by (simp_all add: game_inv_def)
  obtain m where m: "tx_client (g_down g) = Some m" using assms(3) by (auto simp: link_step_def split: option.splits)
  have replies: "sent (g_down g) @ [m] = map (reply_at xx inputs n) [0..<?r]" and again: "again = (?r \<le> n)"
    using srv m assms(2) by (simp_all add: server_inv_def Let_def)
  have "m \<in> set (sent (g_down g) @ [m])" by simp
  then obtain j where "m = reply_at xx inputs n j" unfolding replies by auto
  then have "length m + 4 < 2 ^ 32" using reply_short [of xx inputs n j] by simp
  note l = live_send [OF down this assms(3)]
  then show ?thesis using assms(1) m again replies
    by (auto simp: server_replied_def inv_defs asks_def Let_def split: if_splits)
qed

lemma server_got_inv:
  assumes "good_inputs bufsiz inputs" "game_inv xx inputs n g" "g_point g = At_recv" "link_step ch (g_up g) = Some l"
    "ch = Call_recv \<or> ch = Resume_recv" "server_got xx l g = Some g'"
  shows "game_inv xx inputs n g'"
proof -
  let ?r = "length (received (g_up g))"
  have up: "live (g_up g)" and down: "live (g_down g)" and srv: "server_inv xx inputs n g"
    using assms(2) by (simp_all add: game_inv_def)
  note l = live_recv [OF up assms(4,5)]
  have point: "tx_client (g_down g) = None" "?r \<le> n"
    using srv assms(3) by (auto simp: server_inv_def Let_def split: if_splits)
  show ?thesis
  proof (cases "rx_client l")
    case True
    then have "g' = g\<lparr>g_up := l\<rparr>" using assms(6) by (simp add: server_got_def got_message_def)
    then show ?thesis using stream_up_inv [OF assms(2), of l] l True by simp
  next
    case False
    obtain m rest where m: "received l = received (g_up g) @ [m]" "sent (g_up g) = received (g_up g) @ m # rest"
      using l False by auto
    have mr: "m = request_at inputs n ?r" by (rule request_next(1) [OF assms(2) m(2)])
    have got: "got_message (g_up g) l = Some (request_at inputs n ?r)" using False m(1) mr by (simp add: got_message_def)
    have s: "g_server g = server_at xx inputs n ?r" using srv by (simp add: server_inv_def Let_def)
    obtain d where d: "link_step (Call_send (reply_at xx inputs n ?r)) (g_down g) = Some d"
        "g' = server_replied (?r < n) d (g\<lparr>g_up := l, g_server := server_at xx inputs n (Suc ?r)\<rparr>)"
      using assms(6) by (auto simp: server_got_def got s server_turn_at [OF assms(1) point(2)])
    note dl = live_send [OF down reply_short d(1), OF disjI1 [OF refl]]
    have "sent (g_down g) = map (reply_at xx inputs n) [0..<?r]" using srv point(1) by (simp add: server_inv_def Let_def)
    then show ?thesis using assms(2) l m dl point
      by (auto simp: d(2) server_replied_def inv_defs asks_def Let_def split: if_splits)
  qed
qed

definition game_works :: "game_choice \<Rightarrow> bool" where
  "game_works ch = (case ch of Stream_up c \<Rightarrow> kernel_works c | Stream_down c \<Rightarrow> kernel_works c | _ \<Rightarrow> True)"

lemma game_step_inv:
  assumes "good_inputs bufsiz inputs" "game_inv xx inputs n g" "game_works ch" "game_step xx bufsiz ch g = Some g'"
  shows "\<exists>n'. game_inv xx inputs n' g'"
proof -
  have ok: "\<not> g_fault g" "live (g_up g)" "live (g_down g)" using assms(2) by (simp_all add: game_inv_def)
  have recvs: "g_recvs g \<noteq> []" if "rx_client (g_down g)" using assms(2) that by (simp add: game_inv_def callers_inv_def)
  have sends: "g_sends g \<noteq> []" if "tx_client (g_up g) = Some m" for m
    using assms(2) that by (simp add: game_inv_def requests_inv_def)
  show ?thesis
  proof (cases ch)
    case Client_try
    let ?q = "length (received (g_down g))"
    have f: "\<not> g_finishing g" using assms(4) Client_try ok by (simp add: game_step_def split: if_splits)
    have "?q \<le> n" using replies_received(2) [OF assms(2)] received_requests [OF assms(2)] f by (simp add: asks_def)
    then have "run_turn xx bufsiz (g_client g) = Returns (request_at inputs (Suc n) n, client_at xx inputs (Suc n) ?q)"
      using run_turn_at [OF assms(1)] assms(2) by (simp add: game_inv_def client_inv_def Let_def)
    then show ?thesis using client_try_inv [OF assms(2) f] assms(4) Client_try ok f by (auto simp: game_step_def)
  next
    case Client_finish
    then show ?thesis using client_finish_inv [OF assms(2)] assms(4) ok by (auto simp: game_step_def split: if_splits)
  next
    case Client_send
    then show ?thesis using client_sent_inv [OF assms(1,2)] assms(4) ok by (auto simp: game_step_def split: if_splits)
  next
    case Client_resume_send
    then obtain l where l: "link_step Resume_send (g_up g) = Some l" "g' = client_sent l g"
      using assms(4) ok by (auto simp: game_step_def)
    then have "g_sends g \<noteq> []" using sends by (auto simp: link_step_def split: option.splits)
    then show ?thesis using client_sent_inv [OF assms(1,2) _ l(1)] l(2) by auto
  next
    case Client_recv
    then show ?thesis using client_got_inv [OF assms(2)] assms(4) ok by (auto simp: game_step_def split: if_splits)
  next
    case Client_resume_recv
    then obtain l where l: "link_step Resume_recv (g_down g) = Some l" "g' = client_got xx l g"
      using assms(4) ok by (auto simp: game_step_def)
    then have "g_recvs g \<noteq> []" using recvs by (auto simp: link_step_def split: if_splits)
    then show ?thesis using client_got_inv [OF assms(2) _ l(1)] l(2) by auto
  next
    case Server_recv
    then show ?thesis using server_got_inv [OF assms(1,2)] assms(4) ok
      by (auto simp: game_step_def split: if_splits option.splits)
  next
    case Server_resume_recv
    then show ?thesis using server_got_inv [OF assms(1,2)] assms(4) ok
      by (auto simp: game_step_def split: if_splits option.splits)
  next
    case Server_resume_send
    then show ?thesis using server_replied_inv [OF assms(2)] assms(4) ok
      by (auto simp: game_step_def split: server_point.splits)
  next
    case (Stream_up c)
    then obtain l where l: "link_step c (g_up g) = Some l" "g' = g\<lparr>g_up := l\<rparr>" "loop_choice c" "kernel_works c"
      using assms(3,4) ok by (auto simp: game_step_def game_works_def split: if_splits)
    then show ?thesis using live_loop [OF ok(2) l(1,3,4)] stream_up_inv [OF assms(2)] by auto
  next
    case (Stream_down c)
    then obtain l where l: "link_step c (g_down g) = Some l" "g' = g\<lparr>g_down := l\<rparr>" "loop_choice c" "kernel_works c"
      using assms(3,4) ok by (auto simp: game_step_def game_works_def split: if_splits)
    then show ?thesis using live_loop [OF ok(3) l(1,3,4)] stream_down_inv [OF assms(2)] recvs by auto
  qed
qed

lemma game_run_inv:
  assumes "good_inputs bufsiz inputs" "game_run xx bufsiz chs g = Some g'" "list_all game_works chs" "game_inv xx inputs n g"
  shows "\<exists>n'. game_inv xx inputs n' g'"
  using assms(2-)
proof (induction chs arbitrary: g n)
  case (Cons ch chs)
  then obtain g1 where g1: "game_step xx bufsiz ch g = Some g1" "game_run xx bufsiz chs g1 = Some g'"
    by (auto split: option.splits)
  have "game_works ch" using Cons(3) by simp
  then obtain n1 where "game_inv xx inputs n1 g1" using game_step_inv [OF assms(1) Cons(4) _ g1(1)] by blast
  then show ?case using Cons(1) [OF g1(2)] Cons(3) by simp
qed auto

text \<open>
  C17: client and server play together, in any order of their coroutines and whatever pieces the kernel moves:
  no assertion fails and the server never waits for a serial number; the client has received
  the replies to its tries, in order; and if \<^verbatim>\<open>finish\<close> has returned, all \<open>n\<close> tries are answered and the
  checksums match. The input has a line, no name in it is empty, and each name fits the client's buffer.
\<close>

theorem rpc_game_agrees:
  assumes "good_inputs bufsiz (parse_inputs file)" "list_all game_works chs"
    and "game_run xx bufsiz chs (game_new xx file) = Some g"
  shows "\<not> g_fault g \<and> (\<exists>n k. k \<le> Suc n
    \<and> received (g_down g) = map (reply_at xx (parse_inputs file) n) [0..<k]
    \<and> g_match g = (if k = Suc n then Some True else None))"
proof -
  obtain n where inv: "game_inv xx (parse_inputs file) n g"
    using game_run_inv [OF assms(1,3,2) game_new_inv] by blast
  let ?k = "length (received (g_down g))"
  have k: "?k \<le> Suc n"
    using replies_received(2) [OF inv] received_requests [OF inv] by (simp add: asks_def split: if_splits)
  moreover have "g_match g = (if ?k = Suc n then Some True else None)"
    using inv k by (auto simp: game_inv_def client_inv_def Let_def)
  moreover have "received (g_down g) = map (reply_at xx (parse_inputs file) n) [0..<?k]" by (rule replies_received(1) [OF inv])
  moreover have "\<not> g_fault g" using inv by (simp add: game_inv_def)
  ultimately show ?thesis by blast
qed

definition sample_xxh :: "string xxh" where
  "sample_xxh = \<lparr>xxh_reset = [], xxh_update = (\<lambda>s t. s @ t), xxh_digest = (\<lambda>s. of_nat (length s)),
     xxh_64bits = (\<lambda>s. of_nat (length s))\<rparr>"

definition sample_lines :: string where
  "sample_lines = ''no number'' @ [line_end] @ ''a,5'' @ [line_end]"

text \<open>One try and its reply; and a game that ends at once.\<close>

definition sample_game :: "game_choice list" where
  "sample_game = [Client_try, Client_send, Client_recv, Stream_up (Run_writer True 21 (Errno 0)),
     Server_recv, Stream_up (Run_reader True (Inr 21)), Server_resume_recv,
     Stream_down (Run_writer True 12 (Errno 0)), Stream_down (Run_reader True (Inr 12)), Client_resume_recv]"

definition quick_game :: "game_choice list" where
  "quick_game = [Client_finish, Client_send, Client_recv, Stream_up (Run_writer True 4 (Errno 0)),
     Server_recv, Stream_up (Run_reader True (Inr 4)), Server_resume_recv,
     Stream_down (Run_writer True 37 (Errno 0)), Stream_down (Run_reader True (Inr 37)), Client_resume_recv]"

lemma sample_inputs: "parse_inputs sample_lines = [(''a'', 5)]"
  by (simp add: parse_inputs.simps sample_lines_def line_end_def from_chars_def digits_value_def is_digit_def digit_value_def Let_def)

lemma eight_bytes: "store64 w = [char_of (unat w mod 256), char_of (unat w div 256 mod 256), char_of (unat w div 65536 mod 256),
    char_of (unat w div 16777216 mod 256), char_of (unat w div 4294967296 mod 256), char_of (unat w div 1099511627776 mod 256),
    char_of (unat w div 281474976710656 mod 256), char_of (unat w div 72057594037927936 mod 256)]"
  by (simp add: store64_def upt_rec)

lemma zero_digit: "hex_digit 0 = CHR ''0''"
  by code_simp

lemma loads:
  "load64 [char_of (Suc 0),
    char_of (0 :: nat), char_of (0 :: nat), char_of (0 :: nat), char_of (0 :: nat), char_of (0 :: nat), char_of (0 :: nat), char_of (0 :: nat)] = 1"
  "load64 [char_of (5 :: nat),
    char_of (0 :: nat), char_of (0 :: nat), char_of (0 :: nat), char_of (0 :: nat), char_of (0 :: nat), char_of (0 :: nat), char_of (0 :: nat)] = 5"
  using load_store64 [of 1] load_store64 [of 5] by (simp_all add: eight_bytes)

lemmas game_simps = game_step_def client_sent_def client_got_def server_got_def server_replied_def got_message_def
  run_turn_def send_try_def server_turn_def handle_try_def process_try_def server_checksums_def process_response_def
  finish_response_def update_uint64_def game_new_def rpc_client_new_def rpc_server_new_def
  sample_inputs sample_xxh_def eight_bytes loads hexdigest_def zero_digit

lemma sample_game_run:
  "\<exists>g. game_run sample_xxh 1024 sample_game (game_new sample_xxh sample_lines) = Some g \<and> length (received (g_down g)) = 1"
  by (simp add: run_simps game_simps sample_game_def)

lemma quick_game_run:
  "\<exists>g. game_run sample_xxh 1024 quick_game (game_new sample_xxh sample_lines) = Some g \<and> g_match g = Some True"
  by (simp add: run_simps game_simps quick_game_def)

lemma rpc_game_agrees_witness:
  "(\<exists>g n. game_run sample_xxh 1024 sample_game (game_new sample_xxh sample_lines) = Some g
      \<and> received (g_down g) = [reply_at sample_xxh [(''a'', 5)] n 0] \<and> \<not> g_fault g)
   \<and> (\<exists>g. game_run sample_xxh 1024 quick_game (game_new sample_xxh sample_lines) = Some g \<and> g_match g = Some True \<and> \<not> g_fault g)"
proof -
  have good: "good_inputs 1024 (parse_inputs sample_lines)" by (simp add: good_inputs_def sample_inputs)
  have works: "list_all game_works sample_game" "list_all game_works quick_game"
    by (simp_all add: sample_game_def quick_game_def game_works_def)
  obtain g where g: "game_run sample_xxh 1024 sample_game (game_new sample_xxh sample_lines) = Some g"
      "length (received (g_down g)) = 1" using sample_game_run by blast
  obtain h where h: "game_run sample_xxh 1024 quick_game (game_new sample_xxh sample_lines) = Some h" "g_match h = Some True"
    using quick_game_run by blast
  from rpc_game_agrees [OF good works(1) g(1)] obtain n k where "\<not> g_fault g"
      "received (g_down g) = map (reply_at sample_xxh [(''a'', 5)] n) [0..<k]" by (auto simp: sample_inputs)
  then have "received (g_down g) = [reply_at sample_xxh [(''a'', 5)] n 0] \<and> \<not> g_fault g" using g(2) by auto
  moreover have "\<not> g_fault h" using rpc_game_agrees [OF good works(2) h(1)] by simp
  ultimately show ?thesis using g(1) h by blast
qed

subsection \<open>Games that fail\<close>

text \<open>The client sends an empty name, but the server's assertion on the size of the message fails.\<close>

lemma empty_name_aborts:
  assumes "2 \<le> bufsiz" "try_input (cl_inputs c) (cl_index c) = ([], v)" "cl_index c < length (cl_inputs c)" "\<not> cl_done c"
  shows "\<exists>m c'. run_turn xx bufsiz c = Returns (m, c') \<and> server_turn xx m s = Aborts"
  using assms by (auto simp: run_turn_def send_try_def try_input_def server_turn_def handle_try_def Let_def)
    (metis length_store64 list.size(3) zero_neq_numeral)+

text \<open>Without lines in the input, \<^verbatim>\<open>run\<close> reads a line that is not there.\<close>

lemma no_lines_aborts: "cl_inputs c = [] \<Longrightarrow> run_turn xx bufsiz c = Aborts"
  by (simp add: run_turn_def)

text \<open>A second client starts again with serial number 1, which the server waits for for ever.\<close>

lemma second_client_blocks:
  assumes "0 < n" "n < 2 ^ 64" "good_inputs bufsiz inputs"
  shows "server_turn xx (request_at inputs n 0) (server_at xx inputs n n) = Blocks"
proof -
  have "of_nat (Suc n) \<noteq> (1 :: u64)" using assms(1,2) word_of_nat_eq_0_iff [of n, where ?'a = 64] by (auto simp: nat_dvd_not_less)
  then show ?thesis using assms(1) try_input_good [OF assms(3), of 0]
    by (simp add: server_turn_def handle_try_def process_try_def request_at_def server_at_def)
qed

end
