(* ===== verification/SpinWord.thy ===== *)
theory SpinWord
  imports Prelude
begin

text \<open>
  The lock words that make the operations on one object atomic, at the level of single loads and
  compare-and-exchange operations by any number of threads: the flags of an event body with its lock bit
  (\<^verbatim>\<open>event_body::lock\<close>, \<^verbatim>\<open>untriggered_lock\<close>, \<^verbatim>\<open>unlock\<close>, \<^verbatim>\<open>set_user_flags\<close>), the lock of a driver,
  the latch of a mutex with the fast paths around it, and the flag of an \<^verbatim>\<open>fd_body\<close>.

  A relaxed load may give any value that the word has had; a compare-and-exchange sees the current one.
  A weak one may also fail for no reason.
\<close>

unbundle bit_operations_syntax

subsection \<open>Calls\<close>

datatype spin_object = Event_flags | Driver_lock | Mutex_latch | Fd_lock

datatype spin_call =
    Event_lock | Event_untriggered_lock | Event_set_user u32
  | Driver_enter
  | Latch | Try_lock | Unlock_fast | Try_lock_shared | Unlock_shared_fast
  | Fd_enter

text \<open>The bits of \<^verbatim>\<open>event_body::flags_\<close>, of the word of a driver, and of the latch.\<close>

definition efw_lock :: u32 where "efw_lock = 2"
definition efw_triggered :: u32 where "efw_triggered = 16"
definition efm_user :: u32 where "efm_user = 0x3C0"
definition df_lock :: u32 where "df_lock = 1"
definition mf_latch :: u32 where "mf_latch = 1"
definition mfm_next :: u32 where "mfm_next = 6"
definition mf_next_excl :: u32 where "mf_next_excl = 2"
definition mf_next_shared :: u32 where "mf_next_shared = 4"
definition mf_lock_excl :: u32 where "mf_lock_excl = 8"
definition mf_lock_shared :: u32 where "mf_lock_shared = 16"

lemmas bit_names = efw_lock_def efw_triggered_def efm_user_def df_lock_def mf_latch_def mfm_next_def
  mf_next_excl_def mf_next_shared_def mf_lock_excl_def mf_lock_shared_def

fun lock_bit :: "spin_object \<Rightarrow> u32" where
  "lock_bit Event_flags = efw_lock"
| "lock_bit Driver_lock = df_lock"
| "lock_bit Mutex_latch = mf_latch"
| "lock_bit Fd_lock = 1"

fun call_object :: "spin_call \<Rightarrow> spin_object" where
  "call_object Event_lock = Event_flags"
| "call_object Event_untriggered_lock = Event_flags"
| "call_object (Event_set_user u) = Event_flags"
| "call_object Driver_enter = Driver_lock"
| "call_object Fd_enter = Fd_lock"
| "call_object _ = Mutex_latch"

text \<open>
  What a call does with the value it loaded: try again, return, go on with another call, or
  compare-and-exchange. A successful exchange either enters the section that the lock protects, or
  is the whole operation.
\<close>

datatype attempt = Spin_again | Give_up | Go_on spin_call | Exchange u32 u32 bool

fun event_lock_try :: "u32 \<Rightarrow> attempt" where
  "event_lock_try f = (if f AND efw_lock = 0 then Exchange f (f OR efw_lock) True else Spin_again)"

fun untriggered_lock_try :: "u32 \<Rightarrow> attempt" where
  "untriggered_lock_try f =
     (if f AND efw_triggered \<noteq> 0 then Give_up
      else if f AND efw_lock = 0 then Exchange f (f OR efw_lock) True else Spin_again)"

fun set_user_try :: "u32 \<Rightarrow> u32 \<Rightarrow> attempt" where
  "set_user_try u f = Exchange f ((f AND NOT efm_user) OR u) False"

fun driver_lock_try :: "u32 \<Rightarrow> attempt" where
  "driver_lock_try f = (if f AND df_lock = 0 then Exchange f (f OR df_lock) True else Spin_again)"

fun latch_try :: "u32 \<Rightarrow> attempt" where
  "latch_try l = (if l AND mf_latch = 0 then Exchange l (l OR mf_latch) True else Spin_again)"

definition try_lock_try :: attempt where
  [simp]: "try_lock_try = Exchange 0 mf_lock_excl False"

fun unlock_try :: "u32 \<Rightarrow> attempt" where
  "unlock_try l =
     (if l AND (mf_latch OR mfm_next) = 0 then Exchange l (l - mf_lock_excl) False else Go_on Latch)"

fun try_lock_shared_try :: "u32 \<Rightarrow> attempt" where
  "try_lock_shared_try l =
     (if l AND (mf_latch OR mfm_next OR mf_lock_excl) \<noteq> 0 then Give_up else Exchange l (l + mf_lock_shared) False)"

fun unlock_shared_try :: "u32 \<Rightarrow> attempt" where
  "unlock_shared_try l =
     (if l AND (mf_latch OR mf_next_shared) = 0 \<and> (l AND mf_next_excl = 0 \<or> 2 * mf_lock_shared \<le> l)
      then Exchange l (l - mf_lock_shared) False else Go_on Latch)"

fun fd_lock_try :: "u32 \<Rightarrow> attempt" where
  "fd_lock_try f = (if f AND 1 = 0 then Exchange f (f OR 1) True else Spin_again)"

fun attempt_of :: "spin_call \<Rightarrow> u32 \<Rightarrow> attempt" where
  "attempt_of Event_lock f = event_lock_try f"
| "attempt_of Event_untriggered_lock f = untriggered_lock_try f"
| "attempt_of (Event_set_user u) f = set_user_try u f"
| "attempt_of Driver_enter f = driver_lock_try f"
| "attempt_of Latch l = latch_try l"
| "attempt_of Try_lock l = try_lock_try"
| "attempt_of Unlock_fast l = unlock_try l"
| "attempt_of Try_lock_shared l = try_lock_shared_try l"
| "attempt_of Unlock_shared_fast l = unlock_shared_try l"
| "attempt_of Fd_enter f = fd_lock_try f"

text \<open>A strong exchange that fails ends the call, or \<^verbatim>\<open>unlock\<close> goes on with the latch.\<close>

fun weak_call :: "spin_call \<Rightarrow> bool" where
  "weak_call c = (c \<in> {Event_lock, Event_untriggered_lock, Driver_enter, Latch} \<or> (\<exists>u. c = Event_set_user u))"

fun failed_exchange :: "spin_call \<Rightarrow> spin_call option" where
  "failed_exchange Try_lock = None"
| "failed_exchange Try_lock_shared = None"
| "failed_exchange Unlock_fast = Some Latch"
| "failed_exchange Unlock_shared_fast = Some Latch"
| "failed_exchange c = Some c"

text \<open>These do not load first: \<^verbatim>\<open>test_and_set\<close> is one operation, and \<^verbatim>\<open>try_lock\<close> expects zero.\<close>

fun direct_call :: "spin_call \<Rightarrow> bool" where
  "direct_call c = (c \<in> {Fd_enter, Try_lock})"

text \<open>The assertion of \<^verbatim>\<open>set_user_flags\<close>.\<close>

fun call_allowed :: "spin_call \<Rightarrow> bool" where
  "call_allowed (Event_set_user u) = (u AND NOT efm_user = 0)"
| "call_allowed _ = True"

subsection \<open>Threads and one word\<close>

text \<open>
  A thread in its section holds the value that it had exchanged. \<open>sw_seen\<close> are all values the word has
  had; \<open>sw_log\<close> the operations in the order in which they were made visible: the value each found and the value it left.
\<close>

datatype thread_point = Outside | Called spin_call | Loaded spin_call u32 | Inside u32

record spin_word =
  sw_word :: u32
  sw_seen :: "u32 set"
  sw_threads :: "nat \<Rightarrow> thread_point"
  sw_log :: "(u32 \<times> u32) list"

definition spin_start :: "u32 \<Rightarrow> spin_word" where
  "spin_start w = \<lparr>sw_word = w, sw_seen = {w}, sw_threads = (\<lambda>_. Outside), sw_log = []\<rparr>"

datatype spin_step = Call nat spin_call | Load nat u32 | Test nat bool | Store nat u32

definition set_thread :: "nat \<Rightarrow> thread_point \<Rightarrow> spin_word \<Rightarrow> spin_word" where
  "set_thread t p s = s\<lparr>sw_threads := (sw_threads s)(t := p)\<rparr>"

definition set_word :: "u32 \<Rightarrow> spin_word \<Rightarrow> spin_word" where
  "set_word w s = s\<lparr>sw_word := w, sw_seen := insert w (sw_seen s)\<rparr>"

text \<open>
  A step of a thread; \<open>None\<close> if it cannot happen. The flag of \<open>Test\<close> is a spurious failure. What a section
  stores has the lock bit clear, as the value it got did.
\<close>

definition spin_test :: "nat \<Rightarrow> bool \<Rightarrow> spin_call \<Rightarrow> u32 \<Rightarrow> spin_word \<Rightarrow> spin_word option" where
  "spin_test t spurious c v s =
     (case attempt_of c v of
        Spin_again \<Rightarrow> Some (set_thread t (Called c) s)
      | Give_up \<Rightarrow> Some (set_thread t Outside s)
      | Go_on c' \<Rightarrow> Some (set_thread t (Called c') s)
      | Exchange expected new enters \<Rightarrow>
          if sw_word s \<noteq> expected \<or> spurious \<and> weak_call c
          then Some (set_thread t (case failed_exchange c of None \<Rightarrow> Outside | Some c' \<Rightarrow> Called c') s)
          else if spurious then None
          else if enters then Some (set_thread t (Inside expected) (set_word new s))
          else Some (set_thread t Outside (set_word new (s\<lparr>sw_log := sw_log s @ [(expected, new)]\<rparr>))))"

definition spin_step :: "spin_object \<Rightarrow> spin_step \<Rightarrow> spin_word \<Rightarrow> spin_word option" where
  "spin_step ob a s =
     (case a of
        Call t c \<Rightarrow>
          if sw_threads s t = Outside \<and> call_object c = ob \<and> call_allowed c then Some (set_thread t (Called c) s) else None
      | Load t v \<Rightarrow>
          (case sw_threads s t of
             Called c \<Rightarrow> if v \<in> sw_seen s \<and> \<not> direct_call c then Some (set_thread t (Loaded c v) s) else None
           | _ \<Rightarrow> None)
      | Test t spurious \<Rightarrow>
          (case sw_threads s t of
             Loaded c v \<Rightarrow> spin_test t spurious c v s
           | Called c \<Rightarrow> if direct_call c then spin_test t spurious c (sw_word s) s else None
           | _ \<Rightarrow> None)
      | Store t g \<Rightarrow>
          (case sw_threads s t of
             Inside f \<Rightarrow>
               if g AND lock_bit ob = 0
               then Some (set_thread t Outside (set_word g (s\<lparr>sw_log := sw_log s @ [(f, g)]\<rparr>))) else None
           | _ \<Rightarrow> None))"

fun spin_run :: "spin_object \<Rightarrow> spin_step list \<Rightarrow> spin_word \<Rightarrow> spin_word option" where
  "spin_run ob [] s = Some s"
| "spin_run ob (a # as') s = (case spin_step ob a s of None \<Rightarrow> None | Some s \<Rightarrow> spin_run ob as' s)"

end
