(* ===== verification/SpinWordInv.thy ===== *)
theory SpinWordInv
  imports SpinWord
begin

text \<open>
  At most one thread is in a section, and the operations on a word take effect one after another: each
  starts from the value that the one before it left. Only the user flags of an event are outside this promise.
\<close>

subsection \<open>Words\<close>

definition kept :: "spin_object \<Rightarrow> u32" where
  "kept ob = (case ob of Event_flags \<Rightarrow> NOT (efm_user OR efw_lock) | _ \<Rightarrow> NOT (lock_bit ob))"

lemma or_masked:
  fixes v :: "'w::len word"
  assumes "k AND l = 0"
  shows "(v OR l) AND k = v AND k"
  using assms by (metis and.commute bit.conj_disj_distrib2 or.right_neutral)

lemma user_masked:
  fixes v :: "'w::len word"
  assumes "u AND NOT m = 0" "m AND k = 0"
  shows "((v AND NOT m) OR u) AND k = v AND k"
proof -
  have u: "\<not> bit u n" if "\<not> bit m n" "n < LENGTH('w)" for n
    using assms(1) that by (metis bit_0_eq bit_and_iff bit_not_iff bot_apply bot_bool_def possible_bit_word)
  have m: "\<not> bit m n" if "bit k n" for n using assms(2) that by (metis bit_0_eq bit_and_iff bot_apply bot_bool_def)
  show ?thesis using u m by (intro bit_word_eqI) (auto simp: bit_simps)
qed

lemma lock_bit_facts: "lock_bit ob AND lock_bit ob \<noteq> 0" "kept ob AND lock_bit ob = 0"
  by (cases ob; simp add: kept_def bit_names)+

lemma even_words:
  "(v :: u32) AND 1 = 0 \<Longrightarrow> (v - 8) AND 1 = 0" "(v :: u32) AND 1 = 0 \<Longrightarrow> (v - 16) AND 1 = 0"
  "(v :: u32) AND 1 = 0 \<Longrightarrow> (v + 16) AND 1 = 0"
  by (simp_all add: and_one_eq mod2_eq_if split: if_splits)

lemma and_parts:
  fixes v :: "'w::len word"
  assumes "v AND (a OR b) = 0"
  shows "v AND a = 0"
  using assms by (simp add: bit.conj_disj_distrib or_eq_0_iff)

lemma exchange_enters:
  assumes "attempt_of c v = Exchange e n True"
  shows "e AND lock_bit (call_object c) = 0" "n = e OR lock_bit (call_object c)"
  using assms by (cases c; auto split: if_splits; fail)+

lemma exchange_whole:
  assumes "attempt_of c v = Exchange e n False" "call_allowed c"
  shows "n AND lock_bit (call_object c) = e AND lock_bit (call_object c)"
    "e AND lock_bit (call_object c) = 0 \<or> n AND kept (call_object c) = e AND kept (call_object c)"
proof -
  have b: "n AND lock_bit (call_object c) = e AND lock_bit (call_object c)
      \<and> (e AND lock_bit (call_object c) = 0 \<or> n AND kept (call_object c) = e AND kept (call_object c))"
  proof (cases c)
    case (Event_set_user u)
    then have "u AND NOT efm_user = 0" "n = (e AND NOT efm_user) OR u" using assms by auto
    then show ?thesis using Event_set_user user_masked [of u efm_user efw_lock e] user_masked [of u efm_user "kept Event_flags" e]
      by (simp add: kept_def bit_names)
  next
    case Unlock_fast
    then show ?thesis using assms even_words(1) [of v] and_parts [of v mf_latch mfm_next]
      by (auto simp: mf_latch_def mf_lock_excl_def split: if_splits)
  next
    case Try_lock_shared
    then show ?thesis using assms even_words(3) [of v] and_parts [of v mf_latch "mfm_next OR mf_lock_excl"]
      by (auto simp: mf_latch_def mf_lock_shared_def or.assoc split: if_splits)
  next
    case Unlock_shared_fast
    then show ?thesis using assms even_words(2) [of v] and_parts [of v mf_latch mf_next_shared]
      by (auto simp: mf_latch_def mf_lock_shared_def split: if_splits)
  qed (use assms in \<open>auto simp: bit_names split: if_splits\<close>)
  show "n AND lock_bit (call_object c) = e AND lock_bit (call_object c)" using b ..
  show "e AND lock_bit (call_object c) = 0 \<or> n AND kept (call_object c) = e AND kept (call_object c)" using b by blast
qed

subsection \<open>One operation after another\<close>

text \<open>Each operation of the log finds the bits \<open>m\<close> as the one before it left them.\<close>

fun serial :: "u32 \<Rightarrow> u32 \<Rightarrow> (u32 \<times> u32) list \<Rightarrow> bool" where
  "serial m w [] = True"
| "serial m w ((f, g) # xs) = (f AND m = w AND m \<and> serial m g xs)"

definition left_value :: "u32 \<Rightarrow> (u32 \<times> u32) list \<Rightarrow> u32" where
  "left_value w xs = (if xs = [] then w else snd (last xs))"

lemma serial_append:
  "serial m w (xs @ [(f, g)]) \<longleftrightarrow> serial m w xs \<and> f AND m = left_value w xs AND m"
  by (induction m w xs rule: serial.induct) (auto simp: left_value_def)

lemma left_value_append [simp]: "left_value w (xs @ [(f, g)]) = g"
  by (simp add: left_value_def)

text \<open>Where a thread that is called or has loaded stands.\<close>

fun point_call :: "thread_point \<Rightarrow> spin_call option" where
  "point_call (Called c) = Some c"
| "point_call (Loaded c v) = Some c"
| "point_call _ = None"

definition nobody_inside :: "spin_word \<Rightarrow> bool" where
  "nobody_inside s \<longleftrightarrow> (\<forall>t f. sw_threads s t \<noteq> Inside f)"

definition spin_inv :: "spin_object \<Rightarrow> u32 \<Rightarrow> spin_word \<Rightarrow> bool" where
  "spin_inv ob w s \<longleftrightarrow>
     (\<forall>t c. point_call (sw_threads s t) = Some c \<longrightarrow> call_object c = ob \<and> call_allowed c)
     \<and> (\<forall>t u f g. sw_threads s t = Inside f \<longrightarrow> sw_threads s u = Inside g \<longrightarrow> t = u)
     \<and> (\<forall>t f. sw_threads s t = Inside f \<longrightarrow> sw_word s AND lock_bit ob \<noteq> 0 \<and> f AND kept ob = sw_word s AND kept ob)
     \<and> (nobody_inside s \<longrightarrow> sw_word s AND lock_bit ob = 0)
     \<and> sw_word s AND kept ob = left_value w (sw_log s) AND kept ob
     \<and> serial (kept ob) w (sw_log s) \<and> sw_word s \<in> sw_seen s"

lemma spin_start_inv:
  assumes "w AND lock_bit ob = 0"
  shows "spin_inv ob w (spin_start w)"
  using assms by (simp add: spin_inv_def spin_start_def left_value_def nobody_inside_def)

lemma set_thread_simps [simp]:
  "sw_word (set_thread t p s) = sw_word s" "sw_seen (set_thread t p s) = sw_seen s" "sw_log (set_thread t p s) = sw_log s"
  "sw_threads (set_thread t p s) = (sw_threads s)(t := p)"
  by (simp_all add: set_thread_def)

lemma set_word_simps [simp]:
  "sw_word (set_word w s) = w" "sw_seen (set_word w s) = insert w (sw_seen s)" "sw_log (set_word w s) = sw_log s"
  "sw_threads (set_word w s) = sw_threads s"
  by (simp_all add: set_word_def)

text \<open>A thread outside the section goes to another point outside it.\<close>

lemma move_inv:
  assumes "spin_inv ob w s" "\<forall>f. sw_threads s t \<noteq> Inside f" "\<forall>f. p \<noteq> Inside f"
    and "\<forall>c. point_call p = Some c \<longrightarrow> call_object c = ob \<and> call_allowed c"
  shows "spin_inv ob w (set_thread t p s)"
proof -
  have "nobody_inside (set_thread t p s) \<longleftrightarrow> nobody_inside s"
    using assms(2,3) by (auto simp: nobody_inside_def)
  moreover have "(if u = t then p else sw_threads s u) = Inside f \<longleftrightarrow> sw_threads s u = Inside f" for u f
    using assms(2,3) by auto
  ultimately show ?thesis using assms(1,4) by (auto simp: spin_inv_def)
qed

lemma enter_inv:
  assumes "spin_inv ob w s" "\<forall>f. sw_threads s t \<noteq> Inside f" "sw_word s AND lock_bit ob = 0"
  shows "spin_inv ob w (set_thread t (Inside (sw_word s)) (set_word (sw_word s OR lock_bit ob) s))"
proof -
  have free: "\<forall>u f. sw_threads s u \<noteq> Inside f" using assms(1,3) by (auto simp: spin_inv_def)
  have "(sw_word s OR lock_bit ob) AND kept ob = sw_word s AND kept ob"
    by (rule or_masked) (rule lock_bit_facts)
  moreover have "(sw_word s OR lock_bit ob) AND lock_bit ob \<noteq> 0"
    using lock_bit_facts(1) [of ob] by (simp add: bit.conj_disj_distrib2 or_eq_0_iff)
  ultimately show ?thesis using assms(1) free by (auto simp: spin_inv_def nobody_inside_def)
qed

lemma whole_inv:
  assumes "spin_inv ob w s" "\<forall>f. sw_threads s t \<noteq> Inside f" "n AND lock_bit ob = sw_word s AND lock_bit ob"
    and "sw_word s AND lock_bit ob = 0 \<or> n AND kept ob = sw_word s AND kept ob"
  shows "spin_inv ob w (set_thread t Outside (set_word n (s\<lparr>sw_log := sw_log s @ [(sw_word s, n)]\<rparr>)))"
proof -
  let ?s' = "set_thread t Outside (set_word n (s\<lparr>sw_log := sw_log s @ [(sw_word s, n)]\<rparr>))"
  have same: "sw_threads ?s' u = Inside f \<longleftrightarrow> sw_threads s u = Inside f" for u f using assms(2) by auto
  then have nobody: "nobody_inside ?s' \<longleftrightarrow> nobody_inside s" by (simp add: nobody_inside_def)
  have inside: "n AND kept ob = sw_word s AND kept ob" if "sw_threads s u = Inside f" for u f
    using assms(1,4) that by (auto simp: spin_inv_def)
  have c: "point_call (sw_threads ?s' u) = Some c \<Longrightarrow> call_object c = ob \<and> call_allowed c" for u c
    using assms(1) by (auto simp: spin_inv_def split: if_splits)
  have i: "sw_word ?s' AND lock_bit ob \<noteq> 0 \<and> f AND kept ob = sw_word ?s' AND kept ob" if "sw_threads ?s' u = Inside f" for u f
    using that inside [of u f] assms(1,3) same [of u f] by (auto simp: spin_inv_def)
  show ?thesis using assms(1,3) same nobody c i
    unfolding spin_inv_def by (simp add: serial_append del: fun_upd_apply)
qed

lemma store_inv:
  assumes "spin_inv ob w s" "sw_threads s t = Inside f" "g AND lock_bit ob = 0"
  shows "spin_inv ob w (set_thread t Outside (set_word g (s\<lparr>sw_log := sw_log s @ [(f, g)]\<rparr>)))"
proof -
  have alone: "\<And>u h. sw_threads s u = Inside h \<Longrightarrow> u = t" using assms(1,2) by (auto simp: spin_inv_def)
  then have none: "u \<noteq> t \<Longrightarrow> sw_threads s u \<noteq> Inside h" for u h by blast
  have "f AND kept ob = left_value w (sw_log s) AND kept ob" using assms(1,2) by (auto simp: spin_inv_def)
  then show ?thesis using assms(1,3) none by (auto simp: spin_inv_def serial_append)
qed

lemma test_inv:
  assumes "spin_inv ob w s" "\<forall>f. sw_threads s t \<noteq> Inside f" "call_object c = ob" "call_allowed c"
    and "spin_test t spurious c v s = Some s'"
  shows "spin_inv ob w s'"
proof (cases "attempt_of c v")
  case (Go_on c')
  then have "c' = Latch" "ob = Mutex_latch" using assms(3) by (cases c; auto split: if_splits)+
  then show ?thesis using assms(5) Go_on move_inv [OF assms(1,2)] by (auto simp: spin_test_def)
next
  case (Exchange e n enters)
  have after: "\<And>c'. failed_exchange c = Some c' \<Longrightarrow> call_object c' = ob \<and> call_allowed c'"
    using assms(3,4) by (cases c) auto
  show ?thesis
  proof (cases "sw_word s \<noteq> e \<or> spurious \<and> weak_call c")
    case True
    then have s': "s' = set_thread t (case failed_exchange c of None \<Rightarrow> Outside | Some c' \<Rightarrow> Called c') s"
      using assms(5) Exchange by (simp add: spin_test_def)
    show ?thesis unfolding s' by (rule move_inv [OF assms(1,2)]) (use after in \<open>auto split: option.splits\<close>)
  next
    case False
    then have e: "sw_word s = e" "\<not> spurious" using assms(5) Exchange by (auto simp: spin_test_def split: if_splits)
    show ?thesis
    proof (cases enters)
      case True
      then have s': "s' = set_thread t (Inside e) (set_word n s)" using assms(5) Exchange e by (simp add: spin_test_def)
      have "e AND lock_bit ob = 0" "n = e OR lock_bit ob" using exchange_enters [of c v e n] Exchange True assms(3) by simp_all
      then show ?thesis using enter_inv [OF assms(1,2)] e(1) s' by simp
    next
      case no: False
      then have s': "s' = set_thread t Outside (set_word n (s\<lparr>sw_log := sw_log s @ [(e, n)]\<rparr>))"
        using assms(5) Exchange e by (simp add: spin_test_def)
      have "attempt_of c v = Exchange e n False" using Exchange no by simp
      note x = exchange_whole [OF this assms(4), unfolded assms(3)]
      show ?thesis using whole_inv [OF assms(1,2), of n] x s' e(1) by simp
    qed
  qed
qed (use assms(3-5) move_inv [OF assms(1,2)] in \<open>auto simp: spin_test_def\<close>)

lemma inv_call: "spin_inv ob w s \<Longrightarrow> point_call (sw_threads s t) = Some c \<Longrightarrow> call_object c = ob \<and> call_allowed c"
  by (simp add: spin_inv_def)

lemma spin_step_inv:
  assumes "spin_inv ob w s" "spin_step ob a s = Some s'"
  shows "spin_inv ob w s'"
proof (cases a)
  case (Call t c)
  then show ?thesis using assms(2) move_inv [OF assms(1), of t "Called c"] by (auto simp: spin_step_def split: if_splits)
next
  case (Load t v)
  then obtain c where c: "sw_threads s t = Called c" "s' = set_thread t (Loaded c v) s"
    using assms(2) by (auto simp: spin_step_def split: thread_point.splits if_splits)
  then have "call_object c = ob \<and> call_allowed c" using inv_call [OF assms(1), of t] by simp
  then show ?thesis using move_inv [OF assms(1), of t "Loaded c v"] c by simp
next
  case (Test t spurious)
  then obtain c v where c: "point_call (sw_threads s t) = Some c" "spin_test t spurious c v s = Some s'"
    using assms(2) by (auto simp: spin_step_def split: thread_point.splits if_splits)
  then have "\<forall>f. sw_threads s t \<noteq> Inside f" "call_object c = ob" "call_allowed c"
    using inv_call [OF assms(1) c(1)] by auto
  then show ?thesis using test_inv [OF assms(1)] c(2) by blast
next
  case (Store t g)
  then show ?thesis using assms(2) store_inv [OF assms(1)] by (auto simp: spin_step_def split: thread_point.splits if_splits)
qed

lemma spin_run_inv: "spin_run ob acts s = Some s' \<Longrightarrow> spin_inv ob w s \<Longrightarrow> spin_inv ob w s'"
  by (induction acts arbitrary: s) (auto split: option.splits dest: spin_step_inv)


text \<open>Two threads on the flags of an event: the second waits while the first adds a listener.\<close>

definition sample_sections :: "spin_step list" where
  "sample_sections = [Call 1 Event_lock, Call 2 Event_untriggered_lock, Load 1 4, Load 2 4, Test 1 False, Test 2 False,
     Load 2 6, Test 2 False, Store 1 0, Load 2 0, Test 2 False]"

lemma sample_sections_run:
  "\<exists>s. spin_run Event_flags sample_sections (spin_start 4) = Some s \<and> sw_threads s 2 = Inside 0 \<and> sw_log s = [(4, 0)] \<and> sw_word s = 2"
  by (simp add: sample_sections_def spin_step_def spin_test_def spin_start_def bit_names set_thread_def set_word_def)


subsection \<open>No lock stays closed\<close>

text \<open>
  With nobody inside, a thread that is in a call and reads the current value gets in, or its call
  is done, in at most two attempts: the second is that of \<^verbatim>\<open>unlock\<close> at the latch.
\<close>

definition settled :: "thread_point \<Rightarrow> bool" where
  "settled p \<longleftrightarrow> point_call p = None"

lemma one_attempt:
  assumes "spin_inv ob w s" "nobody_inside s" "sw_threads s t = Called c"
  shows "\<exists>acts s'. length acts \<le> 2 \<and> spin_run ob acts s = Some s'
    \<and> (settled (sw_threads s' t) \<or> c \<noteq> Latch \<and> sw_threads s' t = Called Latch \<and> nobody_inside s')"
proof -
  have free: "sw_word s AND lock_bit (call_object c) = 0" and seen: "sw_word s \<in> sw_seen s"
    using assms inv_call [OF assms(1), of t c] by (auto simp: spin_inv_def)
  have same: "e = sw_word s" if "attempt_of c (sw_word s) = Exchange e n b" "c \<noteq> Try_lock" for e n b
    using that by (cases c) (auto split: if_splits)
  have latch: "c' = Latch \<and> c \<noteq> Latch" if "attempt_of c (sw_word s) = Go_on c'" for c'
    using that by (cases c) (auto split: if_splits)
  have once: "attempt_of c (sw_word s) \<noteq> Spin_again" using free by (cases c) auto
  obtain s0 where s0: "spin_run ob (if direct_call c then [] else [Load t (sw_word s)]) s = Some s0"
      "sw_word s0 = sw_word s" "nobody_inside s0"
      "sw_threads s0 t = (if direct_call c then Called c else Loaded c (sw_word s))"
    using assms(2,3) seen by (cases "direct_call c") (auto simp: spin_step_def nobody_inside_def)
  have "\<exists>s1. spin_test t False c (sw_word s) s0 = Some s1
      \<and> (settled (sw_threads s1 t) \<or> c \<noteq> Latch \<and> sw_threads s1 t = Called Latch \<and> nobody_inside s1)"
  proof (cases "attempt_of c (sw_word s)")
    case (Exchange e n b)
    show ?thesis
    proof (cases "c = Try_lock")
      case True
      then show ?thesis by (simp add: spin_test_def settled_def)
    next
      case False
      then show ?thesis using same [OF Exchange] Exchange s0(2) by (cases b) (simp_all add: spin_test_def settled_def)
    qed
  qed (use latch once s0(3) in \<open>auto simp: spin_test_def settled_def nobody_inside_def\<close>)
  then obtain s1 where s1: "spin_test t False c (sw_word s) s0 = Some s1"
      "settled (sw_threads s1 t) \<or> c \<noteq> Latch \<and> sw_threads s1 t = Called Latch \<and> nobody_inside s1" by blast
  have "spin_step ob (Test t False) s0 = Some s1" using s1(1) s0(2,4) by (auto simp: spin_step_def)
  then have "spin_run ob ((if direct_call c then [] else [Load t (sw_word s)]) @ [Test t False]) s = Some s1"
    using s0(1) by (cases "direct_call c") (auto split: option.splits)
  moreover have "length ((if direct_call c then [] else [Load t (sw_word s)]) @ [Test t False]) \<le> 2" by simp
  ultimately show ?thesis using s1(2) by blast
qed

lemma spin_run_append: "spin_run ob (as @ bs) s = (case spin_run ob as s of None \<Rightarrow> None | Some s \<Rightarrow> spin_run ob bs s)"
  by (induction "as" arbitrary: s) (auto split: option.splits)

lemma spin_not_stuck:
  assumes "spin_run ob acts (spin_start w) = Some s" "w AND lock_bit ob = 0" "nobody_inside s" "sw_threads s t = Called c"
  shows "\<exists>more s'. length more \<le> 4 \<and> spin_run ob more s = Some s' \<and> settled (sw_threads s' t)"
proof -
  have inv: "spin_inv ob w s" using spin_run_inv [OF assms(1) spin_start_inv [OF assms(2)]] .
  obtain m1 s1 where s1: "length m1 \<le> 2" "spin_run ob m1 s = Some s1"
      "settled (sw_threads s1 t) \<or> sw_threads s1 t = Called Latch \<and> nobody_inside s1"
    using one_attempt [OF inv assms(3,4)] by blast
  show ?thesis
  proof (cases "settled (sw_threads s1 t)")
    case True
    then show ?thesis using s1(1,2) by (intro exI [of _ m1] exI [of _ s1]) simp
  next
    case False
    then have c: "sw_threads s1 t = Called Latch" "nobody_inside s1" using s1(3) by simp_all
    obtain m2 s2 where "length m2 \<le> 2" "spin_run ob m2 s1 = Some s2" "settled (sw_threads s2 t)"
      using one_attempt [OF spin_run_inv [OF s1(2) inv] c(2,1)] by blast
    then have "length (m1 @ m2) \<le> 4 \<and> spin_run ob (m1 @ m2) s = Some s2 \<and> settled (sw_threads s2 t)"
      using s1(1,2) by (simp add: spin_run_append)
    then show ?thesis by blast
  qed
qed

subsection \<open>User flags that are lost\<close>

text \<open>
  \<^verbatim>\<open>set_user_flags\<close> does not wait for the lock bit, and \<^verbatim>\<open>unlock\<close> stores the flags that \<^verbatim>\<open>lock\<close> returned:
  user flags that are set in between are gone.
\<close>

lemma user_flags_lost:
  "\<exists>s. spin_run Event_flags [Call 1 Event_lock, Load 1 4, Test 1 False,
       Call 2 (Event_set_user 64), Load 2 6, Test 2 False, Store 1 0] (spin_start 4) = Some s
     \<and> sw_log s = [(6, 70), (4, 0)] \<and> sw_word s AND efm_user = 0"
  by (simp add: spin_step_def spin_test_def spin_start_def bit_names set_thread_def set_word_def)

end
