(* ===== verification/Backends.thy ===== *)
theory Backends
  imports DriverInv
begin

text \<open>
  The other kernel notifiers of \<^verbatim>\<open>cotamer/io.cc\<close> and \<^verbatim>\<open>io.hh\<close>: the branches for kqueue, and those that fall back on
  \<^verbatim>\<open>poll\<close>. They share the driver, the sets of watches and the packed masks with epoll.

  A kqueue holds filters per descriptor. Changes to them are collected in a batch, with room for
  256, and handed to \<^verbatim>\<open>kevent\<close> together; \<open>kb_calls\<close> has the changes of each call. \<^verbatim>\<open>poll\<close>
  gets the whole array of descriptors in each call.
\<close>

subsection \<open>kqueue\<close>

datatype kq_filter = EVFILT_READ | EVFILT_WRITE | EVFILT_USER

record kq_change =
  kc_ident :: int
  kc_filter :: kq_filter
  kc_add :: bool
  kc_udata :: u32

record kq_event =
  ke_ident :: int
  ke_filter :: kq_filter
  ke_eof :: bool
  ke_udata :: u32

record kq_batch =
  kb_changes :: "kq_change list"
  kb_calls :: "kq_change list list"

definition kq_capacity :: nat where "kq_capacity = 256"

definition kq_clear :: "kq_batch \<Rightarrow> kq_batch" where
  "kq_clear b =
     (if kb_changes b \<noteq> [] then \<lparr>kb_changes = [], kb_calls = kb_calls b @ [kb_changes b]\<rparr> else b)"

definition kq_make_room :: "kq_batch \<Rightarrow> kq_batch" where
  "kq_make_room b = (if length (kb_changes b) = kq_capacity then kq_clear b else b)"

definition kq_push :: "kq_change \<Rightarrow> kq_batch \<Rightarrow> kq_batch" where
  "kq_push c b = b\<lparr>kb_changes := kb_changes b @ [c]\<rparr>"

definition kq_add :: "fd_update \<Rightarrow> fdmask \<Rightarrow> kq_batch \<Rightarrow> kq_batch" where
  "kq_add fdu old_mask b =
     (let b = kq_make_room b;
          oldr = (old_mask AND 5 \<noteq> 0); newr = (fu_mask fdu AND 5 \<noteq> 0);
          b = (if oldr \<noteq> newr
               then kq_push \<lparr>kc_ident = fu_fd fdu, kc_filter = EVFILT_READ, kc_add = newr, kc_udata = fu_epoch fdu\<rparr> b
               else b);
          oldw = (old_mask AND 6 \<noteq> 0); neww = (fu_mask fdu AND 6 \<noteq> 0)
      in if oldw = neww then b
         else kq_push \<lparr>kc_ident = fu_fd fdu, kc_filter = EVFILT_WRITE, kc_add = neww, kc_udata = fu_epoch fdu\<rparr>
                (kq_make_room b))"

definition kq_mask_in :: "kq_event \<Rightarrow> fdmask" where
  "kq_mask_in e =
     (if ke_filter e = EVFILT_READ then 1 else 0) OR
     (if ke_filter e = EVFILT_WRITE then 2 else 0) OR
     (if ke_eof e then 7 else 0)"

fun kq_pop :: "kq_event list \<Rightarrow> (fd_update \<times> kq_event list) option" where
  "kq_pop [] = None"
| "kq_pop (e # rdy) =
     (if kq_mask_in e \<noteq> 0
      then Some (\<lparr>fu_fd = ke_ident e, fu_mask = kq_mask_in e, fu_epoch = ke_udata e\<rparr>, rdy)
      else kq_pop rdy)"

definition kq_apply_fd_update :: "did \<Rightarrow> fd_update \<Rightarrow> kq_batch \<times> sys \<Rightarrow> kq_batch \<times> sys" where
  "kq_apply_fd_update d fdu = (\<lambda>(b, s).
     (let u = ufd_of (fu_fd fdu);
          s = upd_drv d (\<lambda>dr. dr\<lparr>fdctl := fdctl_resize (u div 16) (fdctl dr)\<rparr>) s;
          old_mask = fdctl_mask (fdctl (sy_drv s d)) u
      in if old_mask = fu_mask fdu then (b, s)
         else (kq_add fdu old_mask b,
               upd_drv d (\<lambda>dr. dr\<lparr>fdctl := fdctl_set u old_mask (fu_mask fdu) (fdctl dr),
                  nfdctl := (if old_mask = 0 then nfdctl dr + 1
                             else if fu_mask fdu = 0 then nfdctl dr - 1 else nfdctl dr)\<rparr>) s)))"

text \<open>\<^verbatim>\<open>notify_close\<close> has a batch of its own, which it hands over at once.\<close>

definition kq_notify_close :: "did \<Rightarrow> int \<Rightarrow> kq_change list list \<times> sys \<Rightarrow> kq_change list list \<times> sys" where
  "kq_notify_close d base_fd = (\<lambda>(calls, s).
     (case fd_close base_fd (sy_io s) (fds (sy_drv s d)) of
        (None, _, _) \<Rightarrow> (calls, s)
      | (Some (body, ep), io, fs) \<Rightarrow>
          let s = upd_drv d (\<lambda>dr. dr\<lparr>fds := fs\<rparr>) (s\<lparr>sy_io := io\<rparr>);
              (b, s) = kq_apply_fd_update d \<lparr>fu_fd = base_fd, fu_mask = 0, fu_epoch = ep\<rparr>
                         (\<lparr>kb_changes = [], kb_calls = calls\<rparr>, s)
          in (kb_calls (kq_clear b), s\<lparr>sy_io := fd_remove_listener body d (sy_io s)\<rparr>)))"

partial_function (option) kq_apply_updates :: "did \<Rightarrow> kq_batch \<times> sys \<Rightarrow> (kq_batch \<times> sys) option" where
  "kq_apply_updates d bs =
     (case pop_update (sy_world (snd bs)) (fds (sy_drv (snd bs) d)) of
        (None, _) \<Rightarrow> Some bs
      | (Some fdu, fs) \<Rightarrow>
          kq_apply_updates d (kq_apply_fd_update d fdu (fst bs, upd_drv d (\<lambda>dr. dr\<lparr>fds := fs\<rparr>) (snd bs))))"

text \<open>
  \<^verbatim>\<open>watch_fds\<close>: one call of \<^verbatim>\<open>kevent\<close> hands over the changes and waits. What it returns is a function of
  the time-out, the changes and the state; \<open>Inl True\<close> is a call interrupted by a signal.
\<close>

partial_function (option) kq_run_batch :: "env \<Rightarrow> did \<Rightarrow> kq_event list \<Rightarrow> sys \<Rightarrow> sys option" where
  "kq_run_batch env d rdy s =
     (case kq_pop rdy of
        None \<Rightarrow> Some s
      | Some (fdu, rdy) \<Rightarrow>
          (case take_watch_list (fu_fd fdu) (fu_mask fdu) (fu_epoch fdu) (sy_world s) (fds (sy_drv s d)) of
             (wix, fs) \<Rightarrow>
               (case run_watch_list env True d (fu_mask fdu) wix (upd_drv d (\<lambda>dr. dr\<lparr>fds := fs\<rparr>) s) of
                  None \<Rightarrow> None
                | Some s \<Rightarrow> kq_run_batch env d rdy s)))"

definition kq_watch_fds ::
  "env \<Rightarrow> (int \<times> int \<Rightarrow> kq_change list \<Rightarrow> sys \<Rightarrow> bool + kq_event list) \<Rightarrow> did \<Rightarrow> int
   \<Rightarrow> kq_batch \<times> sys \<Rightarrow> (bool \<times> kq_batch \<times> sys) option" where
  "kq_watch_fds env kevent d timeout = (\<lambda>(b, s).
     (let timeout = (if driver_nonempty d s then 0 else timeout);
          r = kevent (duration_timespec timeout) (kb_changes b) s;
          b = \<lparr>kb_changes = [], kb_calls = kb_calls b @ [kb_changes b]\<rparr>
      in case r of
           Inl eintr \<Rightarrow> if eintr then Some (False, b, s) else None
         | Inr rdy \<Rightarrow> (case kq_run_batch env d rdy s of None \<Rightarrow> None | Some s \<Rightarrow> Some (0 < length rdy, b, s))))"

subsection \<open>poll\<close>

definition POLLIN :: u32 where "POLLIN = 1"
definition POLLOUT :: u32 where "POLLOUT = 4"
definition POLLERR :: u32 where "POLLERR = 8"
definition POLLHUP :: u32 where "POLLHUP = 16"
definition POLLNVAL :: u32 where "POLLNVAL = 32"

definition poll_mask_out :: "fdmask \<Rightarrow> u32" where
  "poll_mask_out m = (if m AND 1 \<noteq> 0 then POLLIN else 0) OR (if m AND 2 \<noteq> 0 then POLLOUT else 0)"

definition poll_mask_in :: "u32 \<Rightarrow> fdmask" where
  "poll_mask_in ev =
     (if ev AND (POLLIN OR POLLERR OR POLLHUP OR POLLNVAL) \<noteq> 0 then 1 else 0) OR
     (if ev AND (POLLOUT OR POLLERR OR POLLHUP OR POLLNVAL) \<noteq> 0 then 2 else 0) OR
     (if ev AND (POLLERR OR POLLHUP OR POLLNVAL) \<noteq> 0 then 4 else 0)"

text \<open>The array that \<^verbatim>\<open>watch_fds\<close> builds: descriptor and requested conditions.\<close>

partial_function (option) poll_array :: "world \<Rightarrow> fdset \<Rightarrow> int \<Rightarrow> (int \<times> u32) list \<Rightarrow> (int \<times> u32) list option" where
  "poll_array w fs fd arr =
     (case next_known fd w fs of
        None \<Rightarrow> Some arr
      | Some fdu \<Rightarrow>
          poll_array w fs (fu_fd fdu)
            (if fu_mask fdu \<noteq> 0 then arr @ [(fu_fd fdu, poll_mask_out (fu_mask fdu))] else arr))"

declare poll_array.simps [code] kq_run_batch.simps [code] kq_apply_updates.simps [code]

text \<open>The array comes back with the conditions that hold; the epoch of each event is that of no use.\<close>

fun poll_pop :: "(int \<times> u32) list \<Rightarrow> (fd_update \<times> (int \<times> u32) list) option" where
  "poll_pop [] = None"
| "poll_pop ((fd, revents) # rdy) =
     (if poll_mask_in revents \<noteq> 0
      then Some (\<lparr>fu_fd = fd, fu_mask = poll_mask_in revents, fu_epoch = 0\<rparr>, rdy)
      else poll_pop rdy)"

partial_function (option) poll_run_batch :: "env \<Rightarrow> did \<Rightarrow> (int \<times> u32) list \<Rightarrow> sys \<Rightarrow> sys option" where
  "poll_run_batch env d rdy s =
     (case poll_pop rdy of
        None \<Rightarrow> Some s
      | Some (fdu, rdy) \<Rightarrow>
          (case take_watch_list (fu_fd fdu) (fu_mask fdu) (fu_epoch fdu) (sy_world s) (fds (sy_drv s d)) of
             (wix, fs) \<Rightarrow>
               (case run_watch_list env True d (fu_mask fdu) wix (upd_drv d (\<lambda>dr. dr\<lparr>fds := fs\<rparr>) s) of
                  None \<Rightarrow> None
                | Some s \<Rightarrow> poll_run_batch env d rdy s)))"

text \<open>\<^verbatim>\<open>poll\<close> returns the array with its last field filled in; an error leaves it as it was, with no conditions.\<close>

definition poll_watch_fds ::
  "env \<Rightarrow> (int \<Rightarrow> (int \<times> u32) list \<Rightarrow> sys \<Rightarrow> u32 list) \<Rightarrow> did \<Rightarrow> int \<Rightarrow> sys \<Rightarrow> (bool \<times> sys) option" where
  "poll_watch_fds env poll d timeout s =
     (case poll_array (sy_world s) (fds (sy_drv s d)) (- 1) [] of
        None \<Rightarrow> None
      | Some arr \<Rightarrow>
          let rdy = zip (map fst arr) (poll (duration_milliseconds timeout) arr s)
          in (case poll_run_batch env d rdy s of None \<Rightarrow> None | Some s \<Rightarrow> Some (0 < length arr, s)))"

subsection \<open>A kqueue mirrors the packed masks\<close>

text \<open>
  The filters of a kqueue after a change, as its manual has it: deleting a filter that is not there is
  an error. Adding one that is there would change it, and does not occur.
\<close>

definition kq_step :: "kq_change \<Rightarrow> (int \<times> kq_filter) set \<Rightarrow> (int \<times> kq_filter) set option" where
  "kq_step c k =
     (let x = (kc_ident c, kc_filter c)
      in if kc_add c then if x \<in> k then None else Some (insert x k)
         else if x \<in> k then Some (k - {x}) else None)"

definition kq_run :: "kq_change list \<Rightarrow> (int \<times> kq_filter) set option" where
  "kq_run cs = fold (\<lambda>c k. case k of None \<Rightarrow> None | Some k \<Rightarrow> kq_step c k) cs (Some {})"

lemma kq_run_snoc: "kq_run (cs @ [c]) = (case kq_run cs of None \<Rightarrow> None | Some k \<Rightarrow> kq_step c k)"
  by (simp add: kq_run_def)

text \<open>The filters that the masks of a driver stand for.\<close>

definition filters_of :: "(nat \<Rightarrow> bool) \<Rightarrow> (nat \<Rightarrow> bool) \<Rightarrow> (int \<times> kq_filter) set" where
  "filters_of r w = {(i, f). 0 \<le> i \<and> (f = EVFILT_READ \<and> r (nat i) \<or> f = EVFILT_WRITE \<and> w (nat i))}"

definition wanted_filters :: "(nat \<Rightarrow> fdmask) \<Rightarrow> (int \<times> kq_filter) set" where
  "wanted_filters m = filters_of (\<lambda>u. m u AND 5 \<noteq> 0) (\<lambda>u. m u AND 6 \<noteq> 0)"

lemma kq_step_filters:
  "r u \<noteq> on \<Longrightarrow> kq_step \<lparr>kc_ident = int u, kc_filter = EVFILT_READ, kc_add = on, kc_udata = e\<rparr> (filters_of r w)
     = Some (filters_of (r(u := on)) w)"
  "w u \<noteq> on \<Longrightarrow> kq_step \<lparr>kc_ident = int u, kc_filter = EVFILT_WRITE, kc_add = on, kc_udata = e\<rparr> (filters_of r w)
     = Some (filters_of r (w(u := on)))"
  by (auto simp: kq_step_def filters_of_def split: if_splits)

definition kq_all :: "kq_batch \<Rightarrow> kq_change list" where
  "kq_all b = concat (kb_calls b) @ kb_changes b"

definition kq_fits :: "kq_batch \<Rightarrow> bool" where
  "kq_fits b \<longleftrightarrow> length (kb_changes b) \<le> kq_capacity \<and> (\<forall>cs \<in> set (kb_calls b). length cs \<le> kq_capacity)"

lemma kq_make_room_ok:
  assumes "kq_fits b"
  shows "kq_fits (kq_make_room b)" "kq_all (kq_make_room b) = kq_all b" "length (kb_changes (kq_make_room b)) < kq_capacity"
  using assms by (auto simp: kq_make_room_def kq_clear_def kq_fits_def kq_all_def kq_capacity_def)

lemma kq_push_ok:
  assumes "kq_fits b" "length (kb_changes b) < kq_capacity"
  shows "kq_fits (kq_push c b)" "kq_all (kq_push c b) = kq_all b @ [c]"
  using assms by (simp_all add: kq_push_def kq_fits_def kq_all_def)

lemma kq_add_changes:
  assumes "kq_fits b"
  shows "kq_fits (kq_add fdu old b)"
    "kq_all (kq_add fdu old b) = kq_all b
       @ (if (old AND 5 \<noteq> 0) \<noteq> (fu_mask fdu AND 5 \<noteq> 0)
          then [\<lparr>kc_ident = fu_fd fdu, kc_filter = EVFILT_READ, kc_add = (fu_mask fdu AND 5 \<noteq> 0), kc_udata = fu_epoch fdu\<rparr>] else [])
       @ (if (old AND 6 \<noteq> 0) \<noteq> (fu_mask fdu AND 6 \<noteq> 0)
          then [\<lparr>kc_ident = fu_fd fdu, kc_filter = EVFILT_WRITE, kc_add = (fu_mask fdu AND 6 \<noteq> 0), kc_udata = fu_epoch fdu\<rparr>] else [])"
proof -
  let ?c1 = "\<lparr>kc_ident = fu_fd fdu, kc_filter = EVFILT_READ, kc_add = (fu_mask fdu AND 5 \<noteq> 0), kc_udata = fu_epoch fdu\<rparr>"
  let ?c2 = "\<lparr>kc_ident = fu_fd fdu, kc_filter = EVFILT_WRITE, kc_add = (fu_mask fdu AND 6 \<noteq> 0), kc_udata = fu_epoch fdu\<rparr>"
  let ?b1 = "if (old AND 5 \<noteq> 0) \<noteq> (fu_mask fdu AND 5 \<noteq> 0) then kq_push ?c1 (kq_make_room b) else kq_make_room b"
  have b1: "kq_fits ?b1" "kq_all ?b1 = kq_all b @ (if (old AND 5 \<noteq> 0) \<noteq> (fu_mask fdu AND 5 \<noteq> 0) then [?c1] else [])"
    using kq_make_room_ok [OF assms] kq_push_ok by simp_all
  have e: "kq_add fdu old b = (if (old AND 6 \<noteq> 0) = (fu_mask fdu AND 6 \<noteq> 0) then ?b1 else kq_push ?c2 (kq_make_room ?b1))"
    by (simp only: kq_add_def Let_def)
  note r = kq_make_room_ok [OF b1(1)]
  show "kq_fits (kq_add fdu old b)" using b1(1) kq_push_ok(1) [OF r(1,3)] by (simp only: e split: if_split) simp
  show "kq_all (kq_add fdu old b) = kq_all b
       @ (if (old AND 5 \<noteq> 0) \<noteq> (fu_mask fdu AND 5 \<noteq> 0) then [?c1] else [])
       @ (if (old AND 6 \<noteq> 0) \<noteq> (fu_mask fdu AND 6 \<noteq> 0) then [?c2] else [])"
  proof (cases "(old AND 6 \<noteq> 0) = (fu_mask fdu AND 6 \<noteq> 0)")
    case True
    then show ?thesis using b1(2) by (simp only: e if_True) simp
  next
    case False
    then show ?thesis using b1(2) kq_push_ok(2) [OF r(1,3), of ?c2] r(2) by (simp only: e if_False) simp
  qed
qed

text \<open>The changes for one descriptor take its filters from the old mask to the new one.\<close>

lemma kq_run_update:
  assumes "kq_run (kq_all b) = Some (wanted_filters m)" "kq_fits b" "fu_fd fdu = int u"
  shows "kq_run (kq_all (kq_add fdu (m u) b)) = Some (wanted_filters (m(u := fu_mask fdu)))"
proof -
  define r w where rw: "r = (\<lambda>u. m u AND 5 \<noteq> 0)" "w = (\<lambda>u. m u AND 6 \<noteq> 0)"
  let ?rn = "fu_mask fdu AND 5 \<noteq> 0" and ?wn = "fu_mask fdu AND 6 \<noteq> 0"
  let ?c1 = "\<lparr>kc_ident = int u, kc_filter = EVFILT_READ, kc_add = ?rn, kc_udata = fu_epoch fdu\<rparr>"
  let ?c2 = "\<lparr>kc_ident = int u, kc_filter = EVFILT_WRITE, kc_add = ?wn, kc_udata = fu_epoch fdu\<rparr>"
  let ?cs1 = "kq_all b @ (if r u \<noteq> ?rn then [?c1] else [])"
  have all: "kq_all (kq_add fdu (m u) b) = ?cs1 @ (if w u \<noteq> ?wn then [?c2] else [])"
    using kq_add_changes(2) [OF assms(2), of fdu "m u"] assms(3) by (simp add: rw)
  have start: "kq_run (kq_all b) = Some (filters_of r w)" using assms(1) by (simp add: wanted_filters_def rw)
  have same: "f u = on \<Longrightarrow> f(u := on) = f" for f :: "nat \<Rightarrow> bool" and on by auto
  have one: "kq_run ?cs1 = Some (filters_of (r(u := ?rn)) w)"
    using start kq_step_filters(1) [of r u ?rn] same [of r ?rn] by (cases "r u = ?rn") (simp_all add: kq_run_snoc)
  have two: "kq_run (?cs1 @ (if w u \<noteq> ?wn then [?c2] else [])) = Some (filters_of (r(u := ?rn)) (w(u := ?wn)))"
    using one kq_step_filters(2) [of w u ?wn] same [of w ?wn]
    by (cases "w u = ?wn") (simp_all only: kq_run_snoc if_True if_False append_Nil2 not_True_eq_False not_False_eq_True option.case simp_thms)
  have "filters_of (r(u := ?rn)) (w(u := ?wn)) = wanted_filters (m(u := fu_mask fdu))"
    unfolding wanted_filters_def rw by (rule arg_cong2 [where f = filters_of]) auto
  then show ?thesis using two all by simp
qed

definition kq_mirror :: "did \<Rightarrow> kq_batch \<times> sys \<Rightarrow> bool" where
  "kq_mirror d bs \<longleftrightarrow> kq_fits (fst bs)
     \<and> nfdctl (sy_drv (snd bs) d) = of_nat (card (registered (sy_drv (snd bs) d)))
     \<and> kq_run (kq_all (fst bs)) = Some (wanted_filters (fdctl_mask (fdctl (sy_drv (snd bs) d))))"

lemma kq_apply_mirror:
  assumes "kq_mirror d (b, s)" "0 \<le> fu_fd fdu" "fu_fd fdu < 2 ^ 31" "fu_mask fdu < 16"
  shows "kq_mirror d (kq_apply_fd_update d fdu (b, s)) \<and>
    fdctl_mask (fdctl (sy_drv (snd (kq_apply_fd_update d fdu (b, s))) d))
      = (fdctl_mask (fdctl (sy_drv s d)))(nat (fu_fd fdu) := fu_mask fdu)"
proof -
  define u where "u = nat (fu_fd fdu)"
  have u: "ufd_of (fu_fd fdu) = u" "fu_fd fdu = int u" using assms(2,3) by (auto simp: ufd_of_def u_def)
  define xs where "xs = fdctl_resize (u div 16) (fdctl (sy_drv s d))"
  define m where "m = fdctl_mask (fdctl (sy_drv s d))"
  have xs: "u div 16 < length xs" "fdctl_mask xs = m"
    by (auto simp: xs_def m_def fdctl_resize_def fun_eq_iff fdctl_mask_resize [unfolded fdctl_resize_def])
  have mi: "kq_fits b" "nfdctl (sy_drv s d) = of_nat (card (registered (sy_drv s d)))" "kq_run (kq_all b) = Some (wanted_filters m)"
    using assms(1) by (simp_all add: kq_mirror_def m_def)
  show ?thesis
  proof (cases "m u = fu_mask fdu")
    case True
    then have "kq_apply_fd_update d fdu (b, s) = (b, upd_drv d (\<lambda>dr. dr\<lparr>fdctl := xs\<rparr>) s)"
      by (simp add: kq_apply_fd_update_def Let_def u(1) upd_drv_def xs_def m_def)
    moreover have "m(u := fu_mask fdu) = m" using True by auto
    ultimately show ?thesis using mi xs True
      by (simp add: kq_mirror_def upd_drv_def registered_def u_def m_def)
  next
    case False
    define ys where "ys = fdctl_set u (m u) (fu_mask fdu) xs"
    let ?n = "if m u = 0 then nfdctl (sy_drv s d) + 1 else if fu_mask fdu = 0 then nfdctl (sy_drv s d) - 1 else nfdctl (sy_drv s d)"
    have ys: "fdctl_mask ys = m(u := fu_mask fdu)"
      unfolding ys_def using fdctl_mask_set [OF xs(1) _ assms(4), of "m u"] xs(2) by (auto simp: fun_eq_iff)
    let ?R = "registered (sy_drv s d)"
    obtain s' where s': "kq_apply_fd_update d fdu (b, s) = (kq_add fdu (m u) b, s')"
      "fdctl (sy_drv s' d) = ys" "nfdctl (sy_drv s' d) = ?n"
      using False by (simp add: kq_apply_fd_update_def Let_def u(1) upd_drv_def xs_def m_def ys_def)
    have R: "u \<in> ?R \<longleftrightarrow> m u \<noteq> 0" by (simp add: registered_def m_def)
    have R': "registered (sy_drv s' d) = (if fu_mask fdu = 0 then ?R - {u} else insert u ?R)"
      by (auto simp: registered_def s'(2) ys m_def)
    have "nfdctl (sy_drv s' d) = of_nat (card (registered (sy_drv s' d)))"
      using count_registered [OF finite_registered R False R'] s'(3) mi(2) by simp
    moreover have "kq_run (kq_all (kq_add fdu (m u) b)) = Some (wanted_filters (m(u := fu_mask fdu)))"
      by (rule kq_run_update [OF mi(3,1) u(2)])
    ultimately show ?thesis using s'(1,2) ys kq_add_changes(1) [OF mi(1)] by (simp add: kq_mirror_def u_def m_def)
  qed
qed

text \<open>
  C22: the kqueue mirrors the driver. Whatever updates are applied, the changes handed over and those in the
  batch never add a filter twice or delete one that is not there, no call has more than 256 of
  them, and together they leave the read filter of exactly the descriptors with a watch for reading or closing, and the write
  filter of those with one for writing or closing; \<open>nfdctl_\<close> counts the descriptors with a watch.
\<close>

theorem kq_backend_mirror:
  assumes "kq_mirror d bs"
    and "\<forall>fdu \<in> set us. 0 \<le> fu_fd fdu \<and> fu_fd fdu < 2 ^ 31 \<and> fu_mask fdu < 16"
  shows "kq_mirror d (fold (kq_apply_fd_update d) us bs) \<and>
    fdctl_mask (fdctl (sy_drv (snd (fold (kq_apply_fd_update d) us bs)) d))
      = fold (\<lambda>fdu m. m(nat (fu_fd fdu) := fu_mask fdu)) us (fdctl_mask (fdctl (sy_drv (snd bs) d)))"
  using assms
proof (induction us arbitrary: bs)
  case (Cons fdu us)
  obtain b s where bs: "bs = (b, s)" by fastforce
  have "kq_mirror d (kq_apply_fd_update d fdu bs) \<and>
      fdctl_mask (fdctl (sy_drv (snd (kq_apply_fd_update d fdu bs)) d))
        = (fdctl_mask (fdctl (sy_drv (snd bs) d)))(nat (fu_fd fdu) := fu_mask fdu)"
    using kq_apply_mirror [of d b s fdu] Cons(2,3) by (simp add: bs)
  then show ?case using Cons(1) [of "kq_apply_fd_update d fdu bs"] Cons(3) by simp
qed simp

text \<open>A watch for reading on descriptor 5, then for closing, then none.\<close>

lemma kq_backend_mirror_witness:
  "kq_run (kq_all (fst (fold (kq_apply_fd_update 0)
      [\<lparr>fu_fd = 5, fu_mask = 1, fu_epoch = 2\<rparr>, \<lparr>fu_fd = 7, fu_mask = 4, fu_epoch = 2\<rparr>, \<lparr>fu_fd = 5, fu_mask = 0, fu_epoch = 2\<rparr>]
      (\<lparr>kb_changes = [], kb_calls = []\<rparr>, demo_sys))))
    = Some {(7, EVFILT_READ), (7, EVFILT_WRITE)}"
proof -
  let ?us = "[\<lparr>fu_fd = 5, fu_mask = 1, fu_epoch = 2\<rparr>, \<lparr>fu_fd = 7, fu_mask = 4, fu_epoch = 2\<rparr>, \<lparr>fu_fd = 5, fu_mask = 0, fu_epoch = 2\<rparr>]"
  let ?bs = "(\<lparr>kb_changes = [], kb_calls = []\<rparr>, demo_sys)"
  have zero: "fdctl_mask (fdctl (sy_drv demo_sys 0)) = (\<lambda>_. 0)"
    by (simp add: demo_sys_def driver_new_def fdctl_mask_def fun_eq_iff)
  have "kq_mirror 0 ?bs"
    using zero by (simp add: kq_mirror_def kq_fits_def kq_all_def kq_run_def wanted_filters_def filters_of_def registered_def
        demo_sys_def driver_new_def)
  moreover have "\<forall>fdu \<in> set ?us. 0 \<le> fu_fd fdu \<and> fu_fd fdu < 2 ^ 31 \<and> fu_mask fdu < 16" by simp
  ultimately have r: "kq_mirror 0 (fold (kq_apply_fd_update 0) ?us ?bs) \<and>
      fdctl_mask (fdctl (sy_drv (snd (fold (kq_apply_fd_update 0) ?us ?bs)) 0))
        = fold (\<lambda>fdu m. m(nat (fu_fd fdu) := fu_mask fdu)) ?us (fdctl_mask (fdctl (sy_drv (snd ?bs) 0)))"
    by (rule kq_backend_mirror)
  have f: "wanted_filters ((\<lambda>_. 0)(7 := 4, 5 := 0)) = {(7, EVFILT_READ), (7, EVFILT_WRITE)}"
    by (auto simp: wanted_filters_def filters_of_def split: if_splits)
  show ?thesis using r by (simp add: kq_mirror_def zero f)
qed

subsection \<open>The array for poll\<close>

definition known_mask :: "world \<Rightarrow> fdset \<Rightarrow> nat \<Rightarrow> fdmask" where
  "known_mask w fs u = watch_list_mask w fs (fr_whead (fdrs fs ! u))"

lemma mask_of_no_list [simp]: "watch_list_mask w fs 0 = 0"
  by (cases "length (ws fs)") (simp_all add: watch_list_mask_def)

text \<open>What the loop adds from a descriptor on.\<close>

definition poll_entries :: "world \<Rightarrow> fdset \<Rightarrow> nat \<Rightarrow> (int \<times> u32) list" where
  "poll_entries w fs u =
     map (\<lambda>v. (int v, poll_mask_out (known_mask w fs v))) (filter (\<lambda>v. known_mask w fs v \<noteq> 0) [u..<length (fdrs fs)])"

lemma next_known_none:
  assumes "next_known_from k w fs u = None" "k = length (fdrs fs) - u"
  shows "poll_entries w fs u = []"
  using assms
proof (induction k arbitrary: u)
  case 0
  then show ?case by (simp add: poll_entries_def)
next
  case (Suc k)
  have k: "k = length (fdrs fs) - Suc u" and u: "u < length (fdrs fs)" using Suc(3) by simp_all
  have "next_known_from k w fs (Suc u) = None" using Suc(2) by (simp add: Let_def split: if_splits)
  from Suc(1) [OF this k] have rest: "poll_entries w fs (Suc u) = []" .
  have "fr_whead (fdrs fs ! u) = 0" using Suc(2) by (simp add: Let_def link_clean_def split: if_splits)
  then have "poll_entries w fs u = poll_entries w fs (Suc u)" using u by (simp add: poll_entries_def upt_rec [of u] known_mask_def)
  then show ?case using rest by simp
qed

lemma next_known_some:
  assumes "next_known_from k w fs u = Some fdu" "k = length (fdrs fs) - u"
  shows "\<exists>v. fu_fd fdu = int v \<and> u \<le> v \<and> v < length (fdrs fs) \<and> fu_mask fdu = known_mask w fs v
    \<and> poll_entries w fs u = (if fu_mask fdu \<noteq> 0 then [(int v, poll_mask_out (fu_mask fdu))] else []) @ poll_entries w fs (Suc v)"
  using assms
proof (induction k arbitrary: u)
  case (Suc k)
  have k: "k = length (fdrs fs) - Suc u" and u: "u < length (fdrs fs)" using Suc(3) by simp_all
  show ?case
  proof (cases "fr_whead (fdrs fs ! u) = link_clean")
    case True
    then have z: "known_mask w fs u = 0" by (simp add: known_mask_def link_clean_def)
    have same: "poll_entries w fs u = poll_entries w fs (Suc u)" using u z by (simp add: poll_entries_def upt_rec [of u])
    have "next_known_from k w fs (Suc u) = Some fdu" using Suc(2) True by (simp add: Let_def)
    from Suc(1) [OF this k] show ?thesis unfolding same by (meson Suc_leD)
  next
    case False
    then have "fdu = \<lparr>fu_fd = int u, fu_mask = known_mask w fs u, fu_epoch = fr_epoch (fdrs fs ! u)\<rparr>"
      using Suc(2) by (simp add: Let_def known_mask_def)
    then show ?thesis using u by (intro exI [of _ u]) (simp add: poll_entries_def upt_rec [of u])
  qed
qed simp

lemma poll_array_from:
  assumes "length (fdrs fs) < 2 ^ 31" "fd = int u - 1" "u \<le> length (fdrs fs)"
  shows "poll_array w fs fd arr = Some (arr @ poll_entries w fs u)"
  using assms(2,3)
proof (induction "length (fdrs fs) - u" arbitrary: u fd arr rule: less_induct)
  case less
  have ufd: "ufd_of (fd + 1) = u" using less(2,3) assms(1) by (simp add: ufd_of_def)
  show ?case
  proof (cases "next_known fd w fs")
    case None
    have "poll_entries w fs u = []"
    proof (cases "length (fdrs fs) \<le> u")
      case True
      then show ?thesis by (simp add: poll_entries_def)
    next
      case False
      then show ?thesis using None ufd next_known_none by (simp add: next_known_def Let_def)
    qed
    then show ?thesis using None by (subst poll_array.simps) simp
  next
    case (Some fdu)
    then have "next_known_from (length (fdrs fs) - u) w fs u = Some fdu"
      using ufd by (simp add: next_known_def Let_def split: if_splits)
    then obtain v where v: "fu_fd fdu = int v" "u \<le> v" "v < length (fdrs fs)"
        "poll_entries w fs u = (if fu_mask fdu \<noteq> 0 then [(int v, poll_mask_out (fu_mask fdu))] else []) @ poll_entries w fs (Suc v)"
      using next_known_some by blast
    have "poll_array w fs (fu_fd fdu) arr' = Some (arr' @ poll_entries w fs (Suc v))" for arr'
      by (rule less(1)) (use v(1-3) in auto)
    then show ?thesis using Some v(1,4) by (subst poll_array.simps) simp
  qed
qed

text \<open>The array has each descriptor with a watch once, with the conditions of its watches.\<close>

lemma poll_array_complete:
  assumes "length (fdrs fs) < 2 ^ 31"
  shows "\<exists>arr. poll_array w fs (- 1) [] = Some arr \<and> distinct (map fst arr)
    \<and> (\<forall>i ev. (i, ev) \<in> set arr \<longleftrightarrow>
         (\<exists>u < length (fdrs fs). i = int u \<and> known_mask w fs u \<noteq> 0 \<and> ev = poll_mask_out (known_mask w fs u)))"
proof -
  have "poll_array w fs (- 1) [] = Some (poll_entries w fs 0)" using poll_array_from [OF assms, of "- 1" 0 w "[]"] by simp
  moreover have "distinct (map fst (poll_entries w fs 0))" by (simp add: poll_entries_def comp_def distinct_map inj_on_def)
  ultimately show ?thesis by (intro exI [of _ "poll_entries w fs 0"]) (auto simp: poll_entries_def)
qed

subsection \<open>Waiting for a descriptor to close\<close>

text \<open>
  On a kqueue a watch for closing alone sets the read and the write filter. While the descriptor can be written,
  \<^verbatim>\<open>kevent\<close> reports the write filter, level-triggered, in every call; the report is not empty, so the
  driver takes it from the batch, but it is for writing only and matches no watch for closing.
\<close>

lemma close_watch_write_filter:
  "filters_of (\<lambda>u. u = v) (\<lambda>u. u = v) = wanted_filters (\<lambda>u. if u = v then 4 else 0)"
  "ke_filter e = EVFILT_WRITE \<Longrightarrow> \<not> ke_eof e \<Longrightarrow> kq_mask_in e = 2"
  "(2 :: fdmask) AND 4 = 0"
proof -
  show "filters_of (\<lambda>u. u = v) (\<lambda>u. u = v) = wanted_filters (\<lambda>u. if u = v then 4 else 0)"
    unfolding wanted_filters_def by (rule arg_cong2 [where f = filters_of]) auto
qed (simp_all add: kq_mask_in_def)

end
