(* ===== verification/Spec2Isabelle.thy ===== *)
theory Spec2Isabelle
  imports TimerHeap EventReach MutexInv FdInv DriverInv TaskInv HttpUrlInv HttpParserInv
    IoInv IoSockets ConsensusSpec MessageStreamInv CurlInv SmallVector UdpExamples RpcGameInv SpinWordInv Backends
begin

text \<open>
  \<^bold>\<open>Cotamer\<close> is a C++23 library of coroutines: one-shot events, tasks, races, mutexes, timers and
  descriptor readiness, driven by one event loop per thread, with asynchronous input and output and
  an HTTP message layer on top. This development models it from the sources under \<^verbatim>\<open>src/\<close> and proves
  what the parts promise each other and their users.

  \<^bold>\<open>The program and its theories.\<close> Every definition has the name of what it models, and each
  theory's opening text names its files.

  \<^item> \<open>Prelude\<close>: machine integers as words, the unordered removal \<^verbatim>\<open>remove_swap\<close>, the collections
    \<open>list_facts\<close> and \<open>word_facts\<close>, and the contract \<open>timed_queue\<close> of a priority queue.
  \<^item> \<open>CircularInt\<close> (\<^verbatim>\<open>circular_int.hh\<close>): wrapping numbers compared by the sign of their difference.
  \<^item> \<open>TimerHeap\<close> (\<^verbatim>\<open>timer_heap.hh\<close>): the 4-ary heap of timers. Its elements carry a wrapping
    insertion number, so that equal times leave in the order they came; \<open>cull\<close> drops timers whose
    event has gone. It interprets \<open>timed_queue\<close>.
  \<^item> \<open>Events\<close>, \<open>EventInv\<close>, \<open>EventRun\<close>, \<open>EventFrame\<close>, \<open>EventReach\<close> (\<^verbatim>\<open>cotamer_impl.hh\<close>,
    \<^verbatim>\<open>event_handle.hh\<close>): event bodies with reference counts, quorums (\<^verbatim>\<open>any\<close>, \<^verbatim>\<open>all\<close>), the trigger cascade
    and the awaiting of events, as operations on one store of bodies (\<open>world\<close>). \<open>EventInv\<close> is the
    invariant and its preservation by the cascade, \<open>EventRun\<close> by every public operation, \<open>EventReach\<close>
    closes it under reachability. \<open>EventFrame\<close> is the locale \<open>cascade_rel\<close>: a relation that holds of
    the elementary steps holds of a cascade; it has two instances.
  \<^item> \<open>Mutex\<close>, \<open>MutexInv\<close> (\<^verbatim>\<open>cotamer.hh\<close>, \<^verbatim>\<open>cotamer_impl.hh\<close>): the reader-writer mutex with its latch word,
    and \<^verbatim>\<open>unique_lock\<close>, \<^verbatim>\<open>shared_lock\<close>. The mutex sees events only through the locale \<open>marked_events\<close>.
  \<^item> \<open>FdSet\<close>, \<open>FdInv\<close> (\<^verbatim>\<open>event_handle.hh\<close>, \<^verbatim>\<open>io.cc\<close>): the body shared by \<^verbatim>\<open>fd\<close> objects and the watch lists of
    a driver, which are linked by indices in one array.
  \<^item> \<open>Driver\<close>, \<open>DriverInv\<close> (\<^verbatim>\<open>cotamer.cc\<close>, \<^verbatim>\<open>io.cc\<close>): clocks, queues, timers, epoll and the loop.
  \<^item> \<open>Tasks\<close>, \<open>TaskInv\<close> (\<^verbatim>\<open>cotamer_impl.hh\<close>): promises, awaiting and forwarding of tasks, resolution points,
    \<^verbatim>\<open>attempt\<close>, \<^verbatim>\<open>first\<close> and \<^verbatim>\<open>race\<close>.
  \<^item> \<open>HttpMessage\<close>, \<open>HttpHeaders\<close>, \<open>HttpStatus\<close>, \<open>HttpUrl\<close>, \<open>HttpUrlInv\<close> (\<^verbatim>\<open>http.hh\<close>, \<^verbatim>\<open>http.cc\<close>): messages,
    their header lists, the status table, the parts and parameters of URLs.
  \<^item> \<open>HttpParser\<close>, \<open>HttpParserInv\<close> (\<^verbatim>\<open>http.cc\<close>): the callbacks that llhttp makes, the receive loop, and the
    senders. The locale \<open>header_sink\<close> is what both the programmer's interface and the callbacks promise
    of a header list.
  \<^item> \<open>IoLoops\<close>, \<open>IoInv\<close>, \<open>IoSockets\<close> (\<^verbatim>\<open>io.hh\<close>, \<^verbatim>\<open>io.cc\<close>): loops over system calls with partial transfers, and the
    set-up of sockets.
  \<^item> \<open>CurlDriver\<close>, \<open>CurlInv\<close> (\<^verbatim>\<open>curl.cc\<close>): the callbacks that libcurl makes, the coroutines that watch its
    sockets and its timer, and the response.
  \<^item> \<open>MessageStream\<close>, \<open>MessageStreamInv\<close> (\<^verbatim>\<open>examples/message_stream.hh\<close>): framed messages over a byte
    stream, a client of events, mutexes and descriptors.
  \<^item> \<open>NetSim\<close>, \<open>Consensus\<close>, \<open>ConsensusLog\<close>, \<open>ConsensusInv\<close>, \<open>ConsensusSteps\<close>, \<open>ConsensusReach\<close>,
    \<open>ConsensusSpec\<close>     (\<^verbatim>\<open>examples/netsim.hh\<close>, \<^verbatim>\<open>examples/ctconsensus.cc\<close>): a simulated network and Chandra-Toueg consensus on
    it. \<open>ConsensusLog\<close> proves agreement from rules about the log of messages; the next three prove that
    the servers keep the rules, point by point; the last that the program refines a register written once.

  The driver fires events from its queues, timers and descriptors; an event resumes coroutines or
  counts towards quorums; tasks complete into events; mutexes queue events; everything above the
  driver waits by awaiting one of these.

  \<^bold>\<open>How the code is read.\<close> State is a record, passed explicitly; an operation is a function on it.
  Pointers to bodies are numbers into a store that keeps deleted bodies, with a flag that says so, which
  makes a use after free a property of states. A coroutine that suspends is cut there: either the model
  has the points as a datatype and a step function (consensus, message streams, the network), or a loop
  takes a list of the results that system calls give (\<open>IoLoops\<close>, the HTTP receive loop) and returns
  \<open>None\<close> when it is suspended with the list used up. Exceptions and error codes are values. Sizes are
  natural numbers where the code cannot overflow and words where it can: the timer heap's indices, the
  mutex latch, event flags, epochs, the length of a framed message.

  Operations on one object are atomic: the code holds a lock bit during each. Sequences of operations
  are arbitrary, so are the interleavings of steps in the state machines.

  \<^bold>\<open>Termination and bounds.\<close> Loops of the code that could run forever are \<open>partial_function\<close>s, and it is
  proved when they return: culling and draining the heap, resolution along finite forwarding chains, the
  resumption of the coroutines of an event, a driver with only spent queue entries, the growing of
  buffers. The trigger cascade, the dropping of handles and the interest of quorums recurse with a bound
  on their depth: a member of a quorum is an older body or no quorum itself, so a chain that starts at
  body \<open>e\<close> has at most \<open>e + 2\<close> bodies, and the bounds used are at least that. \<open>take_loop\<close> runs at most
  once for each record of the array, and lists do not repeat a record.

  \<^bold>\<open>What is proved.\<close> Events: a quorum fires exactly at its threshold; bodies are freed exactly when
  nothing refers to them; no wake-up is lost, with the one exception that is stated as a property of its
  own. Timers: order, and no timer lost. Mutex: exclusion, order, no lock idle while somebody waits.
  Descriptors: the index lists refine plain lists, the kernel's interest follows the lists, each descriptor
  is closed once. Tasks and races: who is woken and which argument wins. HTTP: header lists, URLs and
  parameters agree with reference functions on strings; a request survives sending and receiving in any
  fragments; the receive loop loses no byte. Input and output: each byte is sent once and in order; no
  descriptor leaks. Message streams: what is received is a prefix of what was sent, and nobody waits in
  vain. The curl driver: no callback destroys
  a coroutine that runs, and no change of a watch is missed. Consensus: servers that decide agree, in every interleaving and with every failure-detector
  behaviour, on a color that was proposed.

  \<^bold>\<open>Parameters.\<close> Code that is not under \<^verbatim>\<open>src/\<close> is an argument: the kernel (results of system calls, epoll's
  reports), the clocks, the resolver, llhttp (the sequence of callbacks for a text), libcurl (the callbacks of
  a call), the JSON printer.
  Bodies of coroutines are arguments of the operations that resume them.

  \<^bold>\<open>Not modelled.\<close> The poll and kqueue backends, which share the modelled sets and loop; the memory of
  \<^verbatim>\<open>small_vector.hh\<close>, which the model has as lists; interleavings inside an operation, between threads that
  spin on a lock bit; the options that \<^verbatim>\<open>curl_fetch\<close> hands to libcurl; printing, formatting, descriptions
  and the deprecated overloads; the example servers and their clients, which are glue around libraries
  (JSON, XXH3); option parsing and random numbers of the examples; tests and benchmarks.
\<close>

end
